(* ===== verification/Prelude.thy ===== *)
theory Prelude
  imports Main "HOL-Library.Word" "HOL-Library.AList" "HOL-Library.Char_ord" "HOL-Library.List_Lexorder"
begin

text \<open>
  What the component theories share: the machine types of the Go source, the two
  list operations the source writes as loops over slices (the index of the first
  match, and the removal of one position by \<^verbatim>\<open>copy\<close> and reslicing), decimal and
  hexadecimal renderings of the standard library, and the generic lemmas on lists,
  finite maps and 64-bit words that carry the component proofs.
\<close>

named_theorems go_word \<open>facts that move unsigned 64-bit arithmetic to natural numbers\<close>
named_theorems go_slice \<open>facts about the slice idioms of the source\<close>

section \<open>Machine types\<close>

type_synonym u8 = "8 word"
type_synonym u64 = "64 word"

text \<open>\<^verbatim>\<open>math.MaxUint64\<close>.\<close>

definition MaxUint64 :: u64 where
  "MaxUint64 = - 1"

text \<open>Signed arithmetic wraps around at 64 and at 32 bits.\<close>

definition wrap_int :: "int \<Rightarrow> int" where
  "wrap_int x = (x + 2 ^ 63) mod 2 ^ 64 - 2 ^ 63"

definition wrap_int32 :: "int \<Rightarrow> int" where
  "wrap_int32 x = (x + 2 ^ 31) mod 2 ^ 32 - 2 ^ 31"

section \<open>Slices\<close>

text \<open>The index of the first element a \<^verbatim>\<open>for i := range xs\<close> loop stops at.\<close>

fun find_index :: "('a \<Rightarrow> bool) \<Rightarrow> 'a list \<Rightarrow> nat option" where
  "find_index P [] = None"
| "find_index P (x # xs) = (if P x then Some 0 else map_option Suc (find_index P xs))"

text \<open>
  \<^verbatim>\<open>copy(xs[i:], xs[i+1:]); xs = xs[:len(xs)-1]\<close>: the slice without position \<^term>\<open>i\<close>.
\<close>

definition remove_at :: "nat \<Rightarrow> 'a list \<Rightarrow> 'a list" where
  "remove_at i xs = take i xs @ drop (Suc i) xs"

section \<open>Decimal and hexadecimal renderings\<close>

text \<open>\<^verbatim>\<open>strconv.FormatUint(n, 10)\<close>, the digits most significant first.\<close>

definition digit_char :: "nat \<Rightarrow> char" where
  "digit_char d = char_of (48 + d)"

fun FormatUint :: "nat \<Rightarrow> string" where
  "FormatUint n = (if n < 10 then [digit_char n] else FormatUint (n div 10) @ [digit_char (n mod 10)])"

declare FormatUint.simps [simp del]

text \<open>The value of a digit string, as the accumulation loop of \<^verbatim>\<open>strconv.ParseUint\<close> has it.\<close>

definition is_digit :: "char \<Rightarrow> bool" where
  "is_digit c \<longleftrightarrow> 48 \<le> (of_char c :: nat) \<and> (of_char c :: nat) \<le> 57"

definition digit_val :: "char \<Rightarrow> nat" where
  "digit_val c = (of_char c :: nat) - 48"

definition decimal_val :: "string \<Rightarrow> nat" where
  "decimal_val s = foldl (\<lambda>n c. 10 * n + digit_val c) 0 s"

text \<open>\<^verbatim>\<open>strconv.ParseUint(s, 10, 64)\<close> on a string; \<^const>\<open>None\<close> is its error.\<close>

definition ParseUint :: "string \<Rightarrow> u64 option" where
  "ParseUint s =
     (if s = [] \<or> \<not> list_all is_digit s then None
      else if decimal_val s < 2 ^ 64 then Some (of_nat (decimal_val s)) else None)"

section \<open>Lemmas on slices\<close>

lemma find_index_None [go_slice]: "find_index P xs = None \<longleftrightarrow> (\<forall>x \<in> set xs. \<not> P x)"
  by (induction xs) auto

lemma find_index_Some [go_slice]:
  "find_index P xs = Some i \<longleftrightarrow> i < length xs \<and> P (xs ! i) \<and> (\<forall>j < i. \<not> P (xs ! j))"
proof (induction xs arbitrary: i)
  case Nil
  then show ?case by simp
next
  case (Cons x xs)
  then show ?case by (cases i) (auto simp: nth_Cons split: nat.splits)
qed

lemma length_remove_at [simp]: "i < length xs \<Longrightarrow> length (remove_at i xs) = length xs - 1"
  by (simp add: remove_at_def)

lemma set_remove_at_subset: "set (remove_at i xs) \<subseteq> set xs"
  by (auto simp: remove_at_def dest: in_set_takeD in_set_dropD)

lemma remove_at_0 [simp]: "remove_at 0 (x # xs) = xs"
  by (simp add: remove_at_def)

lemma remove_at_Suc [simp]: "remove_at (Suc i) (x # xs) = x # remove_at i xs"
  by (simp add: remove_at_def)

lemma map_remove_at: "map f (remove_at i xs) = remove_at i (map f xs)"
  by (simp add: remove_at_def take_map drop_map)

lemma remove_at_append [go_slice]:
  "i < length xs \<Longrightarrow> remove_at i (xs @ ys) = remove_at i xs @ ys"
  by (simp add: remove_at_def)

lemma remove_at_length [go_slice]: "remove_at (length xs) (xs @ y # ys) = xs @ ys"
  by (simp add: remove_at_def)

lemma mset_remove_at: "i < length xs \<Longrightarrow> xs = take i xs @ xs ! i # drop (Suc i) xs"
  by (rule id_take_nth_drop)

lemma distinct_remove_at: "distinct xs \<Longrightarrow> distinct (remove_at i xs)"
  using set_take_disj_set_drop_if_distinct [of xs i "Suc i"] by (simp add: remove_at_def)

lemma set_remove_at_distinct:
  assumes "distinct xs" and "i < length xs"
  shows "set (remove_at i xs) = set xs - {xs ! i}"
proof -
  have "xs = take i xs @ xs ! i # drop (Suc i) xs"
    using assms(2) by (rule id_take_nth_drop)
  then have "distinct (take i xs @ xs ! i # drop (Suc i) xs)"
    and "set xs = insert (xs ! i) (set (take i xs) \<union> set (drop (Suc i) xs))"
    using assms(1) by (metis, metis set_append list.simps(15) Un_insert_right)
  then show ?thesis by (auto simp: remove_at_def)
qed

lemma remove_at_filter:
  assumes "find_index P xs = Some i" and "\<And>j. j < length xs \<Longrightarrow> P (xs ! j) \<Longrightarrow> j = i"
  shows "remove_at i xs = filter (\<lambda>x. \<not> P x) xs"
  using assms
proof (induction xs arbitrary: i)
  case Nil
  then show ?case by simp
next
  case (Cons x xs)
  show ?case
  proof (cases "P x")
    case True
    with Cons.prems(1) have i: "i = 0" by simp
    have "\<not> P y" if "y \<in> set xs" for y
    proof
      assume "P y"
      from that obtain j where "j < length xs" "y = xs ! j" by (auto simp: in_set_conv_nth)
      with \<open>P y\<close> Cons.prems(2) [of "Suc j"] i show False by simp
    qed
    then have "filter (\<lambda>x. \<not> P x) xs = xs" by (simp add: filter_id_conv)
    with True i show ?thesis by simp
  next
    case False
    with Cons.prems(1) obtain k where k: "find_index P xs = Some k" "i = Suc k" by auto
    have "remove_at k xs = filter (\<lambda>x. \<not> P x) xs"
    proof (rule Cons.IH [OF k(1)])
      fix j assume "j < length xs" "P (xs ! j)"
      with Cons.prems(2) [of "Suc j"] k(2) show "j = k" by simp
    qed
    with False k(2) show ?thesis by simp
  qed
qed

lemma sorted_wrt_remove_at: "sorted_wrt R xs \<Longrightarrow> sorted_wrt R (remove_at i xs)"
proof (induction xs arbitrary: i)
  case Nil
  then show ?case by (simp add: remove_at_def)
next
  case (Cons x xs)
  then show ?case using set_remove_at_subset [of _ xs] by (cases i) auto
qed

section \<open>Lemmas on words\<close>

lemma unat_MaxUint64 [simp, go_word]: "unat MaxUint64 = 2 ^ 64 - 1"
  by (simp add: MaxUint64_def unsigned_minus_1_eq_mask mask_eq_exp_minus_1)

lemma unat_bound [go_word]: "unat (a :: u64) < 2 ^ 64"
  using unsigned_less [of a, where ?'a = nat] by simp

lemma unat_add_no_wrap [go_word]:
  fixes a b :: u64
  shows "unat a + unat b < 2 ^ 64 \<Longrightarrow> unat (a + b) = unat a + unat b"
  by (simp add: unat_word_ariths)

lemma unat_sub_no_wrap [go_word]:
  fixes a b :: u64
  shows "unat b \<le> unat a \<Longrightarrow> unat (a - b) = unat a - unat b"
  by (simp add: unat_sub word_le_nat_alt)

lemma add_check_iff [go_word]:
  fixes a b :: u64
  shows "MaxUint64 - a < b \<longleftrightarrow> 2 ^ 64 \<le> unat a + unat b"
proof -
  have "unat (MaxUint64 - a) = 2 ^ 64 - 1 - unat a"
    using unat_bound [of a] by (subst unat_sub_no_wrap) auto
  then show ?thesis using unat_bound [of a] by (auto simp: word_less_nat_alt)
qed

lemma unat_Suc_no_wrap [go_word]:
  fixes a :: u64
  shows "a \<noteq> MaxUint64 \<Longrightarrow> unat (a + 1) = Suc (unat a)"
proof -
  assume "a \<noteq> MaxUint64"
  then have "unat a \<noteq> 2 ^ 64 - 1" by (metis unat_MaxUint64 word_unat_eq_iff)
  then have "unat a + unat (1 :: u64) < 2 ^ 64" using unat_bound [of a] by simp
  then show ?thesis by (subst unat_add_no_wrap) auto
qed

lemma u64_Suc_neq_0 [go_word]: "a \<noteq> MaxUint64 \<Longrightarrow> a + 1 \<noteq> (0 :: u64)"
  using unat_Suc_no_wrap [of a] by (metis nat.distinct(1) unat_0)

lemma u64_less_Suc [go_word]: "a \<noteq> MaxUint64 \<Longrightarrow> a < a + (1 :: u64)"
  using unat_Suc_no_wrap [of a] by (simp add: word_less_nat_alt)

lemma u64_less_Suc_iff [go_word]: "a \<noteq> MaxUint64 \<Longrightarrow> b < a + (1 :: u64) \<longleftrightarrow> b \<le> a"
  using unat_Suc_no_wrap [of a] by (simp add: word_less_nat_alt word_le_nat_alt less_Suc_eq_le)

lemma u64_Suc_le_iff [go_word]: "a \<noteq> MaxUint64 \<Longrightarrow> a + (1 :: u64) \<le> b \<longleftrightarrow> a < b"
  using unat_Suc_no_wrap [of a] by (simp add: word_less_nat_alt word_le_nat_alt Suc_le_eq)

lemma wrap_int_id: "- (2 ^ 63) \<le> x \<Longrightarrow> x < 2 ^ 63 \<Longrightarrow> wrap_int x = x"
  by (simp add: wrap_int_def)

lemma wrap_int32_id: "- (2 ^ 31) \<le> x \<Longrightarrow> x < 2 ^ 31 \<Longrightarrow> wrap_int32 x = x"
  by (simp add: wrap_int32_def)

lemma wrap_int_wrap [simp]: "wrap_int (wrap_int x + y) = wrap_int (x + y)" "wrap_int (wrap_int x - y) = wrap_int (x - y)"
proof -
  have "((x + 2 ^ 63) mod 2 ^ 64 - 2 ^ 63 + z + 2 ^ 63) mod 2 ^ 64 = (x + z + 2 ^ 63) mod (2 ^ 64 :: int)" for z
    by (simp add: mod_simps algebra_simps)
  from this [of y] this [of "- y"] show "wrap_int (wrap_int x + y) = wrap_int (x + y)" "wrap_int (wrap_int x - y) = wrap_int (x - y)"
    by (simp_all add: wrap_int_def)
qed

section \<open>Lemmas on decimal renderings\<close>

lemma digit_char_props:
  assumes "d < 10"
  shows "is_digit (digit_char d)" and "digit_val (digit_char d) = d"
  using assms by (simp_all add: is_digit_def digit_val_def digit_char_def)

lemma decimal_val_snoc [simp]: "decimal_val (s @ [c]) = 10 * decimal_val s + digit_val c"
  by (simp add: decimal_val_def)

lemma FormatUint_nonempty [simp]: "FormatUint n \<noteq> []"
  by (subst FormatUint.simps) simp

lemma FormatUint_digits: "list_all is_digit (FormatUint n)"
proof (induction n rule: FormatUint.induct)
  case (1 n)
  show ?case
  proof (cases "n < 10")
    case True
    then show ?thesis by (subst FormatUint.simps) (simp add: digit_char_props)
  next
    case False
    with 1 show ?thesis by (subst FormatUint.simps) (simp add: digit_char_props)
  qed
qed

lemma decimal_val_FormatUint: "decimal_val (FormatUint n) = n"
proof (induction n rule: FormatUint.induct)
  case (1 n)
  show ?case
  proof (cases "n < 10")
    case True
    then show ?thesis
      by (subst FormatUint.simps) (simp add: decimal_val_def digit_char_props)
  next
    case False
    with 1 show ?thesis
      by (subst FormatUint.simps) (simp add: digit_char_props)
  qed
qed

lemma FormatUint_inj: "FormatUint m = FormatUint n \<longleftrightarrow> m = n"
  by (metis decimal_val_FormatUint)

section \<open>Association lists\<close>

lemma length_AList_delete: "length (AList.delete k xs) \<le> length xs"
  by (simp add: AList.delete_eq)

lemma length_AList_update: "length (AList.update k v xs) \<le> Suc (length xs)"
  by (induction xs) auto

lemma set_AList_update: "(x, y) \<in> set (AList.update k v xs) \<Longrightarrow> distinct (map fst xs) \<Longrightarrow>
    (x = k \<and> y = v) \<or> (x \<noteq> k \<and> (x, y) \<in> set xs)"
  by (induction xs) (auto simp: rev_image_eqI split: if_splits)

lemma set_AList_delete: "(x, y) \<in> set (AList.delete k xs) \<longleftrightarrow> x \<noteq> k \<and> (x, y) \<in> set xs"
  by (auto simp: AList.delete_eq)

lemma nth_list_update_cases: "j < length xs \<Longrightarrow> xs[i := x] ! j = (if i = j then x else xs ! j)"
  by (cases "i = j") auto

lemma option_eqI: "(\<And>y. a = Some y \<longleftrightarrow> b = Some y) \<Longrightarrow> a = b"
  by (cases a; cases b) auto


text \<open>Filtering and mapping at once.\<close>

lemma map_filter_append: "List.map_filter f (xs @ ys) = List.map_filter f xs @ List.map_filter f ys"
  by (simp add: List.map_filter_def)

end
