(* ===== verification/Signal.thy ===== *)
theory Signal
  imports Prelude
begin

text \<open>
  The event layer of the framework: \<^verbatim>\<open>src/signal/signal.go\<close> (typed emitters with
  registration-ordered handlers) and \<^verbatim>\<open>src/signal/lifetime.go\<close> (bags of release
  functions owned by one object). A handler is application code: it is named by a
  value of type \<open>'h\<close>, and what calling it does is the argument \<open>call\<close> of
  \<open>Emit\<close>, an arbitrary transformation of the surrounding world, which may itself
  subscribe, unsubscribe or emit. The release functions that \<open>Track\<close> registers are
  closures over a signal and an identifier; they are kept as that pair.
\<close>

section \<open>Signal (signal.go)\<close>

record 'h subscription =
  sub_id :: u64
  sub_handler :: "'h option"

record 'h signal =
  sig_name :: string
  subscribers :: "'h subscription list"
  nextID :: u64

definition NewSignal :: "string \<Rightarrow> 'h signal" where
  "NewSignal name = \<lparr>sig_name = name, subscribers = [], nextID = 0\<rparr>"

definition Name :: "'h signal \<Rightarrow> string" where
  "Name s = sig_name s"

definition Subscribe :: "'h option \<Rightarrow> 'h signal \<Rightarrow> u64 \<times> 'h signal" where
  "Subscribe handler s =
     (let sid = nextID s + 1
      in (sid, s\<lparr>nextID := sid, subscribers := subscribers s @ [\<lparr>sub_id = sid, sub_handler = handler\<rparr>]\<rparr>))"

definition Unsubscribe :: "u64 \<Rightarrow> 'h signal \<Rightarrow> 'h signal" where
  "Unsubscribe sid s =
     (if sid = 0 then s
      else case find_index (\<lambda>sub. sub_id sub = sid) (subscribers s) of
        None \<Rightarrow> s
      | Some i \<Rightarrow> s\<lparr>subscribers := remove_at i (subscribers s)\<rparr>)"

definition UnsubscribeAll :: "'h signal \<Rightarrow> 'h signal" where
  "UnsubscribeAll s = s\<lparr>subscribers := []\<rparr>"

definition HasSubscribers :: "'h signal \<Rightarrow> bool" where
  "HasSubscribers s \<longleftrightarrow> 0 < length (subscribers s)"

text \<open>The loop over the snapshot; a nil handler is skipped.\<close>

fun deliver_all :: "('h \<Rightarrow> 't \<Rightarrow> 'w \<Rightarrow> 'w) \<Rightarrow> 't \<Rightarrow> 'h subscription list \<Rightarrow> 'w \<Rightarrow> 'w" where
  "deliver_all call v [] w = w"
| "deliver_all call v (sub # snapshot) w =
     deliver_all call v snapshot
       (case sub_handler sub of None \<Rightarrow> w | Some h \<Rightarrow> call h v w)"

definition Emit :: "('h \<Rightarrow> 't \<Rightarrow> 'w \<Rightarrow> 'w) \<Rightarrow> 'h signal \<Rightarrow> 't \<Rightarrow> 'w \<Rightarrow> 'w" where
  "Emit call s v w =
     (if length (subscribers s) = 0 then w else deliver_all call v (subscribers s) w)"

section \<open>Subscriptions (lifetime.go)\<close>

text \<open>
  A release function is the closure of \<open>Track\<close> (the address of the signal and the
  identifier to unsubscribe) or another function of the application, named by \<open>'r\<close>.
\<close>

datatype 'r release = ReleaseTracked nat u64 | ReleaseOther 'r

record 'r Subscriptions =
  entries :: "'r release list"

text \<open>The signals of the program, by address.\<close>

type_synonym 'h signal_heap = "nat \<Rightarrow> 'h signal"

definition empty_bag :: "'r Subscriptions" where
  "empty_bag = \<lparr>entries = []\<rparr>"

definition Add :: "'r release option \<Rightarrow> 'r Subscriptions \<Rightarrow> 'r Subscriptions" where
  "Add release bag = (case release of None \<Rightarrow> bag | Some r \<Rightarrow> bag\<lparr>entries := entries bag @ [r]\<rparr>)"

definition Len :: "'r Subscriptions \<Rightarrow> nat" where
  "Len bag = length (entries bag)"

text \<open>
  Calling one release function on the signals; \<open>other\<close> is the effect of the
  application's own release functions.
\<close>

fun call_release :: "('r \<Rightarrow> 'h signal_heap \<Rightarrow> 'h signal_heap) \<Rightarrow> 'r release \<Rightarrow>
    'h signal_heap \<Rightarrow> 'h signal_heap" where
  "call_release other (ReleaseTracked a sid) H = H(a := Unsubscribe sid (H a))"
| "call_release other (ReleaseOther r) H = other r H"

text \<open>The bag is cleared before the first release function runs.\<close>

definition Release :: "('r \<Rightarrow> 'h signal_heap \<Rightarrow> 'h signal_heap) \<Rightarrow> 'r Subscriptions \<Rightarrow>
    'h signal_heap \<Rightarrow> 'r Subscriptions \<times> 'h signal_heap" where
  "Release other bag H =
     (if length (entries bag) = 0 then (bag, H)
      else (bag\<lparr>entries := []\<rparr>, fold (call_release other) (entries bag) H))"

definition Track :: "'r Subscriptions option \<Rightarrow> nat option \<Rightarrow> 'h option \<Rightarrow>
    'h signal_heap \<Rightarrow> 'r Subscriptions option \<times> 'h signal_heap" where
  "Track bag sig handler H =
     (case sig of
        None \<Rightarrow> (bag, H)
      | Some a \<Rightarrow>
          (let (sid, s') = Subscribe handler (H a)
           in (map_option (Add (Some (ReleaseTracked a sid))) bag, H(a := s'))))"

text \<open>A client that tracks several signals in one bag, one after the other.\<close>

fun track_list :: "(nat \<times> 'h option) list \<Rightarrow> 'r Subscriptions \<Rightarrow> 'h signal_heap \<Rightarrow>
    'r Subscriptions \<times> 'h signal_heap" where
  "track_list [] bag H = (bag, H)"
| "track_list ((a, h) # xs) bag H =
     (case Track (Some bag) (Some a) h H of
        (Some bag', H') \<Rightarrow> track_list xs bag' H'
      | (None, H') \<Rightarrow> (bag, H'))"

section \<open>Well-formed signals\<close>

text \<open>
  Identifiers of the registered handlers are positive, at most the last one issued, and
  strictly increasing in registration order.
\<close>

definition wf_signal :: "'h signal \<Rightarrow> bool" where
  "wf_signal s \<longleftrightarrow>
     sorted_wrt (<) (map sub_id (subscribers s)) \<and>
     (\<forall>sub \<in> set (subscribers s). 0 < sub_id sub \<and> sub_id sub \<le> nextID s)"

text \<open>The handlers an emission runs, in order: the specification of delivery.\<close>

definition live_handlers :: "'h signal \<Rightarrow> 'h list" where
  "live_handlers s = List.map_filter sub_handler (subscribers s)"

section \<open>Lemmas\<close>

lemma wf_NewSignal [simp]: "wf_signal (NewSignal name)"
  by (simp add: wf_signal_def NewSignal_def)

lemma wf_Subscribe:
  assumes "wf_signal s" and "nextID s \<noteq> MaxUint64"
  shows "wf_signal (snd (Subscribe h s))"
proof -
  have lt: "nextID s < nextID s + 1" using assms(2) by (rule u64_less_Suc)
  have "sub_id sub < nextID s + 1" if "sub \<in> set (subscribers s)" for sub
    using that assms(1) lt by (auto simp: wf_signal_def)
  moreover have "0 < nextID s + 1" using lt by (metis word_gt_0 word_zero_le leD)
  ultimately show ?thesis
    using assms(1) by (auto simp: wf_signal_def Subscribe_def Let_def sorted_wrt_append less_imp_le)
qed

lemma wf_distinct_ids: "wf_signal s \<Longrightarrow> distinct (map sub_id (subscribers s))"
  by (simp add: wf_signal_def strict_sorted_iff)

lemma Unsubscribe_filter:
  assumes "wf_signal s"
  shows "Unsubscribe sid s = s\<lparr>subscribers := filter (\<lambda>sub. sub_id sub \<noteq> sid) (subscribers s)\<rparr>"
proof (cases "find_index (\<lambda>sub. sub_id sub = sid) (subscribers s)")
  case None
  then have "filter (\<lambda>sub. sub_id sub \<noteq> sid) (subscribers s) = subscribers s"
    by (auto simp: find_index_None filter_id_conv)
  with None show ?thesis by (simp add: Unsubscribe_def)
next
  case (Some i)
  then have i: "i < length (subscribers s)" "sub_id (subscribers s ! i) = sid"
    by (auto simp: find_index_Some)
  have "0 < sub_id (subscribers s ! i)" using assms nth_mem [OF i(1)] by (simp add: wf_signal_def)
  then have "sid \<noteq> 0" using i(2) by auto
  moreover have "remove_at i (subscribers s) = filter (\<lambda>sub. sub_id sub \<noteq> sid) (subscribers s)"
  proof (rule remove_at_filter [OF Some])
    fix j assume "j < length (subscribers s)" "sub_id (subscribers s ! j) = sid"
    with i wf_distinct_ids [OF assms] show "j = i"
      by (metis length_map nth_eq_iff_index_eq nth_map)
  qed
  ultimately show ?thesis using Some by (simp add: Unsubscribe_def)
qed

lemma wf_Unsubscribe: "wf_signal s \<Longrightarrow> wf_signal (Unsubscribe sid s)"
  by (auto simp: Unsubscribe_filter wf_signal_def sorted_wrt_filter sorted_wrt_map)

lemma wf_UnsubscribeAll: "wf_signal (UnsubscribeAll s)"
  by (simp add: wf_signal_def UnsubscribeAll_def)

lemma Unsubscribe_commute:
  assumes "wf_signal s"
  shows "Unsubscribe i (Unsubscribe j s) = Unsubscribe j (Unsubscribe i s)"
  using Unsubscribe_filter [OF wf_Unsubscribe [OF assms]] Unsubscribe_filter [OF assms]
  by (simp add: conj_commute)

lemma Subscribe_Unsubscribe:
  assumes "wf_signal s" and "nextID s \<noteq> MaxUint64"
  shows "Unsubscribe (fst (Subscribe h s)) (snd (Subscribe h s)) = s\<lparr>nextID := nextID s + 1\<rparr>"
proof -
  have "sub_id sub \<noteq> nextID s + 1" if "sub \<in> set (subscribers s)" for sub
    using that assms u64_less_Suc [OF assms(2)] by (auto simp: wf_signal_def)
  then have "filter (\<lambda>sub. sub_id sub \<noteq> nextID s + 1) (subscribers s) = subscribers s"
    by (simp add: filter_id_conv)
  with Unsubscribe_filter [OF wf_Subscribe [OF assms, of h]] show ?thesis
    by (simp add: Subscribe_def Let_def)
qed

lemma deliver_all_fold:
  "deliver_all call v subs w = fold (\<lambda>h. call h v) (List.map_filter sub_handler subs) w"
  by (induction subs arbitrary: w) (auto split: option.splits)

lemma Emit_fold: "Emit call s v w = fold (\<lambda>h. call h v) (live_handlers s) w"
  by (auto simp: Emit_def deliver_all_fold live_handlers_def)

lemma fold_logged:
  "fold (\<lambda>h. (\<lambda>h v (w, log). (call h v w, log @ [(h, v)])) h v) hs (w, log) =
     (fold (\<lambda>h. call h v) hs w, log @ map (\<lambda>h. (h, v)) hs)"
  by (induction hs arbitrary: w log) auto

lemma Unsubscribe_ids:
  assumes "wf_signal s"
  shows "fold Unsubscribe ids s = s\<lparr>subscribers := filter (\<lambda>sub. sub_id sub \<notin> set ids) (subscribers s)\<rparr>"
  using assms
proof (induction ids arbitrary: s)
  case Nil
  then show ?case by simp
next
  case (Cons i ids)
  have "fold Unsubscribe ids (Unsubscribe i s) =
      (Unsubscribe i s)\<lparr>subscribers := filter (\<lambda>sub. sub_id sub \<notin> set ids) (subscribers (Unsubscribe i s))\<rparr>"
    using wf_Unsubscribe [OF Cons.prems] by (rule Cons.IH)
  then show ?case
    using Cons.prems by (simp add: Unsubscribe_filter conj_commute)
qed

text \<open>The tracked releases of one address, in registration order.\<close>

definition tracked_ids :: "nat \<Rightarrow> (nat \<times> u64) list \<Rightarrow> u64 list" where
  "tracked_ids a R = map snd (filter (\<lambda>(b, i). b = a) R)"

lemma set_tracked_ids [simp]: "set (tracked_ids a R) = {i. (a, i) \<in> set R}"
  by (force simp: tracked_ids_def)

lemma fold_call_release:
  "fold (call_release other) (map (\<lambda>(a, i). ReleaseTracked a i) R) H a =
     fold Unsubscribe (tracked_ids a R) (H a)"
  by (induction R arbitrary: H) (auto simp: tracked_ids_def)

definition tracks :: "'h signal_heap \<Rightarrow> (nat \<times> u64) list \<Rightarrow> 'h signal_heap \<Rightarrow> bool" where
  "tracks H R H' \<longleftrightarrow>
     (\<forall>a. wf_signal (H' a) \<and>
        (\<exists>new. subscribers (H' a) = subscribers (H a) @ new \<and>
           set (map sub_id new) = set (tracked_ids a R)) \<and>
        (\<forall>i \<in> set (tracked_ids a R). nextID (H a) < i))"

lemma tracks_step:
  assumes wf: "wf_signal (H a)" and nw: "nextID (H a) \<noteq> MaxUint64"
    and rest: "tracks (H(a := snd (Subscribe h (H a)))) R H'"
  shows "tracks H ((a, nextID (H a) + 1) # R) H'"
  unfolding tracks_def
proof (intro allI conjI ballI)
  fix b
  let ?H1 = "H(a := snd (Subscribe h (H a)))"
  from rest show "wf_signal (H' b)" by (simp add: tracks_def)
  from rest obtain new where new: "subscribers (H' b) = subscribers (?H1 b) @ new"
      "set (map sub_id new) = set (tracked_ids b R)"
    unfolding tracks_def by blast
  show "\<exists>new. subscribers (H' b) = subscribers (H b) @ new \<and>
      set (map sub_id new) = set (tracked_ids b ((a, nextID (H a) + 1) # R))"
  proof (cases "b = a")
    case True
    with new show ?thesis
      by (intro exI [of _ "\<lparr>sub_id = nextID (H a) + 1, sub_handler = h\<rparr> # new"])
        (auto simp: Subscribe_def Let_def)
  next
    case False
    with new show ?thesis by (intro exI [of _ new]) simp
  qed
  fix i assume i: "i \<in> set (tracked_ids b ((a, nextID (H a) + 1) # R))"
  have "nextID (?H1 b) < i" if "i \<in> set (tracked_ids b R)"
    using rest that by (auto simp: tracks_def)
  with i u64_less_Suc [OF nw] show "nextID (H b) < i"
    by (auto simp: Subscribe_def Let_def split: if_splits)
qed

lemma track_list_tracks:
  assumes "\<And>a. wf_signal (H a)" and "\<And>a. unat (nextID (H a)) + length xs < 2 ^ 64"
  shows "\<exists>R H'. track_list xs bag H =
      (bag\<lparr>entries := entries bag @ map (\<lambda>(a, i). ReleaseTracked a i) R\<rparr>, H') \<and> tracks H R H'"
  using assms
proof (induction xs arbitrary: bag H)
  case Nil
  then show ?case
    by (intro exI [of _ "[]"] exI [of _ H]) (simp add: tracks_def tracked_ids_def)
next
  case (Cons x xs)
  obtain a h where x: "x = (a, h)" by (cases x)
  let ?H1 = "H(a := snd (Subscribe h (H a)))"
  let ?bag = "bag\<lparr>entries := entries bag @ [ReleaseTracked a (nextID (H a) + 1)]\<rparr>"
  have nw: "nextID (H a) \<noteq> MaxUint64" using Cons.prems(2) [of a] by auto
  have "wf_signal (?H1 b)" for b
    using Cons.prems(1) nw by (simp add: wf_Subscribe)
  moreover have "unat (nextID (?H1 b)) + length xs < 2 ^ 64" for b
    using Cons.prems(2) [of b] Cons.prems(2) [of a] unat_Suc_no_wrap [OF nw]
    by (simp add: Subscribe_def Let_def)
  ultimately obtain R H' where R: "track_list xs ?bag ?H1 =
      (?bag\<lparr>entries := entries ?bag @ map (\<lambda>(a, i). ReleaseTracked a i) R\<rparr>, H')" "tracks ?H1 R H'"
    using Cons.IH [of ?H1 ?bag] by blast
  have "track_list (x # xs) bag H = track_list xs ?bag ?H1"
    by (simp add: x Track_def Subscribe_def Let_def Add_def)
  moreover have "tracks H ((a, nextID (H a) + 1) # R) H'"
    by (rule tracks_step [OF Cons.prems(1) nw R(2)])
  ultimately show ?case
    using R(1) by (intro exI [of _ "(a, nextID (H a) + 1) # R"] exI [of _ H']) simp
qed

lemma tracks_release:
  assumes "tracks H R H'" and "wf_signal (H a)"
  shows "subscribers (fold (call_release other) (map (\<lambda>(a, i). ReleaseTracked a i) R) H' a) =
      subscribers (H a)"
proof -
  from assms(1) obtain new where new: "subscribers (H' a) = subscribers (H a) @ new"
      "set (map sub_id new) = set (tracked_ids a R)" and wf': "wf_signal (H' a)"
      and gt: "\<forall>i \<in> set (tracked_ids a R). nextID (H a) < i"
    unfolding tracks_def by blast
  have "sub_id sub \<notin> set (tracked_ids a R)" if "sub \<in> set (subscribers (H a))" for sub
    using that assms(2) gt by (fastforce simp: wf_signal_def)
  then have "filter (\<lambda>sub. sub_id sub \<notin> set (tracked_ids a R)) (subscribers (H a)) = subscribers (H a)"
    by (simp add: filter_id_conv)
  moreover have "filter (\<lambda>sub. sub_id sub \<notin> set (tracked_ids a R)) new = []"
    using new(2) by (auto simp: filter_empty_conv)
  ultimately show ?thesis
    by (simp add: fold_call_release Unsubscribe_ids [OF wf'] new(1))
qed

section \<open>Properties\<close>

text \<open>
  Delivery follows the snapshot taken when the emission starts. Whatever the
  handlers do to the world while they run (they may subscribe, unsubscribe or emit), the
  handlers called are the non-nil handlers registered at the start, each once, in
  registration order, all with the emitted value.
\<close>

theorem Emit_snapshot_order:
  "snd (Emit (\<lambda>h v (w, log). (call h v w, log @ [(h, v)])) s v (w, [])) =
     map (\<lambda>h. (h, v)) (live_handlers s)"
  by (simp only: Emit_fold fold_logged snd_conv append_Nil)

text \<open>
  Releasing a bag undoes exactly what was tracked in it. Starting from well-formed
  signals whose identifier counters have room for the new registrations, tracking any list
  of handlers in a fresh bag and releasing the bag leaves every signal with the
  subscribers it had, and the bag empty.
\<close>

theorem track_release_roundtrip:
  fixes other :: "'r \<Rightarrow> 'h signal_heap \<Rightarrow> 'h signal_heap"
  assumes "\<And>a. wf_signal (H a)" and "\<And>a. unat (nextID (H a)) + length xs < 2 ^ 64"
  shows "case track_list xs empty_bag H of (bag', H') \<Rightarrow>
     (case Release other bag' H' of (bag'', H'') \<Rightarrow>
        entries bag'' = [] \<and> (\<forall>a. subscribers (H'' a) = subscribers (H a)))"
proof -
  obtain R H' where R: "track_list xs (empty_bag :: 'r Subscriptions) H =
      (empty_bag\<lparr>entries := entries empty_bag @ map (\<lambda>(a, i). ReleaseTracked a i) R\<rparr>, H')"
      "tracks H R H'"
    using track_list_tracks [of H xs empty_bag] assms by blast
  show ?thesis
    using R(1) tracks_release [OF R(2) assms(1), of other]
    by (cases "R = []") (simp_all add: Release_def empty_bag_def)
qed

theorem track_release_roundtrip_witness:
  "case track_list [(0, Some True), (1, None), (0, Some False)] empty_bag (\<lambda>_. NewSignal ''s'') of
     (bag', H') \<Rightarrow>
     (case Release (\<lambda>(_ :: unit) H. H) bag' H' of (bag'', H'') \<Rightarrow>
        entries bag'' = [] \<and> (\<forall>a. subscribers (H'' a) = subscribers ((\<lambda>_. NewSignal ''s'') a)))"
  by (rule track_release_roundtrip) (simp_all add: NewSignal_def wf_signal_def)

end
