(* ===== verification/Membudget.thy ===== *)
theory Membudget
  imports Prelude
begin

text \<open>
  Checked memory reservations: \<^verbatim>\<open>src/internal/membudget/plan.go\<close>. A wallet has a fixed
  capacity; a reservation moves through the states reserved, live and retiring and
  charges its bytes to the wallet and to every ancestor. All the wallets made by
  partitioning one root share a ledger, so the state of the model is that ledger with the
  wallets it serves, held in a list by address; a wallet is allocated before the children
  that \<open>Partition\<close> makes of it, so a parent's address is smaller. Byte counts and
  allocation identifiers are unsigned 64-bit words, with Go's wrap-around.
\<close>

section \<open>Profiles and plans\<close>

type_synonym Profile = u8

definition Compact :: Profile where "Compact = 0"
definition Standard :: Profile where "Standard = 1"

definition Profile_String :: "Profile \<Rightarrow> string" where
  "Profile_String p =
     (if p = Compact then ''compact'' else if p = Standard then ''standard'' else ''unknown'')"

text \<open>\<open>Caps\<close> is the array indexed by the eight resource kinds, in the order of the source.\<close>

datatype Kind = KText | KProjection | KSoftwareRaster | KAssetsCPU | KGPU | KJobs | KFrame | KDiagnostics

definition kindCount :: nat where "kindCount = 8"

record Plan =
  plan_Profile :: Profile
  plan_Caps :: "u64 list"

definition DefaultPlan :: "Profile \<Rightarrow> Plan" where
  "DefaultPlan profile =
     (let miB = 2 ^ 20;
          perOwner = (if profile = Compact then [12, 8, 12, 24, 32, 16, 16, 8]
                      else [48, 32, 48, 96, 128, 64, 64, 32])
      in \<lparr>plan_Profile = profile, plan_Caps = map (\<lambda>n. n * miB) perOwner\<rparr>)"

datatype membudget_error =
    InvalidProfile | ZeroCapacityWallet nat | AggregateOverflow
  | CapacityNotPositive
  | InvalidPartition | PartitionAfterReservation | PartitionExceeds | PartitionIncomplete
  | NilWallet | ZeroByteReservation
  | InvalidBatch | InvalidBatchSize
  | PartitionedWallet | ResourceLimit u64 u64 u64 | AllocationIDsExhausted
  | NilReservation | CancelNeedsReserved | ReleaseNeedsLive | AckNeedsRetiring | InvalidTransition

text \<open>The loop of \<open>Validate\<close> over the capacities: index, running total, rest.\<close>

fun validate_caps :: "nat \<Rightarrow> u64 \<Rightarrow> u64 list \<Rightarrow> membudget_error + unit" where
  "validate_caps i tot [] = Inr ()"
| "validate_caps i tot (c # cs) =
     (if c = 0 then Inl (ZeroCapacityWallet i)
      else if MaxUint64 - tot < c then Inl AggregateOverflow
      else validate_caps (Suc i) (tot + c) cs)"

definition Plan_Validate :: "Plan \<Rightarrow> membudget_error + unit" where
  "Plan_Validate p =
     (if plan_Profile p \<noteq> Compact \<and> plan_Profile p \<noteq> Standard then Inl InvalidProfile
      else validate_caps 0 0 (plan_Caps p))"

section \<open>Wallets, allocations and the shared ledger\<close>

datatype allocationState = allocationReserved | allocationLive | allocationRetiring

record wallet =
  w_parent :: "nat option"
  w_partitioned :: bool
  w_cap :: u64
  w_reserved :: u64
  w_live :: u64
  w_retiring :: u64

record allocation =
  a_owner :: nat
  a_bytes :: u64
  a_state :: allocationState

record walletLedger =
  wallets :: "wallet list"
  wl_nextID :: u64
  allocations :: "u64 \<rightharpoonup> allocation"

record Reservation =
  r_wallet :: "nat option"
  r_id :: u64

definition fresh_wallet :: "nat option \<Rightarrow> u64 \<Rightarrow> wallet" where
  "fresh_wallet p c =
     \<lparr>w_parent = p, w_partitioned = False, w_cap = c, w_reserved = 0, w_live = 0, w_retiring = 0\<rparr>"

text \<open>The root wallet has address 0.\<close>

definition NewWallet :: "u64 \<Rightarrow> membudget_error + walletLedger" where
  "NewWallet capacity =
     (if capacity = 0 then Inl CapacityNotPositive
      else Inr \<lparr>wallets = [fresh_wallet None capacity], wl_nextID = 0, allocations = Map.empty\<rparr>)"

text \<open>The capacity loop of \<open>Partition\<close>; the result is the assigned total.\<close>

fun partition_total :: "u64 \<Rightarrow> u64 \<Rightarrow> u64 list \<Rightarrow> membudget_error + u64" where
  "partition_total lim tot [] = Inr tot"
| "partition_total lim tot (c # cs) =
     (if c = 0 \<or> lim - tot < c then Inl PartitionExceeds
      else partition_total lim (tot + c) cs)"

definition Partition :: "nat option \<Rightarrow> u64 list \<Rightarrow> walletLedger \<Rightarrow>
    membudget_error + (nat list \<times> walletLedger)" where
  "Partition w capacities L =
     (case w of None \<Rightarrow> Inl InvalidPartition
      | Some a \<Rightarrow>
        if capacities = [] then Inl InvalidPartition
        else let W = wallets L ! a in
        if w_partitioned W \<or> w_reserved W \<noteq> 0 \<or> w_live W \<noteq> 0 \<or> w_retiring W \<noteq> 0 \<or> wl_nextID L \<noteq> 0
        then Inl PartitionAfterReservation
        else case partition_total (w_cap W) 0 capacities of
          Inl e \<Rightarrow> Inl e
        | Inr tot \<Rightarrow>
            if tot \<noteq> w_cap W then Inl PartitionIncomplete
            else let n = length (wallets L);
                     children = map (fresh_wallet (Some a)) capacities
                 in Inr ([n ..< n + length capacities],
                         L\<lparr>wallets := (wallets L)[a := W\<lparr>w_partitioned := True\<rparr>] @ children\<rparr>))"

text \<open>
  The loop \<^verbatim>\<open>for owner := w; owner != nil; owner = owner.parent\<close>, applying one update to
  each wallet of the chain. The test \<open>p < w\<close> makes the recursion well founded; in every
  heap that \<open>Partition\<close> builds it holds (\<open>parents_ok\<close> below), so it never cuts the loop.
\<close>

fun walk_owners :: "(wallet \<Rightarrow> wallet) \<Rightarrow> wallet list \<Rightarrow> nat \<Rightarrow> wallet list" where
  "walk_owners f ws w =
     (let ws' = ws[w := f (ws ! w)]
      in case w_parent (ws ! w) of
           None \<Rightarrow> ws'
         | Some p \<Rightarrow> if p < w then walk_owners f ws' p else ws')"

declare walk_owners.simps [simp del]

fun add_to :: "allocationState \<Rightarrow> u64 \<Rightarrow> wallet \<Rightarrow> wallet" where
  "add_to allocationReserved b W = W\<lparr>w_reserved := w_reserved W + b\<rparr>"
| "add_to allocationLive b W = W\<lparr>w_live := w_live W + b\<rparr>"
| "add_to allocationRetiring b W = W\<lparr>w_retiring := w_retiring W + b\<rparr>"

fun remove_from :: "allocationState \<Rightarrow> u64 \<Rightarrow> wallet \<Rightarrow> wallet" where
  "remove_from allocationReserved b W = W\<lparr>w_reserved := w_reserved W - b\<rparr>"
| "remove_from allocationLive b W = W\<lparr>w_live := w_live W - b\<rparr>"
| "remove_from allocationRetiring b W = W\<lparr>w_retiring := w_retiring W - b\<rparr>"

definition addChargeLocked :: "nat \<Rightarrow> allocationState \<Rightarrow> u64 \<Rightarrow> walletLedger \<Rightarrow> walletLedger" where
  "addChargeLocked w st b L = L\<lparr>wallets := walk_owners (add_to st b) (wallets L) w\<rparr>"

definition removeChargeLocked :: "nat \<Rightarrow> allocationState \<Rightarrow> u64 \<Rightarrow> walletLedger \<Rightarrow> walletLedger" where
  "removeChargeLocked w st b L = L\<lparr>wallets := walk_owners (remove_from st b) (wallets L) w\<rparr>"

definition checkCapacityLocked :: "nat \<Rightarrow> u64 \<Rightarrow> u64 \<Rightarrow> walletLedger \<Rightarrow> membudget_error + unit" where
  "checkCapacityLocked w bytes count L =
     (let W = wallets L ! w in
      if w_partitioned W then Inl PartitionedWallet
      else let used = w_reserved W + w_live W + w_retiring W in
      if used < w_reserved W \<or> w_cap W < used \<or> w_cap W - used < bytes
      then Inl (ResourceLimit bytes used (w_cap W))
      else if MaxUint64 - wl_nextID L < count then Inl AllocationIDsExhausted
      else Inr ())"

definition claimLocked :: "nat \<Rightarrow> u64 \<Rightarrow> walletLedger \<Rightarrow> Reservation \<times> walletLedger" where
  "claimLocked w bytes L =
     (let k = wl_nextID L + 1;
          L1 = L\<lparr>wl_nextID := k,
                 allocations := (allocations L)(k \<mapsto>
                   \<lparr>a_owner = w, a_bytes = bytes, a_state = allocationReserved\<rparr>)\<rparr>
      in (\<lparr>r_wallet = Some w, r_id = k\<rparr>, addChargeLocked w allocationReserved bytes L1))"

definition Reserve :: "nat option \<Rightarrow> u64 \<Rightarrow> walletLedger \<Rightarrow>
    membudget_error + (Reservation \<times> walletLedger)" where
  "Reserve w bytes L =
     (case w of None \<Rightarrow> Inl NilWallet
      | Some a \<Rightarrow>
        if bytes = 0 then Inl ZeroByteReservation
        else case checkCapacityLocked a bytes 1 L of
          Inl e \<Rightarrow> Inl e
        | Inr _ \<Rightarrow> Inr (claimLocked a bytes L))"

fun batch_total :: "u64 \<Rightarrow> u64 list \<Rightarrow> membudget_error + u64" where
  "batch_total tot [] = Inr tot"
| "batch_total tot (s # ss) =
     (if s = 0 \<or> MaxUint64 - tot < s then Inl InvalidBatchSize else batch_total (tot + s) ss)"

fun claim_all :: "nat \<Rightarrow> u64 list \<Rightarrow> walletLedger \<Rightarrow> Reservation list \<times> walletLedger" where
  "claim_all w [] L = ([], L)"
| "claim_all w (s # ss) L =
     (let (r, L1) = claimLocked w s L; (rs, L2) = claim_all w ss L1 in (r # rs, L2))"

definition ReserveBatch :: "nat option \<Rightarrow> u64 list \<Rightarrow> walletLedger \<Rightarrow>
    membudget_error + (Reservation list \<times> walletLedger)" where
  "ReserveBatch w sizes L =
     (case w of None \<Rightarrow> Inl InvalidBatch
      | Some a \<Rightarrow>
        if sizes = [] then Inl InvalidBatch
        else case batch_total 0 sizes of
          Inl e \<Rightarrow> Inl e
        | Inr tot \<Rightarrow>
            (case checkCapacityLocked a tot (of_nat (length sizes)) L of
               Inl e \<Rightarrow> Inl e
             | Inr _ \<Rightarrow> Inr (claim_all a sizes L)))"

text \<open>A token that is nil or belongs to no wallet, and the entry a token names.\<close>

definition token_wallet :: "Reservation option \<Rightarrow> nat option" where
  "token_wallet r = Option.bind r r_wallet"

definition Reservation_ID :: "Reservation option \<Rightarrow> u64" where
  "Reservation_ID r = (case r of None \<Rightarrow> 0 | Some r \<Rightarrow> r_id r)"

definition Reservation_Bytes :: "Reservation option \<Rightarrow> walletLedger \<Rightarrow> u64" where
  "Reservation_Bytes r L =
     (case token_wallet r of None \<Rightarrow> 0
      | Some w \<Rightarrow>
        (case allocations L (Reservation_ID r) of
           None \<Rightarrow> 0
         | Some entry \<Rightarrow> if a_owner entry \<noteq> w then 0 else a_bytes entry))"

text \<open>
  The terminal calls \<open>Cancel\<close>, \<open>Release\<close> and \<open>Acknowledge\<close> have one body in the source,
  up to the state they require and the error they return.
\<close>

definition finish :: "allocationState \<Rightarrow> membudget_error \<Rightarrow> Reservation option \<Rightarrow> walletLedger \<Rightarrow>
    membudget_error + walletLedger" where
  "finish st err r L =
     (case token_wallet r of None \<Rightarrow> Inl NilReservation
      | Some w \<Rightarrow>
        (case allocations L (Reservation_ID r) of
           None \<Rightarrow> Inl err
         | Some entry \<Rightarrow>
             if a_owner entry \<noteq> w \<or> a_state entry \<noteq> st then Inl err
             else let L1 = removeChargeLocked w st (a_bytes entry) L
                  in Inr (L1\<lparr>allocations := (allocations L1)(Reservation_ID r := None)\<rparr>)))"

definition Cancel :: "Reservation option \<Rightarrow> walletLedger \<Rightarrow> membudget_error + walletLedger" where
  "Cancel = finish allocationReserved CancelNeedsReserved"

definition Release_res :: "Reservation option \<Rightarrow> walletLedger \<Rightarrow> membudget_error + walletLedger" where
  "Release_res = finish allocationLive ReleaseNeedsLive"

definition Acknowledge :: "Reservation option \<Rightarrow> walletLedger \<Rightarrow> membudget_error + walletLedger" where
  "Acknowledge = finish allocationRetiring AckNeedsRetiring"

definition transition :: "allocationState \<Rightarrow> allocationState \<Rightarrow> Reservation option \<Rightarrow> walletLedger \<Rightarrow>
    membudget_error + walletLedger" where
  "transition from_st to_st r L =
     (case token_wallet r of None \<Rightarrow> Inl NilReservation
      | Some w \<Rightarrow>
        (case allocations L (Reservation_ID r) of
           None \<Rightarrow> Inl InvalidTransition
         | Some entry \<Rightarrow>
             if a_owner entry \<noteq> w \<or> a_state entry \<noteq> from_st then Inl InvalidTransition
             else let L1 = removeChargeLocked w from_st (a_bytes entry) L;
                      L2 = addChargeLocked w to_st (a_bytes entry) L1
                  in Inr (L2\<lparr>allocations := (allocations L2)(Reservation_ID r \<mapsto> entry\<lparr>a_state := to_st\<rparr>)\<rparr>)))"

definition Publish :: "Reservation option \<Rightarrow> walletLedger \<Rightarrow> membudget_error + walletLedger" where
  "Publish = transition allocationReserved allocationLive"

definition Retire :: "Reservation option \<Rightarrow> walletLedger \<Rightarrow> membudget_error + walletLedger" where
  "Retire = transition allocationLive allocationRetiring"

definition Wallet_Snapshot :: "nat option \<Rightarrow> walletLedger \<Rightarrow> u64 \<times> u64 \<times> u64 \<times> u64" where
  "Wallet_Snapshot w L =
     (case w of None \<Rightarrow> (0, 0, 0, 0)
      | Some a \<Rightarrow> (let W = wallets L ! a in (w_cap W, w_reserved W, w_live W, w_retiring W)))"

section \<open>The accounting invariant\<close>

text \<open>The wallets charged by an allocation: the owner and its ancestors.\<close>

fun chain :: "wallet list \<Rightarrow> nat \<Rightarrow> nat list" where
  "chain ws w =
     w # (case w_parent (ws ! w) of None \<Rightarrow> [] | Some p \<Rightarrow> if p < w then chain ws p else [])"

declare chain.simps [simp del]

fun counter :: "allocationState \<Rightarrow> wallet \<Rightarrow> u64" where
  "counter allocationReserved W = w_reserved W"
| "counter allocationLive W = w_live W"
| "counter allocationRetiring W = w_retiring W"

text \<open>The bytes of the allocations that satisfy a predicate.\<close>

definition asum :: "(u64 \<rightharpoonup> allocation) \<Rightarrow> (allocation \<Rightarrow> bool) \<Rightarrow> nat" where
  "asum A Q = (\<Sum>k \<in> dom A. if Q (the (A k)) then unat (a_bytes (the (A k))) else 0)"

definition charged :: "wallet list \<Rightarrow> nat \<Rightarrow> allocation \<Rightarrow> bool" where
  "charged ws w a \<longleftrightarrow> w \<in> set (chain ws (a_owner a))"

definition children_of :: "wallet list \<Rightarrow> nat \<Rightarrow> nat set" where
  "children_of ws w = {c. c < length ws \<and> w_parent (ws ! c) = Some w}"

definition parents_ok :: "wallet list \<Rightarrow> bool" where
  "parents_ok ws \<longleftrightarrow>
     (\<forall>i < length ws. \<forall>p. w_parent (ws ! i) = Some p \<longrightarrow> p < i \<and> w_partitioned (ws ! p))"

definition caps_ok :: "wallet list \<Rightarrow> bool" where
  "caps_ok ws \<longleftrightarrow>
     (\<forall>w < length ws. w_partitioned (ws ! w) \<longrightarrow>
        (\<Sum>c \<in> children_of ws w. unat (w_cap (ws ! c))) = unat (w_cap (ws ! w)))"

definition allocs_ok :: "wallet list \<Rightarrow> u64 \<Rightarrow> (u64 \<rightharpoonup> allocation) \<Rightarrow> bool" where
  "allocs_ok ws next A \<longleftrightarrow>
     finite (dom A) \<and>
     (\<forall>k a. A k = Some a \<longrightarrow> 0 < k \<and> k \<le> next \<and> a_owner a < length ws \<and>
        \<not> w_partitioned (ws ! a_owner a) \<and> a_bytes a \<noteq> 0)"

definition leaves_ok :: "wallet list \<Rightarrow> (u64 \<rightharpoonup> allocation) \<Rightarrow> bool" where
  "leaves_ok ws A \<longleftrightarrow>
     (\<forall>w < length ws. \<not> w_partitioned (ws ! w) \<longrightarrow> asum A (charged ws w) \<le> unat (w_cap (ws ! w)))"

definition counters_ok :: "wallet list \<Rightarrow> (u64 \<rightharpoonup> allocation) \<Rightarrow> bool" where
  "counters_ok ws A \<longleftrightarrow>
     (\<forall>w < length ws. \<forall>st. unat (counter st (ws ! w)) = asum A (\<lambda>a. a_state a = st \<and> charged ws w a))"

text \<open>
  Parents precede and are partitioned; the children of a partitioned wallet share out its
  whole capacity; every entry of the ledger has an issued identifier and a leaf owner; no
  leaf is charged beyond its capacity; and each of the three counters of each wallet is
  the sum of the bytes of the entries charged to it in that state.
\<close>

definition wf_ledger :: "walletLedger \<Rightarrow> bool" where
  "wf_ledger L \<longleftrightarrow>
     parents_ok (wallets L) \<and> caps_ok (wallets L) \<and>
     allocs_ok (wallets L) (wl_nextID L) (allocations L) \<and>
     leaves_ok (wallets L) (allocations L) \<and> counters_ok (wallets L) (allocations L)"

section \<open>Sums over the ledger\<close>

lemma asum_empty [simp]: "asum Map.empty Q = 0"
  by (simp add: asum_def)

lemma asum_insert:
  assumes "finite (dom A)" and "A k = None"
  shows "asum (A(k \<mapsto> a)) Q = asum A Q + (if Q a then unat (a_bytes a) else 0)"
proof -
  have "(\<Sum>j \<in> dom A. if Q (the ((A(k \<mapsto> a)) j)) then unat (a_bytes (the ((A(k \<mapsto> a)) j))) else 0) =
      asum A Q"
    unfolding asum_def using assms(2) by (intro sum.cong) auto
  moreover have "k \<notin> dom A" using assms(2) by auto
  ultimately show ?thesis using assms(1) by (simp add: asum_def)
qed

lemma asum_delete:
  assumes "finite (dom A)" and "A k = Some a"
  shows "asum (A(k := None)) Q + (if Q a then unat (a_bytes a) else 0) = asum A Q"
proof -
  have "A = (A(k := None))(k \<mapsto> a)" using assms(2) by (simp add: fun_upd_idem)
  then show ?thesis using asum_insert [of "A(k := None)" k a Q] assms(1) by (metis dom_fun_upd
      finite_Diff fun_upd_same)
qed

lemma asum_update:
  assumes "finite (dom A)" and "A k = Some a"
  shows "asum (A(k \<mapsto> b)) Q + (if Q a then unat (a_bytes a) else 0) =
      asum A Q + (if Q b then unat (a_bytes b) else 0)"
proof -
  have "A(k \<mapsto> b) = (A(k := None))(k \<mapsto> b)" by simp
  then show ?thesis
    using asum_insert [of "A(k := None)" k b Q] asum_delete [OF assms, of Q] assms(1) by simp
qed

lemma asum_split_state:
  "asum A (\<lambda>a. a_state a = allocationReserved \<and> Q a) + asum A (\<lambda>a. a_state a = allocationLive \<and> Q a) +
     asum A (\<lambda>a. a_state a = allocationRetiring \<and> Q a) = asum A Q"
proof -
  have "(if a_state a = allocationReserved \<and> Q a then n else 0) + (if a_state a = allocationLive \<and> Q a then n else 0) +
      (if a_state a = allocationRetiring \<and> Q a then n else 0) = (if Q a then n else 0)" for a and n :: nat
    by (cases "a_state a") auto
  then show ?thesis by (simp add: asum_def sum.distrib [symmetric])
qed

lemma asum_mono: "(\<And>a. Q a \<Longrightarrow> R a) \<Longrightarrow> asum A Q \<le> asum A R"
  unfolding asum_def by (intro sum_mono) auto

section \<open>Chains of owners\<close>

lemma in_chain_iff:
  "v \<in> set (chain ws w) \<longleftrightarrow>
     v = w \<or> (\<exists>p. w_parent (ws ! w) = Some p \<and> p < w \<and> v \<in> set (chain ws p))"
  by (subst chain.simps) (auto split: option.split)

lemma chain_le: "v \<in> set (chain ws w) \<Longrightarrow> v \<le> w"
proof (induction ws w rule: chain.induct)
  case (1 ws w)
  then show ?case unfolding in_chain_iff [of v ws w] by (auto dest: less_imp_le intro: order_trans)
qed

lemma chain_self [simp]: "w \<in> set (chain ws w)"
  by (subst chain.simps) simp

lemma chain_cong:
  assumes "\<And>i. i \<le> w \<Longrightarrow> w_parent (ws ! i) = w_parent (ws' ! i)"
  shows "chain ws w = chain ws' w"
  using assms
proof (induction w rule: less_induct)
  case (less w)
  have "chain ws p = chain ws' p" if "p < w" for p
    using that less.prems by (intro less.IH) auto
  moreover have "w_parent (ws ! w) = w_parent (ws' ! w)" using less.prems by simp
  ultimately show ?case
    by (subst chain.simps, subst chain.simps) (auto split: option.splits)
qed

lemma walk_owners_length [simp]: "length (walk_owners f ws w) = length ws"
proof (induction f ws w rule: walk_owners.induct)
  case (1 f ws w)
  then show ?case by (subst walk_owners.simps) (simp add: Let_def split: option.splits)
qed

lemma walk_owners_nth:
  assumes "\<And>W. w_parent (f W) = w_parent W" and "w < length ws" and "i < length ws"
  shows "walk_owners f ws w ! i = (if i \<in> set (chain ws w) then f (ws ! i) else ws ! i)"
  using assms(2,3)
proof (induction w arbitrary: ws rule: less_induct)
  case (less w)
  let ?ws = "ws[w := f (ws ! w)]"
  show ?case
  proof (cases "\<exists>p. w_parent (ws ! w) = Some p \<and> p < w")
    case False
    with less.prems show ?thesis
      by (subst walk_owners.simps, subst chain.simps) (auto simp: Let_def split: option.splits)
  next
    case True
    then obtain p where p: "w_parent (ws ! w) = Some p" "p < w" by blast
    have "chain ?ws p = chain ws p"
      using p(2) less.prems assms(1) by (intro chain_cong) (auto simp: nth_list_update)
    moreover have "walk_owners f ?ws p ! i = (if i \<in> set (chain ?ws p) then f (?ws ! i) else ?ws ! i)"
      using p(2) less.prems by (intro less.IH) auto
    moreover have "w \<notin> set (chain ws p)" using p(2) chain_le [of w ws p] by auto
    ultimately show ?thesis
      using p less.prems
      by (subst walk_owners.simps, subst chain.simps) (auto simp: Let_def nth_list_update)
  qed
qed

lemma chain_children:
  assumes "parents_ok ws" and "v < length ws"
  shows "card {c \<in> children_of ws w. c \<in> set (chain ws v)} = (if w \<in> set (chain ws v) \<and> w \<noteq> v then 1 else 0)"
  using assms(2)
proof (induction v rule: less_induct)
  case (less v)
  show ?case
  proof (cases "w_parent (ws ! v)")
    case None
    then have "chain ws v = [v]" by (subst chain.simps) simp
    moreover have "{c \<in> children_of ws w. c \<in> set (chain ws v)} = {}"
      using None calculation by (auto simp: children_of_def)
    ultimately show ?thesis by simp
  next
    case (Some p)
    with assms(1) less.prems have p: "p < v" by (auto simp: parents_ok_def)
    then have ch: "chain ws v = v # chain ws p" using Some by (subst chain.simps) simp
    have IH: "card {c \<in> children_of ws w. c \<in> set (chain ws p)} =
        (if w \<in> set (chain ws p) \<and> w \<noteq> p then 1 else 0)"
      using p less.prems by (intro less.IH) auto
    have notin: "v \<notin> set (chain ws p)" using p chain_le [of v ws p] by auto
    show ?thesis
    proof (cases "p = w")
      case True
      have "{c \<in> children_of ws w. c \<in> set (chain ws p)} = {}"
        using True assms(1) chain_le [of _ ws p] by (fastforce simp: children_of_def parents_ok_def)
      then have "{c \<in> children_of ws w. c \<in> set (chain ws v)} = {v}"
        using ch Some True less.prems by (auto simp: children_of_def)
      with True p show ?thesis by (simp add: ch)
    next
      case False
      then have "{c \<in> children_of ws w. c \<in> set (chain ws v)} = {c \<in> children_of ws w. c \<in> set (chain ws p)}"
        using ch Some by (auto simp: children_of_def)
      with IH False ch notin show ?thesis by auto
    qed
  qed
qed

lemma finite_children_of [simp]: "finite (children_of ws w)"
  by (simp add: children_of_def)

lemma sum_indicator: "finite S \<Longrightarrow> (\<Sum>c \<in> S. if P c then n else 0) = card {c \<in> S. P c} * (n :: nat)"
  by (simp add: sum.If_cases Int_def)

lemma asum_children:
  assumes "parents_ok ws" and "allocs_ok ws nx A" and "w_partitioned (ws ! w)"
  shows "(\<Sum>c \<in> children_of ws w. asum A (charged ws c)) = asum A (charged ws w)"
proof -
  have "(\<Sum>c \<in> children_of ws w. if charged ws c (the (A k)) then unat (a_bytes (the (A k))) else 0) =
      (if charged ws w (the (A k)) then unat (a_bytes (the (A k))) else 0)" if "k \<in> dom A" for k
  proof -
    from that obtain a where a: "A k = Some a" by auto
    with assms(2) have o: "a_owner a < length ws" "\<not> w_partitioned (ws ! a_owner a)"
      by (auto simp: allocs_ok_def)
    then have "a_owner a \<noteq> w" using assms(3) by auto
    with chain_children [OF assms(1) o(1), of w] show ?thesis
      by (simp add: a sum_indicator charged_def)
  qed
  then show ?thesis
    unfolding asum_def by (subst sum.swap) simp
qed

text \<open>Every wallet, partitioned or not, is charged at most its capacity.\<close>

lemma charge_bound:
  assumes "parents_ok ws" and "caps_ok ws" and "allocs_ok ws nx A" and "leaves_ok ws A"
    and "w < length ws"
  shows "asum A (charged ws w) \<le> unat (w_cap (ws ! w))"
  using assms(5)
proof (induction "length ws - w" arbitrary: w rule: less_induct)
  case less
  show ?case
  proof (cases "w_partitioned (ws ! w)")
    case False
    with assms(4) less.prems show ?thesis by (auto simp: leaves_ok_def)
  next
    case True
    have "asum A (charged ws c) \<le> unat (w_cap (ws ! c))" if "c \<in> children_of ws w" for c
    proof -
      have "c < length ws" "w < c" using that assms(1) by (auto simp: children_of_def parents_ok_def)
      then show ?thesis using less.prems by (intro less.hyps) auto
    qed
    then have "(\<Sum>c \<in> children_of ws w. asum A (charged ws c)) \<le> (\<Sum>c \<in> children_of ws w. unat (w_cap (ws ! c)))"
      by (rule sum_mono)
    also have "\<dots> = unat (w_cap (ws ! w))" using assms(2) less.prems True by (simp add: caps_ok_def)
    finally show ?thesis using asum_children [OF assms(1,3) True] by simp
  qed
qed

lemma chain_partitioned:
  assumes "parents_ok ws" and "w < length ws" and "v \<in> set (chain ws w)" and "v \<noteq> w"
  shows "w_partitioned (ws ! v)"
  using assms(2,3,4)
proof (induction w rule: less_induct)
  case (less w)
  then obtain p where p: "w_parent (ws ! w) = Some p" "p < w" "v \<in> set (chain ws p)"
    unfolding in_chain_iff [of v ws w] by blast
  have "w_partitioned (ws ! p)" using assms(1) p(1) less.prems(1) by (auto simp: parents_ok_def)
  then show ?case using less.IH [OF p(2) _ p(3)] p(2) less.prems(1) by (cases "v = p") auto
qed

section \<open>Updates that keep the shape of the wallets\<close>

text \<open>Charging changes counters only: lengths, parents, partition flags and capacities stay.\<close>

definition same_shape :: "wallet list \<Rightarrow> wallet list \<Rightarrow> bool" where
  "same_shape ws ws' \<longleftrightarrow> length ws' = length ws \<and>
     (\<forall>i < length ws. w_parent (ws' ! i) = w_parent (ws ! i) \<and>
        w_partitioned (ws' ! i) = w_partitioned (ws ! i) \<and> w_cap (ws' ! i) = w_cap (ws ! i))"

lemma same_shape_trans: "same_shape a b \<Longrightarrow> same_shape b c \<Longrightarrow> same_shape a c"
  by (simp add: same_shape_def)

lemma same_shape_chain: "same_shape ws ws' \<Longrightarrow> w < length ws \<Longrightarrow> chain ws' w = chain ws w"
  by (rule chain_cong) (auto simp: same_shape_def)

lemma same_shape_charged:
  "same_shape ws ws' \<Longrightarrow> a_owner a < length ws \<Longrightarrow> charged ws' w a = charged ws w a"
  by (simp add: charged_def same_shape_chain)

lemma same_shape_asum:
  assumes "same_shape ws ws'" and "allocs_ok ws nx A"
  shows "asum A (\<lambda>a. Q a \<and> charged ws' w a) = asum A (\<lambda>a. Q a \<and> charged ws w a)"
proof -
  have "a_owner (the (A k)) < length ws" if "k \<in> dom A" for k
    using that assms(2) by (auto simp: allocs_ok_def)
  then show ?thesis unfolding asum_def using same_shape_charged [OF assms(1)] by (intro sum.cong) auto
qed

lemma same_shape_children: "same_shape ws ws' \<Longrightarrow> children_of ws' w = children_of ws w"
  by (auto simp: same_shape_def children_of_def)

lemma same_shape_oks:
  assumes "same_shape ws ws'"
  shows "parents_ok ws \<Longrightarrow> parents_ok ws'"
    and "caps_ok ws \<Longrightarrow> caps_ok ws'"
    and "allocs_ok ws nx A \<Longrightarrow> allocs_ok ws' nx A"
    and "allocs_ok ws nx A \<Longrightarrow> leaves_ok ws A \<Longrightarrow> leaves_ok ws' A"
proof -
  show "parents_ok ws \<Longrightarrow> parents_ok ws'"
    using assms unfolding parents_ok_def same_shape_def by (metis order_less_trans)
  show "caps_ok ws \<Longrightarrow> caps_ok ws'"
  proof -
    assume "caps_ok ws"
    moreover have "(\<Sum>c \<in> children_of ws w. unat (w_cap (ws' ! c))) = (\<Sum>c \<in> children_of ws w. unat (w_cap (ws ! c)))" for w
      using assms by (intro sum.cong) (auto simp: same_shape_def children_of_def)
    ultimately show "caps_ok ws'"
      using assms by (simp add: caps_ok_def same_shape_children) (simp add: same_shape_def)
  qed
  show "allocs_ok ws nx A \<Longrightarrow> allocs_ok ws' nx A"
    using assms by (auto simp: allocs_ok_def same_shape_def)
  show "allocs_ok ws nx A \<Longrightarrow> leaves_ok ws A \<Longrightarrow> leaves_ok ws' A"
    using same_shape_asum [OF assms, of nx A "\<lambda>_. True"] assms by (simp add: leaves_ok_def same_shape_def)
qed

lemma add_to_shape [simp]:
  "w_parent (add_to st b W) = w_parent W" "w_partitioned (add_to st b W) = w_partitioned W"
  "w_cap (add_to st b W) = w_cap W"
  "counter st' (add_to st b W) = counter st' W + (if st' = st then b else 0)"
  by (cases st; cases st'; simp)+

lemma remove_from_shape [simp]:
  "w_parent (remove_from st b W) = w_parent W" "w_partitioned (remove_from st b W) = w_partitioned W"
  "w_cap (remove_from st b W) = w_cap W"
  "counter st' (remove_from st b W) = counter st' W - (if st' = st then b else 0)"
  by (cases st; cases st'; simp)+

lemma walk_shape:
  assumes "w < length ws"
  shows "same_shape ws (walk_owners (add_to st b) ws w)"
    and "same_shape ws (walk_owners (remove_from st b) ws w)"
  using assms by (simp_all add: same_shape_def walk_owners_nth)

lemma walk_counter:
  assumes "w < length ws" and "i < length ws"
  shows "counter st' (walk_owners (add_to st b) ws w ! i) =
      counter st' (ws ! i) + (if st' = st \<and> i \<in> set (chain ws w) then b else 0)"
    and "counter st' (walk_owners (remove_from st b) ws w ! i) =
      counter st' (ws ! i) - (if st' = st \<and> i \<in> set (chain ws w) then b else 0)"
  using assms by (simp_all add: walk_owners_nth)

section \<open>Every operation keeps the invariant\<close>

lemma wf_ledgerD:
  assumes "wf_ledger L"
  shows "parents_ok (wallets L)" "caps_ok (wallets L)"
    "allocs_ok (wallets L) (wl_nextID L) (allocations L)"
    "leaves_ok (wallets L) (allocations L)" "counters_ok (wallets L) (allocations L)"
  using assms by (simp_all add: wf_ledger_def)

lemma wf_counter:
  "wf_ledger L \<Longrightarrow> w < length (wallets L) \<Longrightarrow>
     unat (counter st (wallets L ! w)) = asum (allocations L) (\<lambda>a. a_state a = st \<and> charged (wallets L) w a)"
  by (simp add: wf_ledger_def counters_ok_def)

lemma wf_bound:
  "wf_ledger L \<Longrightarrow> w < length (wallets L) \<Longrightarrow>
     asum (allocations L) (charged (wallets L) w) \<le> unat (w_cap (wallets L ! w))"
  by (rule charge_bound [OF wf_ledgerD(1-4)])

lemma wf_used:
  assumes "wf_ledger L" and "w < length (wallets L)"
  shows "unat (w_reserved (wallets L ! w)) + unat (w_live (wallets L ! w)) + unat (w_retiring (wallets L ! w)) =
      asum (allocations L) (charged (wallets L) w)"
  using wf_counter [OF assms, of allocationReserved] wf_counter [OF assms, of allocationLive]
    wf_counter [OF assms, of allocationRetiring] asum_split_state [of "allocations L"] by simp

lemma fresh_wallet_simps [simp]:
  "w_parent (fresh_wallet p c) = p" "\<not> w_partitioned (fresh_wallet p c)" "w_cap (fresh_wallet p c) = c"
  "counter st (fresh_wallet p c) = 0"
  by (cases st; simp add: fresh_wallet_def)+

lemma wf_NewWallet: "NewWallet c = Inr L \<Longrightarrow> wf_ledger L"
  by (auto simp: NewWallet_def wf_ledger_def parents_ok_def caps_ok_def allocs_ok_def
      leaves_ok_def counters_ok_def split: if_splits)

text \<open>
  The invariant of a ledger whose wallets were only charged: the structural parts are
  about the new entries, and each counter of each wallet has to match its sum.
\<close>

lemma wf_recharged:
  assumes "wf_ledger L" and "same_shape (wallets L) ws'"
    and "allocs_ok (wallets L) nx A'" and "leaves_ok (wallets L) A'"
    and "\<And>i st. i < length (wallets L) \<Longrightarrow>
      unat (counter st (ws' ! i)) = asum A' (\<lambda>a. a_state a = st \<and> charged (wallets L) i a)"
    and "wallets L' = ws'" and "wl_nextID L' = nx" and "allocations L' = A'"
  shows "wf_ledger L'"
proof -
  have "counters_ok ws' A'"
    using assms(2,5) same_shape_asum [OF assms(2,3)] by (simp add: counters_ok_def same_shape_def)
  then show ?thesis
    using same_shape_oks [OF assms(2)] wf_ledgerD [OF assms(1)] assms(3,4,6-8) by (simp add: wf_ledger_def)
qed

lemma checkCapacity_OK:
  assumes "wf_ledger L" and "w < length (wallets L)" and "checkCapacityLocked w b n L = Inr u"
  shows "\<not> w_partitioned (wallets L ! w)"
    and "asum (allocations L) (charged (wallets L) w) + unat b \<le> unat (w_cap (wallets L ! w))"
    and "unat (wl_nextID L) + unat n < 2 ^ 64"
proof -
  let ?W = "wallets L ! w"
  let ?used = "w_reserved ?W + w_live ?W + w_retiring ?W"
  show "\<not> w_partitioned ?W" and "unat (wl_nextID L) + unat n < 2 ^ 64"
    using assms(3) by (auto simp: checkCapacityLocked_def Let_def add_check_iff split: if_splits)
  have le: "unat (w_reserved ?W) + unat (w_live ?W) + unat (w_retiring ?W) \<le> unat (w_cap ?W)"
    using wf_used [OF assms(1,2)] wf_bound [OF assms(1,2)] by simp
  then have used: "unat ?used = asum (allocations L) (charged (wallets L) w)"
    using wf_used [OF assms(1,2)] unat_bound [of "w_cap ?W"]
    by (simp add: unat_add_no_wrap)
  have "b \<le> w_cap ?W - ?used" and "?used \<le> w_cap ?W"
    using assms(3) by (auto simp: checkCapacityLocked_def Let_def split: if_splits)
  then show "asum (allocations L) (charged (wallets L) w) + unat b \<le> unat (w_cap ?W)"
    using used by (simp add: word_le_nat_alt unat_sub_no_wrap)
qed

lemma claim_wf:
  assumes wf: "wf_ledger L" and w: "w < length (wallets L)" and b: "b \<noteq> 0"
    and leaf: "\<not> w_partitioned (wallets L ! w)"
    and room: "asum (allocations L) (charged (wallets L) w) + unat b \<le> unat (w_cap (wallets L ! w))"
    and ids: "wl_nextID L \<noteq> MaxUint64"
  shows "wf_ledger (snd (claimLocked w b L))"
proof -
  let ?ws = "wallets L" and ?A = "allocations L" and ?k = "wl_nextID L + 1"
  let ?a = "\<lparr>a_owner = w, a_bytes = b, a_state = allocationReserved\<rparr>"
  let ?A' = "?A(?k \<mapsto> ?a)"
  note D = wf_ledgerD [OF wf]
  have k: "?A ?k = None"
    using D(3) u64_less_Suc [OF ids] unfolding allocs_ok_def by (metis leD not_Some_eq)
  have fin: "finite (dom ?A)" using D(3) by (simp add: allocs_ok_def)
  have sums: "asum ?A' Q = asum ?A Q + (if Q ?a then unat b else 0)" for Q
    using asum_insert [OF fin k, of ?a Q] by simp
  have allocs: "allocs_ok ?ws ?k ?A'"
    using D(3) u64_less_Suc [OF ids] u64_Suc_neq_0 [OF ids] w leaf b
    by (auto simp: allocs_ok_def word_gt_0 intro: order_trans [OF _ less_imp_le])
  have leaves: "leaves_ok ?ws ?A'"
    unfolding leaves_ok_def
  proof (intro allI impI)
    fix v assume v: "v < length ?ws" "\<not> w_partitioned (?ws ! v)"
    have "charged ?ws v ?a \<Longrightarrow> v = w"
      using chain_partitioned [OF D(1) w] v(2) by (auto simp: charged_def)
    then show "asum ?A' (charged ?ws v) \<le> unat (w_cap (?ws ! v))"
      using sums [of "charged ?ws v"] room D(4) v by (auto simp: leaves_ok_def)
  qed
  have "unat (counter st (walk_owners (add_to allocationReserved b) ?ws w ! i)) =
      asum ?A' (\<lambda>a. a_state a = st \<and> charged ?ws i a)" if i: "i < length ?ws" for i st
  proof -
    have "asum ?A' (\<lambda>a. a_state a = st \<and> charged ?ws i a) < 2 ^ 64"
      using asum_mono [of "\<lambda>a. a_state a = st \<and> charged ?ws i a" "charged ?ws i" ?A']
        charge_bound [OF D(1,2) allocs leaves i] unat_bound [of "w_cap (?ws ! i)"] by auto
    then show ?thesis
      using sums [of "\<lambda>a. a_state a = st \<and> charged ?ws i a"] wf_counter [OF wf i, of st]
      by (auto simp: walk_counter [OF w i] charged_def unat_add_no_wrap)
  qed
  then show ?thesis
    by (rule wf_recharged [OF wf walk_shape(1) [OF w] allocs leaves])
      (simp_all add: claimLocked_def addChargeLocked_def Let_def)
qed

lemma Reserve_wf:
  assumes "wf_ledger L" and "w < length (wallets L)" and "Reserve (Some w) b L = Inr (r, L')"
  shows "wf_ledger L'"
proof -
  from assms(3) have b: "b \<noteq> 0" and chk: "checkCapacityLocked w b 1 L = Inr ()"
    and L': "L' = snd (claimLocked w b L)"
    by (auto simp: Reserve_def split: if_splits sum.splits)
  note ok = checkCapacity_OK [OF assms(1,2) chk]
  have "wl_nextID L \<noteq> MaxUint64" using ok(3) by auto
  with claim_wf [OF assms(1,2) b ok(1,2)] L' show ?thesis by simp
qed

text \<open>The entry a valid token names, as the terminal calls and transitions find it.\<close>

lemma finish_Inr:
  "finish st err r L = Inr L' \<longleftrightarrow>
     (\<exists>w e. token_wallet r = Some w \<and> allocations L (Reservation_ID r) = Some e \<and> a_owner e = w \<and>
        a_state e = st \<and>
        L' = L\<lparr>wallets := walk_owners (remove_from st (a_bytes e)) (wallets L) w,
               allocations := (allocations L)(Reservation_ID r := None)\<rparr>)"
  by (auto simp: finish_def removeChargeLocked_def Let_def split: option.splits if_splits)

lemma transition_Inr:
  "transition st st' r L = Inr L' \<longleftrightarrow>
     (\<exists>w e. token_wallet r = Some w \<and> allocations L (Reservation_ID r) = Some e \<and> a_owner e = w \<and>
        a_state e = st \<and>
        L' = L\<lparr>wallets := walk_owners (add_to st' (a_bytes e))
                 (walk_owners (remove_from st (a_bytes e)) (wallets L) w) w,
               allocations := (allocations L)(Reservation_ID r \<mapsto> e\<lparr>a_state := st'\<rparr>)\<rparr>)"
  by (auto simp: transition_def addChargeLocked_def removeChargeLocked_def Let_def
      split: option.splits if_splits)

lemma finish_wf:
  assumes wf: "wf_ledger L" and fin: "finish st err r L = Inr L'"
  shows "wf_ledger L'"
proof -
  let ?ws = "wallets L" and ?A = "allocations L" and ?k = "Reservation_ID r"
  from fin obtain e where e: "?A ?k = Some e" "a_state e = st"
    and L': "L' = L\<lparr>wallets := walk_owners (remove_from st (a_bytes e)) ?ws (a_owner e), allocations := ?A(?k := None)\<rparr>"
    by (auto simp: finish_Inr)
  note D = wf_ledgerD [OF wf]
  have o: "a_owner e < length ?ws" using D(3) e(1) by (auto simp: allocs_ok_def)
  have sums: "asum (?A(?k := None)) Q + (if Q e then unat (a_bytes e) else 0) = asum ?A Q" for Q
    using D(3) e(1) by (intro asum_delete) (auto simp: allocs_ok_def)
  have allocs: "allocs_ok ?ws (wl_nextID L) (?A(?k := None))" using D(3) by (auto simp: allocs_ok_def)
  have "asum (?A(?k := None)) Q \<le> asum ?A Q" for Q using sums [of Q] by simp
  then have leaves: "leaves_ok ?ws (?A(?k := None))"
    using D(4) by (fastforce simp: leaves_ok_def intro: order_trans)
  have "unat (counter st' (walk_owners (remove_from st (a_bytes e)) ?ws (a_owner e) ! i)) =
      asum (?A(?k := None)) (\<lambda>a. a_state a = st' \<and> charged ?ws i a)" if i: "i < length ?ws" for i st'
    using sums [of "\<lambda>a. a_state a = st' \<and> charged ?ws i a"] wf_counter [OF wf i, of st'] e(2)
    by (auto simp: walk_counter [OF o i] charged_def unat_sub_no_wrap)
  then show ?thesis
    by (rule wf_recharged [OF wf walk_shape(2) [OF o] allocs leaves]) (simp_all add: L')
qed

lemma transition_wf:
  assumes wf: "wf_ledger L" and tr: "transition st st2 r L = Inr L'" and neq: "st \<noteq> st2"
  shows "wf_ledger L'"
proof -
  let ?ws = "wallets L" and ?A = "allocations L" and ?k = "Reservation_ID r"
  from tr obtain e where e: "?A ?k = Some e" "a_state e = st"
    and L': "L' = L\<lparr>wallets := walk_owners (add_to st2 (a_bytes e))
          (walk_owners (remove_from st (a_bytes e)) ?ws (a_owner e)) (a_owner e),
        allocations := ?A(?k \<mapsto> e\<lparr>a_state := st2\<rparr>)\<rparr>"
    by (auto simp: transition_Inr)
  let ?e' = "e\<lparr>a_state := st2\<rparr>" and ?b = "a_bytes e" and ?w = "a_owner e"
  let ?ws1 = "walk_owners (remove_from st ?b) ?ws ?w"
  let ?A' = "?A(?k \<mapsto> ?e')"
  note D = wf_ledgerD [OF wf]
  have o: "?w < length ?ws" using D(3) e(1) by (auto simp: allocs_ok_def)
  have sums: "asum ?A' Q + (if Q e then unat ?b else 0) = asum ?A Q + (if Q ?e' then unat ?b else 0)" for Q
    using asum_update [of ?A ?k e ?e' Q] D(3) e(1) by (simp add: allocs_ok_def)
  have ch: "charged ?ws i ?e' = charged ?ws i e" for i by (simp add: charged_def)
  have tot: "asum ?A' (charged ?ws i) = asum ?A (charged ?ws i)" for i
    using sums [of "charged ?ws i"] ch by simp
  have allocs: "allocs_ok ?ws (wl_nextID L) ?A'" using D(3) e(1) by (auto simp: allocs_ok_def)
  have leaves: "leaves_ok ?ws ?A'" using D(4) tot by (simp add: leaves_ok_def)
  have shape1: "same_shape ?ws ?ws1" using o by (rule walk_shape)
  then have ch1: "chain ?ws1 ?w = chain ?ws ?w" using o by (rule same_shape_chain)
  have o1: "?w < length ?ws1" using o by simp
  have "unat (counter st' (walk_owners (add_to st2 ?b) ?ws1 ?w ! i)) =
      asum ?A' (\<lambda>a. a_state a = st' \<and> charged ?ws i a)" if i: "i < length ?ws" for i st'
  proof -
    let ?Q = "\<lambda>a. a_state a = st' \<and> charged ?ws i a"
    have "asum ?A' ?Q < 2 ^ 64"
      using asum_mono [of ?Q "charged ?ws i" ?A'] charge_bound [OF D(1,2) allocs leaves i]
        unat_bound [of "w_cap (?ws ! i)"] by auto
    moreover have "i < length ?ws1" using i by simp
    ultimately show ?thesis
      using sums [of ?Q] wf_counter [OF wf i, of st'] e(2) neq
      by (auto simp: walk_counter(1) [OF o1] walk_counter(2) [OF o i] ch1 charged_def unat_sub_no_wrap
          unat_add_no_wrap)
  qed
  then show ?thesis
    by (rule wf_recharged [OF wf same_shape_trans [OF shape1 walk_shape(1) [OF o1]] allocs leaves])
      (simp_all add: L')
qed

lemma partition_total_Inr:
  "partition_total lim t cs = Inr t' \<Longrightarrow> t \<le> lim \<Longrightarrow>
     unat t' = unat t + sum_list (map unat cs) \<and> t' \<le> lim \<and> 0 \<notin> set cs"
proof (induction cs arbitrary: t)
  case Nil
  then show ?case by simp
next
  case (Cons c cs)
  then have c: "c \<noteq> 0" "c \<le> lim - t" and rest: "partition_total lim (t + c) cs = Inr t'"
    by (auto split: if_splits)
  have "unat t + unat c \<le> unat lim"
    using c(2) Cons.prems(2) by (simp add: word_le_nat_alt unat_sub_no_wrap)
  then have "unat (t + c) = unat t + unat c" "t + c \<le> lim"
    using unat_bound [of lim] by (simp_all add: unat_add_no_wrap word_le_nat_alt)
  with Cons.IH [OF rest] c(1) show ?case by simp
qed

text \<open>No identifier has been issued, so the ledger is empty and every counter is zero.\<close>

lemma fresh_ledger:
  assumes "wf_ledger L" and "wl_nextID L = 0"
  shows "allocations L = Map.empty"
    and "w < length (wallets L) \<Longrightarrow> counter st (wallets L ! w) = 0"
proof -
  show *: "allocations L = Map.empty"
  proof
    fix k
    show "allocations L k = None"
      using wf_ledgerD(3) [OF assms(1)] assms(2) by (cases "allocations L k") (auto simp: allocs_ok_def)
  qed
  show "w < length (wallets L) \<Longrightarrow> counter st (wallets L ! w) = 0"
    using wf_counter [OF assms(1), of w st] * by (simp add: unat_eq_0)
qed

lemma sum_nth_image: "(\<Sum>c \<in> {n ..< n + length xs}. f (xs ! (c - n))) = sum_list (map f xs)"
proof -
  have "(\<Sum>c \<in> {n ..< n + length xs}. f (xs ! (c - n))) = (\<Sum>i \<in> {0 ..< length xs}. f (xs ! i))"
    by (rule sum.reindex_bij_witness [of _ "\<lambda>i. n + i" "\<lambda>c. c - n"]) auto
  also have "\<dots> = sum_list (map f xs)" by (simp add: sum_list_sum_nth)
  finally show ?thesis .
qed

lemma Partition_Inr:
  assumes "Partition (Some a) cs L = Inr (addrs, L')"
  shows "cs \<noteq> []" "\<not> w_partitioned (wallets L ! a)" "wl_nextID L = 0"
    and "unat (w_cap (wallets L ! a)) = sum_list (map unat cs)"
    and "addrs = [length (wallets L) ..< length (wallets L) + length cs]"
    and "L' = L\<lparr>wallets := (wallets L)[a := (wallets L ! a)\<lparr>w_partitioned := True\<rparr>] @ map (fresh_wallet (Some a)) cs\<rparr>"
  using assms partition_total_Inr [of "w_cap (wallets L ! a)" 0 cs]
  by (auto simp: Partition_def Let_def split: if_splits sum.splits)

lemma Partition_wf:
  assumes wf: "wf_ledger L" and a: "a < length (wallets L)" and pt: "Partition (Some a) cs L = Inr (addrs, L')"
  shows "wf_ledger L'"
proof -
  let ?ws = "wallets L" and ?n = "length (wallets L)"
  let ?ws' = "?ws[a := (?ws ! a)\<lparr>w_partitioned := True\<rparr>] @ map (fresh_wallet (Some a)) cs"
  note P = Partition_Inr [OF pt] and D = wf_ledgerD [OF wf]
  note F = fresh_ledger [OF wf P(3)]
  have nth: "?ws' ! i = (if i < ?n then (if i = a then (?ws ! a)\<lparr>w_partitioned := True\<rparr> else ?ws ! i)
      else fresh_wallet (Some a) (cs ! (i - ?n)))" if "i < ?n + length cs" for i
    using that by (auto simp: nth_append)
  have parents: "parents_ok ?ws'"
    using D(1) a by (auto simp: parents_ok_def nth nth_list_update split: if_splits)
  have nochild: "children_of ?ws a = {}"
    using D(1) P(2) by (auto simp: children_of_def parents_ok_def)
  have children: "children_of ?ws' v = (if v = a then {?n ..< ?n + length cs} else children_of ?ws v)" for v
    using nochild by (auto simp: children_of_def nth nth_list_update split: if_splits)
  have caps: "caps_ok ?ws'"
    unfolding caps_ok_def
  proof (intro allI impI)
    fix v assume v: "v < length ?ws'" "w_partitioned (?ws' ! v)"
    show "(\<Sum>c \<in> children_of ?ws' v. unat (w_cap (?ws' ! c))) = unat (w_cap (?ws' ! v))"
    proof (cases "v = a")
      case True
      have "(\<Sum>c \<in> {?n ..< ?n + length cs}. unat (w_cap (?ws' ! c))) =
          (\<Sum>c \<in> {?n ..< ?n + length cs}. unat (cs ! (c - ?n)))"
        by (intro sum.cong) (auto simp: nth)
      then show ?thesis using True a P(4) by (simp add: children nth sum_nth_image)
    next
      case False
      then have "v < ?n" "w_partitioned (?ws ! v)" using v by (auto simp: nth split: if_splits)
      moreover have "(\<Sum>c \<in> children_of ?ws v. unat (w_cap (?ws' ! c))) = (\<Sum>c \<in> children_of ?ws v. unat (w_cap (?ws ! c)))"
        by (intro sum.cong) (auto simp: children_of_def nth)
      ultimately show ?thesis using False D(2) by (simp add: children nth caps_ok_def)
    qed
  qed
  have "counter st ((?ws ! a)\<lparr>w_partitioned := True\<rparr>) = counter st (?ws ! a)" for st by (cases st) auto
  then have "counters_ok ?ws' Map.empty" using F(2) by (simp add: counters_ok_def nth)
  with parents caps show ?thesis
    by (simp add: P(6) F(1) wf_ledger_def allocs_ok_def leaves_ok_def)
qed

section \<open>What each operation charges\<close>

definition used_bytes :: "nat \<Rightarrow> walletLedger \<Rightarrow> nat" where
  "used_bytes w L = asum (allocations L) (charged (wallets L) w)"

text \<open>The state and the bytes of the allocation that an identifier names in a wallet.\<close>

definition token_status :: "nat \<Rightarrow> u64 \<Rightarrow> walletLedger \<Rightarrow> (allocationState \<times> u64) option" where
  "token_status w k L =
     (case allocations L k of
        None \<Rightarrow> None
      | Some e \<Rightarrow> if a_owner e = w then Some (a_state e, a_bytes e) else None)"

definition token_of :: "nat \<Rightarrow> u64 \<Rightarrow> Reservation option" where
  "token_of w k = Some \<lparr>r_wallet = Some w, r_id = k\<rparr>"

lemma token_of_simps [simp]: "token_wallet (token_of w k) = Some w" "Reservation_ID (token_of w k) = k"
  by (simp_all add: token_of_def token_wallet_def Reservation_ID_def)

lemma same_shape_sym: "same_shape ws ws' \<Longrightarrow> same_shape ws' ws"
  by (simp add: same_shape_def)

lemma used_bytes_shape:
  assumes "wf_ledger L'" and "same_shape ws (wallets L')"
  shows "used_bytes w L' = asum (allocations L') (charged ws w)"
  using same_shape_asum [OF same_shape_sym [OF assms(2)] wf_ledgerD(3) [OF assms(1)], of "\<lambda>_. True"]
  by (simp add: used_bytes_def)

lemma allocation_owner:
  "wf_ledger L \<Longrightarrow> allocations L k = Some e \<Longrightarrow> a_owner e < length (wallets L)"
  by (auto simp: wf_ledger_def allocs_ok_def)

lemma finish_shape:
  "wf_ledger L \<Longrightarrow> finish st err r L = Inr L' \<Longrightarrow> same_shape (wallets L) (wallets L')"
  by (auto simp: finish_Inr dest: allocation_owner intro!: walk_shape(2))

lemma transition_shape:
  assumes "wf_ledger L" and "transition st st' r L = Inr L'"
  shows "same_shape (wallets L) (wallets L')"
proof -
  from assms(2) obtain e where e: "allocations L (Reservation_ID r) = Some e"
    and L': "wallets L' = walk_owners (add_to st' (a_bytes e))
        (walk_owners (remove_from st (a_bytes e)) (wallets L) (a_owner e)) (a_owner e)"
    by (auto simp: transition_Inr)
  from assms(1) e have "a_owner e < length (wallets L)" by (rule allocation_owner)
  then show ?thesis unfolding L' by (intro same_shape_trans [OF walk_shape(2) walk_shape(1)]) auto
qed

lemma finish_used:
  assumes wf: "wf_ledger L" and st: "token_status w k L = Some (st, b)"
  shows "\<exists>L'. finish st err (token_of w k) L = Inr L' \<and> wf_ledger L' \<and>
     same_shape (wallets L) (wallets L') \<and> used_bytes w L = used_bytes w L' + unat b \<and>
     token_status w k L' = None \<and> (\<forall>j. j \<noteq> k \<longrightarrow> token_status w j L' = token_status w j L)"
proof -
  from st obtain e where e: "allocations L k = Some e" "a_owner e = w" "a_state e = st" "a_bytes e = b"
    by (auto simp: token_status_def split: option.splits if_splits)
  then obtain L' where fin: "finish st err (token_of w k) L = Inr L'"
    and A': "allocations L' = (allocations L)(k := None)"
    using finish_Inr [of st err "token_of w k" L] by auto
  have wf': "wf_ledger L'" using wf fin by (rule finish_wf)
  have shape: "same_shape (wallets L) (wallets L')" using wf fin by (rule finish_shape)
  have "asum (allocations L') (charged (wallets L) w) + unat b = asum (allocations L) (charged (wallets L) w)"
    using asum_delete [of "allocations L" k e "charged (wallets L) w"] wf_ledgerD(3) [OF wf] e
    by (simp add: A' allocs_ok_def charged_def)
  then have "used_bytes w L = used_bytes w L' + unat b"
    by (simp add: used_bytes_shape [OF wf' shape]) (simp add: used_bytes_def)
  with fin wf' shape show ?thesis by (simp add: A' token_status_def)
qed

lemma transition_used:
  assumes wf: "wf_ledger L" and st: "token_status w k L = Some (st, b)" and neq: "st \<noteq> st'"
  shows "\<exists>L'. transition st st' (token_of w k) L = Inr L' \<and> wf_ledger L' \<and>
     same_shape (wallets L) (wallets L') \<and> used_bytes w L' = used_bytes w L \<and>
     token_status w k L' = Some (st', b) \<and> (\<forall>j. j \<noteq> k \<longrightarrow> token_status w j L' = token_status w j L)"
proof -
  from st obtain e where e: "allocations L k = Some e" "a_owner e = w" "a_state e = st" "a_bytes e = b"
    by (auto simp: token_status_def split: option.splits if_splits)
  then obtain L' where tr: "transition st st' (token_of w k) L = Inr L'"
    and A': "allocations L' = (allocations L)(k \<mapsto> e\<lparr>a_state := st'\<rparr>)"
    using transition_Inr [of st st' "token_of w k" L] by auto
  have wf': "wf_ledger L'" using wf tr neq by (rule transition_wf)
  have shape: "same_shape (wallets L) (wallets L')" using wf tr by (rule transition_shape)
  have "asum (allocations L') (charged (wallets L) w) = asum (allocations L) (charged (wallets L) w)"
    using asum_update [of "allocations L" k e "e\<lparr>a_state := st'\<rparr>" "charged (wallets L) w"]
      wf_ledgerD(3) [OF wf] e
    by (simp add: A' allocs_ok_def charged_def)
  then have "used_bytes w L' = used_bytes w L"
    by (simp add: used_bytes_shape [OF wf' shape]) (simp add: used_bytes_def)
  with tr wf' shape e show ?thesis by (simp add: A' token_status_def)
qed

lemma finish_refused:
  "token_status w k L = None \<or> (\<exists>st' b. token_status w k L = Some (st', b) \<and> st' \<noteq> st) \<Longrightarrow>
     finish st err (token_of w k) L = Inl err"
  by (auto simp: finish_def token_status_def split: option.splits if_splits)

lemma transition_refused:
  "token_status w k L = None \<or> (\<exists>st' b. token_status w k L = Some (st', b) \<and> st' \<noteq> st) \<Longrightarrow>
     transition st st2 (token_of w k) L = Inl InvalidTransition"
  by (auto simp: transition_def token_status_def split: option.splits if_splits)

lemma claim_used:
  assumes "wf_ledger L" and "wf_ledger (snd (claimLocked w b L))" and "w < length (wallets L)"
    and "wl_nextID L \<noteq> MaxUint64"
  shows "fst (claimLocked w b L) = \<lparr>r_wallet = Some w, r_id = wl_nextID L + 1\<rparr>"
    and "same_shape (wallets L) (wallets (snd (claimLocked w b L)))"
    and "wl_nextID (snd (claimLocked w b L)) = wl_nextID L + 1"
    and "used_bytes w (snd (claimLocked w b L)) = used_bytes w L + unat b"
    and "token_status w (wl_nextID L + 1) L = None"
    and "token_status w (wl_nextID L + 1) (snd (claimLocked w b L)) = Some (allocationReserved, b)"
    and "j \<noteq> wl_nextID L + 1 \<Longrightarrow> token_status w j (snd (claimLocked w b L)) = token_status w j L"
proof -
  let ?L' = "snd (claimLocked w b L)" and ?k = "wl_nextID L + 1"
  show "fst (claimLocked w b L) = \<lparr>r_wallet = Some w, r_id = ?k\<rparr>"
    and nx: "wl_nextID ?L' = ?k"
    by (simp_all add: claimLocked_def addChargeLocked_def Let_def)
  show shape: "same_shape (wallets L) (wallets ?L')"
    using walk_shape(1) [OF assms(3)] by (simp add: claimLocked_def addChargeLocked_def Let_def)
  have A': "allocations ?L' = (allocations L)(?k \<mapsto> \<lparr>a_owner = w, a_bytes = b, a_state = allocationReserved\<rparr>)"
    by (simp add: claimLocked_def addChargeLocked_def Let_def)
  have none: "allocations L ?k = None"
    using wf_ledgerD(3) [OF assms(1)] u64_less_Suc [OF assms(4)]
    unfolding allocs_ok_def by (metis leD not_Some_eq)
  show "used_bytes w ?L' = used_bytes w L + unat b"
    using asum_insert [of "allocations L" ?k "\<lparr>a_owner = w, a_bytes = b, a_state = allocationReserved\<rparr>"]
      wf_ledgerD(3) [OF assms(1)] none
    by (simp add: used_bytes_shape [OF assms(2) shape] A' allocs_ok_def charged_def) (simp add: used_bytes_def)
  show "token_status w ?k L = None" "token_status w ?k ?L' = Some (allocationReserved, b)"
    and "j \<noteq> ?k \<Longrightarrow> token_status w j ?L' = token_status w j L"
    by (simp_all add: token_status_def none A')
qed

lemma checkCapacity_iff:
  assumes "wf_ledger L" and "w < length (wallets L)"
  shows "checkCapacityLocked w b n L = Inr () \<longleftrightarrow>
     \<not> w_partitioned (wallets L ! w) \<and> used_bytes w L + unat b \<le> unat (w_cap (wallets L ! w)) \<and>
     unat (wl_nextID L) + unat n < 2 ^ 64"
proof -
  let ?W = "wallets L ! w"
  let ?used = "w_reserved ?W + w_live ?W + w_retiring ?W"
  have le: "unat (w_reserved ?W) + unat (w_live ?W) + unat (w_retiring ?W) \<le> unat (w_cap ?W)"
    using wf_used [OF assms] wf_bound [OF assms] by simp
  then have used: "unat ?used = used_bytes w L" "?used \<le> w_cap ?W" "w_reserved ?W \<le> ?used"
    using wf_used [OF assms] unat_bound [of "w_cap ?W"]
    by (simp_all add: unat_add_no_wrap word_le_nat_alt used_bytes_def)
  then have "b \<le> w_cap ?W - ?used \<longleftrightarrow> used_bytes w L + unat b \<le> unat (w_cap ?W)"
    by (auto simp: word_le_nat_alt unat_sub_no_wrap)
  with used(2,3) show ?thesis
    by (auto simp: checkCapacityLocked_def Let_def add_check_iff not_less)
qed

lemma Reserve_used:
  assumes "wf_ledger L" and "w < length (wallets L)" and "Reserve (Some w) b L = Inr (r, L')"
  shows "wf_ledger L'" "same_shape (wallets L) (wallets L')" "r = \<lparr>r_wallet = Some w, r_id = wl_nextID L + 1\<rparr>"
    and "used_bytes w L' = used_bytes w L + unat b"
    and "token_status w (r_id r) L = None" "token_status w (r_id r) L' = Some (allocationReserved, b)"
    and "j \<noteq> r_id r \<Longrightarrow> token_status w j L' = token_status w j L"
proof -
  from assms(3) have chk: "checkCapacityLocked w b 1 L = Inr ()" and cl: "claimLocked w b L = (r, L')"
    by (auto simp: Reserve_def split: if_splits sum.splits)
  have ids: "wl_nextID L \<noteq> MaxUint64"
    using checkCapacity_OK(3) [OF assms(1,2) chk] by auto
  show wf': "wf_ledger L'" using assms by (rule Reserve_wf)
  from claim_used [OF assms(1) _ assms(2) ids, of b] cl wf'
  show "same_shape (wallets L) (wallets L')" "r = \<lparr>r_wallet = Some w, r_id = wl_nextID L + 1\<rparr>"
    "used_bytes w L' = used_bytes w L + unat b"
    "token_status w (r_id r) L = None" "token_status w (r_id r) L' = Some (allocationReserved, b)"
    "j \<noteq> r_id r \<Longrightarrow> token_status w j L' = token_status w j L"
    by auto
qed

section \<open>The contract of a reservation pool\<close>

text \<open>
  What a client (the job pool) relies on: a reservation is admitted with its bytes
  charged, it is published, retired and acknowledged in this order, each step is refused
  from any other state, and only the terminal steps return the bytes. Tokens are named by
  their identifier; \<open>status\<close> is the state and size a live token has.
\<close>

locale reservation_pool =
  fixes inv :: "'s \<Rightarrow> bool"
    and used :: "'s \<Rightarrow> nat"
    and status :: "'r \<Rightarrow> 's \<Rightarrow> (allocationState \<times> u64) option"
    and reserve :: "u64 \<Rightarrow> 's \<Rightarrow> 'e + ('r \<times> 's)"
    and publish :: "'r \<Rightarrow> 's \<Rightarrow> 'e + 's"
    and cancel :: "'r \<Rightarrow> 's \<Rightarrow> 'e + 's"
    and retire :: "'r \<Rightarrow> 's \<Rightarrow> 'e + 's"
    and acknowledge :: "'r \<Rightarrow> 's \<Rightarrow> 'e + 's"
  assumes reserve_admits: "inv s \<Longrightarrow> reserve b s = Inr (r, s') \<Longrightarrow>
      inv s' \<and> used s' = used s + unat b \<and> status r s = None \<and> status r s' = Some (allocationReserved, b) \<and>
      (\<forall>q. q \<noteq> r \<longrightarrow> status q s' = status q s)"
    and publish_moves: "inv s \<Longrightarrow> status r s = Some (allocationReserved, b) \<Longrightarrow>
      \<exists>s'. publish r s = Inr s' \<and> inv s' \<and> used s' = used s \<and> status r s' = Some (allocationLive, b) \<and>
        (\<forall>q. q \<noteq> r \<longrightarrow> status q s' = status q s)"
    and retire_moves: "inv s \<Longrightarrow> status r s = Some (allocationLive, b) \<Longrightarrow>
      \<exists>s'. retire r s = Inr s' \<and> inv s' \<and> used s' = used s \<and> status r s' = Some (allocationRetiring, b) \<and>
        (\<forall>q. q \<noteq> r \<longrightarrow> status q s' = status q s)"
    and cancel_returns: "inv s \<Longrightarrow> status r s = Some (allocationReserved, b) \<Longrightarrow>
      \<exists>s'. cancel r s = Inr s' \<and> inv s' \<and> used s = used s' + unat b \<and> status r s' = None \<and>
        (\<forall>q. q \<noteq> r \<longrightarrow> status q s' = status q s)"
    and acknowledge_returns: "inv s \<Longrightarrow> status r s = Some (allocationRetiring, b) \<Longrightarrow>
      \<exists>s'. acknowledge r s = Inr s' \<and> inv s' \<and> used s = used s' + unat b \<and> status r s' = None \<and>
        (\<forall>q. q \<noteq> r \<longrightarrow> status q s' = status q s)"
    and cancel_refused: "status r s = None \<or> (\<exists>st b. status r s = Some (st, b) \<and> st \<noteq> allocationReserved) \<Longrightarrow>
      \<exists>e. cancel r s = Inl e"
    and acknowledge_refused: "status r s = None \<or> (\<exists>st b. status r s = Some (st, b) \<and> st \<noteq> allocationRetiring) \<Longrightarrow>
      \<exists>e. acknowledge r s = Inl e"
    and retire_refused: "status r s = None \<or> (\<exists>st b. status r s = Some (st, b) \<and> st \<noteq> allocationLive) \<Longrightarrow>
      \<exists>e. retire r s = Inl e"
begin

lemma job_lifecycle:
  assumes "inv s" and "reserve b s = Inr (r, s1)"
  shows "\<exists>s2 s3 s4. publish r s1 = Inr s2 \<and> retire r s2 = Inr s3 \<and> acknowledge r s3 = Inr s4 \<and>
    inv s4 \<and> used s4 = used s \<and> (\<forall>q. status q s4 = status q s) \<and> (\<exists>e. acknowledge r s4 = Inl e)"
proof -
  note s1 = reserve_admits [OF assms]
  from publish_moves [of s1 r b] s1 obtain s2 where s2: "publish r s1 = Inr s2" "inv s2" "used s2 = used s1"
      "status r s2 = Some (allocationLive, b)" "\<And>q. q \<noteq> r \<Longrightarrow> status q s2 = status q s1" by blast
  from retire_moves [OF s2(2,4)] obtain s3 where s3: "retire r s2 = Inr s3" "inv s3" "used s3 = used s2"
      "status r s3 = Some (allocationRetiring, b)" "\<And>q. q \<noteq> r \<Longrightarrow> status q s3 = status q s2" by blast
  from acknowledge_returns [OF s3(2,4)] obtain s4 where s4: "acknowledge r s3 = Inr s4" "inv s4"
      "used s3 = used s4 + unat b" "status r s4 = None" "\<And>q. q \<noteq> r \<Longrightarrow> status q s4 = status q s3" by blast
  have "status q s4 = status q s" for q
    using s1 s2(5) s3(5) s4(4,5) by (cases "q = r") auto
  moreover have "used s4 = used s" using s1 s2(3) s3(3) s4(3) by simp
  ultimately show ?thesis using s2(1) s3(1) s4 acknowledge_refused [of r s4] by auto
qed

lemma cancel_undoes_reserve:
  assumes "inv s" and "reserve b s = Inr (r, s1)"
  shows "\<exists>s2. cancel r s1 = Inr s2 \<and> inv s2 \<and> used s2 = used s \<and> (\<forall>q. status q s2 = status q s)"
proof -
  note s1 = reserve_admits [OF assms]
  from cancel_returns [of s1 r b] s1 obtain s2 where "cancel r s1 = Inr s2" "inv s2"
      "used s1 = used s2 + unat b" "status r s2 = None" "\<And>q. q \<noteq> r \<Longrightarrow> status q s2 = status q s1" by blast
  with s1 show ?thesis by (metis add_right_cancel)
qed

lemma published_not_cancelled:
  "inv s \<Longrightarrow> status r s = Some (allocationReserved, b) \<Longrightarrow> publish r s = Inr s' \<Longrightarrow> \<exists>e. cancel r s' = Inl e"
  using publish_moves [of s r b] cancel_refused [of r s'] by auto

end

text \<open>The ledger seen from one of its wallets.\<close>

definition wallet_inv :: "nat \<Rightarrow> walletLedger \<Rightarrow> bool" where
  "wallet_inv w L \<longleftrightarrow> wf_ledger L \<and> w < length (wallets L)"

definition reserve_id :: "nat \<Rightarrow> u64 \<Rightarrow> walletLedger \<Rightarrow> membudget_error + (u64 \<times> walletLedger)" where
  "reserve_id w b L = (case Reserve (Some w) b L of Inl e \<Rightarrow> Inl e | Inr (r, L') \<Rightarrow> Inr (r_id r, L'))"

interpretation budget: reservation_pool "wallet_inv w" "used_bytes w" "token_status w" "reserve_id w"
    "\<lambda>k. Publish (token_of w k)" "\<lambda>k. Cancel (token_of w k)"
    "\<lambda>k. Retire (token_of w k)" "\<lambda>k. Acknowledge (token_of w k)"
  for w :: nat
proof (unfold_locales, goal_cases)
  case (1 L b k L')
  then obtain r where r: "Reserve (Some w) b L = Inr (r, L')" "k = r_id r"
    by (auto simp: reserve_id_def split: sum.splits)
  from 1(1) have wf: "wf_ledger L" "w < length (wallets L)" by (simp_all add: wallet_inv_def)
  note R = Reserve_used [OF wf r(1)]
  show ?case using R wf(2) r(2) by (simp add: wallet_inv_def same_shape_def)
next
  case (2 L k b)
  then show ?case
    using transition_used [of L w k allocationReserved b allocationLive]
    by (auto simp: wallet_inv_def Publish_def same_shape_def)
next
  case (3 L k b)
  then show ?case
    using transition_used [of L w k allocationLive b allocationRetiring]
    by (auto simp: wallet_inv_def Retire_def same_shape_def)
next
  case (4 L k b)
  then show ?case
    using finish_used [of L w k allocationReserved b CancelNeedsReserved]
    by (auto simp: wallet_inv_def Cancel_def same_shape_def)
next
  case (5 L k b)
  then show ?case
    using finish_used [of L w k allocationRetiring b AckNeedsRetiring]
    by (auto simp: wallet_inv_def Acknowledge_def same_shape_def)
next
  case (6 k L)
  then show ?case by (simp add: Cancel_def finish_refused)
next
  case (7 k L)
  then show ?case by (simp add: Acknowledge_def finish_refused)
next
  case (8 k L)
  then show ?case by (simp add: Retire_def transition_refused)
qed

section \<open>Batches\<close>

lemma batch_total_Inr:
  "batch_total t ss = Inr t' \<longleftrightarrow>
     0 \<notin> set ss \<and> unat t + sum_list (map unat ss) < 2 ^ 64 \<and> unat t' = unat t + sum_list (map unat ss)"
proof (induction ss arbitrary: t)
  case Nil
  then show ?case using unat_bound [of t] by (auto simp: word_unat_eq_iff)
next
  case (Cons s ss)
  show ?case
  proof (cases "s = 0 \<or> 2 ^ 64 \<le> unat t + unat s")
    case True
    then show ?thesis by (auto simp: add_check_iff)
  next
    case False
    then have "unat (t + s) = unat t + unat s" by (simp add: unat_add_no_wrap)
    with False Cons.IH [of "t + s"] show ?thesis by (auto simp: add_check_iff)
  qed
qed

lemma claim_all_used:
  assumes "wf_ledger L" and "w < length (wallets L)" and "\<not> w_partitioned (wallets L ! w)"
    and "0 \<notin> set ss" and "used_bytes w L + sum_list (map unat ss) \<le> unat (w_cap (wallets L ! w))"
    and "unat (wl_nextID L) + length ss < 2 ^ 64" and "claim_all w ss L = (rs, L')"
  shows "wf_ledger L' \<and> same_shape (wallets L) (wallets L') \<and>
     used_bytes w L' = used_bytes w L + sum_list (map unat ss) \<and>
     length rs = length ss \<and> unat (wl_nextID L') = unat (wl_nextID L) + length ss"
  using assms
proof (induction ss arbitrary: L rs)
  case Nil
  then show ?case by (simp add: same_shape_def)
next
  case (Cons s ss)
  obtain r L1 where L1: "claimLocked w s L = (r, L1)" by (cases "claimLocked w s L")
  obtain rs' where rs': "claim_all w ss L1 = (rs', L')" "rs = r # rs'"
    using Cons.prems(7) L1 by (auto split: prod.splits)
  have ids: "wl_nextID L \<noteq> MaxUint64" using Cons.prems(6) by auto
  have wf1: "wf_ledger L1"
    using claim_wf [OF Cons.prems(1,2) _ Cons.prems(3) _ ids, of s] Cons.prems(4,5) L1
    by (simp add: used_bytes_def)
  note C = claim_used [OF Cons.prems(1) _ Cons.prems(2) ids, of s, unfolded L1 snd_conv fst_conv, OF wf1]
  have "wf_ledger L' \<and> same_shape (wallets L1) (wallets L') \<and>
     used_bytes w L' = used_bytes w L1 + sum_list (map unat ss) \<and>
     length rs' = length ss \<and> unat (wl_nextID L') = unat (wl_nextID L1) + length ss"
    using Cons.prems C(2,4) unat_Suc_no_wrap [OF ids] rs'(1) wf1
    by (intro Cons.IH) (auto simp: same_shape_def C(3))
  then show ?case
    using C(2,4) unat_Suc_no_wrap [OF ids] rs'(2) same_shape_trans [OF C(2)] by (auto simp: C(3))
qed

lemma ReserveBatch_spec:
  assumes wf: "wf_ledger L" and w: "w < length (wallets L)" and len: "length ss < 2 ^ 64"
  shows "(\<exists>rs L'. ReserveBatch (Some w) ss L = Inr (rs, L')) \<longleftrightarrow>
      ss \<noteq> [] \<and> 0 \<notin> set ss \<and> \<not> w_partitioned (wallets L ! w) \<and>
      used_bytes w L + sum_list (map unat ss) \<le> unat (w_cap (wallets L ! w)) \<and>
      unat (wl_nextID L) + length ss < 2 ^ 64" (is "?ok \<longleftrightarrow> ?cond")
    and "ReserveBatch (Some w) ss L = Inr (rs, L') \<Longrightarrow>
      wf_ledger L' \<and> length rs = length ss \<and> used_bytes w L' = used_bytes w L + sum_list (map unat ss)"
proof -
  have n: "unat (of_nat (length ss) :: u64) = length ss" using len by (simp add: unat_of_nat)
  have ok: "?ok \<longleftrightarrow> ss \<noteq> [] \<and> (\<exists>t. batch_total 0 ss = Inr t \<and> checkCapacityLocked w t (of_nat (length ss)) L = Inr ())"
    by (auto simp: ReserveBatch_def split: sum.splits)
  show iff: "?ok \<longleftrightarrow> ?cond"
  proof
    assume ?ok
    then show ?cond unfolding ok by (auto simp: batch_total_Inr checkCapacity_iff [OF wf w] n)
  next
    assume c: ?cond
    then have "sum_list (map unat ss) < 2 ^ 64" using unat_bound [of "w_cap (wallets L ! w)"] by linarith
    then have "batch_total 0 ss = Inr (of_nat (sum_list (map unat ss)))"
      and "unat (of_nat (sum_list (map unat ss)) :: u64) = sum_list (map unat ss)"
      using c by (simp_all add: batch_total_Inr unat_of_nat)
    with c show ?ok unfolding ok by (auto simp: checkCapacity_iff [OF wf w] n)
  qed
  assume res: "ReserveBatch (Some w) ss L = Inr (rs, L')"
  then have "claim_all w ss L = (rs, L')"
    by (auto simp: ReserveBatch_def split: if_splits sum.splits)
  moreover have ?cond using iff res by blast
  ultimately show "wf_ledger L' \<and> length rs = length ss \<and> used_bytes w L' = used_bytes w L + sum_list (map unat ss)"
    using claim_all_used [OF wf w] by blast
qed

lemma validate_caps_iff:
  "validate_caps i t cs = Inr () \<longleftrightarrow> 0 \<notin> set cs \<and> unat t + sum_list (map unat cs) < 2 ^ 64"
proof (induction cs arbitrary: i t)
  case Nil
  then show ?case using unat_bound [of t] by simp
next
  case (Cons c cs)
  show ?case
  proof (cases "c = 0 \<or> 2 ^ 64 \<le> unat t + unat c")
    case True
    then show ?thesis by (auto simp: add_check_iff)
  next
    case False
    then have "unat (t + c) = unat t + unat c" by (simp add: unat_add_no_wrap)
    with False Cons.IH [of "Suc i" "t + c"] show ?thesis by (auto simp: add_check_iff)
  qed
qed

section \<open>Runs of the ledger\<close>

text \<open>
  Any sequence of calls on the wallets of one ledger, in any order and from any goroutine
  (each call holds the ledger's lock). Refused calls leave the ledger as it is.
\<close>

inductive ledger_step :: "walletLedger \<Rightarrow> walletLedger \<Rightarrow> bool" where
  step_partition: "w < length (wallets L) \<Longrightarrow> Partition (Some w) cs L = Inr (ws, L') \<Longrightarrow> ledger_step L L'"
| step_reserve: "w < length (wallets L) \<Longrightarrow> Reserve (Some w) b L = Inr (r, L') \<Longrightarrow> ledger_step L L'"
| step_batch: "w < length (wallets L) \<Longrightarrow> length ss < 2 ^ 64 \<Longrightarrow>
    ReserveBatch (Some w) ss L = Inr (rs, L') \<Longrightarrow> ledger_step L L'"
| step_publish: "Publish r L = Inr L' \<Longrightarrow> ledger_step L L'"
| step_cancel: "Cancel r L = Inr L' \<Longrightarrow> ledger_step L L'"
| step_release: "Release_res r L = Inr L' \<Longrightarrow> ledger_step L L'"
| step_retire: "Retire r L = Inr L' \<Longrightarrow> ledger_step L L'"
| step_acknowledge: "Acknowledge r L = Inr L' \<Longrightarrow> ledger_step L L'"

inductive ledger_reachable :: "u64 \<Rightarrow> walletLedger \<Rightarrow> bool" for capacity where
  reach_new: "NewWallet capacity = Inr L \<Longrightarrow> ledger_reachable capacity L"
| reach_step: "ledger_reachable capacity L \<Longrightarrow> ledger_step L L' \<Longrightarrow> ledger_reachable capacity L'"

lemma ledger_step_wf: "ledger_step L L' \<Longrightarrow> wf_ledger L \<Longrightarrow> wf_ledger L'"
  by (induction rule: ledger_step.induct)
    (auto intro: Partition_wf Reserve_wf finish_wf transition_wf dest: ReserveBatch_spec(2)
      simp: Publish_def Cancel_def Release_res_def Retire_def Acknowledge_def)

lemma ledger_reachable_wf: "ledger_reachable c L \<Longrightarrow> wf_ledger L"
  by (induction rule: ledger_reachable.induct) (auto intro: wf_NewWallet ledger_step_wf)

section \<open>Properties\<close>

text \<open>
  C1: no run overdraws a wallet. In every ledger reachable from a new root wallet by any
  sequence of partitions, reservations, batches and state changes, each wallet's three
  charges, added as mathematical integers, stay within its capacity, and each counter is
  exactly the number of bytes of the ledger entries charged to that wallet in that state.
\<close>

theorem wallet_never_overdrawn:
  assumes "ledger_reachable capacity L" and "w < length (wallets L)"
  shows "unat (w_reserved (wallets L ! w)) + unat (w_live (wallets L ! w)) + unat (w_retiring (wallets L ! w))
      \<le> unat (w_cap (wallets L ! w)) \<and>
    unat (counter st (wallets L ! w)) = asum (allocations L) (\<lambda>a. a_state a = st \<and> charged (wallets L) w a)"
  using wf_used [OF ledger_reachable_wf [OF assms(1)] assms(2)] wf_bound [OF ledger_reachable_wf [OF assms(1)] assms(2)]
    wf_counter [OF ledger_reachable_wf [OF assms(1)] assms(2)] by simp

definition demo_ledger :: walletLedger where
  "demo_ledger = \<lparr>wallets = [fresh_wallet None 10], wl_nextID = 0, allocations = Map.empty\<rparr>"

definition demo_partitioned :: walletLedger where
  "demo_partitioned = \<lparr>wallets = [(fresh_wallet None 10)\<lparr>w_partitioned := True\<rparr>, fresh_wallet (Some 0) 4,
     fresh_wallet (Some 0) 6], wl_nextID = 0, allocations = Map.empty\<rparr>"

lemma demo_ledger_new: "NewWallet 10 = Inr demo_ledger"
  by (simp add: NewWallet_def demo_ledger_def)

lemma demo_partition: "Partition (Some 0) [4, 6] demo_ledger = Inr ([1, 2], demo_partitioned)"
  by (simp add: Partition_def demo_ledger_def demo_partitioned_def fresh_wallet_def Let_def upt_rec)

lemma demo_reachable: "ledger_reachable 10 demo_ledger" "ledger_reachable 10 demo_partitioned"
proof -
  show 1: "ledger_reachable 10 demo_ledger" by (rule reach_new [OF demo_ledger_new])
  have "ledger_step demo_ledger demo_partitioned"
    by (rule step_partition [OF _ demo_partition]) (simp add: demo_ledger_def)
  with 1 show "ledger_reachable 10 demo_partitioned" by (rule reach_step)
qed

text \<open>The property at the middle wallet after a reservation of four bytes.\<close>

theorem wallet_never_overdrawn_witness:
  "\<exists>L. ledger_reachable 10 L \<and> w_reserved (wallets L ! 1) = 4 \<and> w_reserved (wallets L ! 0) = 4 \<and>
     unat (w_reserved (wallets L ! 0)) + unat (w_live (wallets L ! 0)) + unat (w_retiring (wallets L ! 0))
       \<le> unat (w_cap (wallets L ! 0)) \<and>
     unat (counter allocationReserved (wallets L ! 0)) =
       asum (allocations L) (\<lambda>a. a_state a = allocationReserved \<and> charged (wallets L) 0 a)"
proof -
  define L where "L = snd (claimLocked 1 4 demo_partitioned)"
  have "Reserve (Some 1) 4 demo_partitioned = Inr (fst (claimLocked 1 4 demo_partitioned), L)"
    by (simp add: Reserve_def checkCapacityLocked_def demo_partitioned_def fresh_wallet_def L_def
        MaxUint64_def)
  then have "ledger_step demo_partitioned L"
    by (rule step_reserve [rotated]) (simp add: demo_partitioned_def)
  with demo_reachable(2) have r: "ledger_reachable 10 L" by (rule reach_step)
  moreover have "w_reserved (wallets L ! 1) = 4" "w_reserved (wallets L ! 0) = 4" "0 < length (wallets L)"
    by (simp_all add: L_def claimLocked_def addChargeLocked_def demo_partitioned_def fresh_wallet_def
        walk_owners.simps Let_def)
  ultimately show ?thesis
    using wallet_never_overdrawn [OF r, of 0 allocationReserved] by (intro exI [of _ L]) simp
qed

text \<open>
  Admission is exact. On any reachable ledger, a reservation on a wallet succeeds
  exactly when its size is positive, the wallet is not partitioned, the bytes charged so
  far and the request fit the capacity together, and an identifier is left; nothing that
  fits is refused and nothing that does not fit is admitted, the unsigned additions and
  comparisons of the check notwithstanding.
\<close>

theorem Reserve_admits_iff:
  assumes "ledger_reachable capacity L" and "w < length (wallets L)"
  shows "(\<exists>r L'. Reserve (Some w) b L = Inr (r, L')) \<longleftrightarrow>
     b \<noteq> 0 \<and> \<not> w_partitioned (wallets L ! w) \<and>
     unat (w_reserved (wallets L ! w)) + unat (w_live (wallets L ! w)) + unat (w_retiring (wallets L ! w)) +
       unat b \<le> unat (w_cap (wallets L ! w)) \<and>
     wl_nextID L \<noteq> MaxUint64"
proof -
  note wf = ledger_reachable_wf [OF assms(1)]
  have "(\<exists>r L'. Reserve (Some w) b L = Inr (r, L')) \<longleftrightarrow> b \<noteq> 0 \<and> checkCapacityLocked w b 1 L = Inr ()"
    by (auto simp: Reserve_def split: sum.splits)
  moreover have "unat (wl_nextID L) + unat (1 :: u64) < 2 ^ 64 \<longleftrightarrow> wl_nextID L \<noteq> MaxUint64"
    using unat_bound [of "wl_nextID L"] unat_Suc_no_wrap [of "wl_nextID L"] unat_bound [of "wl_nextID L + 1"]
    by auto
  ultimately show ?thesis
    using wf_used [OF wf assms(2)] by (simp add: checkCapacity_iff [OF wf assms(2)] used_bytes_def)
qed

theorem Reserve_admits_iff_witness:
  "(\<exists>r L'. Reserve (Some 2) 6 demo_partitioned = Inr (r, L')) \<and>
   \<not> (\<exists>r L'. Reserve (Some 2) 7 demo_partitioned = Inr (r, L')) \<and>
   \<not> (\<exists>r L'. Reserve (Some 0) 1 demo_partitioned = Inr (r, L'))"
  using Reserve_admits_iff [OF demo_reachable(2), of 2 6] Reserve_admits_iff [OF demo_reachable(2), of 2 7]
    Reserve_admits_iff [OF demo_reachable(2), of 0 1]
  by (simp add: demo_partitioned_def fresh_wallet_def MaxUint64_def)

text \<open>
  A reservation that is published, retired and acknowledged gives back exactly what
  it took. Every step of the sequence succeeds, the bytes charged to the wallet are those
  before the reservation, all other allocations are untouched, and a second
  acknowledgment of the same token is refused.
\<close>

theorem reservation_lifecycle:
  assumes "ledger_reachable capacity L" and "w < length (wallets L)" and "reserve_id w b L = Inr (k, L1)"
  shows "\<exists>L2 L3 L4. Publish (token_of w k) L1 = Inr L2 \<and> Retire (token_of w k) L2 = Inr L3 \<and>
     Acknowledge (token_of w k) L3 = Inr L4 \<and> used_bytes w L4 = used_bytes w L \<and>
     (\<forall>j. token_status w j L4 = token_status w j L) \<and> (\<exists>e. Acknowledge (token_of w k) L4 = Inl e)"
proof -
  have "wallet_inv w L" using ledger_reachable_wf [OF assms(1)] assms(2) by (simp add: wallet_inv_def)
  from budget.job_lifecycle [OF this assms(3)] show ?thesis by blast
qed

lemma demo_reserve:
  "reserve_id 2 6 demo_partitioned = Inr (1, snd (claimLocked 2 6 demo_partitioned))"
  by (simp add: reserve_id_def Reserve_def checkCapacityLocked_def demo_partitioned_def fresh_wallet_def
      MaxUint64_def claimLocked_def addChargeLocked_def Let_def)

theorem reservation_lifecycle_witness:
  "\<exists>L1 L2 L3 L4. reserve_id 2 6 demo_partitioned = Inr (1, L1) \<and> Publish (token_of 2 1) L1 = Inr L2 \<and>
     Retire (token_of 2 1) L2 = Inr L3 \<and> Acknowledge (token_of 2 1) L3 = Inr L4 \<and>
     used_bytes 2 L4 = used_bytes 2 demo_partitioned \<and> (\<exists>e. Acknowledge (token_of 2 1) L4 = Inl e)"
  using reservation_lifecycle [OF demo_reachable(2) _ demo_reserve] demo_reserve
  by (fastforce simp: demo_partitioned_def)

text \<open>
  A batch is admitted as a whole or not at all. On a reachable ledger it succeeds
  exactly when every size is positive and the sum of all of them fits beside what is
  already charged; the sum is taken without overflow, and then one token per size is
  issued and the charge grows by exactly the sum. A refusal returns no ledger: nothing is
  charged.
\<close>

theorem ReserveBatch_all_or_nothing:
  assumes "ledger_reachable capacity L" and "w < length (wallets L)" and "length ss < 2 ^ 64"
  shows "case ReserveBatch (Some w) ss L of
      Inl _ \<Rightarrow> \<not> (ss \<noteq> [] \<and> 0 \<notin> set ss \<and> \<not> w_partitioned (wallets L ! w) \<and>
        used_bytes w L + sum_list (map unat ss) \<le> unat (w_cap (wallets L ! w)) \<and>
        unat (wl_nextID L) + length ss < 2 ^ 64)
    | Inr (rs, L') \<Rightarrow> ss \<noteq> [] \<and> 0 \<notin> set ss \<and> \<not> w_partitioned (wallets L ! w) \<and>
        length rs = length ss \<and> used_bytes w L' = used_bytes w L + sum_list (map unat ss) \<and>
        used_bytes w L' \<le> unat (w_cap (wallets L ! w))"
proof -
  note spec = ReserveBatch_spec [OF ledger_reachable_wf [OF assms(1)] assms(2,3)]
  show ?thesis
  proof (cases "ReserveBatch (Some w) ss L")
    case (Inl e)
    then show ?thesis using spec(1) by auto
  next
    case (Inr x)
    then obtain rs L' where res: "ReserveBatch (Some w) ss L = Inr (rs, L')" by (cases x) auto
    with spec(1) have "ss \<noteq> [] \<and> 0 \<notin> set ss \<and> \<not> w_partitioned (wallets L ! w) \<and>
        used_bytes w L + sum_list (map unat ss) \<le> unat (w_cap (wallets L ! w))" by blast
    with res spec(2) [OF res] show ?thesis by auto
  qed
qed

theorem ReserveBatch_all_or_nothing_witness:
  "(case ReserveBatch (Some 2) [1, 2, 3] demo_partitioned of
      Inl _ \<Rightarrow> False | Inr (rs, L') \<Rightarrow> length rs = 3 \<and> used_bytes 2 L' = 6) \<and>
   (case ReserveBatch (Some 2) [4, 3] demo_partitioned of Inl _ \<Rightarrow> True | Inr _ \<Rightarrow> False)"
  using ReserveBatch_all_or_nothing [OF demo_reachable(2), of 2 "[1, 2, 3]"]
    ReserveBatch_all_or_nothing [OF demo_reachable(2), of 2 "[4, 3]"]
  by (auto simp: demo_partitioned_def fresh_wallet_def used_bytes_def split: sum.splits)

text \<open>
  The plans the framework ships are valid, and validation means what it says: a plan
  is accepted exactly when its profile is one of the two known ones, no wallet has zero
  capacity and the capacities together fit 64 bits.
\<close>

theorem Plan_Validate_iff:
  "(Plan_Validate p = Inr () \<longleftrightarrow>
      (plan_Profile p = Compact \<or> plan_Profile p = Standard) \<and> 0 \<notin> set (plan_Caps p) \<and>
      sum_list (map unat (plan_Caps p)) < 2 ^ 64) \<and>
   Plan_Validate (DefaultPlan Compact) = Inr () \<and> Plan_Validate (DefaultPlan Standard) = Inr () \<and>
   length (plan_Caps (DefaultPlan q)) = kindCount"
proof (intro conjI)
  show "Plan_Validate p = Inr () \<longleftrightarrow>
      (plan_Profile p = Compact \<or> plan_Profile p = Standard) \<and> 0 \<notin> set (plan_Caps p) \<and>
      sum_list (map unat (plan_Caps p)) < 2 ^ 64"
    by (simp add: Plan_Validate_def validate_caps_iff)
  show "Plan_Validate (DefaultPlan Compact) = Inr ()" and "Plan_Validate (DefaultPlan Standard) = Inr ()"
    by (simp_all add: Plan_Validate_def DefaultPlan_def Compact_def Standard_def MaxUint64_def Let_def)
  show "length (plan_Caps (DefaultPlan q)) = kindCount"
    by (simp add: DefaultPlan_def kindCount_def Let_def)
qed

end
