(* ===== verification/Ledger.thy ===== *)
theory Ledger
  imports Prelude
begin

text \<open>
  The outcome ledger of a drive session: \<^verbatim>\<open>src/drive/ledger.go\<close>. Request identifiers
  are claimed contiguously; every claimed identifier gets an entry that is completed at
  most once and is retained within fixed bounds, in admission order. Entries are shared by
  pointer with the code that executes the request, so the model keeps all entries ever
  made in a heap and names them by address; the retained ones are a list of addresses.
  The digest of the canonical request and the error values are opaque (\<open>'c\<close>, \<open>'e\<close>), as
  they are for the ledger itself; payloads are byte strings.
\<close>

section \<open>State\<close>

definition ledgerMaxEntries :: nat where "ledgerMaxEntries = 1024"
definition ledgerMaxBytes :: int where "ledgerMaxBytes = 4 * 2 ^ 20"
definition ledgerEntryOverhead :: int where "ledgerEntryOverhead = 256"

datatype EntryState = EntryAdmitted | EntryTerminal

record ('c, 'e) Entry =
  e_ID :: u64
  e_OpID :: string
  e_Canonical :: 'c
  e_State :: EntryState
  e_Admitted :: bool
  e_ResultPayload :: string
  e_ResultErr :: "'e option"
  e_AcceptedCut :: string
  e_AcceptedFrame :: string
  e_ResultCut :: string
  e_ResultFrame :: string

datatype Lookup = LookupUnknown | LookupRetained | LookupExpired

record ('c, 'e) Ledger =
  l_highWater :: u64
  l_heap :: "('c, 'e) Entry list"
  l_entries :: "nat list"
  l_bytes :: int

datatype ledger_error = RequestGap u64 u64

section \<open>Operations\<close>

definition NewLedger :: "('c, 'e) Ledger" where
  "NewLedger = \<lparr>l_highWater = 0, l_heap = [], l_entries = [], l_bytes = 0\<rparr>"

definition HighWater :: "('c, 'e) Ledger \<Rightarrow> u64" where
  "HighWater L = l_highWater L"

text \<open>The scan shared by \<open>Lookup\<close> and \<open>findLocked\<close>: the first retained entry with the identifier.\<close>

definition findLocked :: "u64 \<Rightarrow> ('c, 'e) Ledger \<Rightarrow> nat option" where
  "findLocked k L = find (\<lambda>a. e_ID (l_heap L ! a) = k) (l_entries L)"

definition Ledger_Lookup :: "u64 \<Rightarrow> ('c, 'e) Ledger \<Rightarrow> Lookup \<times> nat option" where
  "Ledger_Lookup k L =
     (if l_highWater L < k then (LookupUnknown, None)
      else case findLocked k L of
        Some a \<Rightarrow> (LookupRetained, Some a)
      | None \<Rightarrow> (LookupExpired, None))"

definition is_terminal :: "('c, 'e) Ledger \<Rightarrow> nat \<Rightarrow> bool" where
  "is_terminal L a \<longleftrightarrow> e_State (l_heap L ! a) = EntryTerminal"

definition over_bounds :: "('c, 'e) Ledger \<Rightarrow> bool" where
  "over_bounds L \<longleftrightarrow> ledgerMaxEntries < length (l_entries L) \<or> ledgerMaxBytes < l_bytes L"

definition drop_entry :: "nat \<Rightarrow> ('c, 'e) Ledger \<Rightarrow> ('c, 'e) Ledger" where
  "drop_entry i L =
     L\<lparr>l_entries := remove_at i (l_entries L),
       l_bytes := l_bytes L - (ledgerEntryOverhead + int (length (e_ResultPayload (l_heap L ! (l_entries L ! i)))))\<rparr>"

text \<open>
  The loop of \<open>evictLocked\<close>: while a bound is exceeded, the first terminal entry goes;
  when none is left the active ones are pinned and the loop returns at once.
\<close>

function evict_loop :: "('c, 'e) Ledger \<Rightarrow> ('c, 'e) Ledger \<times> bool" where
  "evict_loop L =
     (if l_entries L \<noteq> [] \<and> over_bounds L then
        (case find_index (is_terminal L) (l_entries L) of
           None \<Rightarrow> (L, True)
         | Some i \<Rightarrow> evict_loop (drop_entry i L))
      else (L, False))"
  by pat_completeness auto
termination
  by (relation "measure (\<lambda>L. length (l_entries L))") (auto simp: drop_entry_def find_index_Some)

declare evict_loop.simps [simp del]

definition evictLocked :: "('c, 'e) Ledger \<Rightarrow> ('c, 'e) Ledger" where
  "evictLocked L =
     (case evict_loop L of
        (L', True) \<Rightarrow> L'
      | (L', False) \<Rightarrow> if l_entries L' = [] then L'\<lparr>l_bytes := 0\<rparr> else L')"

text \<open>The common part of \<open>Claim\<close> and \<open>ClaimRejection\<close>: append the new entry and evict.\<close>

definition push_entry :: "('c, 'e) Entry \<Rightarrow> ('c, 'e) Ledger \<Rightarrow> nat \<times> ('c, 'e) Ledger" where
  "push_entry e L =
     (length (l_heap L),
      evictLocked (L\<lparr>l_highWater := e_ID e, l_heap := l_heap L @ [e],
        l_entries := l_entries L @ [length (l_heap L)], l_bytes := l_bytes L + ledgerEntryOverhead\<rparr>))"

definition blank_entry :: "u64 \<Rightarrow> 'c \<Rightarrow> ('c, 'e) Entry" where
  "blank_entry k canonical =
     \<lparr>e_ID = k, e_OpID = [], e_Canonical = canonical, e_State = EntryAdmitted, e_Admitted = False,
      e_ResultPayload = [], e_ResultErr = None, e_AcceptedCut = [], e_AcceptedFrame = [],
      e_ResultCut = [], e_ResultFrame = []\<rparr>"

definition Claim :: "u64 \<Rightarrow> 'c \<Rightarrow> string \<Rightarrow> ('c, 'e) Ledger \<Rightarrow> ledger_error + (nat \<times> ('c, 'e) Ledger)" where
  "Claim k canonical opID L =
     (if k \<noteq> l_highWater L + 1 then Inl (RequestGap (l_highWater L) k)
      else Inr (push_entry ((blank_entry k canonical)\<lparr>e_OpID := opID, e_Admitted := True\<rparr>) L))"

definition ClaimRejection :: "u64 \<Rightarrow> 'c \<Rightarrow> 'e option \<Rightarrow> ('c, 'e) Ledger \<Rightarrow>
    ledger_error + (nat \<times> ('c, 'e) Ledger)" where
  "ClaimRejection k canonical perr L =
     (if k \<noteq> l_highWater L + 1 then Inl (RequestGap (l_highWater L) k)
      else Inr (push_entry ((blank_entry k canonical)\<lparr>e_State := EntryTerminal, e_ResultErr := perr\<rparr>) L))"

definition set_entry :: "nat \<Rightarrow> ('c, 'e) Entry \<Rightarrow> ('c, 'e) Ledger \<Rightarrow> ('c, 'e) Ledger" where
  "set_entry a e L = L\<lparr>l_heap := (l_heap L)[a := e]\<rparr>"

definition CompleteResult :: "nat \<Rightarrow> string \<Rightarrow> string \<Rightarrow> string \<Rightarrow> ('c, 'e) Ledger \<Rightarrow> ('c, 'e) Ledger" where
  "CompleteResult a payload cutID frame L =
     (let e = l_heap L ! a in
      if e_State e = EntryTerminal \<or> findLocked (e_ID e) L \<noteq> Some a then L
      else let e' = e\<lparr>e_State := EntryTerminal, e_ResultPayload := payload, e_ResultErr := None,
                     e_ResultCut := cutID, e_ResultFrame := frame\<rparr>;
               L' = set_entry a e' L
           in evictLocked (L'\<lparr>l_bytes := l_bytes L' + int (length payload)\<rparr>))"

definition MarkAccepted :: "nat \<Rightarrow> string \<Rightarrow> string \<Rightarrow> ('c, 'e) Ledger \<Rightarrow> ('c, 'e) Ledger" where
  "MarkAccepted a cutID frame L =
     (let e = l_heap L ! a in
      if findLocked (e_ID e) L \<noteq> Some a \<or> e_State e \<noteq> EntryAdmitted then L
      else set_entry a (e\<lparr>e_AcceptedCut := cutID, e_AcceptedFrame := frame\<rparr>) L)"

definition CompleteError :: "nat \<Rightarrow> 'e option \<Rightarrow> ('c, 'e) Ledger \<Rightarrow> ('c, 'e) Ledger" where
  "CompleteError a perr L =
     (let e = l_heap L ! a in
      if e_State e = EntryTerminal \<or> findLocked (e_ID e) L \<noteq> Some a then L
      else evictLocked (set_entry a (e\<lparr>e_State := EntryTerminal, e_ResultErr := perr\<rparr>) L))"

definition EarliestRetained :: "('c, 'e) Ledger \<Rightarrow> u64" where
  "EarliestRetained L = (case l_entries L of [] \<Rightarrow> 0 | a # _ \<Rightarrow> e_ID (l_heap L ! a))"

section \<open>Well-formed ledgers\<close>

text \<open>The bytes accounted to a retained entry.\<close>

definition entry_bytes :: "('c, 'e) Entry list \<Rightarrow> nat \<Rightarrow> int" where
  "entry_bytes H a = ledgerEntryOverhead + int (length (e_ResultPayload (H ! a)))"

text \<open>
  The heap holds one entry per claimed identifier, in order (the entry at address \<open>i\<close> has
  identifier \<open>i + 1\<close>); the retained addresses are increasing; active entries carry no payload
  and are all retained; and the byte count is the sum over the retained entries.
\<close>

definition heap_ok :: "('c, 'e) Ledger \<Rightarrow> bool" where
  "heap_ok L \<longleftrightarrow>
     length (l_heap L) = unat (l_highWater L) \<and>
     (\<forall>i < length (l_heap L). unat (e_ID (l_heap L ! i)) = Suc i) \<and>
     sorted_wrt (<) (l_entries L) \<and> (\<forall>a \<in> set (l_entries L). a < length (l_heap L)) \<and>
     (\<forall>i < length (l_heap L). e_State (l_heap L ! i) = EntryAdmitted \<longrightarrow>
        e_ResultPayload (l_heap L ! i) = [] \<and> i \<in> set (l_entries L)) \<and>
     l_bytes L = sum_list (map (entry_bytes (l_heap L)) (l_entries L))"

definition within_retention :: "('c, 'e) Ledger \<Rightarrow> bool" where
  "within_retention L \<longleftrightarrow>
     \<not> over_bounds L \<or> (\<forall>a \<in> set (l_entries L). \<not> is_terminal L a)"

definition wf_outcomes :: "('c, 'e) Ledger \<Rightarrow> bool" where
  "wf_outcomes L \<longleftrightarrow> heap_ok L \<and> within_retention L"

lemma heap_okD:
  assumes "heap_ok L"
  shows "a \<in> set (l_entries L) \<Longrightarrow> a < length (l_heap L)" "distinct (l_entries L)"
    "length (l_heap L) = unat (l_highWater L)" "i < length (l_heap L) \<Longrightarrow> unat (e_ID (l_heap L ! i)) = Suc i"
    "i < length (l_heap L) \<Longrightarrow> e_State (l_heap L ! i) = EntryAdmitted \<Longrightarrow> e_ResultPayload (l_heap L ! i) = []"
    "i < length (l_heap L) \<Longrightarrow> e_State (l_heap L ! i) = EntryAdmitted \<Longrightarrow> i \<in> set (l_entries L)"
    "l_bytes L = sum_list (map (entry_bytes (l_heap L)) (l_entries L))"
  using assms unfolding heap_ok_def by (auto simp: strict_sorted_iff)

section \<open>Eviction\<close>

lemma sum_list_remove_at:
  fixes f :: "'a \<Rightarrow> int"
  shows "i < length xs \<Longrightarrow> sum_list (map f (remove_at i xs)) = sum_list (map f xs) - f (xs ! i)"
  by (subst (2) id_take_nth_drop [of i xs]) (auto simp: remove_at_def)

lemma drop_entry_simps [simp]:
  "l_highWater (drop_entry i L) = l_highWater L" "l_heap (drop_entry i L) = l_heap L"
  "l_entries (drop_entry i L) = remove_at i (l_entries L)"
  by (simp_all add: drop_entry_def)

lemma drop_entry_ok:
  assumes "heap_ok L" and "find_index (is_terminal L) (l_entries L) = Some i"
  shows "heap_ok (drop_entry i L)"
proof -
  from assms(2) have i: "i < length (l_entries L)" "is_terminal L (l_entries L ! i)"
    by (auto simp: find_index_Some)
  have "distinct (l_entries L)" using assms(1) by (simp add: heap_ok_def strict_sorted_iff)
  then have set: "set (remove_at i (l_entries L)) = set (l_entries L) - {l_entries L ! i}"
    using i(1) by (rule set_remove_at_distinct)
  have "l_bytes (drop_entry i L) = sum_list (map (entry_bytes (l_heap L)) (remove_at i (l_entries L)))"
    using assms(1) i(1) by (simp add: sum_list_remove_at drop_entry_def heap_ok_def entry_bytes_def)
  then show ?thesis
    using assms(1) i(2) set sorted_wrt_remove_at [of "(<)" "l_entries L" i]
    by (auto simp: heap_ok_def is_terminal_def)
qed

lemma evict_loop_spec:
  assumes "heap_ok L"
  shows "case evict_loop L of (L', pinned) \<Rightarrow>
     heap_ok L' \<and> l_heap L' = l_heap L \<and> l_highWater L' = l_highWater L \<and>
     set (l_entries L') \<subseteq> set (l_entries L) \<and> within_retention L'"
  using assms
proof (induction L rule: evict_loop.induct)
  case (1 L)
  show ?case
  proof (cases "l_entries L \<noteq> [] \<and> over_bounds L")
    case False
    then show ?thesis using 1(2)
      by (subst evict_loop.simps) (auto simp: within_retention_def)
  next
    case go: True
    show ?thesis
    proof (cases "find_index (is_terminal L) (l_entries L)")
      case None
      then have "\<forall>a \<in> set (l_entries L). \<not> is_terminal L a" by (simp add: find_index_None)
      then show ?thesis using 1(2) go None
        by (subst evict_loop.simps) (simp add: within_retention_def)
    next
      case (Some i)
      have "set (remove_at i (l_entries L)) \<subseteq> set (l_entries L)" by (rule set_remove_at_subset)
      then show ?thesis
        using 1(1) [OF go Some drop_entry_ok [OF 1(2) Some]] go Some
        by (subst evict_loop.simps) (auto split: prod.splits)
    qed
  qed
qed

lemma evictLocked_spec:
  assumes "heap_ok L"
  shows "wf_outcomes (evictLocked L)" "l_heap (evictLocked L) = l_heap L"
    "l_highWater (evictLocked L) = l_highWater L" "set (l_entries (evictLocked L)) \<subseteq> set (l_entries L)"
proof -
  obtain L' pinned where L': "evict_loop L = (L', pinned)" by (cases "evict_loop L")
  have s: "heap_ok L'" "l_heap L' = l_heap L" "l_highWater L' = l_highWater L"
    "set (l_entries L') \<subseteq> set (l_entries L)" "within_retention L'"
    using evict_loop_spec [OF assms] by (simp_all add: L')
  then have "l_entries L' = [] \<Longrightarrow> l_bytes L' = 0" by (simp add: heap_ok_def)
  then have "evictLocked L = L'" by (cases pinned) (simp_all add: evictLocked_def L')
  with s show "wf_outcomes (evictLocked L)" "l_heap (evictLocked L) = l_heap L"
    "l_highWater (evictLocked L) = l_highWater L" "set (l_entries (evictLocked L)) \<subseteq> set (l_entries L)"
    by (simp_all add: wf_outcomes_def)
qed

section \<open>Every operation keeps the ledger well formed\<close>

lemma wf_NewLedger [simp]: "wf_outcomes NewLedger"
  by (simp add: wf_outcomes_def heap_ok_def within_retention_def NewLedger_def over_bounds_def)

lemma heap_ok_push:
  assumes "heap_ok L" and "e_ID e = l_highWater L + 1" and "e_ID e \<noteq> 0" and "e_ResultPayload e = []"
  shows "heap_ok (L\<lparr>l_highWater := e_ID e, l_heap := l_heap L @ [e],
     l_entries := l_entries L @ [length (l_heap L)], l_bytes := l_bytes L + ledgerEntryOverhead\<rparr>)"
    (is "heap_ok ?L'")
proof -
  have "l_highWater L \<noteq> MaxUint64" using assms(2,3) by (auto simp: MaxUint64_def)
  then have hw: "unat (e_ID e) = Suc (length (l_heap L))"
    using assms(1,2) unat_Suc_no_wrap by (simp add: heap_ok_def)
  have "entry_bytes (l_heap L @ [e]) a = entry_bytes (l_heap L) a" if "a \<in> set (l_entries L)" for a
    using that assms(1) by (auto simp: entry_bytes_def heap_ok_def nth_append)
  then have "map (entry_bytes (l_heap L @ [e])) (l_entries L) = map (entry_bytes (l_heap L)) (l_entries L)"
    by simp
  moreover have "entry_bytes (l_heap L @ [e]) (length (l_heap L)) = ledgerEntryOverhead"
    using assms(4) by (simp add: entry_bytes_def)
  ultimately have "l_bytes ?L' = sum_list (map (entry_bytes (l_heap ?L')) (l_entries ?L'))"
    using heap_okD(7) [OF assms(1)] by (simp cong: map_cong)
  then show ?thesis
    using assms(1,4) hw by (auto simp: heap_ok_def nth_append sorted_wrt_append less_Suc_eq)
qed

lemma push_entry_spec:
  assumes "heap_ok L" and "e_ID e = l_highWater L + 1" and "e_ID e \<noteq> 0" and "e_ResultPayload e = []"
    and "push_entry e L = (a, L')"
  shows "wf_outcomes L'" "a = length (l_heap L)" "l_heap L' = l_heap L @ [e]" "l_highWater L' = l_highWater L + 1"
    "set (l_entries L') \<subseteq> insert a (set (l_entries L))"
  using assms(5) evictLocked_spec [OF heap_ok_push [OF assms(1-4)]] assms(2)
  by (auto simp: push_entry_def)

lemma findLocked_iff:
  assumes "heap_ok L"
  shows "findLocked k L = Some a \<longleftrightarrow> a \<in> set (l_entries L) \<and> unat k = Suc a"
proof -
  have id: "e_ID (l_heap L ! b) = k \<longleftrightarrow> unat k = Suc b" if "b \<in> set (l_entries L)" for b
    using that assms by (auto simp: heap_ok_def word_unat_eq_iff)
  show ?thesis
  proof
    assume "findLocked k L = Some a"
    then have "a \<in> set (l_entries L)" "e_ID (l_heap L ! a) = k"
      by (auto simp: findLocked_def find_Some_iff)
    with id show "a \<in> set (l_entries L) \<and> unat k = Suc a" by simp
  next
    assume a: "a \<in> set (l_entries L) \<and> unat k = Suc a"
    then obtain b where b: "findLocked k L = Some b"
      using id by (cases "findLocked k L") (auto simp: findLocked_def find_None_iff)
    then have "b \<in> set (l_entries L)" "e_ID (l_heap L ! b) = k"
      by (auto simp: findLocked_def find_Some_iff)
    with id a b show "findLocked k L = Some a" by simp
  qed
qed

lemma find_self:
  assumes "heap_ok L" and "a < length (l_heap L)"
  shows "findLocked (e_ID (l_heap L ! a)) L = Some a \<longleftrightarrow> a \<in> set (l_entries L)"
  using assms by (simp add: findLocked_iff) (simp add: heap_ok_def)

lemma sum_list_map_update:
  fixes f g :: "'a \<Rightarrow> int"
  shows "distinct xs \<Longrightarrow> a \<in> set xs \<Longrightarrow> (\<And>x. x \<noteq> a \<Longrightarrow> g x = f x) \<Longrightarrow>
     sum_list (map g xs) = sum_list (map f xs) + (g a - f a)"
proof (induction xs)
  case Nil
  then show ?case by simp
next
  case (Cons x xs)
  show ?case
  proof (cases "a = x")
    case True
    with Cons.prems have "g y = f y" if "y \<in> set xs" for y using that by (metis distinct.simps(2))
    then have "sum_list (map g xs) = sum_list (map f xs)" by (metis map_cong)
    then have "sum_list (map g (x # xs)) = sum_list (map f (x # xs)) + (g x - f x)" by simp
    then show ?thesis unfolding True .
  next
    case False
    with Cons show ?thesis by simp
  qed
qed

text \<open>Completing an active, retained entry with an outcome of the given payload.\<close>

lemma heap_ok_complete:
  assumes ok: "heap_ok L" and a: "a \<in> set (l_entries L)" "e_State (l_heap L ! a) = EntryAdmitted"
    and e: "e_ID e = e_ID (l_heap L ! a)" "e_State e = EntryTerminal \<or> e_ResultPayload e = []"
  shows "heap_ok ((set_entry a e L)\<lparr>l_bytes := l_bytes L + int (length (e_ResultPayload e))\<rparr>)"
    (is "heap_ok ?L'")
proof -
  have lt: "a < length (l_heap L)" using ok a(1) by (rule heap_okD)
  have nil: "e_ResultPayload (l_heap L ! a) = []" using ok lt a(2) by (rule heap_okD)
  have "sum_list (map (entry_bytes (l_heap ?L')) (l_entries L)) =
      sum_list (map (entry_bytes (l_heap L)) (l_entries L)) + (entry_bytes (l_heap ?L') a - entry_bytes (l_heap L) a)"
    using ok a(1) by (intro sum_list_map_update)
      (auto simp: heap_ok_def strict_sorted_iff entry_bytes_def set_entry_def)
  also have "entry_bytes (l_heap ?L') a - entry_bytes (l_heap L) a = int (length (e_ResultPayload e))"
    using lt nil by (simp add: entry_bytes_def set_entry_def)
  finally show ?thesis
    using ok a e lt by (auto simp: heap_ok_def set_entry_def nth_list_update split: if_splits)
qed

lemma CompleteResult_cases:
  assumes ok: "heap_ok L" and lt: "a < length (l_heap L)"
  shows "CompleteResult a p c f L = L \<and> (is_terminal L a \<or> a \<notin> set (l_entries L)) \<or>
    \<not> is_terminal L a \<and> wf_outcomes (CompleteResult a p c f L) \<and>
    l_heap (CompleteResult a p c f L) = (l_heap L)[a := (l_heap L ! a)\<lparr>e_State := EntryTerminal,
      e_ResultPayload := p, e_ResultErr := None, e_ResultCut := c, e_ResultFrame := f\<rparr>] \<and>
    l_highWater (CompleteResult a p c f L) = l_highWater L \<and>
    set (l_entries (CompleteResult a p c f L)) \<subseteq> set (l_entries L)"
proof (cases "e_State (l_heap L ! a) = EntryTerminal \<or> a \<notin> set (l_entries L)")
  case True
  then show ?thesis
    using find_self [OF ok lt] by (auto simp: CompleteResult_def Let_def is_terminal_def)
next
  case False
  then have adm: "e_State (l_heap L ! a) = EntryAdmitted" by (cases "e_State (l_heap L ! a)") auto
  let ?e = "(l_heap L ! a)\<lparr>e_State := EntryTerminal, e_ResultPayload := p, e_ResultErr := None,
    e_ResultCut := c, e_ResultFrame := f\<rparr>"
  have "CompleteResult a p c f L = evictLocked ((set_entry a ?e L)\<lparr>l_bytes := l_bytes L + int (length p)\<rparr>)"
    using False find_self [OF ok lt] by (simp add: CompleteResult_def Let_def set_entry_def)
  moreover have "heap_ok ((set_entry a ?e L)\<lparr>l_bytes := l_bytes L + int (length p)\<rparr>)"
    using heap_ok_complete [OF ok _ adm, of ?e] False by simp
  ultimately show ?thesis
    using evictLocked_spec [of "(set_entry a ?e L)\<lparr>l_bytes := l_bytes L + int (length p)\<rparr>"] adm
    by (simp add: is_terminal_def set_entry_def)
qed

lemma CompleteError_cases:
  assumes ok: "heap_ok L" and lt: "a < length (l_heap L)"
  shows "CompleteError a e L = L \<and> (is_terminal L a \<or> a \<notin> set (l_entries L)) \<or>
    \<not> is_terminal L a \<and> wf_outcomes (CompleteError a e L) \<and>
    l_heap (CompleteError a e L) = (l_heap L)[a := (l_heap L ! a)\<lparr>e_State := EntryTerminal, e_ResultErr := e\<rparr>] \<and>
    l_highWater (CompleteError a e L) = l_highWater L \<and>
    set (l_entries (CompleteError a e L)) \<subseteq> set (l_entries L)"
proof (cases "e_State (l_heap L ! a) = EntryTerminal \<or> a \<notin> set (l_entries L)")
  case True
  then show ?thesis
    using find_self [OF ok lt] by (auto simp: CompleteError_def Let_def is_terminal_def)
next
  case False
  then have adm: "e_State (l_heap L ! a) = EntryAdmitted" by (cases "e_State (l_heap L ! a)") auto
  let ?e = "(l_heap L ! a)\<lparr>e_State := EntryTerminal, e_ResultErr := e\<rparr>"
  have nil: "e_ResultPayload (l_heap L ! a) = []" using ok lt adm by (simp add: heap_ok_def)
  have "CompleteError a e L = evictLocked (set_entry a ?e L)"
    using False find_self [OF ok lt] by (simp add: CompleteError_def Let_def)
  moreover have "heap_ok (set_entry a ?e L)"
    using heap_ok_complete [OF ok _ adm, of ?e] False nil by (simp add: set_entry_def)
  ultimately show ?thesis
    using evictLocked_spec [of "set_entry a ?e L"] adm by (simp add: is_terminal_def set_entry_def)
qed

lemma MarkAccepted_cases:
  assumes wf: "wf_outcomes L" and lt: "a < length (l_heap L)"
  shows "MarkAccepted a c f L = L \<or>
    \<not> is_terminal L a \<and> wf_outcomes (MarkAccepted a c f L) \<and>
    l_heap (MarkAccepted a c f L) = (l_heap L)[a := (l_heap L ! a)\<lparr>e_AcceptedCut := c, e_AcceptedFrame := f\<rparr>] \<and>
    l_highWater (MarkAccepted a c f L) = l_highWater L \<and> l_entries (MarkAccepted a c f L) = l_entries L"
proof (cases "e_State (l_heap L ! a) = EntryAdmitted \<and> a \<in> set (l_entries L)")
  case False
  then show ?thesis
    using find_self [OF _ lt] wf by (auto simp: MarkAccepted_def Let_def wf_outcomes_def)
next
  case True
  let ?e = "(l_heap L ! a)\<lparr>e_AcceptedCut := c, e_AcceptedFrame := f\<rparr>"
  have ok: "heap_ok L" using wf by (simp add: wf_outcomes_def)
  have nil: "e_ResultPayload (l_heap L ! a) = []" using ok lt True by (simp add: heap_ok_def)
  have eq: "MarkAccepted a c f L = set_entry a ?e L"
    using True find_self [OF ok lt] by (simp add: MarkAccepted_def Let_def)
  have "heap_ok (set_entry a ?e L)"
    using heap_ok_complete [OF ok, of a ?e] True nil by (simp add: set_entry_def)
  moreover have "within_retention (set_entry a ?e L)"
    using wf True lt by (auto simp: wf_outcomes_def within_retention_def over_bounds_def set_entry_def
        is_terminal_def nth_list_update split: if_splits)
  ultimately show ?thesis using True by (simp add: eq wf_outcomes_def set_entry_def is_terminal_def)
qed

section \<open>Runs\<close>

text \<open>
  Any sequence of ledger calls: claims and rejections of positive identifiers (the wire
  grammar admits no other), and completions through pointers the ledger has handed out.
  The list collects the identifiers that were claimed, in order.
\<close>

inductive outcomes_run :: "('c, 'e) Ledger \<Rightarrow> u64 list \<Rightarrow> ('c, 'e) Ledger \<Rightarrow> bool" for L0 where
  run_start: "outcomes_run L0 [] L0"
| run_claim: "outcomes_run L0 ids L \<Longrightarrow> k \<noteq> 0 \<Longrightarrow> Claim k c opID L = Inr (a, L') \<Longrightarrow>
    outcomes_run L0 (ids @ [k]) L'"
| run_reject: "outcomes_run L0 ids L \<Longrightarrow> k \<noteq> 0 \<Longrightarrow> ClaimRejection k c perr L = Inr (a, L') \<Longrightarrow>
    outcomes_run L0 (ids @ [k]) L'"
| run_accept: "outcomes_run L0 ids L \<Longrightarrow> a < length (l_heap L) \<Longrightarrow>
    outcomes_run L0 ids (MarkAccepted a ct fr L)"
| run_result: "outcomes_run L0 ids L \<Longrightarrow> a < length (l_heap L) \<Longrightarrow>
    outcomes_run L0 ids (CompleteResult a p ct fr L)"
| run_error: "outcomes_run L0 ids L \<Longrightarrow> a < length (l_heap L) \<Longrightarrow>
    outcomes_run L0 ids (CompleteError a perr L)"

text \<open>
  What a step may do to the entry at an address: nothing once it is terminal, and its
  identity (identifier, operation and digest) never changes.
\<close>

definition keeps_entry :: "('c, 'e) Ledger \<Rightarrow> ('c, 'e) Ledger \<Rightarrow> nat \<Rightarrow> bool" where
  "keeps_entry L L' a \<longleftrightarrow>
     a < length (l_heap L') \<and> (is_terminal L a \<longrightarrow> l_heap L' ! a = l_heap L ! a) \<and>
     e_ID (l_heap L' ! a) = e_ID (l_heap L ! a) \<and> e_OpID (l_heap L' ! a) = e_OpID (l_heap L ! a) \<and>
     e_Canonical (l_heap L' ! a) = e_Canonical (l_heap L ! a)"

lemma keeps_refl: "a < length (l_heap L) \<Longrightarrow> keeps_entry L L a"
  by (simp add: keeps_entry_def)

lemma keeps_trans: "keeps_entry L L1 a \<Longrightarrow> keeps_entry L1 L2 a \<Longrightarrow> keeps_entry L L2 a"
  by (auto simp: keeps_entry_def is_terminal_def)

lemma keeps_append: "a < length (l_heap L) \<Longrightarrow> l_heap L' = l_heap L @ es \<Longrightarrow> keeps_entry L L' a"
  by (simp add: keeps_entry_def nth_append)

lemma keeps_update:
  "a < length (l_heap L) \<Longrightarrow> l_heap L' = (l_heap L)[b := e] \<Longrightarrow> \<not> is_terminal L b \<Longrightarrow>
     e_ID e = e_ID (l_heap L ! b) \<Longrightarrow> e_OpID e = e_OpID (l_heap L ! b) \<Longrightarrow>
     e_Canonical e = e_Canonical (l_heap L ! b) \<Longrightarrow> keeps_entry L L' a"
  by (cases "a = b") (auto simp: keeps_entry_def)

lemma Claim_spec:
  assumes "wf_outcomes L" and "k \<noteq> 0" and "Claim k c opID L = Inr (a, L')"
  shows "k = l_highWater L + 1" "wf_outcomes L'" "l_highWater L' = k" "a = length (l_heap L)"
    "\<exists>e. l_heap L' = l_heap L @ [e]" "length (l_heap L') = Suc (length (l_heap L))"
proof -
  have k: "k = l_highWater L + 1"
    and p: "push_entry ((blank_entry k c)\<lparr>e_OpID := opID, e_Admitted := True\<rparr>) L = (a, L')"
    using assms(3) by (auto simp: Claim_def split: if_splits)
  have "heap_ok L" using assms(1) by (simp add: wf_outcomes_def)
  from push_entry_spec [OF this _ _ _ p] k assms(2)
  show "k = l_highWater L + 1" "wf_outcomes L'" "l_highWater L' = k" "a = length (l_heap L)"
    "\<exists>e. l_heap L' = l_heap L @ [e]" "length (l_heap L') = Suc (length (l_heap L))"
    by (simp_all add: blank_entry_def)
qed

lemma ClaimRejection_spec:
  assumes "wf_outcomes L" and "k \<noteq> 0" and "ClaimRejection k c perr L = Inr (a, L')"
  shows "k = l_highWater L + 1" "wf_outcomes L'" "l_highWater L' = k"
    "\<exists>e. l_heap L' = l_heap L @ [e]" "length (l_heap L') = Suc (length (l_heap L))"
proof -
  have k: "k = l_highWater L + 1"
    and p: "push_entry ((blank_entry k c)\<lparr>e_State := EntryTerminal, e_ResultErr := perr\<rparr>) L = (a, L')"
    using assms(3) by (auto simp: ClaimRejection_def split: if_splits)
  have "heap_ok L" using assms(1) by (simp add: wf_outcomes_def)
  from push_entry_spec [OF this _ _ _ p] k assms(2)
  show "k = l_highWater L + 1" "wf_outcomes L'" "l_highWater L' = k"
    "\<exists>e. l_heap L' = l_heap L @ [e]" "length (l_heap L') = Suc (length (l_heap L))"
    by (simp_all add: blank_entry_def)
qed

lemma run_wf: "outcomes_run L0 ids L \<Longrightarrow> wf_outcomes L0 \<Longrightarrow> wf_outcomes L"
proof (induction rule: outcomes_run.induct)
  case (run_claim ids L k c opID a L')
  show ?case by (rule Claim_spec(2) [OF run_claim.IH [OF run_claim.prems] run_claim.hyps(2,3)])
next
  case (run_reject ids L k c perr a L')
  show ?case by (rule ClaimRejection_spec(2) [OF run_reject.IH [OF run_reject.prems] run_reject.hyps(2,3)])
next
  case (run_accept ids L a ct fr)
  then show ?case using MarkAccepted_cases [of L a ct fr] by auto
next
  case (run_result ids L a p ct fr)
  then show ?case using CompleteResult_cases [of L a p ct fr] by (auto simp: wf_outcomes_def)
next
  case (run_error ids L a perr)
  then show ?case using CompleteError_cases [of L a perr] by (auto simp: wf_outcomes_def)
qed auto

lemma run_keeps:
  "outcomes_run L0 ids L \<Longrightarrow> wf_outcomes L0 \<Longrightarrow> b < length (l_heap L0) \<Longrightarrow> keeps_entry L0 L b"
proof (induction rule: outcomes_run.induct)
  case run_start
  then show ?case by (simp add: keeps_refl)
next
  case (run_claim ids L k c opID a L')
  have wf: "wf_outcomes L" using run_claim.hyps(1) run_claim.prems(1) by (rule run_wf)
  have k: "keeps_entry L0 L b" using run_claim.IH run_claim.prems by simp
  obtain e where e: "l_heap L' = l_heap L @ [e]" using Claim_spec(5) [OF wf run_claim.hyps(2,3)] ..
  have "b < length (l_heap L)" using k by (simp add: keeps_entry_def)
  then show ?case by (rule keeps_trans [OF k keeps_append [OF _ e]])
next
  case (run_reject ids L k c perr a L')
  have wf: "wf_outcomes L" using run_reject.hyps(1) run_reject.prems(1) by (rule run_wf)
  have k: "keeps_entry L0 L b" using run_reject.IH run_reject.prems by simp
  obtain e where e: "l_heap L' = l_heap L @ [e]" using ClaimRejection_spec(4) [OF wf run_reject.hyps(2,3)] ..
  have "b < length (l_heap L)" using k by (simp add: keeps_entry_def)
  then show ?case by (rule keeps_trans [OF k keeps_append [OF _ e]])
next
  case (run_accept ids L a ct fr)
  then have wf: "wf_outcomes L" and b: "b < length (l_heap L)" and k: "keeps_entry L0 L b"
    using run_wf by (auto simp: keeps_entry_def)
  show ?case
    using MarkAccepted_cases [OF wf run_accept.hyps(2), of ct fr] keeps_update [OF b] k keeps_trans by fastforce
next
  case (run_result ids L a p ct fr)
  then have ok: "heap_ok L" and b: "b < length (l_heap L)" and k: "keeps_entry L0 L b"
    using run_wf by (auto simp: keeps_entry_def wf_outcomes_def)
  show ?case
    using CompleteResult_cases [OF ok run_result.hyps(2), of p ct fr] keeps_update [OF b] k keeps_trans by fastforce
next
  case (run_error ids L a perr)
  then have ok: "heap_ok L" and b: "b < length (l_heap L)" and k: "keeps_entry L0 L b"
    using run_wf by (auto simp: keeps_entry_def wf_outcomes_def)
  show ?case
    using CompleteError_cases [OF ok run_error.hyps(2), of perr] keeps_update [OF b] k keeps_trans by fastforce
qed

lemma step_highWater:
  "wf_outcomes L \<Longrightarrow> a < length (l_heap L) \<Longrightarrow> l_highWater (MarkAccepted a ct fr L) = l_highWater L"
  "wf_outcomes L \<Longrightarrow> a < length (l_heap L) \<Longrightarrow> l_highWater (CompleteResult a p ct fr L) = l_highWater L"
  "wf_outcomes L \<Longrightarrow> a < length (l_heap L) \<Longrightarrow> l_highWater (CompleteError a perr L) = l_highWater L"
  using MarkAccepted_cases [of L a ct fr] CompleteResult_cases [of L a p ct fr] CompleteError_cases [of L a perr]
  by (auto simp: wf_outcomes_def)

lemma run_ids:
  "outcomes_run L0 ids L \<Longrightarrow> wf_outcomes L0 \<Longrightarrow>
     unat (l_highWater L) = unat (l_highWater L0) + length ids \<and>
     map unat ids = [Suc (unat (l_highWater L0)) ..< Suc (unat (l_highWater L0) + length ids)]"
proof (induction rule: outcomes_run.induct)
  case (run_claim ids L k c opID a L')
  have wf: "wf_outcomes L" using run_claim by (blast intro: run_wf)
  note C = Claim_spec [OF wf run_claim.hyps(2,3)]
  have "l_highWater L \<noteq> MaxUint64" using C(1) run_claim.hyps(2) by (auto simp: MaxUint64_def)
  then have "unat k = Suc (unat (l_highWater L))" using C(1) unat_Suc_no_wrap by simp
  with run_claim C(3) show ?case by simp
next
  case (run_reject ids L k c perr a L')
  have wf: "wf_outcomes L" using run_reject by (blast intro: run_wf)
  note C = ClaimRejection_spec [OF wf run_reject.hyps(2,3)]
  have "l_highWater L \<noteq> MaxUint64" using C(1) run_reject.hyps(2) by (auto simp: MaxUint64_def)
  then have "unat k = Suc (unat (l_highWater L))" using C(1) unat_Suc_no_wrap by simp
  with run_reject C(3) show ?case by simp
qed (auto simp: step_highWater dest: run_wf)


lemma fresh_run_ids:
  fixes L :: "('c, 'e) Ledger"
  assumes "outcomes_run NewLedger ids L"
  shows "map unat ids = [1 ..< Suc (length ids)]" "unat (l_highWater L) = length ids"
    "k \<in> set ids \<longleftrightarrow> k \<noteq> 0 \<and> k \<le> l_highWater L"
proof -
  have "unat (l_highWater (NewLedger :: ('c, 'e) Ledger)) = 0" by (simp add: NewLedger_def)
  then show u: "map unat ids = [1 ..< Suc (length ids)]" and h: "unat (l_highWater L) = length ids"
    using run_ids [OF assms wf_NewLedger] by (simp_all del: upt_Suc)
  have "k \<in> set ids \<longleftrightarrow> unat k \<in> unat ` set ids"
    by (auto dest: word_unat_eq_iff [THEN iffD2])
  also have "unat ` set ids = {1 ..< Suc (length ids)}"
    using u by (metis list.set_map set_upt)
  also have "unat k \<in> {1 ..< Suc (length ids)} \<longleftrightarrow> k \<noteq> 0 \<and> k \<le> l_highWater L"
    using h by (auto simp: word_le_nat_alt unat_eq_0 Suc_le_eq unat_gt_0)
  finally show "k \<in> set ids \<longleftrightarrow> k \<noteq> 0 \<and> k \<le> l_highWater L" .
qed

lemma not_terminal: "s \<noteq> EntryTerminal \<longleftrightarrow> s = EntryAdmitted"
  by (cases s) auto

lemma claim_next_only:
  "Claim k c opID L = Inl (RequestGap (l_highWater L) k) \<longleftrightarrow> k \<noteq> l_highWater L + 1"
  "ClaimRejection k c perr L = Inl (RequestGap (l_highWater L) k) \<longleftrightarrow> k \<noteq> l_highWater L + 1"
  by (auto simp: Claim_def ClaimRejection_def)

lemma Lookup_Retained_iff:
  assumes "heap_ok L"
  shows "Ledger_Lookup k L = (LookupRetained, Some a) \<longleftrightarrow> a \<in> set (l_entries L) \<and> unat k = Suc a"
proof -
  have "\<not> l_highWater L < k" if "a \<in> set (l_entries L)" "unat k = Suc a"
    using heap_okD(1) [OF assms that(1)] heap_okD(3) [OF assms] that(2) by (simp add: word_less_nat_alt)
  then show ?thesis
    using findLocked_iff [OF assms, of k a] by (auto simp: Ledger_Lookup_def split: option.splits)
qed

section \<open>Properties\<close>

text \<open>
  C2: At most once. In every run of a fresh ledger the identifiers that were claimed are
  exactly 1, 2, ..., n in this order, so none is claimed twice, and a later claim or
  rejection of one of them is refused with a gap error.
\<close>

theorem outcomes_at_most_once:
  assumes "outcomes_run NewLedger ids L"
  shows "map unat ids = [1 ..< Suc (length ids)] \<and> distinct ids \<and>
    (\<forall>k \<in> set ids. Claim k c opID L = Inl (RequestGap (l_highWater L) k) \<and>
       ClaimRejection k c perr L = Inl (RequestGap (l_highWater L) k))"
proof -
  note F = fresh_run_ids [OF assms]
  have "distinct ids" using F(1) by (metis distinct_map distinct_upt)
  moreover have "k \<noteq> l_highWater L + 1" if "k \<in> set ids" for k
  proof
    assume k: "k = l_highWater L + 1"
    then have "l_highWater L \<noteq> MaxUint64" using that F(3) [of k] by (auto simp: MaxUint64_def)
    then have "l_highWater L < k" using k u64_less_Suc by simp
    with that F(3) [of k] show False using leD by blast
  qed
  ultimately show ?thesis using F(1) by (simp add: claim_next_only)
qed

text \<open>
  A concrete run used by the witnesses: request 1 is claimed and completed, request 2 is
  rejected.
\<close>

definition sample_run :: "(nat, nat) Ledger" where
  "sample_run =
     (case Claim 1 7 ''op'' NewLedger of
        Inr (a, L) \<Rightarrow>
          (case ClaimRejection 2 8 (Some 5) (CompleteResult a ''ok'' ''cut'' ''fr'' L) of
             Inr (_, L') \<Rightarrow> L' | Inl _ \<Rightarrow> L)
      | Inl _ \<Rightarrow> NewLedger)"

lemma sample_run_steps: "outcomes_run NewLedger [1, 2] sample_run"
proof -
  obtain a :: nat and L :: "(nat, nat) Ledger" where c: "Claim 1 7 ''op'' NewLedger = Inr (a, L)" and a: "a < length (l_heap L)"
    using push_entry_spec(2,3) by (auto simp: Claim_def NewLedger_def push_entry_def evictLocked_def
        evict_loop.simps over_bounds_def ledgerMaxEntries_def ledgerMaxBytes_def ledgerEntryOverhead_def)
  have r1: "outcomes_run NewLedger [1] L" using run_claim [OF run_start _ c] by simp
  note r2 = run_result [OF r1 a, of "''ok''" "''cut''" "''fr''"]
  let ?M = "CompleteResult a ''ok'' ''cut'' ''fr'' L"
  have "l_highWater ?M = 1" using fresh_run_ids(2) [OF r2] by (simp add: word_unat_eq_iff)
  then have "l_highWater ?M + 1 = 2" by simp
  then obtain b :: nat and L' where j: "ClaimRejection 2 8 (Some 5) ?M = Inr (b, L')"
    by (auto simp: ClaimRejection_def push_entry_def)
  have "outcomes_run NewLedger ([1] @ [2]) L'" by (rule run_reject [OF r2 _ j]) simp
  then show ?thesis by (simp add: sample_run_def c j)
qed

theorem outcomes_at_most_once_witness:
  "map unat [1, 2 :: u64] = [1 ..< 3] \<and>
   Claim 2 9 ''op'' sample_run = Inl (RequestGap (l_highWater sample_run) 2)"
  using outcomes_at_most_once [OF sample_run_steps, of 9 "''op''" None]
  by (simp del: upt_Suc add: eval_nat_numeral)

lemma sample_run_heap: "length (l_heap sample_run) = 2"
  using fresh_run_ids(2) [OF sample_run_steps] run_wf [OF sample_run_steps wf_NewLedger]
  by (simp add: wf_outcomes_def heap_ok_def)

definition sample_active :: "(nat, nat) Ledger" where
  "sample_active = (case Claim 1 7 ''op'' NewLedger of Inr (a, L) \<Rightarrow> L | Inl _ \<Rightarrow> NewLedger)"

lemma sample_active_steps: "outcomes_run NewLedger [1] sample_active" "length (l_heap sample_active) = 1"
  "e_State (l_heap sample_active ! 0) = EntryAdmitted"
proof -
  obtain a :: nat and L :: "(nat, nat) Ledger" where c: "Claim 1 7 ''op'' NewLedger = Inr (a, L)"
    and l: "length (l_heap L) = 1" "e_State (l_heap L ! 0) = EntryAdmitted"
    by (auto simp: Claim_def NewLedger_def push_entry_def evictLocked_def blank_entry_def
        evict_loop.simps over_bounds_def ledgerMaxEntries_def ledgerMaxBytes_def ledgerEntryOverhead_def)
  have "outcomes_run NewLedger [1] L" using run_claim [OF run_start _ c] by simp
  then show "outcomes_run NewLedger [1] sample_active" "length (l_heap sample_active) = 1"
    "e_State (l_heap sample_active ! 0) = EntryAdmitted"
    using l by (simp_all add: sample_active_def c)
qed

text \<open>
  C3: Outcomes are final. Whatever calls follow, an entry the ledger has created keeps its
  identifier, its operation and its request digest, and once it is terminal no call changes
  any part of it: a result is never replaced by another result or by an error.
\<close>

theorem outcome_is_final:
  assumes "outcomes_run NewLedger ids L" and "a < length (l_heap L)" and "outcomes_run L ids' L'"
  shows "e_ID (l_heap L' ! a) = e_ID (l_heap L ! a) \<and> e_OpID (l_heap L' ! a) = e_OpID (l_heap L ! a) \<and>
    e_Canonical (l_heap L' ! a) = e_Canonical (l_heap L ! a) \<and>
    (e_State (l_heap L ! a) = EntryTerminal \<longrightarrow> l_heap L' ! a = l_heap L ! a)"
  using run_keeps [OF assms(3) run_wf [OF assms(1) wf_NewLedger] assms(2)]
  by (simp add: keeps_entry_def is_terminal_def)

theorem outcome_is_final_witness:
  "e_ID (l_heap (CompleteError 0 (Some 9) sample_run) ! 0) = e_ID (l_heap sample_run ! 0)"
proof -
  have "outcomes_run sample_run [] (CompleteError 0 (Some 9) sample_run)"
    by (rule run_error [OF run_start]) (simp add: sample_run_heap)
  then show ?thesis using outcome_is_final [OF sample_run_steps, of 0] by (simp add: sample_run_heap)
qed

text \<open>
  Lookup answers truthfully in every reachable ledger. An identifier is unknown exactly
  when it was never claimed; it is retained at an address exactly when the entry there is
  one of the retained ones and carries that identifier; and a request that is still active
  is always found (it is never evicted), so only completed outcomes can expire.
\<close>

theorem Lookup_truthful:
  assumes "outcomes_run NewLedger ids L" and "k \<noteq> 0"
  shows "(fst (Ledger_Lookup k L) = LookupUnknown \<longleftrightarrow> k \<notin> set ids) \<and>
    (Ledger_Lookup k L = (LookupRetained, Some a) \<longleftrightarrow> a \<in> set (l_entries L) \<and> e_ID (l_heap L ! a) = k) \<and>
    (a < length (l_heap L) \<and> e_ID (l_heap L ! a) = k \<and> e_State (l_heap L ! a) = EntryAdmitted \<longrightarrow>
       Ledger_Lookup k L = (LookupRetained, Some a))"
proof -
  have ok: "heap_ok L" using run_wf [OF assms(1) wf_NewLedger] by (simp add: wf_outcomes_def)
  have "fst (Ledger_Lookup k L) = LookupUnknown \<longleftrightarrow> l_highWater L < k"
    by (simp add: Ledger_Lookup_def split: option.splits)
  then have u: "fst (Ledger_Lookup k L) = LookupUnknown \<longleftrightarrow> k \<notin> set ids"
    using fresh_run_ids(3) [OF assms(1), of k] assms(2) by auto
  have id: "e_ID (l_heap L ! a) = k \<longleftrightarrow> unat k = Suc a" if "a < length (l_heap L)"
    using heap_okD(4) [OF ok that] by (auto simp: word_unat_eq_iff)
  then have r: "Ledger_Lookup k L = (LookupRetained, Some a) \<longleftrightarrow> a \<in> set (l_entries L) \<and> e_ID (l_heap L ! a) = k"
    using Lookup_Retained_iff [OF ok, of k a] heap_okD(1) [OF ok, of a] by blast
  show ?thesis using u r heap_okD(6) [OF ok, of a] by blast
qed

theorem Lookup_truthful_witness:
  "fst (Ledger_Lookup 3 sample_run) = LookupUnknown \<and> fst (Ledger_Lookup 2 sample_run) \<noteq> LookupUnknown"
  using Lookup_truthful [OF sample_run_steps, of 3] Lookup_truthful [OF sample_run_steps, of 2] by simp

text \<open>
  Completing an active request delivers its result: afterwards its entry is terminal and
  holds exactly the given payload, evidence cut and frame with no error, every other entry
  and the high-water mark are as before, and the retention bounds (1024 entries, 4 MiB)
  hold again unless only active entries are left, with the byte count equal to what the
  retained entries hold.
\<close>

theorem CompleteResult_delivers:
  assumes "outcomes_run NewLedger ids L" and "a < length (l_heap L)" and "e_State (l_heap L ! a) = EntryAdmitted"
  shows "let L' = CompleteResult a p ct fr L in
    e_State (l_heap L' ! a) = EntryTerminal \<and> e_ResultPayload (l_heap L' ! a) = p \<and>
    e_ResultErr (l_heap L' ! a) = None \<and> e_ResultCut (l_heap L' ! a) = ct \<and> e_ResultFrame (l_heap L' ! a) = fr \<and>
    (\<forall>b. b \<noteq> a \<longrightarrow> l_heap L' ! b = l_heap L ! b) \<and> l_highWater L' = l_highWater L \<and>
    (length (l_entries L') \<le> 1024 \<and> l_bytes L' \<le> 4194304 \<or>
       (\<forall>b \<in> set (l_entries L'). e_State (l_heap L' ! b) = EntryAdmitted)) \<and>
    l_bytes L' = (\<Sum>b\<leftarrow>l_entries L'. 256 + int (length (e_ResultPayload (l_heap L' ! b))))"
proof -
  let ?L' = "CompleteResult a p ct fr L"
  have ok: "heap_ok L" using run_wf [OF assms(1) wf_NewLedger] by (simp add: wf_outcomes_def)
  have mem: "a \<in> set (l_entries L)" using heap_okD(6) [OF ok assms(2,3)] .
  have C: "wf_outcomes ?L'" "l_highWater ?L' = l_highWater L"
    "l_heap ?L' = (l_heap L)[a := (l_heap L ! a)\<lparr>e_State := EntryTerminal,
      e_ResultPayload := p, e_ResultErr := None, e_ResultCut := ct, e_ResultFrame := fr\<rparr>]"
    using CompleteResult_cases [OF ok assms(2), of p ct fr] mem assms(3) by (auto simp: is_terminal_def)
  have "length (l_entries ?L') \<le> 1024 \<and> l_bytes ?L' \<le> 4194304 \<or>
       (\<forall>b \<in> set (l_entries ?L'). e_State (l_heap ?L' ! b) = EntryAdmitted)"
    using C(1) by (simp add: wf_outcomes_def within_retention_def over_bounds_def is_terminal_def not_less
        not_terminal ledgerMaxEntries_def ledgerMaxBytes_def)
  moreover have "l_bytes ?L' = (\<Sum>b\<leftarrow>l_entries ?L'. 256 + int (length (e_ResultPayload (l_heap ?L' ! b))))"
    using C(1) heap_okD(7) [of ?L'] by (simp add: wf_outcomes_def entry_bytes_def [abs_def] ledgerEntryOverhead_def)
  ultimately show ?thesis using C(2,3) assms(2) by (simp add: Let_def)
qed

theorem CompleteResult_delivers_witness:
  "e_ResultPayload (l_heap (CompleteResult 0 ''done'' ''cut'' ''fr'' sample_active) ! 0) = ''done''"
  using CompleteResult_delivers [OF sample_active_steps(1) _ sample_active_steps(3), of "''done''" "''cut''" "''fr''"]
  by (simp add: sample_active_steps(2) Let_def)

end
