(* ===== verification/Grants.thy ===== *)
theory Grants
  imports Prelude
begin

text \<open>
  The grant vocabulary of the drive protocol: \<^verbatim>\<open>src/drive/grants.go\<close>. Go strings are byte
  strings; \<open>strings.TrimSpace\<close> removes the UTF-8 encodings of Unicode's white space from
  both ends, and \<open>strings.Split\<close> at a comma cuts at every comma.
\<close>

section \<open>The library functions used\<close>

text \<open>The encodings of the code points for which \<open>unicode.IsSpace\<close> holds.\<close>

definition space_encodings :: "string list" where
  "space_encodings =
     map (\<lambda>c. [char_of (c :: nat)]) [9, 10, 11, 12, 13, 32] @
     map (map char_of)
       ([[194, 133], [194, 160], [225, 154, 128 :: nat]] @
        map (\<lambda>b. [226, 128, b]) [128 ..< 139] @
        [[226, 128, 168], [226, 128, 169], [226, 128, 175], [226, 129, 159], [227, 128, 128]])"

fun prefix_of :: "string \<Rightarrow> string \<Rightarrow> bool" where
  "prefix_of [] s = True"
| "prefix_of (c # p) [] = False"
| "prefix_of (c # p) (d # s) = (c = d \<and> prefix_of p s)"

lemma space_encodings_nonempty: "p \<in> set space_encodings \<Longrightarrow> p \<noteq> []"
  by (auto simp: space_encodings_def)

lemma prefix_of_length: "prefix_of p s \<Longrightarrow> length p \<le> length s"
  by (induction p s rule: prefix_of.induct) auto

lemma prefix_of_shorter: "p \<noteq> [] \<Longrightarrow> prefix_of p s \<Longrightarrow> length s - length p < length s"
  by (cases p; cases s) auto

text \<open>Removing the given words from the front while one of them matches there.\<close>

function strip_front :: "string list \<Rightarrow> string \<Rightarrow> string" where
  "strip_front ws s =
     (case find (\<lambda>p. p \<noteq> [] \<and> prefix_of p s) ws of
        None \<Rightarrow> s
      | Some p \<Rightarrow> strip_front ws (drop (length p) s))"
  by pat_completeness auto
termination
  by (relation "measure (\<lambda>(ws, s). length s)")
    (auto simp: find_Some_iff prefix_of_shorter)

declare strip_front.simps [simp del]

definition TrimSpace :: "string \<Rightarrow> string" where
  "TrimSpace s = rev (strip_front (map rev space_encodings) (rev (strip_front space_encodings s)))"

fun Split_comma :: "string \<Rightarrow> string list" where
  "Split_comma [] = [[]]"
| "Split_comma (c # s) =
     (if c = CHR '','' then [] # Split_comma s
      else (case Split_comma s of w # ws \<Rightarrow> (c # w) # ws | [] \<Rightarrow> [[c]]))"

fun Join_comma :: "string list \<Rightarrow> string" where
  "Join_comma [] = []"
| "Join_comma [w] = w"
| "Join_comma (w # v # ws) = w @ CHR '','' # Join_comma (v # ws)"

section \<open>Grants\<close>

definition GrantRead :: string where "GrantRead = ''read''"
definition GrantInput :: string where "GrantInput = ''input''"
definition GrantCommand :: string where "GrantCommand = ''command''"
definition GrantTime :: string where "GrantTime = ''time''"
definition GrantAdmin :: string where "GrantAdmin = ''admin''"

lemmas grant_names = GrantRead_def GrantInput_def GrantCommand_def GrantTime_def GrantAdmin_def

record grants =
  g_Read :: bool
  g_Input :: bool
  g_Command :: bool
  g_Time :: bool
  g_Admin :: bool

definition no_grants :: grants where
  "no_grants = \<lparr>g_Read = False, g_Input = False, g_Command = False, g_Time = False, g_Admin = False\<rparr>"

datatype grant_error = GrantNotInMajor2 string | UnknownGrant string

fun parse_names :: "grants \<Rightarrow> string list \<Rightarrow> grant_error + grants" where
  "parse_names g [] = Inr g"
| "parse_names g (name # names) =
     (let t = TrimSpace name in
      if t = GrantRead then parse_names (g\<lparr>g_Read := True\<rparr>) names
      else if t = GrantInput then parse_names (g\<lparr>g_Input := True\<rparr>) names
      else if t = GrantCommand then parse_names (g\<lparr>g_Command := True\<rparr>) names
      else if t = GrantTime then parse_names (g\<lparr>g_Time := True\<rparr>) names
      else if t = GrantAdmin then parse_names (g\<lparr>g_Admin := True\<rparr>) names
      else if t = ''write'' then Inl (GrantNotInMajor2 ''write'')
      else Inl (UnknownGrant name))"

definition ParseGrants :: "string \<Rightarrow> grant_error + grants" where
  "ParseGrants s = (if s = [] then Inr no_grants else parse_names no_grants (Split_comma s))"

definition Allows :: "grants \<Rightarrow> string \<Rightarrow> bool" where
  "Allows g name =
     (if name = [] then True
      else if name = GrantRead then g_Read g
      else if name = GrantInput then g_Input g
      else if name = GrantCommand then g_Command g
      else if name = GrantTime then g_Time g
      else if name = GrantAdmin then g_Admin g
      else False)"

definition Grants_String :: "grants \<Rightarrow> string" where
  "Grants_String g =
     Join_comma (map snd (filter fst
       [(g_Read g, GrantRead), (g_Input g, GrantInput), (g_Command g, GrantCommand),
        (g_Time g, GrantTime), (g_Admin g, GrantAdmin)]))"

section \<open>Lemmas\<close>

abbreviation grant_vocabulary :: "string list" where
  "grant_vocabulary \<equiv> [GrantRead, GrantInput, GrantCommand, GrantTime, GrantAdmin]"

lemma strip_front_nil [simp]: "strip_front ws [] = []"
  by (subst strip_front.simps) (auto split: option.splits simp: find_Some_iff dest!: prefix_of_length)

lemma strip_front_none:
  "(\<And>p. p \<in> set ws \<Longrightarrow> p \<noteq> [] \<Longrightarrow> hd p \<noteq> hd s) \<Longrightarrow> s \<noteq> [] \<Longrightarrow> strip_front ws s = s"
proof -
  assume a: "\<And>p. p \<in> set ws \<Longrightarrow> p \<noteq> [] \<Longrightarrow> hd p \<noteq> hd s" and s: "s \<noteq> []"
  have "\<not> prefix_of p s" if "p \<in> set ws" "p \<noteq> []" for p
    using a [OF that] s that(2) by (cases p; cases s) auto
  then have "find (\<lambda>p. p \<noteq> [] \<and> prefix_of p s) ws = None" by (auto simp: find_None_iff)
  then show ?thesis by (subst strip_front.simps) simp
qed

lemma Split_comma_not_nil: "Split_comma s \<noteq> []"
  by (cases s) (auto split: list.splits)

lemma Split_comma_word: "CHR '','' \<notin> set w \<Longrightarrow> Split_comma w = [w]"
  by (induction w) auto

lemma Split_comma_append:
  "CHR '','' \<notin> set w \<Longrightarrow> Split_comma (w @ CHR '','' # s) = w # Split_comma s"
  by (induction w) auto

lemma Split_Join:
  "ws \<noteq> [] \<Longrightarrow> \<forall>w \<in> set ws. CHR '','' \<notin> set w \<Longrightarrow> Split_comma (Join_comma ws) = ws"
  by (induction ws rule: Join_comma.induct) (auto simp: Split_comma_word Split_comma_append)

lemma TrimSpace_word:
  assumes "w \<noteq> []" and "\<And>p. p \<in> set space_encodings \<Longrightarrow> hd p \<noteq> hd w \<and> last p \<noteq> last w"
  shows "TrimSpace w = w"
proof -
  have "strip_front space_encodings w = w" using assms by (intro strip_front_none) auto
  moreover have "strip_front (map rev space_encodings) (rev w) = rev w"
    using assms by (intro strip_front_none) (auto simp: hd_rev)
  ultimately show ?thesis by (simp add: TrimSpace_def)
qed

lemma TrimSpace_grant: "w \<in> set grant_vocabulary \<Longrightarrow> TrimSpace w = w"
  by (rule TrimSpace_word) (auto simp: grant_names space_encodings_def upt_rec char_of_def bit_0)

lemma parse_names_iff:
  "(\<exists>g'. parse_names g names = Inr g') \<longleftrightarrow> (\<forall>n \<in> set names. TrimSpace n \<in> set grant_vocabulary)"
  by (induction g names rule: parse_names.induct) (auto simp: Let_def grant_names)

lemma parse_names_Allows:
  "parse_names g names = Inr g' \<Longrightarrow>
     Allows g' n \<longleftrightarrow> Allows g n \<or> n \<in> TrimSpace ` set names"
proof (induction g names rule: parse_names.induct)
  case (1 g)
  then show ?case by simp
next
  case (2 g name names)
  then show ?case by (auto simp: Let_def Allows_def grant_names split: if_splits)
qed

section \<open>Properties\<close>

text \<open>
  Grant parsing is strict. A non-empty list is accepted exactly when every comma-separated
  name is, up to surrounding white space, one of the five grants (so the retired
  \<^verbatim>\<open>write\<close> spelling or any unknown name rejects the whole list), and then the session is
  allowed exactly the names that were listed, besides the empty requirement: listing
  \<^verbatim>\<open>admin\<close> grants nothing else.
\<close>

theorem ParseGrants_strict:
  assumes "s \<noteq> []"
  shows "((\<exists>g. ParseGrants s = Inr g) \<longleftrightarrow>
      (\<forall>n \<in> set (Split_comma s). TrimSpace n \<in> {''read'', ''input'', ''command'', ''time'', ''admin''})) \<and>
    (\<forall>g n. ParseGrants s = Inr g \<longrightarrow> (Allows g n \<longleftrightarrow> n = [] \<or> n \<in> TrimSpace ` set (Split_comma s)))"
proof -
  have "Allows no_grants n \<longleftrightarrow> n = []" for n by (simp add: Allows_def no_grants_def)
  then show ?thesis
    using assms parse_names_iff [of no_grants "Split_comma s"] parse_names_Allows [of no_grants "Split_comma s"]
    by (simp add: ParseGrants_def grant_names)
qed

theorem ParseGrants_strict_witness:
  "(\<exists>g. ParseGrants ''admin'' = Inr g \<and> \<not> Allows g ''read'') \<and> (\<nexists>g. ParseGrants ''write'' = Inr g)"
proof -
  have a: "TrimSpace ''admin'' = ''admin''" using TrimSpace_grant [of GrantAdmin] by (simp add: grant_names)
  have w: "TrimSpace ''write'' = ''write''"
    by (rule TrimSpace_word) (auto simp: space_encodings_def upt_rec char_of_def)
  have "\<exists>g. ParseGrants ''admin'' = Inr g \<and> (\<forall>n. Allows g n \<longleftrightarrow> n = [] \<or> n = ''admin'')"
    using ParseGrants_strict [of "''admin''"] a by auto
  moreover have "\<nexists>g. ParseGrants ''write'' = Inr g" using ParseGrants_strict [of "''write''"] w by simp
  ultimately show ?thesis by auto
qed

text \<open>
  Printing and parsing grants round-trip: the canonical comma list of any grant set
  parses back to exactly that set.
\<close>

theorem grants_roundtrip: "ParseGrants (Grants_String g) = Inr g"
proof -
  let ?ws = "map snd (filter fst
       [(g_Read g, GrantRead), (g_Input g, GrantInput), (g_Command g, GrantCommand),
        (g_Time g, GrantTime), (g_Admin g, GrantAdmin)])"
  have v: "set ?ws \<subseteq> set grant_vocabulary" by auto
  have "\<forall>w \<in> set ?ws. CHR '','' \<notin> set w" by (auto simp: grant_names)
  then have split: "Split_comma (Grants_String g) = ?ws" if "?ws \<noteq> []"
    using that unfolding Grants_String_def by (intro Split_Join)
  have ne: "Grants_String g = [] \<longleftrightarrow> ?ws = []"
  proof
    assume "Grants_String g = []"
    show "?ws = []"
    proof (rule ccontr)
      assume "?ws \<noteq> []"
      from split [OF this] \<open>Grants_String g = []\<close> have "?ws = [[]]" by simp
      with v show False by (auto simp: grant_names)
    qed
  qed (simp add: Grants_String_def)
  have t: "TrimSpace GrantRead = GrantRead" "TrimSpace GrantInput = GrantInput"
    "TrimSpace GrantCommand = GrantCommand" "TrimSpace GrantTime = GrantTime" "TrimSpace GrantAdmin = GrantAdmin"
    by (simp_all add: TrimSpace_grant)
  have d: "distinct grant_vocabulary" "distinct (rev grant_vocabulary)" by (simp_all add: grant_names)
  have "parse_names no_grants (map snd (filter fst
       [(r, GrantRead), (i, GrantInput), (c, GrantCommand), (m, GrantTime), (a, GrantAdmin)])) =
     Inr \<lparr>g_Read = r, g_Input = i, g_Command = c, g_Time = m, g_Admin = a\<rparr>" for r i c m a
    using d by (cases r; cases i; cases c; cases m; cases a) (simp_all add: t no_grants_def)
  from this [of "g_Read g" "g_Input g" "g_Command g" "g_Time g" "g_Admin g"]
  have "parse_names no_grants ?ws = Inr g" by simp
  then show ?thesis using split ne by (auto simp: ParseGrants_def no_grants_def)
qed

end
