(* ===== verification/Bytes.thy ===== *)
theory Bytes
  imports Prelude
begin

unbundle bit_operations_syntax

text \<open>
  The parts of Go's standard library that the session code calls: \<open>encoding/hex\<close> and
  \<open>crypto/sha256\<close>, over byte lists. The hexadecimal functions come with their round trip;
  SHA-256 is written out from its published definition and used as it is.
\<close>

section \<open>Hexadecimal\<close>

definition hextable :: string where "hextable = ''0123456789abcdef''"

definition hex_byte :: "u8 \<Rightarrow> string" where
  "hex_byte b = [hextable ! (unat b div 16), hextable ! (unat b mod 16)]"

definition EncodeToString :: "u8 list \<Rightarrow> string" where
  "EncodeToString bs = concat (map hex_byte bs)"

definition fromHexChar :: "char \<Rightarrow> nat option" where
  "fromHexChar c =
     (let n = of_char c :: nat in
      if 48 \<le> n \<and> n \<le> 57 then Some (n - 48)
      else if 97 \<le> n \<and> n \<le> 102 then Some (n - 97 + 10)
      else if 65 \<le> n \<and> n \<le> 70 then Some (n - 65 + 10)
      else None)"

text \<open>\<open>None\<close> stands for the error returned for a digit outside the alphabet or an odd length.\<close>

fun DecodeString :: "string \<Rightarrow> u8 list option" where
  "DecodeString [] = Some []"
| "DecodeString [c] = None"
| "DecodeString (c # d # s) =
     (case (fromHexChar c, fromHexChar d, DecodeString s) of
        (Some x, Some y, Some bs) \<Rightarrow> Some (of_nat (16 * x + y) # bs)
      | _ \<Rightarrow> None)"

lemma less_16_cases: "(i :: nat) < 16 \<Longrightarrow> i \<in> {0, 1, 2, 3, 4, 5, 6, 7, 8, 9, 10, 11, 12, 13, 14, 15}"
  unfolding insert_iff empty_iff by presburger

lemma fromHexChar_hextable: "i < 16 \<Longrightarrow> fromHexChar (hextable ! i) = Some i"
  by (drule less_16_cases) (auto simp: fromHexChar_def hextable_def)

lemma DecodeString_EncodeToString [simp]: "DecodeString (EncodeToString bs) = Some bs"
proof (induction bs)
  case (Cons b bs)
  have "unat b < 256" using unsigned_less [of b, where 'a = nat] by simp
  then have "unat b div 16 < 16" "unat b mod 16 < 16" by auto
  with Cons show ?case by (simp add: EncodeToString_def hex_byte_def fromHexChar_hextable)
qed (simp add: EncodeToString_def)

lemma EncodeToString_inj [simp]: "EncodeToString a = EncodeToString b \<longleftrightarrow> a = b"
  by (metis DecodeString_EncodeToString option.inject)

section \<open>SHA-256\<close>

type_synonym u32 = "32 word"

text \<open>
  The round constants and the initial state are the first 32 bits of the fractional parts
  of the cube roots and square roots of the first primes.
\<close>

definition first_primes :: "nat \<Rightarrow> nat list" where
  "first_primes m = take m (filter (\<lambda>p. list_all (\<lambda>d. p mod d \<noteq> 0) [2 ..< p]) [2 ..< 312])"

definition int_root :: "nat \<Rightarrow> nat \<Rightarrow> nat" where
  "int_root e n = foldl (\<lambda>r i. if (r + 2 ^ i) ^ e \<le> n then r + 2 ^ i else r) 0 (rev [0 ..< 40])"

definition root_fraction :: "nat \<Rightarrow> nat \<Rightarrow> u32" where
  "root_fraction e p = of_nat (int_root e (p * 2 ^ (32 * e)))"

definition sha_k :: "u32 list" where "sha_k = map (root_fraction 3) (first_primes 64)"

definition sha_init :: "u32 list" where "sha_init = map (root_fraction 2) (first_primes 8)"

definition be32 :: "u8 list \<Rightarrow> u32" where
  "be32 bs = foldl (\<lambda>w b. push_bit 8 w OR ucast b) 0 bs"

definition be_bytes :: "nat \<Rightarrow> nat \<Rightarrow> u8 list" where
  "be_bytes k n = map (\<lambda>i. of_nat (n div 256 ^ i)) (rev [0 ..< k])"

definition sha_pad :: "u8 list \<Rightarrow> u8 list" where
  "sha_pad m = m @ [0x80] @ replicate ((119 - length m mod 64) mod 64) 0 @ be_bytes 8 (8 * length m)"

fun chunks :: "nat \<Rightarrow> 'a list \<Rightarrow> 'a list list" where
  "chunks n xs = (if n = 0 \<or> xs = [] then [] else take n xs # chunks n (drop n xs))"

declare chunks.simps [simp del]

text \<open>The message schedule, newest word first.\<close>

definition sha_next :: "u32 list \<Rightarrow> u32" where
  "sha_next ws =
     (let s0 = word_rotr 7 (ws ! 14) XOR word_rotr 18 (ws ! 14) XOR drop_bit 3 (ws ! 14);
          s1 = word_rotr 17 (ws ! 1) XOR word_rotr 19 (ws ! 1) XOR drop_bit 10 (ws ! 1)
      in ws ! 15 + s0 + ws ! 6 + s1)"

definition sha_schedule :: "u8 list \<Rightarrow> u32 list" where
  "sha_schedule blk = rev (((\<lambda>ws. sha_next ws # ws) ^^ 48) (rev (map be32 (chunks 4 blk))))"

definition sha_round :: "u32 list \<Rightarrow> u32 \<times> u32 \<Rightarrow> u32 list" where
  "sha_round v kw =
     (let a = v ! 0; b = v ! 1; c = v ! 2; d = v ! 3; e = v ! 4; f = v ! 5; g = v ! 6; h = v ! 7;
          s1 = word_rotr 6 e XOR word_rotr 11 e XOR word_rotr 25 e;
          ch = (e AND f) XOR (NOT e AND g);
          t1 = h + s1 + ch + fst kw + snd kw;
          s0 = word_rotr 2 a XOR word_rotr 13 a XOR word_rotr 22 a;
          maj = (a AND b) XOR (a AND c) XOR (b AND c)
      in [t1 + (s0 + maj), a, b, c, d + t1, e, f, g])"

definition sha_block :: "u32 list \<Rightarrow> u8 list \<Rightarrow> u32 list" where
  "sha_block hs blk = map2 (+) hs (foldl sha_round hs (zip sha_k (sha_schedule blk)))"

definition Sum256 :: "u8 list \<Rightarrow> u8 list" where
  "Sum256 m = concat (map (\<lambda>w. be_bytes 4 (unat w)) (foldl sha_block sha_init (chunks 64 (sha_pad m))))"

end
