(* ===== verification/Session.thy ===== *)
theory Session
  imports Bytes Grants Ledger "HOL-Library.List_Lexorder" "HOL-Library.Char_ord"
begin

text \<open>
  Resumable automation sessions: \<^verbatim>\<open>src/drive/session.go\<close>. A session is shared by pointer
  between the table and the connections that serve it, so the model keeps every session in
  a heap and names it by address; \<open>byID\<close> maps the live identifiers to addresses. Go does
  not fix the order in which a map is ranged over, so the operations that do so take the
  order as an argument. Instants are nanoseconds since the zero time. The random source is
  an argument of the operations that draw from it: it maps the number of bytes asked for
  to those bytes or to an error.
\<close>

section \<open>State\<close>

definition sessionRecoveryTTL :: int where "sessionRecoveryTTL = 10 * 60 * 1000000000"
definition maxSessions :: nat where "maxSessions = 32"
definition resumeCredentialBytes :: nat where "resumeCredentialBytes = 32"
definition instanceIDBytes :: nat where "instanceIDBytes = 16"

datatype SessionState = SessionAttached | SessionDetached | SessionExpired

record Instance =
  i_ID :: string

type_synonym rng = "nat \<Rightarrow> string + u8 list"

definition SessionRecoveryTTL :: int where "SessionRecoveryTTL = sessionRecoveryTTL"
definition MaxSessions :: nat where "MaxSessions = maxSessions"

datatype session_error =
    InstanceIDFailed string | SessionIDFailed string | CredentialFailed string
  | SessionIsExpired | SessionLimit nat | UnknownSession | CredentialMismatch

definition NewInstance :: "rng \<Rightarrow> session_error + Instance" where
  "NewInstance rand =
     (case rand instanceIDBytes of
        Inl err \<Rightarrow> Inl (InstanceIDFailed err)
      | Inr raw \<Rightarrow> Inr \<lparr>i_ID = EncodeToString raw\<rparr>)"

record ('c, 'e) Session =
  s_ID :: string
  s_InstanceID :: string
  s_credentialHash :: "u8 list"
  s_Grants :: grants
  s_state :: SessionState
  s_generation :: u64
  s_detachedAt :: int
  s_ledger :: "('c, 'e) Ledger"

section \<open>Operations of a session\<close>

definition Generation :: "('c, 'e) Session \<Rightarrow> u64" where "Generation s = s_generation s"
definition State_of :: "('c, 'e) Session \<Rightarrow> SessionState" where "State_of s = s_state s"
definition Ledger_of :: "('c, 'e) Session \<Rightarrow> ('c, 'e) Ledger" where "Ledger_of s = s_ledger s"
definition DetachedAt :: "('c, 'e) Session \<Rightarrow> int" where "DetachedAt s = s_detachedAt s"

definition Attach :: "int \<Rightarrow> ('c, 'e) Session \<Rightarrow> session_error + (u64 \<times> ('c, 'e) Session)" where
  "Attach now s =
     (if s_state s = SessionExpired then Inl SessionIsExpired
      else let s1 = (if s_state s = SessionAttached then s\<lparr>s_state := SessionDetached\<rparr> else s);
               s2 = s1\<lparr>s_generation := s_generation s1 + 1\<rparr>;
               s3 = s2\<lparr>s_state := SessionAttached, s_detachedAt := 0\<rparr>
           in Inr (s_generation s3, s3))"

definition Detach :: "int \<Rightarrow> ('c, 'e) Session \<Rightarrow> ('c, 'e) Session" where
  "Detach now s =
     (if s_state s = SessionAttached then s\<lparr>s_state := SessionDetached, s_detachedAt := now\<rparr> else s)"

definition DetachGeneration :: "u64 \<Rightarrow> int \<Rightarrow> ('c, 'e) Session \<Rightarrow> bool \<times> ('c, 'e) Session" where
  "DetachGeneration generation now s =
     (if s_state s \<noteq> SessionAttached \<or> s_generation s \<noteq> generation then (False, s)
      else (True, s\<lparr>s_state := SessionDetached, s_detachedAt := now\<rparr>))"

text \<open>The callback works on state of its own and must not call back into the session.\<close>

definition WithAttachedGeneration :: "u64 \<Rightarrow> ('w \<Rightarrow> 'w) \<Rightarrow> ('c, 'e) Session \<Rightarrow> 'w \<Rightarrow> bool \<times> 'w" where
  "WithAttachedGeneration generation fn s w =
     (if s_state s \<noteq> SessionAttached \<or> s_generation s \<noteq> generation then (False, w) else (True, fn w))"

definition ExpiredDue :: "int \<Rightarrow> ('c, 'e) Session \<Rightarrow> bool" where
  "ExpiredDue now s =
     (if s_state s \<noteq> SessionDetached then False else sessionRecoveryTTL \<le> now - s_detachedAt s)"

definition Expire :: "('c, 'e) Session \<Rightarrow> ('c, 'e) Session" where
  "Expire s = s\<lparr>s_state := SessionExpired\<rparr>"

definition VerifyCredential :: "string \<Rightarrow> ('c, 'e) Session \<Rightarrow> bool" where
  "VerifyCredential credential s =
     (case DecodeString credential of
        None \<Rightarrow> False
      | Some raw \<Rightarrow> if length raw \<noteq> resumeCredentialBytes then False
                    else Sum256 raw = s_credentialHash s)"

definition newSession :: "Instance \<Rightarrow> grants \<Rightarrow> rng \<Rightarrow> session_error + (('c, 'e) Session \<times> string)" where
  "newSession inst gs rng =
     (case rng 8 of
        Inl err \<Rightarrow> Inl (SessionIDFailed err)
      | Inr idRaw \<Rightarrow>
          (case rng resumeCredentialBytes of
             Inl err \<Rightarrow> Inl (CredentialFailed err)
           | Inr credRaw \<Rightarrow>
               Inr (\<lparr>s_ID = EncodeToString idRaw, s_InstanceID = i_ID inst, s_credentialHash = Sum256 credRaw,
                     s_Grants = gs, s_state = SessionAttached, s_generation = 1, s_detachedAt = 0,
                     s_ledger = NewLedger\<rparr>, EncodeToString credRaw)))"

section \<open>The session table\<close>

record ('c, 'e) SessionTable =
  t_inst :: Instance
  t_heap :: "('c, 'e) Session list"
  t_byID :: "(string \<times> nat) list"
  t_expired :: int

definition NewSessionTable :: "Instance \<Rightarrow> ('c, 'e) SessionTable" where
  "NewSessionTable inst = \<lparr>t_inst = inst, t_heap = [], t_byID = [], t_expired = 0\<rparr>"

definition InstanceID :: "('c, 'e) SessionTable \<Rightarrow> string" where
  "InstanceID t = i_ID (t_inst t)"

definition Count :: "('c, 'e) SessionTable \<Rightarrow> nat" where
  "Count t = length (t_byID t)"

definition put_session :: "nat \<Rightarrow> ('c, 'e) Session \<Rightarrow> ('c, 'e) SessionTable \<Rightarrow> ('c, 'e) SessionTable" where
  "put_session a s t = t\<lparr>t_heap := (t_heap t)[a := s]\<rparr>"

definition Create :: "grants \<Rightarrow> rng \<Rightarrow> ('c, 'e) SessionTable \<Rightarrow>
    session_error + (nat \<times> string \<times> ('c, 'e) SessionTable)" where
  "Create gs rng t =
     (if maxSessions \<le> length (t_byID t) then Inl (SessionLimit maxSessions)
      else (case newSession (t_inst t) gs rng of
              Inl err \<Rightarrow> Inl err
            | Inr (s, cred) \<Rightarrow>
                let a = length (t_heap t)
                in Inr (a, cred, t\<lparr>t_heap := t_heap t @ [s], t_byID := AList.update (s_ID s) a (t_byID t)\<rparr>)))"

definition expireLocked :: "nat \<Rightarrow> ('c, 'e) SessionTable \<Rightarrow> ('c, 'e) SessionTable" where
  "expireLocked a t =
     (let s = t_heap t ! a; t1 = put_session a (Expire s) t
      in t1\<lparr>t_byID := AList.delete (s_ID s) (t_byID t1), t_expired := t_expired t1 + 1\<rparr>)"

text \<open>
  A refused resume still returns the table: a session found past its recovery time is
  expired on the way. \<open>now\<close> is the reading of the clock for the expiry test and \<open>now'\<close> the
  one handed to \<open>Attach\<close>.
\<close>

definition Resume :: "string \<Rightarrow> string \<Rightarrow> int \<Rightarrow> int \<Rightarrow> ('c, 'e) SessionTable \<Rightarrow>
    (session_error + nat \<times> u64) \<times> ('c, 'e) SessionTable" where
  "Resume sessionID credential now now' t =
     (case map_of (t_byID t) sessionID of
        None \<Rightarrow> (Inl UnknownSession, t)
      | Some a \<Rightarrow>
          if \<not> VerifyCredential credential (t_heap t ! a) then (Inl CredentialMismatch, t)
          else if ExpiredDue now (t_heap t ! a) then (Inl SessionIsExpired, expireLocked a t)
          else (case Attach now' (t_heap t ! a) of
                  Inl err \<Rightarrow> (Inl err, t)
                | Inr (gen, s) \<Rightarrow> (Inr (a, gen), put_session a s t)))"

definition Get :: "string \<Rightarrow> ('c, 'e) SessionTable \<Rightarrow> nat option" where
  "Get sessionID t = map_of (t_byID t) sessionID"

definition Revoke :: "string \<Rightarrow> ('c, 'e) SessionTable \<Rightarrow> bool \<times> ('c, 'e) SessionTable" where
  "Revoke sessionID t =
     (case map_of (t_byID t) sessionID of
        None \<Rightarrow> (False, t)
      | Some a \<Rightarrow>
          let t1 = put_session a (Expire (t_heap t ! a)) t
          in (True, t1\<lparr>t_byID := AList.delete sessionID (t_byID t1), t_expired := t_expired t1 + 1\<rparr>))"

record SessionSummary =
  ss_ID :: string
  ss_State :: SessionState
  ss_Generation :: u64
  ss_Grants :: grants

definition summary_of :: "('c, 'e) Session \<Rightarrow> SessionSummary" where
  "summary_of s = \<lparr>ss_ID = s_ID s, ss_State = State_of s, ss_Generation = Generation s, ss_Grants = s_Grants s\<rparr>"

text \<open>Both loops visit the addresses registered in the table, in the given order.\<close>

definition List_sessions :: "nat list \<Rightarrow> ('c, 'e) SessionTable \<Rightarrow> SessionSummary list" where
  "List_sessions order t = sort_key ss_ID (map (\<lambda>a. summary_of (t_heap t ! a)) order)"

fun sweep_loop :: "int \<Rightarrow> nat list \<Rightarrow> int \<Rightarrow> ('c, 'e) SessionTable \<Rightarrow> int \<times> ('c, 'e) SessionTable" where
  "sweep_loop now [] n t = (n, t)"
| "sweep_loop now (a # order) n t =
     (if ExpiredDue now (t_heap t ! a) then sweep_loop now order (n + 1) (expireLocked a t)
      else sweep_loop now order n t)"

definition Sweep :: "nat list \<Rightarrow> int \<Rightarrow> ('c, 'e) SessionTable \<Rightarrow> int \<times> ('c, 'e) SessionTable" where
  "Sweep order now t = sweep_loop now order 0 t"

section \<open>What every operation keeps of a session\<close>

text \<open>
  The identity, the credential hash and the grants never change; expiry is final; and the
  outcome ledger only moves forward by ledger calls.
\<close>

definition session_kept :: "('c, 'e) Session \<Rightarrow> ('c, 'e) Session \<Rightarrow> bool" where
  "session_kept s s' \<longleftrightarrow>
     s_ID s' = s_ID s \<and> s_InstanceID s' = s_InstanceID s \<and> s_credentialHash s' = s_credentialHash s \<and>
     s_Grants s' = s_Grants s \<and> (s_state s = SessionExpired \<longrightarrow> s_state s' = SessionExpired) \<and>
     (\<exists>ids. outcomes_run (s_ledger s) ids (s_ledger s'))"

lemma outcomes_run_trans:
  "outcomes_run L1 ids' L2 \<Longrightarrow> outcomes_run L0 ids L1 \<Longrightarrow> outcomes_run L0 (ids @ ids') L2"
proof (induction rule: outcomes_run.induct)
  case (run_claim ids' L k c opID a L')
  show ?case
    using outcomes_run.run_claim [OF run_claim.IH [OF run_claim.prems] run_claim.hyps(2,3)] by simp
next
  case (run_reject ids' L k c perr a L')
  show ?case
    using outcomes_run.run_reject [OF run_reject.IH [OF run_reject.prems] run_reject.hyps(2,3)] by simp
qed (auto intro: run_accept run_result run_error)

lemma session_kept_refl: "session_kept s s"
  by (auto simp: session_kept_def intro: run_start)

lemma session_kept_trans: "session_kept s s1 \<Longrightarrow> session_kept s1 s2 \<Longrightarrow> session_kept s s2"
  unfolding session_kept_def by (auto intro: outcomes_run_trans)

lemma same_ledger_kept:
  "s_ID s' = s_ID s \<Longrightarrow> s_InstanceID s' = s_InstanceID s \<Longrightarrow> s_credentialHash s' = s_credentialHash s \<Longrightarrow>
   s_Grants s' = s_Grants s \<Longrightarrow> (s_state s = SessionExpired \<Longrightarrow> s_state s' = SessionExpired) \<Longrightarrow>
   s_ledger s' = s_ledger s \<Longrightarrow> session_kept s s'"
  by (auto simp: session_kept_def intro: run_start)

lemma session_ops_keep:
  "Attach now s = Inr (gen, s') \<Longrightarrow> session_kept s s'"
  "session_kept s (Detach now s)"
  "session_kept s (snd (DetachGeneration g now s))"
  "session_kept s (Expire s)"
  by (auto simp: Attach_def Detach_def DetachGeneration_def Expire_def Let_def
      intro!: same_ledger_kept split: if_splits)

section \<open>Well-formed tables\<close>

definition wf_table :: "('c, 'e) SessionTable \<Rightarrow> bool" where
  "wf_table t \<longleftrightarrow>
     distinct (map fst (t_byID t)) \<and> length (t_byID t) \<le> maxSessions \<and>
     (\<forall>(k, a) \<in> set (t_byID t). a < length (t_heap t) \<and> s_ID (t_heap t ! a) = k \<and>
        s_state (t_heap t ! a) \<noteq> SessionExpired) \<and>
     (\<forall>a < length (t_heap t). s_InstanceID (t_heap t ! a) = i_ID (t_inst t) \<and>
        (\<exists>ids. outcomes_run NewLedger ids (s_ledger (t_heap t ! a))))"

lemma wf_tableD:
  assumes "wf_table t" "map_of (t_byID t) k = Some a"
  shows "a < length (t_heap t)" "s_ID (t_heap t ! a) = k" "s_state (t_heap t ! a) \<noteq> SessionExpired"
  using assms by (auto simp: wf_table_def dest!: map_of_SomeD)

lemma wf_NewSessionTable [simp]: "wf_table (NewSessionTable inst)"
  by (simp add: wf_table_def NewSessionTable_def)

text \<open>Replacing a session by one it may become, while it stays registered or is expired.\<close>

lemma wf_put:
  assumes "wf_table t" "session_kept (t_heap t ! a) s"
    and "s_state s = SessionExpired \<Longrightarrow> a \<notin> snd ` set (t_byID t)"
  shows "wf_table (put_session a s t)"
proof (cases "a < length (t_heap t)")
  case True
  obtain ids where "outcomes_run NewLedger ids (s_ledger (t_heap t ! a))"
    using assms(1) True by (auto simp: wf_table_def)
  then have "\<exists>ids. outcomes_run NewLedger ids (s_ledger s)"
    using assms(2) outcomes_run_trans unfolding session_kept_def by blast
  moreover have "s_ID s = s_ID (t_heap t ! a)" "s_InstanceID s = s_InstanceID (t_heap t ! a)"
    using assms(2) by (auto simp: session_kept_def)
  moreover have "\<forall>(k, b) \<in> set (t_byID t). b = a \<longrightarrow> s_state s \<noteq> SessionExpired"
    using assms(3) by force
  ultimately show ?thesis
    using assms(1) True unfolding wf_table_def put_session_def by (auto simp: nth_list_update)
next
  case False
  then show ?thesis using assms(1) by (simp add: put_session_def list_update_beyond)
qed

lemma wf_forget:
  "wf_table t \<Longrightarrow> wf_table (t\<lparr>t_byID := AList.delete k (t_byID t), t_expired := n\<rparr>)"
  using length_AList_delete [of k "t_byID t"]
  by (auto simp: wf_table_def set_AList_delete distinct_delete)

lemma wf_drop:
  assumes wf: "wf_table t" and k: "map_of (t_byID t) k = Some a"
  shows "wf_table ((put_session a (Expire (t_heap t ! a)) t)\<lparr>t_byID := AList.delete k (t_byID t), t_expired := n\<rparr>)"
proof -
  let ?t = "t\<lparr>t_byID := AList.delete k (t_byID t), t_expired := n\<rparr>"
  have "a \<notin> snd ` set (t_byID ?t)"
    using wf_tableD(2) [OF wf k] wf by (auto simp: set_AList_delete wf_table_def)
  then have "wf_table (put_session a (Expire (t_heap ?t ! a)) ?t)"
    by (intro wf_put [OF wf_forget [OF wf]]) (simp_all add: session_ops_keep)
  then show ?thesis by (simp add: put_session_def wf_table_def)
qed

lemma expireLocked_wf:
  assumes "wf_table t" "map_of (t_byID t) k = Some a"
  shows "wf_table (expireLocked a t)"
  using wf_drop [OF assms] wf_tableD(2) [OF assms]
  by (simp add: expireLocked_def Let_def put_session_def)

lemma put_live_wf:
  assumes "wf_table t" "session_kept (t_heap t ! a) s" "s_state s \<noteq> SessionExpired"
  shows "wf_table (put_session a s t)"
  using assms by (intro wf_put) auto

lemma Create_wf:
  assumes "wf_table t" "Create gs rng t = Inr (a, cred, t')"
  shows "wf_table t'"
proof -
  from assms(2) obtain s :: "('a, 'b) Session" where lt: "length (t_byID t) < maxSessions" and s: "newSession (t_inst t) gs rng = Inr (s, cred)"
    and a: "a = length (t_heap t)"
    and t': "t' = t\<lparr>t_heap := t_heap t @ [s], t_byID := AList.update (s_ID s) a (t_byID t)\<rparr>"
    by (auto simp: Create_def Let_def split: if_splits sum.splits)
  have s': "s_state s = SessionAttached" "s_InstanceID s = i_ID (t_inst t)" "s_ledger s = NewLedger"
    using s by (auto simp: newSession_def split: sum.splits)
  have "length (AList.update (s_ID s) a (t_byID t)) \<le> maxSessions"
    using lt length_AList_update [of "s_ID s" a "t_byID t"] by simp
  moreover have "distinct (map fst (AList.update (s_ID s) a (t_byID t)))"
    using assms(1) by (simp add: wf_table_def distinct_update)
  ultimately show ?thesis
    using assms(1) s' by (auto simp: wf_table_def t' a nth_append less_Suc_eq intro: run_start
        dest!: set_AList_update)
qed

lemma registered_iff:
  assumes "wf_table t"
  shows "a \<in> snd ` set (t_byID t) \<longleftrightarrow> (\<exists>k. map_of (t_byID t) k = Some a)"
  using assms by (force simp: wf_table_def)

lemma expireLocked_byID:
  assumes wf: "wf_table t" and a: "a \<in> snd ` set (t_byID t)"
  shows "t_byID (expireLocked a t) = filter (\<lambda>(k, b). b \<noteq> a) (t_byID t)"
proof -
  from a obtain k where k: "(k, a) \<in> set (t_byID t)" by auto
  then have id: "s_ID (t_heap t ! a) = k" using wf by (auto simp: wf_table_def)
  have key: "fst x = k \<longleftrightarrow> snd x = a" if x: "x \<in> set (t_byID t)" for x
  proof
    assume "fst x = k"
    with x have "(k, snd x) \<in> set (t_byID t)" by auto
    with k wf show "snd x = a" using eq_key_imp_eq_value [of "t_byID t" k "snd x" a] by (simp add: wf_table_def)
  next
    assume "snd x = a"
    with x id wf show "fst x = k" by (cases x) (auto simp: wf_table_def)
  qed
  have "filter (\<lambda>x. k \<noteq> fst x) (t_byID t) = filter (\<lambda>x. snd x \<noteq> a) (t_byID t)"
    by (intro filter_cong refl) (use key in blast)
  then show ?thesis
    by (simp add: expireLocked_def Let_def put_session_def id AList.delete_eq case_prod_beta')
qed

lemma expireLocked_simps [simp]:
  "t_heap (expireLocked a t) = (t_heap t)[a := Expire (t_heap t ! a)]"
  "t_inst (expireLocked a t) = t_inst t" "t_expired (expireLocked a t) = t_expired t + 1"
  by (simp_all add: expireLocked_def Let_def put_session_def)

definition due_in :: "int \<Rightarrow> nat list \<Rightarrow> ('c, 'e) SessionTable \<Rightarrow> nat \<Rightarrow> bool" where
  "due_in now order t a \<longleftrightarrow> a \<in> set order \<and> ExpiredDue now (t_heap t ! a)"

lemma sweep_loop_spec:
  "wf_table t \<Longrightarrow> distinct order \<Longrightarrow> set order \<subseteq> snd ` set (t_byID t) \<Longrightarrow>
   sweep_loop now order n t = (m, t') \<Longrightarrow>
     wf_table t' \<and> m = n + int (length (filter (due_in now order t) order)) \<and>
     t_heap t' = map (\<lambda>a. if due_in now order t a then Expire (t_heap t ! a) else t_heap t ! a) [0 ..< length (t_heap t)] \<and>
     t_byID t' = filter (\<lambda>(k, a). \<not> due_in now order t a) (t_byID t)"
proof (induction now order n t rule: sweep_loop.induct)
  case (1 now n t)
  then show ?case by (auto simp: due_in_def map_nth)
next
  case (2 now a order n t)
  have reg: "a \<in> snd ` set (t_byID t)" using "2.prems"(3) by simp
  then obtain k where k: "map_of (t_byID t) k = Some a" using registered_iff [OF "2.prems"(1)] by blast
  have lt: "a < length (t_heap t)" using wf_tableD(1) [OF "2.prems"(1) k] .
  show ?case
  proof (cases "ExpiredDue now (t_heap t ! a)")
    case True
    let ?t = "expireLocked a t"
    have sub: "set order \<subseteq> snd ` set (t_byID ?t)"
      using "2.prems"(2,3) by (force simp: expireLocked_byID [OF "2.prems"(1) reg])
    have due: "due_in now order ?t = due_in now order t"
      using "2.prems"(2) by (auto simp: due_in_def fun_eq_iff nth_list_update [OF lt])
    have due': "due_in now (a # order) t b \<longleftrightarrow> b = a \<or> due_in now order t b" for b
      using True by (auto simp: due_in_def)
    have len: "length (filter (due_in now (a # order) t) order) = length (filter (due_in now order t) order)"
      using "2.prems"(2) by (intro arg_cong [where f = length] filter_cong) (auto simp: due_in_def)
    have IH: "wf_table t' \<and> m = n + 1 + int (length (filter (due_in now order ?t) order)) \<and>
       t_heap t' = map (\<lambda>b. if due_in now order ?t b then Expire (t_heap ?t ! b) else t_heap ?t ! b) [0 ..< length (t_heap ?t)] \<and>
       t_byID t' = filter (\<lambda>(k, b). \<not> due_in now order ?t b) (t_byID ?t)"
      using "2.IH"(1) [OF True expireLocked_wf [OF "2.prems"(1) k] _ sub] "2.prems"(2,4) True by simp
    have "\<not> due_in now order t a" using "2.prems"(2) by (simp add: due_in_def)
    then have "t_heap t' = map (\<lambda>b. if due_in now (a # order) t b then Expire (t_heap t ! b) else t_heap t ! b) [0 ..< length (t_heap t)]"
      using IH lt by (auto simp: due due' nth_list_update intro!: nth_equalityI)
    moreover have "t_byID t' = filter (\<lambda>(k, b). \<not> due_in now (a # order) t b) (t_byID t)"
      using IH by (auto simp: due due' expireLocked_byID [OF "2.prems"(1) reg] intro!: filter_cong)
    moreover have "m = n + int (length (filter (due_in now (a # order) t) (a # order)))"
      using IH len by (simp add: due due')
    ultimately show ?thesis using IH by blast
  next
    case False
    then have "due_in now (a # order) t = due_in now order t" by (auto simp: due_in_def fun_eq_iff)
    then show ?thesis using "2.IH"(2) [OF False "2.prems"(1)] "2.prems" False by (simp add: due_in_def)
  qed
qed

section \<open>Runs\<close>

text \<open>
  Any sequence of calls on the table and on the sessions it hands out. \<open>Expire\<close> is only
  called by the table itself; the ledger of a session moves by ledger calls.
\<close>

inductive table_run :: "('c, 'e) SessionTable \<Rightarrow> ('c, 'e) SessionTable \<Rightarrow> bool" for t0 where
  tr_start: "table_run t0 t0"
| tr_create: "table_run t0 t \<Longrightarrow> Create gs rng t = Inr (a, cred, t') \<Longrightarrow> table_run t0 t'"
| tr_resume: "table_run t0 t \<Longrightarrow> Resume k cred now now' t = (r, t') \<Longrightarrow> table_run t0 t'"
| tr_revoke: "table_run t0 t \<Longrightarrow> Revoke k t = (b, t') \<Longrightarrow> table_run t0 t'"
| tr_sweep: "table_run t0 t \<Longrightarrow> distinct order \<Longrightarrow> set order = snd ` set (t_byID t) \<Longrightarrow>
    Sweep order now t = (n, t') \<Longrightarrow> table_run t0 t'"
| tr_attach: "table_run t0 t \<Longrightarrow> a < length (t_heap t) \<Longrightarrow> Attach now (t_heap t ! a) = Inr (gen, s) \<Longrightarrow>
    table_run t0 (put_session a s t)"
| tr_detach: "table_run t0 t \<Longrightarrow> a < length (t_heap t) \<Longrightarrow>
    table_run t0 (put_session a (Detach now (t_heap t ! a)) t)"
| tr_detach_generation: "table_run t0 t \<Longrightarrow> a < length (t_heap t) \<Longrightarrow>
    DetachGeneration g now (t_heap t ! a) = (b, s) \<Longrightarrow> table_run t0 (put_session a s t)"
| tr_ledger: "table_run t0 t \<Longrightarrow> a < length (t_heap t) \<Longrightarrow>
    outcomes_run (s_ledger (t_heap t ! a)) ids L \<Longrightarrow>
    table_run t0 (put_session a ((t_heap t ! a)\<lparr>s_ledger := L\<rparr>) t)"

text \<open>Every session in the heap stays there and is kept.\<close>

definition sessions_kept :: "('c, 'e) SessionTable \<Rightarrow> ('c, 'e) SessionTable \<Rightarrow> bool" where
  "sessions_kept t t' \<longleftrightarrow>
     length (t_heap t) \<le> length (t_heap t') \<and>
     (\<forall>a < length (t_heap t). session_kept (t_heap t ! a) (t_heap t' ! a))"

lemma sessions_kept_refl: "sessions_kept t t"
  by (simp add: sessions_kept_def session_kept_refl)

lemma sessions_kept_trans: "sessions_kept t t1 \<Longrightarrow> sessions_kept t1 t2 \<Longrightarrow> sessions_kept t t2"
  unfolding sessions_kept_def by (meson le_trans less_le_trans session_kept_trans)

lemma put_kept: "session_kept (t_heap t ! a) s \<Longrightarrow> sessions_kept t (put_session a s t)"
  by (auto simp: sessions_kept_def put_session_def session_kept_refl nth_list_update_cases)

lemma same_heap_kept: "sessions_kept t t1 \<Longrightarrow> t_heap t2 = t_heap t1 \<Longrightarrow> sessions_kept t t2"
  by (simp add: sessions_kept_def)

text \<open>One call keeps the table well formed and keeps every session.\<close>

lemma Resume_ok:
  assumes "wf_table t" "Resume k cred now now' t = (r, t')"
  shows "wf_table t' \<and> sessions_kept t t'"
proof (cases "map_of (t_byID t) k")
  case None
  then show ?thesis using assms by (simp add: Resume_def sessions_kept_refl)
next
  case (Some a)
  have e: "wf_table (expireLocked a t) \<and> sessions_kept t (expireLocked a t)"
    using expireLocked_wf [OF assms(1) Some]
      same_heap_kept [OF put_kept [OF session_ops_keep(4), of t a], of "expireLocked a t"]
    by (simp add: put_session_def)
  have p: "wf_table (put_session a s t) \<and> sessions_kept t (put_session a s t)"
    if "Attach now' (t_heap t ! a) = Inr (gen, s)" for gen s
  proof -
    have "s_state s \<noteq> SessionExpired" using that by (auto simp: Attach_def Let_def split: if_splits)
    then show ?thesis using session_ops_keep(1) [OF that] put_live_wf [OF assms(1)] put_kept by blast
  qed
  show ?thesis
    using assms Some e p by (auto simp: Resume_def sessions_kept_refl split: if_splits sum.splits)
qed

lemma Revoke_ok:
  assumes "wf_table t" "Revoke k t = (b, t')"
  shows "wf_table t' \<and> sessions_kept t t'"
proof (cases "map_of (t_byID t) k")
  case (Some a)
  have "t_heap t' = t_heap (put_session a (Expire (t_heap t ! a)) t)"
    using assms(2) Some by (auto simp: Revoke_def Let_def)
  then have "sessions_kept t t'" using put_kept [OF session_ops_keep(4)] same_heap_kept by blast
  then show ?thesis
    using wf_drop [OF assms(1) Some] assms(2) Some by (auto simp: Revoke_def Let_def put_session_def)
qed (use assms in \<open>simp add: Revoke_def sessions_kept_refl\<close>)

lemma Create_ok:
  assumes "wf_table t" "Create gs rng t = Inr (a, cred, t')"
  shows "wf_table t' \<and> sessions_kept t t'"
  using Create_wf [OF assms] assms(2)
  by (auto simp: Create_def Let_def sessions_kept_def nth_append session_kept_refl split: if_splits sum.splits)

lemma Sweep_ok:
  assumes "wf_table t" "distinct order" "set order = snd ` set (t_byID t)" "Sweep order now t = (n, t')"
  shows "wf_table t' \<and> sessions_kept t t'"
  using sweep_loop_spec [OF assms(1,2) _ assms(4) [unfolded Sweep_def]] assms(3)
  by (auto simp: sessions_kept_def session_kept_refl session_ops_keep)

lemma put_ok:
  assumes "wf_table t" "session_kept (t_heap t ! a) s" "s_state s = s_state (t_heap t ! a) \<or> s_state s \<noteq> SessionExpired"
    and "a < length (t_heap t)"
  shows "wf_table (put_session a s t) \<and> sessions_kept t (put_session a s t)"
proof -
  have "s_state s = SessionExpired \<Longrightarrow> a \<notin> snd ` set (t_byID t)"
    using assms(1,3) by (auto simp: wf_table_def)
  then show ?thesis using assms(1,2) wf_put put_kept by blast
qed

lemma table_run_ok:
  "table_run t0 t \<Longrightarrow> wf_table t0 \<Longrightarrow> wf_table t \<and> sessions_kept t0 t"
proof (induction rule: table_run.induct)
  case tr_start
  then show ?case by (simp add: sessions_kept_refl)
next
  case (tr_create t gs rng a cred t')
  then show ?case using Create_ok sessions_kept_trans by blast
next
  case (tr_resume t k cred now now' r t')
  then show ?case using Resume_ok sessions_kept_trans by blast
next
  case (tr_revoke t k b t')
  then show ?case using Revoke_ok sessions_kept_trans by blast
next
  case (tr_sweep t order now n t')
  then have "wf_table t' \<and> sessions_kept t t'" by (intro Sweep_ok [OF _ tr_sweep.hyps(2-4)]) simp
  with tr_sweep show ?case using sessions_kept_trans by blast
next
  case (tr_attach t a now gen s)
  then have "wf_table (put_session a s t) \<and> sessions_kept t (put_session a s t)"
    by (intro put_ok session_ops_keep(1)) (auto simp: Attach_def Let_def split: if_splits)
  with tr_attach show ?case using sessions_kept_trans by blast
next
  case (tr_detach t a now)
  then have "wf_table (put_session a (Detach now (t_heap t ! a)) t) \<and>
      sessions_kept t (put_session a (Detach now (t_heap t ! a)) t)"
    by (intro put_ok session_ops_keep(2)) (auto simp: Detach_def)
  with tr_detach show ?case using sessions_kept_trans by blast
next
  case (tr_detach_generation t a g now b s)
  then have "session_kept (t_heap t ! a) s" using session_ops_keep(3) [of "t_heap t ! a" g now] by simp
  with tr_detach_generation have "wf_table (put_session a s t) \<and> sessions_kept t (put_session a s t)"
    by (intro put_ok) (auto simp: DetachGeneration_def split: if_splits)
  with tr_detach_generation show ?case using sessions_kept_trans by blast
next
  case (tr_ledger t a ids L)
  then have "wf_table (put_session a ((t_heap t ! a)\<lparr>s_ledger := L\<rparr>) t) \<and>
      sessions_kept t (put_session a ((t_heap t ! a)\<lparr>s_ledger := L\<rparr>) t)"
    by (intro put_ok) (simp_all add: session_kept_def, blast+)
  with tr_ledger show ?case using sessions_kept_trans by blast
qed

section \<open>Properties\<close>

text \<open>A table with one session, used by the witnesses.\<close>

definition sample_rng :: rng where "sample_rng n = Inr (replicate n 7)"

definition sample_table :: "(nat, nat) SessionTable" where
  "sample_table =
     (case Create no_grants sample_rng (NewSessionTable \<lparr>i_ID = ''app''\<rparr>) of
        Inr (a, cred, t) \<Rightarrow> t | Inl _ \<Rightarrow> NewSessionTable \<lparr>i_ID = ''app''\<rparr>)"

definition sample_id :: string where "sample_id = EncodeToString (replicate 8 7)"
definition sample_cred :: string where "sample_cred = EncodeToString (replicate 32 7)"

lemma sample_create:
  "Create no_grants sample_rng (NewSessionTable \<lparr>i_ID = ''app''\<rparr>) = Inr (0, sample_cred, sample_table)"
  by (simp add: sample_table_def Create_def NewSessionTable_def maxSessions_def newSession_def sample_rng_def
      resumeCredentialBytes_def sample_cred_def Let_def)

lemma sample_table_simps:
  "t_byID sample_table = [(sample_id, 0)]" "length (t_heap sample_table) = 1"
  "s_state (t_heap sample_table ! 0) = SessionAttached"
  by (simp_all add: sample_table_def Create_def NewSessionTable_def maxSessions_def newSession_def sample_rng_def
      resumeCredentialBytes_def sample_id_def Let_def)

lemma sample_run_table: "table_run (NewSessionTable \<lparr>i_ID = ''app''\<rparr>) sample_table"
  by (rule tr_create [OF tr_start sample_create])

text \<open>
  The session table's invariant. After any sequence of calls on a new table there are at
  most 32 registered sessions, under distinct identifiers, and looking one up yields a
  session of this instance that carries the identifier and is not expired.
\<close>

theorem sessions_bounded_and_live:
  assumes "table_run (NewSessionTable inst) t"
  shows "Count t \<le> 32 \<and> distinct (map fst (t_byID t)) \<and>
    (\<forall>k a. Get k t = Some a \<longrightarrow> a < length (t_heap t) \<and> s_ID (t_heap t ! a) = k \<and>
       s_state (t_heap t ! a) \<noteq> SessionExpired \<and> s_InstanceID (t_heap t ! a) = i_ID (t_inst t))"
proof -
  have wf: "wf_table t" using table_run_ok [OF assms wf_NewSessionTable] ..
  then have "Count t \<le> 32 \<and> distinct (map fst (t_byID t))"
    by (simp add: wf_table_def Count_def maxSessions_def)
  moreover have "a < length (t_heap t) \<and> s_ID (t_heap t ! a) = k \<and> s_state (t_heap t ! a) \<noteq> SessionExpired \<and>
       s_InstanceID (t_heap t ! a) = i_ID (t_inst t)" if "Get k t = Some a" for k a
    using wf_tableD [OF wf that [unfolded Get_def]] wf by (simp add: wf_table_def)
  ultimately show ?thesis by blast
qed

theorem sessions_bounded_and_live_witness:
  "Count sample_table \<le> 32 \<and> Get sample_id sample_table = Some 0 \<and> s_ID (t_heap sample_table ! 0) = sample_id"
  using sessions_bounded_and_live [OF sample_run_table] by (simp add: Get_def sample_table_simps)

text \<open>
  C4: A session's identity outlives its connections. Whatever is called later (detaches,
  resumes, sweeps, revocations, other sessions), a session keeps its identifier, its
  credential and its grants, so a resume can never widen them; an expired session stays
  expired and is registered under no identifier; and the identifiers claimed on its ledger
  continue the earlier ones without a gap or a repetition.
\<close>

theorem session_identity_outlives_connections:
  assumes "table_run (NewSessionTable inst) t" and "table_run t t'" and "a < length (t_heap t)"
  shows "s_ID (t_heap t' ! a) = s_ID (t_heap t ! a) \<and>
    s_credentialHash (t_heap t' ! a) = s_credentialHash (t_heap t ! a) \<and>
    s_Grants (t_heap t' ! a) = s_Grants (t_heap t ! a) \<and>
    (s_state (t_heap t ! a) = SessionExpired \<longrightarrow>
       s_state (t_heap t' ! a) = SessionExpired \<and> (\<forall>k. Get k t' \<noteq> Some a)) \<and>
    (\<exists>ids. outcomes_run (s_ledger (t_heap t ! a)) ids (s_ledger (t_heap t' ! a)) \<and>
       map unat ids = [Suc (unat (HighWater (s_ledger (t_heap t ! a)))) ..<
                       Suc (unat (HighWater (s_ledger (t_heap t' ! a))))])"
proof -
  have wf: "wf_table t" using table_run_ok [OF assms(1) wf_NewSessionTable] ..
  have wf': "wf_table t'" and k: "session_kept (t_heap t ! a) (t_heap t' ! a)"
    using table_run_ok [OF assms(2) wf] assms(3) by (auto simp: sessions_kept_def)
  obtain ids where r: "outcomes_run (s_ledger (t_heap t ! a)) ids (s_ledger (t_heap t' ! a))"
    using k by (auto simp: session_kept_def)
  obtain ids0 where "outcomes_run NewLedger ids0 (s_ledger (t_heap t ! a))"
    using wf assms(3) by (auto simp: wf_table_def)
  then have "wf_outcomes (s_ledger (t_heap t ! a))" by (rule run_wf) simp
  from run_ids [OF r this]
  have "map unat ids = [Suc (unat (HighWater (s_ledger (t_heap t ! a)))) ..<
                        Suc (unat (HighWater (s_ledger (t_heap t' ! a))))]"
    by (simp add: HighWater_def)
  moreover have "Get k' t' \<noteq> Some a" if "s_state (t_heap t' ! a) = SessionExpired" for k'
    using wf_tableD(3) [OF wf'] that by (auto simp: Get_def)
  ultimately show ?thesis using k r by (auto simp: session_kept_def)
qed

theorem session_identity_outlives_connections_witness:
  "s_Grants (t_heap (snd (Revoke sample_id sample_table)) ! 0) = s_Grants (t_heap sample_table ! 0)"
proof -
  have "table_run sample_table (snd (Revoke sample_id sample_table))"
    by (rule tr_revoke [OF tr_start, of sample_id]) (rule prod.collapse [symmetric])
  then show ?thesis
    using session_identity_outlives_connections [OF sample_run_table, of _ 0] by (simp add: sample_table_simps)
qed



text \<open>
  Sweeping is exact. Whatever order the map is ranged over in, a sweep expires exactly the
  registered sessions that are detached for at least ten minutes, removes exactly those from
  the table, leaves every other session as it was, and returns their number.
\<close>

theorem Sweep_exact:
  assumes "table_run (NewSessionTable inst) t" and "distinct order" and "set order = snd ` set (t_byID t)"
    and "Sweep order now t = (n, t')"
  shows "(let due = \<lambda>a. a \<in> snd ` set (t_byID t) \<and> s_state (t_heap t ! a) = SessionDetached \<and>
                       600000000000 \<le> now - s_detachedAt (t_heap t ! a)
     in n = int (card {a. due a}) \<and> t_byID t' = filter (\<lambda>(k, a). \<not> due a) (t_byID t) \<and>
        t_heap t' = map (\<lambda>a. if due a then Expire (t_heap t ! a) else t_heap t ! a) [0 ..< length (t_heap t)])"
proof -
  have wf: "wf_table t" using table_run_ok [OF assms(1) wf_NewSessionTable] ..
  have due: "due_in now order t = (\<lambda>a. a \<in> snd ` set (t_byID t) \<and> s_state (t_heap t ! a) = SessionDetached \<and>
                       600000000000 \<le> now - s_detachedAt (t_heap t ! a))"
    by (auto simp: fun_eq_iff due_in_def assms(3) ExpiredDue_def sessionRecoveryTTL_def)
  have "{a. due_in now order t a} = set (filter (due_in now order t) order)" by (auto simp: due_in_def)
  then have "card {a. due_in now order t a} = length (filter (due_in now order t) order)"
    using assms(2) distinct_card [of "filter (due_in now order t) order"] by simp
  then show ?thesis
    using sweep_loop_spec [OF wf assms(2) _ assms(4) [unfolded Sweep_def]] assms(3)
    by (simp add: Let_def flip: due)
qed

theorem Sweep_exact_witness:
  "\<exists>n t'. Sweep [0] 700000000000 sample_table = (n, t') \<and> n = 0 \<and> t_byID t' = [(sample_id, 0)]"
proof -
  obtain n and t' :: "(nat, nat) SessionTable" where w: "Sweep [0] 700000000000 sample_table = (n, t')"
    by (cases "Sweep [0] 700000000000 sample_table")
  have "{a. a = 0 \<and> s_state (t_heap sample_table ! a) = SessionDetached \<and>
      600000000000 \<le> 700000000000 - s_detachedAt (t_heap sample_table ! a)} = {}"
    by (auto simp: sample_table_simps)
  then show ?thesis
    using Sweep_exact [OF sample_run_table _ _ w] w by (simp add: sample_table_simps Let_def)
qed

text \<open>
  A full table refuses new sessions even when every session in it is past its recovery
  time: creating a session neither sweeps nor expires anything, so the bound is only freed by a
  sweep, a revocation or a resume attempt.
\<close>

theorem Create_full_ignores_due:
  assumes "length (t_byID t) = 32" and "\<forall>(k, a) \<in> set (t_byID t). ExpiredDue now (t_heap t ! a)"
  shows "Create gs rng t = Inl (SessionLimit 32) \<and>
    (set order = snd ` set (t_byID t) \<and> distinct order \<and> wf_table t \<longrightarrow>
       t_byID (snd (Sweep order now t)) = [])"
proof -
  have "t_byID (snd (Sweep order now t)) = []"
    if "set order = snd ` set (t_byID t)" "distinct order" "wf_table t"
  proof -
    obtain n t' where w: "sweep_loop now order 0 t = (n, t')" by (cases "sweep_loop now order 0 t")
    have "t_byID t' = filter (\<lambda>(k, a). \<not> due_in now order t a) (t_byID t)"
      using sweep_loop_spec [OF that(3,2) _ w] that(1) by simp
    also have "\<dots> = []" using assms(2) that(1) by (force simp: filter_empty_conv due_in_def)
    finally show ?thesis by (simp add: Sweep_def w)
  qed
  then show ?thesis using assms(1) by (simp add: Create_def maxSessions_def)
qed

definition full_table :: "(nat, nat) SessionTable" where
  "full_table =
     \<lparr>t_inst = \<lparr>i_ID = ''app''\<rparr>,
      t_heap = map (\<lambda>i. \<lparr>s_ID = replicate i CHR ''x'', s_InstanceID = ''app'', s_credentialHash = [],
        s_Grants = no_grants, s_state = SessionDetached, s_generation = 1, s_detachedAt = 5,
        s_ledger = NewLedger\<rparr>) [0 ..< 32],
      t_byID = map (\<lambda>i. (replicate i CHR ''x'', i)) [0 ..< 32], t_expired = 0\<rparr>"

theorem Create_full_ignores_due_witness:
  "Create no_grants sample_rng full_table = Inl (SessionLimit 32)"
  using Create_full_ignores_due [of full_table 900000000000 no_grants sample_rng]
  by (simp add: full_table_def ExpiredDue_def sessionRecoveryTTL_def del: upt_Suc upt.simps)

end
