(* ===== verification/Stream_Hub.thy ===== *)
theory Stream_Hub
  imports Prelude
begin

text \<open>
  Streaming: \<^verbatim>\<open>src/drive/stream.go\<close>. Cuts publish immutable records into one shared bounded
  log; a stream is a filter, a position and a credit window over that log. Cursors and
  positions are 64-bit words as in the code. The streams of a hub are kept in an association
  list; where the code ranges over the map and reports identifiers, the order is an argument.
  Instants are nanoseconds since the zero time, and each reading of the clock is an argument.
  The notification callback runs outside every lock; an operation that fires it returns the
  stream identifiers it is called with.
\<close>

section \<open>Events, records and filters\<close>

definition EventStateChanged :: string where "EventStateChanged = ''state.changed''"
definition EventTreeChanged :: string where "EventTreeChanged = ''tree.changed''"
definition EventFrameCompleted :: string where "EventFrameCompleted = ''frame.completed''"
definition EventFrameReady :: string where "EventFrameReady = ''frame.ready''"
definition EventOwnPreempted :: string where "EventOwnPreempted = ''own.preempted''"
definition EventOperationTerminal :: string where "EventOperationTerminal = ''operation.terminal''"

lemmas event_classes = EventStateChanged_def EventTreeChanged_def EventFrameCompleted_def
  EventFrameReady_def EventOwnPreempted_def EventOperationTerminal_def

definition EventClasses :: "string list" where
  "EventClasses = [EventStateChanged, EventTreeChanged, EventFrameCompleted,
     EventFrameReady, EventOwnPreempted, EventOperationTerminal]"

fun string_in :: "string list \<Rightarrow> string \<Rightarrow> bool" where
  "string_in [] c = False"
| "string_in (known # ks) c = (if known = c then True else string_in ks c)"

definition ValidEventClass :: "string \<Rightarrow> bool" where
  "ValidEventClass c = string_in EventClasses c"

record Event =
  ev_Ordinal :: u64
  ev_Class :: string
  ev_Name :: string
  ev_Payload :: string

record CutRecord =
  cr_Cursor :: u64
  cr_Cut :: string
  cr_Frame :: string
  cr_Events :: "Event list"

definition Size :: "CutRecord \<Rightarrow> int" where
  "Size r = 64 + (\<Sum>ev\<leftarrow>cr_Events r. 48 + int (length (ev_Name ev)) + int (length (ev_Payload ev)))"

record StreamFilter =
  f_Classes :: "string list"
  f_Names :: "string list"

definition Clone :: "StreamFilter \<Rightarrow> StreamFilter" where
  "Clone f = \<lparr>f_Classes = f_Classes f, f_Names = f_Names f\<rparr>"

definition matches :: "StreamFilter \<Rightarrow> Event \<Rightarrow> bool" where
  "matches f ev =
     (if f_Classes f \<noteq> [] \<and> \<not> string_in (f_Classes f) (ev_Class ev) then False
      else if f_Names f \<noteq> [] \<and> ev_Class ev = EventStateChanged \<and> \<not> string_in (f_Names f) (ev_Name ev) then False
      else True)"

datatype stream_error =
    UnknownEventClass string | DuplicateEventClass string | EmptyFilterName
  | RecordTooLarge int int | CreditOutside int | StreamLimit | AfterBeyondHead u64 u64 | AfterBelowFloor u64 u64

fun validate_classes :: "string list \<Rightarrow> string list \<Rightarrow> stream_error option" where
  "validate_classes seen [] = None"
| "validate_classes seen (c # cs) =
     (if \<not> ValidEventClass c then Some (UnknownEventClass c)
      else if string_in seen c then Some (DuplicateEventClass c)
      else validate_classes (c # seen) cs)"

fun validate_names :: "string list \<Rightarrow> stream_error option" where
  "validate_names [] = None"
| "validate_names (n # ns) = (if n = [] then Some EmptyFilterName else validate_names ns)"

definition Filter_validate :: "StreamFilter \<Rightarrow> stream_error option" where
  "Filter_validate f =
     (case validate_classes [] (f_Classes f) of
        Some err \<Rightarrow> Some err
      | None \<Rightarrow> validate_names (f_Names f))"

section \<open>The hub\<close>

record StreamRetention =
  MaxRecords :: int
  MaxBytes :: int
  MaxRecordBytes :: int
  RetentionAge :: int

definition DefaultStreamRetention :: StreamRetention where
  "DefaultStreamRetention =
     \<lparr>MaxRecords = 4096, MaxBytes = 4 * 2 ^ 20, MaxRecordBytes = 256 * 2 ^ 10,
      RetentionAge = 10 * 60 * 1000000000\<rparr>"

datatype StreamState = StreamLive | StreamExpired | StreamCancelled

record Stream =
  st_ID :: string
  st_Session :: string
  st_Connection :: u64
  st_Filter :: StreamFilter
  st_Credit :: int
  st_state :: StreamState
  st_reason :: string
  st_sent :: u64
  st_acked :: u64
  st_expiredAt :: int
  st_bound :: bool

definition Position :: "Stream \<Rightarrow> u64 \<times> u64" where "Position s = (st_sent s, st_acked s)"
definition Stream_State :: "Stream \<Rightarrow> StreamState \<times> string" where "Stream_State s = (st_state s, st_reason s)"

definition maxStreams :: nat where "maxStreams = 64"

record logRecord =
  lr_rec :: CutRecord
  lr_at :: int

record StreamHub =
  h_retention :: StreamRetention
  h_records :: "logRecord list"
  h_bytes :: int
  h_head :: u64
  h_nextID :: u64
  h_streams :: "(string \<times> Stream) list"
  h_notify :: bool

text \<open>\<open>None\<close> is the panic on invalid bounds.\<close>

definition NewStreamHubWithRetention :: "StreamRetention \<Rightarrow> StreamHub option" where
  "NewStreamHubWithRetention r =
     (if MaxRecords r \<le> 0 \<or> MaxBytes r \<le> 0 \<or> MaxRecordBytes r \<le> 0 \<or> RetentionAge r \<le> 0 \<or>
         MaxBytes r < MaxRecordBytes r then None
      else Some \<lparr>h_retention = r, h_records = [], h_bytes = 0, h_head = 0, h_nextID = 0,
                 h_streams = [], h_notify = False\<rparr>)"

definition NewStreamHub :: "StreamHub option" where
  "NewStreamHub = NewStreamHubWithRetention DefaultStreamRetention"

text \<open>Only whether a callback is installed matters to the hub.\<close>

definition SetNotify :: "bool \<Rightarrow> StreamHub \<Rightarrow> StreamHub" where
  "SetNotify present h = h\<lparr>h_notify := present\<rparr>"

definition boundsLocked :: "StreamHub \<Rightarrow> u64 \<times> u64" where
  "boundsLocked h =
     (case h_records h of
        [] \<Rightarrow> (0, h_head h)
      | r # _ \<Rightarrow> (cr_Cursor (lr_rec r), h_head h))"

definition Bounds :: "StreamHub \<Rightarrow> u64 \<times> u64" where "Bounds h = boundsLocked h"

text \<open>The loop of \<open>evictLocked\<close>: records go from the front while a bound is exceeded.\<close>

fun evict_records :: "StreamRetention \<Rightarrow> int \<Rightarrow> int \<Rightarrow> logRecord list \<Rightarrow> int \<times> logRecord list" where
  "evict_records r now bytes [] = (bytes, [])"
| "evict_records r now bytes (x # xs) =
     (if MaxRecords r < int (length (x # xs)) \<or> MaxBytes r < bytes \<or> RetentionAge r \<le> now - lr_at x
      then evict_records r now (bytes - Size (lr_rec x)) xs
      else (bytes, x # xs))"

definition hub_evictLocked :: "int \<Rightarrow> StreamHub \<Rightarrow> StreamHub" where
  "hub_evictLocked now h =
     (case evict_records (h_retention h) now (h_bytes h) (h_records h) of
        (b, rs) \<Rightarrow> h\<lparr>h_bytes := b, h_records := rs\<rparr>)"

definition below_floor :: "u64 \<Rightarrow> Stream \<Rightarrow> bool" where
  "below_floor flr s \<longleftrightarrow> st_sent s + 1 < flr"

definition expire_stream :: "int \<Rightarrow> Stream \<Rightarrow> Stream" where
  "expire_stream now s = s\<lparr>st_state := StreamExpired, st_reason := ''retention.exhausted'', st_expiredAt := now\<rparr>"

definition map_streams :: "(Stream \<Rightarrow> Stream) \<Rightarrow> StreamHub \<Rightarrow> StreamHub" where
  "map_streams f h = h\<lparr>h_streams := map (\<lambda>(k, s). (k, f s)) (h_streams h)\<rparr>"

definition streams_where :: "(Stream \<Rightarrow> bool) \<Rightarrow> string list \<Rightarrow> StreamHub \<Rightarrow> string list" where
  "streams_where P order h =
     filter (\<lambda>k. case map_of (h_streams h) k of None \<Rightarrow> False | Some s \<Rightarrow> P s) order"

definition expireBelowFloorLockedAll :: "string list \<Rightarrow> int \<Rightarrow> StreamHub \<Rightarrow> string list \<times> StreamHub" where
  "expireBelowFloorLockedAll order now h =
     (let flr = fst (boundsLocked h) in
      if flr = 0 then ([], h)
      else let hit = (\<lambda>s. st_state s = StreamLive \<and> below_floor flr s)
           in (streams_where hit order h, map_streams (\<lambda>s. if hit s then expire_stream now s else s) h))"

text \<open>Whether some record beyond the position has an event the filter selects.\<close>

fun scan_records :: "StreamFilter \<Rightarrow> u64 \<Rightarrow> logRecord list \<Rightarrow> bool" where
  "scan_records f sent [] = False"
| "scan_records f sent (x # xs) =
     (if cr_Cursor (lr_rec x) \<le> sent then scan_records f sent xs
      else if list_ex (matches f) (cr_Events (lr_rec x)) then True
      else scan_records f sent xs)"

definition collectSendableLocked :: "string list \<Rightarrow> StreamHub \<Rightarrow> string list" where
  "collectSendableLocked order h =
     (if \<not> h_notify h then []
      else let flr = fst (boundsLocked h)
           in streams_where (\<lambda>s.
                if st_state s \<noteq> StreamLive then False
                else if st_Credit s \<le> 0 \<or> of_int (st_Credit s) \<le> st_sent s - st_acked s then False
                else if below_floor flr s then True
                else scan_records (st_Filter s) (st_sent s) (h_records h)) order h)"

definition fireNotify :: "StreamHub \<Rightarrow> string list \<Rightarrow> string list" where
  "fireNotify h ready = (if ready = [] then [] else if \<not> h_notify h then [] else ready)"

text \<open>The record as it is published: the hub assigns the cursor and the ordinals.\<close>

definition seal :: "CutRecord \<Rightarrow> u64 \<Rightarrow> CutRecord" where
  "seal rec c =
     rec\<lparr>cr_Cursor := c, cr_Events := map (\<lambda>(i, ev). ev\<lparr>ev_Ordinal := of_nat i\<rparr>) (enumerate 0 (cr_Events rec))\<rparr>"

definition Append :: "string list \<Rightarrow> int \<Rightarrow> int \<Rightarrow> CutRecord \<Rightarrow> StreamHub \<Rightarrow>
    stream_error + (string list \<times> StreamHub)" where
  "Append order now now' rec h =
     (if MaxRecordBytes (h_retention h) < Size rec
      then Inl (RecordTooLarge (Size rec) (MaxRecordBytes (h_retention h)))
      else let rec' = seal rec (h_head h + 1);
               h1 = h\<lparr>h_head := h_head h + 1, h_records := h_records h @ [\<lparr>lr_rec = rec', lr_at = now\<rparr>],
                      h_bytes := h_bytes h + Size rec'\<rparr>;
               h2 = hub_evictLocked now h1
           in (case expireBelowFloorLockedAll order now' h2 of
                 (expired, h3) \<Rightarrow>
                   let ready = collectSendableLocked order h3
                   in Inr (fireNotify h3 ready @ fireNotify h3 expired, h3)))"

record WatchSpec =
  w_Session :: string
  w_Connection :: u64
  w_Filter :: StreamFilter
  w_After :: u64
  w_Credit :: int

definition Watch :: "WatchSpec \<Rightarrow> StreamHub \<Rightarrow> stream_error + (string \<times> StreamHub)" where
  "Watch spec h =
     (if w_Credit spec < 1 \<or> 8 < w_Credit spec then Inl (CreditOutside (w_Credit spec))
      else case Filter_validate (w_Filter spec) of
        Some err \<Rightarrow> Inl err
      | None \<Rightarrow>
          if maxStreams \<le> length (h_streams h) then Inl StreamLimit
          else (case boundsLocked h of (flr, head) \<Rightarrow>
            if head < w_After spec then Inl (AfterBeyondHead (w_After spec) head)
            else if 0 < w_After spec \<and> w_After spec + 1 < flr then Inl (AfterBelowFloor (w_After spec) (flr - 1))
            else let n = h_nextID h + 1;
                     k = CHR ''s'' # FormatUint (unat n);
                     s = \<lparr>st_ID = k, st_Session = w_Session spec, st_Connection = w_Connection spec,
                          st_Filter = Clone (w_Filter spec), st_Credit = w_Credit spec, st_state = StreamLive,
                          st_reason = [], st_sent = w_After spec, st_acked = w_After spec,
                          st_expiredAt = 0, st_bound = False\<rparr>
                 in Inr (k, h\<lparr>h_nextID := n, h_streams := AList.update k s (h_streams h)\<rparr>)))"

definition Stream_Get :: "string \<Rightarrow> StreamHub \<Rightarrow> Stream option" where
  "Stream_Get k h = map_of (h_streams h) k"

definition put_stream :: "string \<Rightarrow> Stream \<Rightarrow> StreamHub \<Rightarrow> StreamHub" where
  "put_stream k s h = h\<lparr>h_streams := AList.update k s (h_streams h)\<rparr>"

text \<open>The ownership test of \<open>BindDelivery\<close>, \<open>Ack\<close> and \<open>Drain\<close>.\<close>

definition owned_stream :: "string \<Rightarrow> string \<Rightarrow> u64 \<Rightarrow> StreamHub \<Rightarrow> Stream option" where
  "owned_stream k session conn h =
     (case map_of (h_streams h) k of
        None \<Rightarrow> None
      | Some s \<Rightarrow> if st_Session s \<noteq> session \<or> st_Connection s \<noteq> conn then None else Some s)"

text \<open>The empty state of a reply about an unknown stream is \<open>None\<close>.\<close>

definition BindDelivery :: "string \<Rightarrow> string \<Rightarrow> u64 \<Rightarrow> StreamHub \<Rightarrow>
    (StreamState option \<times> string) \<times> StreamHub" where
  "BindDelivery k session conn h =
     (case owned_stream k session conn h of
        None \<Rightarrow> ((None, ''unknown stream''), h)
      | Some s \<Rightarrow> ((Some (st_state s), st_reason s), put_stream k (s\<lparr>st_bound := True\<rparr>) h))"

definition credit_left :: "Stream \<Rightarrow> u64" where
  "credit_left s = of_int (st_Credit s) - (st_sent s - st_acked s)"

definition Ack :: "string \<Rightarrow> string \<Rightarrow> u64 \<Rightarrow> u64 \<Rightarrow> StreamHub \<Rightarrow>
    (StreamState option \<times> string \<times> bool) \<times> StreamHub" where
  "Ack k session conn position h =
     (case owned_stream k session conn h of
        None \<Rightarrow> ((None, ''unknown stream'', False), h)
      | Some s \<Rightarrow>
          if st_state s \<noteq> StreamLive then ((Some (st_state s), st_reason s, False), h)
          else if st_sent s < position \<or> position < st_acked s
          then ((Some (st_state s), ''ack position out of range'', False), h)
          else let s' = s\<lparr>st_acked := position\<rparr>;
                   sendable =
                     (if 0 < credit_left s' then
                        (if below_floor (fst (boundsLocked h)) s' then True
                         else scan_records (st_Filter s') (st_sent s') (h_records h))
                      else False)
               in ((Some (st_state s'), st_reason s', sendable), put_stream k s' h))"

definition cancel_stream :: "string \<Rightarrow> int \<Rightarrow> Stream \<Rightarrow> Stream" where
  "cancel_stream why now s =
     (if st_state s = StreamLive
      then s\<lparr>st_state := StreamCancelled, st_reason := why, st_expiredAt := now\<rparr> else s)"

definition Stream_Cancel :: "string \<Rightarrow> string \<Rightarrow> int \<Rightarrow> StreamHub \<Rightarrow>
    (StreamState option \<times> string) \<times> StreamHub" where
  "Stream_Cancel k session now h =
     (case map_of (h_streams h) k of
        None \<Rightarrow> ((None, ''unknown stream''), h)
      | Some s \<Rightarrow> let s' = cancel_stream ''cancelled'' now s
                  in ((Some (st_state s'), st_reason s'), put_stream k s' h))"

record StreamStatus =
  status_ID :: string
  status_State :: StreamState
  status_Reason :: string
  status_Sent :: u64
  status_Acked :: u64
  status_Credit :: int
  status_Floor :: u64
  status_Head :: u64
  status_Filter :: StreamFilter
  status_Session :: string

definition Status :: "string \<Rightarrow> string \<Rightarrow> StreamHub \<Rightarrow> StreamStatus option" where
  "Status k session h =
     (case map_of (h_streams h) k of
        None \<Rightarrow> None
      | Some s \<Rightarrow>
          if st_Session s \<noteq> session then None
          else (case boundsLocked h of (flr, head) \<Rightarrow>
            Some \<lparr>status_ID = st_ID s, status_State = st_state s, status_Reason = st_reason s,
                  status_Sent = st_sent s, status_Acked = st_acked s, status_Credit = st_Credit s,
                  status_Floor = flr, status_Head = head, status_Filter = Clone (st_Filter s),
                  status_Session = st_Session s\<rparr>))"

definition CloseConnection :: "u64 \<Rightarrow> int \<Rightarrow> StreamHub \<Rightarrow> StreamHub" where
  "CloseConnection conn now h =
     map_streams (\<lambda>s. if st_Connection s \<noteq> conn then s else cancel_stream ''connection.lost'' now s) h"

definition CloseSession :: "string \<Rightarrow> int \<Rightarrow> StreamHub \<Rightarrow> StreamHub" where
  "CloseSession session now h =
     map_streams (\<lambda>s. if st_Session s \<noteq> session then s else cancel_stream ''session.revoked'' now s) h"

definition hub_expireBelowFloorLocked :: "StreamHub \<Rightarrow> int \<Rightarrow> Stream \<Rightarrow> Stream" where
  "hub_expireBelowFloorLocked h now s =
     (let flr = fst (boundsLocked h) in
      if flr = 0 then s else if below_floor flr s then expire_stream now s else s)"

text \<open>The delivery loop of \<open>Drain\<close>: the new position and the records handed out.\<close>

fun drain_loop :: "StreamFilter \<Rightarrow> u64 \<Rightarrow> u64 \<Rightarrow> logRecord list \<Rightarrow> u64 \<times> CutRecord list" where
  "drain_loop f sent credit [] = (sent, [])"
| "drain_loop f sent credit (x # xs) =
     (let rec = lr_rec x in
      if cr_Cursor rec \<le> sent then drain_loop f sent credit xs
      else if credit = 0 then (sent, [])
      else let matched = filter (matches f) (cr_Events rec) in
        if matched = [] then drain_loop f (cr_Cursor rec) credit xs
        else (case drain_loop f (cr_Cursor rec) (credit - 1) xs of
                (sent', recs) \<Rightarrow> (sent', rec\<lparr>cr_Events := matched\<rparr> # recs)))"

definition Drain :: "string \<Rightarrow> string \<Rightarrow> u64 \<Rightarrow> int \<Rightarrow> StreamHub \<Rightarrow>
    (CutRecord list \<times> StreamState option \<times> string) \<times> StreamHub" where
  "Drain k session conn now h =
     (case owned_stream k session conn h of
        None \<Rightarrow> (([], None, ''unknown stream''), h)
      | Some s \<Rightarrow>
          if st_state s \<noteq> StreamLive then (([], Some (st_state s), st_reason s), h)
          else let s1 = hub_expireBelowFloorLocked h now s in
            if st_state s1 \<noteq> StreamLive then (([], Some (st_state s1), st_reason s1), put_stream k s1 h)
            else (case drain_loop (st_Filter s1) (st_sent s1) (credit_left s1) (h_records h) of
                    (sent', recs) \<Rightarrow>
                      ((recs, Some (st_state s1), st_reason s1), put_stream k (s1\<lparr>st_sent := sent'\<rparr>) h)))"

definition sweepable :: "int \<Rightarrow> Stream \<Rightarrow> bool" where
  "sweepable now s \<longleftrightarrow>
     st_state s \<noteq> StreamLive \<and> st_expiredAt s \<noteq> 0 \<and> 10 * 60 * 1000000000 < now - st_expiredAt s"

definition Stream_Sweep :: "int \<Rightarrow> StreamHub \<Rightarrow> nat \<times> StreamHub" where
  "Stream_Sweep now h =
     (length (filter (\<lambda>(k, s). sweepable now s) (h_streams h)),
      h\<lparr>h_streams := filter (\<lambda>(k, s). \<not> sweepable now s) (h_streams h)\<rparr>)"

section \<open>The view of a stream\<close>

lemma string_in_iff [simp]: "string_in cs c \<longleftrightarrow> c \<in> set cs"
  by (induction cs) auto

definition selects :: "StreamFilter \<Rightarrow> CutRecord \<Rightarrow> bool" where
  "selects f r \<longleftrightarrow> (\<exists>ev \<in> set (cr_Events r). matches f ev)"

definition restrict_record :: "StreamFilter \<Rightarrow> CutRecord \<Rightarrow> CutRecord" where
  "restrict_record f r = r\<lparr>cr_Events := filter (matches f) (cr_Events r)\<rparr>"

text \<open>
  What a subscriber should see of a list of records between two positions: the records
  after the first and up to the second that have a selected event, cut down to their
  selected events.
\<close>

definition view :: "StreamFilter \<Rightarrow> CutRecord list \<Rightarrow> u64 \<Rightarrow> u64 \<Rightarrow> CutRecord list" where
  "view f rs a b =
     map (restrict_record f) (filter (\<lambda>r. a < cr_Cursor r \<and> cr_Cursor r \<le> b \<and> selects f r) rs)"

lemma view_append: "view f (rs @ rs') a b = view f rs a b @ view f rs' a b"
  by (simp add: view_def)

lemma view_empty: "(\<And>r. r \<in> set rs \<Longrightarrow> cr_Cursor r \<le> a \<or> b < cr_Cursor r) \<Longrightarrow> view f rs a b = []"
  by (force simp: view_def filter_empty_conv)

lemma view_same: "view f rs a a = []"
  by (rule view_empty) (meson not_le)

abbreviation ascending :: "CutRecord list \<Rightarrow> bool" where
  "ascending \<equiv> sorted_wrt (\<lambda>r r'. cr_Cursor r < cr_Cursor r')"

lemma view_split:
  "ascending rs \<Longrightarrow> a \<le> b \<Longrightarrow> b \<le> c \<Longrightarrow> view f rs a b @ view f rs b c = view f rs a c"
proof (induction rs)
  case Nil
  then show ?case by (simp add: view_def)
next
  case (Cons r rs)
  then have IH: "view f rs a b @ view f rs b c = view f rs a c" by simp
  show ?case
  proof (cases "cr_Cursor r \<le> b")
    case True
    then show ?thesis using IH Cons.prems(3) by (auto simp: view_def)
  next
    case False
    then have "view f rs a b = []" using Cons.prems(1) by (intro view_empty) force
    then show ?thesis using IH False Cons.prems(2) by (auto simp: view_def)
  qed
qed

lemma view_cong_low:
  "(\<And>r. r \<in> set rs \<Longrightarrow> c < cr_Cursor r) \<Longrightarrow> a \<le> c \<Longrightarrow> view f rs a b = view f rs c b"
  unfolding view_def by (intro arg_cong [where f = "map (restrict_record f)"] filter_cong) (auto intro: le_less_trans)

lemma drain_loop_view:
  "ascending (map lr_rec xs) \<Longrightarrow> drain_loop f sent credit xs = (sent', recs) \<Longrightarrow>
     recs = view f (map lr_rec xs) sent sent' \<and> sent \<le> sent' \<and>
     (sent' = sent \<or> sent' \<in> cr_Cursor ` lr_rec ` set xs)"
proof (induction f sent credit xs arbitrary: recs rule: drain_loop.induct)
  case (1 f sent credit)
  then show ?case by (simp add: view_def)
next
  case (2 f sent credit x xs)
  let ?r = "lr_rec x" let ?c = "cr_Cursor ?r"
  have asc: "ascending (map lr_rec xs)" and above: "\<And>r. r \<in> set (map lr_rec xs) \<Longrightarrow> ?c < cr_Cursor r"
    using "2.prems"(1) by auto
  consider (skip) "?c \<le> sent" | (stop) "\<not> ?c \<le> sent" "credit = 0"
    | (none) "\<not> ?c \<le> sent" "credit \<noteq> 0" "filter (matches f) (cr_Events ?r) = []"
    | (some) "\<not> ?c \<le> sent" "credit \<noteq> 0" "filter (matches f) (cr_Events ?r) \<noteq> []" by blast
  then show ?case
  proof cases
    case skip
    then show ?thesis using "2.IH"(1) [OF refl skip asc] "2.prems"(2) by (auto simp: view_def)
  next
    case stop
    then show ?thesis using "2.prems"(2) by (simp add: view_same Let_def)
  next
    case none
    then have IH: "recs = view f (map lr_rec xs) ?c sent' \<and> ?c \<le> sent' \<and>
        (sent' = ?c \<or> sent' \<in> cr_Cursor ` lr_rec ` set xs)"
      using "2.IH"(2) [OF refl none(1,2) refl none(3) asc] "2.prems"(2) by simp
    have "\<not> selects f ?r" using none(3) by (simp add: selects_def filter_empty_conv)
    then have "view f (map lr_rec (x # xs)) sent sent' = view f (map lr_rec xs) ?c sent'"
      using view_cong_low [of "map lr_rec xs" ?c sent f sent', OF above] none(1) by (simp add: view_def)
    then show ?thesis using IH none(1) by auto
  next
    case some
    obtain recs' where d: "drain_loop f ?c (credit - 1) xs = (sent', recs')"
      and r: "recs = ?r\<lparr>cr_Events := filter (matches f) (cr_Events ?r)\<rparr> # recs'"
      using "2.prems"(2) some by (auto simp: Let_def split: prod.splits)
    have IH: "recs' = view f (map lr_rec xs) ?c sent' \<and> ?c \<le> sent' \<and>
        (sent' = ?c \<or> sent' \<in> cr_Cursor ` lr_rec ` set xs)"
      using "2.IH"(3) [OF refl some(1,2) refl some(3) asc] d by simp
    have "selects f ?r" using some(3) by (auto simp: selects_def filter_empty_conv)
    then have "view f (map lr_rec (x # xs)) sent sent' = restrict_record f ?r # view f (map lr_rec xs) ?c sent'"
      using view_cong_low [of "map lr_rec xs" ?c sent f sent', OF above] some(1) IH by (simp add: view_def)
    then show ?thesis using IH r some(1) by (auto simp: restrict_record_def)
  qed
qed

lemma scan_records_iff:
  "scan_records f sent xs \<longleftrightarrow> (\<exists>x \<in> set xs. sent < cr_Cursor (lr_rec x) \<and> selects f (lr_rec x))"
  by (induction f sent xs rule: scan_records.induct) (auto simp: selects_def list_ex_iff not_le)

section \<open>The log\<close>

text \<open>
  The log against everything ever published: cursors number the publications from 1; the
  retained records are the latest ones, never empty once something was published, and
  within the bounds.
\<close>

definition log_ok :: "StreamHub \<Rightarrow> CutRecord list \<Rightarrow> bool" where
  "log_ok h pub \<longleftrightarrow>
     length pub = unat (h_head h) \<and> (\<forall>i < length pub. unat (cr_Cursor (pub ! i)) = Suc i) \<and>
     (\<exists>k. map lr_rec (h_records h) = drop k pub \<and> (pub \<noteq> [] \<longrightarrow> k < length pub)) \<and>
     h_bytes h = (\<Sum>x\<leftarrow>h_records h. Size (lr_rec x)) \<and>
     int (length (h_records h)) \<le> MaxRecords (h_retention h) \<and> h_bytes h \<le> MaxBytes (h_retention h) \<and>
     0 < MaxRecords (h_retention h) \<and> 0 < RetentionAge (h_retention h) \<and>
     MaxRecordBytes (h_retention h) \<le> MaxBytes (h_retention h) \<and> 0 < MaxBytes (h_retention h)"

lemma log_ok_updates [simp]:
  "log_ok (h_streams_update f h) pub = log_ok h pub" "log_ok (h_nextID_update g h) pub = log_ok h pub"
  "log_ok (h_notify_update b h) pub = log_ok h pub"
  by (simp_all add: log_ok_def)

lemma pub_ascending: "log_ok h pub \<Longrightarrow> ascending pub"
  by (auto simp: log_ok_def sorted_wrt_iff_nth_less word_less_nat_alt)

lemma records_ascending: "log_ok h pub \<Longrightarrow> ascending (map lr_rec (h_records h))"
  using pub_ascending sorted_wrt_drop unfolding log_ok_def by metis

lemma pub_cursor:
  assumes "log_ok h pub" "r \<in> set pub"
  shows "cr_Cursor r \<le> h_head h" "0 < cr_Cursor r"
proof -
  from assms(2) obtain i where i: "i < length pub" "r = pub ! i" by (auto simp: in_set_conv_nth)
  then have "unat (cr_Cursor r) = Suc i" "length pub = unat (h_head h)"
    using assms(1) by (auto simp: log_ok_def)
  then show "cr_Cursor r \<le> h_head h" "0 < cr_Cursor r"
    using i(1) by (auto simp: word_le_nat_alt word_less_nat_alt)
qed

lemma floor_drop:
  assumes "log_ok h pub" "map lr_rec (h_records h) = drop k pub" "k < length pub"
  shows "unat (fst (boundsLocked h)) = Suc k"
proof -
  obtain x xs where x: "h_records h = x # xs" using assms(2,3) by (cases "h_records h") auto
  then have "drop k pub = lr_rec x # map lr_rec xs" using assms(2) by simp
  then have "lr_rec x = pub ! k" by (simp add: nth_via_drop)
  then show ?thesis using assms(1,3) x by (simp add: boundsLocked_def log_ok_def)
qed

lemma boundsLocked_head [simp]: "snd (boundsLocked h) = h_head h"
  by (simp add: boundsLocked_def split: list.splits)

lemma seal_simps [simp]: "cr_Cursor (seal rec c) = c" "Size (seal rec c) = Size rec"
proof -
  have "(\<Sum>ev\<leftarrow>map (\<lambda>(i, ev). ev\<lparr>ev_Ordinal := of_nat i\<rparr>) (enumerate n evs).
      48 + int (length (ev_Name ev)) + int (length (ev_Payload ev))) =
    (\<Sum>ev\<leftarrow>evs. 48 + int (length (ev_Name ev)) + int (length (ev_Payload ev)))" for n and evs :: "Event list"
    by (induction evs arbitrary: n) auto
  then show "Size (seal rec c) = Size rec" by (simp add: Size_def seal_def)
qed (simp add: seal_def)

lemma Size_pos: "0 < Size r"
  unfolding Size_def by (intro add_pos_nonneg sum_list_nonneg) auto

text \<open>Eviction keeps a suffix within the bounds, and never the newest record goes.\<close>

lemma evict_records_spec:
  assumes "evict_records r now bytes xs = (b, ys)" and "bytes = (\<Sum>x\<leftarrow>xs. Size (lr_rec x))"
  shows "\<exists>k. ys = drop k xs \<and> b = (\<Sum>x\<leftarrow>ys. Size (lr_rec x)) \<and>
    (ys \<noteq> [] \<longrightarrow> int (length ys) \<le> MaxRecords r \<and> b \<le> MaxBytes r)"
  using assms
proof (induction r now bytes xs arbitrary: b ys rule: evict_records.induct)
  case (2 r now bytes x xs)
  show ?case
  proof (cases "MaxRecords r < int (length (x # xs)) \<or> MaxBytes r < bytes \<or> RetentionAge r \<le> now - lr_at x")
    case True
    have "evict_records r now (bytes - Size (lr_rec x)) xs = (b, ys)"
      "bytes - Size (lr_rec x) = (\<Sum>x\<leftarrow>xs. Size (lr_rec x))"
      using True "2.prems" by simp_all
    from "2.IH" [OF True this]
    obtain k where "ys = drop k xs" "b = (\<Sum>x\<leftarrow>ys. Size (lr_rec x))"
      "ys \<noteq> [] \<longrightarrow> int (length ys) \<le> MaxRecords r \<and> b \<le> MaxBytes r" by blast
    then show ?thesis by (intro exI [of _ "Suc k"]) simp
  next
    case False
    then show ?thesis using "2.prems" by (intro exI [of _ 0]) auto
  qed
qed auto

lemma evict_keeps_last:
  assumes "0 < MaxRecords r" "0 < RetentionAge r" "Size (lr_rec z) \<le> MaxBytes r" "lr_at z = now"
  shows "bytes = (\<Sum>x\<leftarrow>xs @ [z]. Size (lr_rec x)) \<Longrightarrow>
    snd (evict_records r now bytes (xs @ [z])) \<noteq> []"
  using assms by (induction xs arbitrary: bytes) auto

section \<open>Runs\<close>

text \<open>
  Any sequence of hub operations, with three histories the hub does not keep: everything
  published, and for each stream the position it started from and everything drained by it.
  The 64-bit counters are assumed not to have run out.
\<close>

inductive hub_run :: "StreamHub \<Rightarrow> CutRecord list \<Rightarrow> (string \<Rightarrow> u64) \<Rightarrow> (string \<Rightarrow> CutRecord list) \<Rightarrow> bool" where
  hr_new: "NewStreamHubWithRetention r = Some h \<Longrightarrow> hub_run h [] (\<lambda>_. 0) (\<lambda>_. [])"
| hr_append: "hub_run h pub st del \<Longrightarrow> h_head h \<noteq> MaxUint64 \<Longrightarrow> Append order now now' rec h = Inr (sig, h') \<Longrightarrow>
    hub_run h' (pub @ [seal rec (h_head h + 1)]) st del"
| hr_watch: "hub_run h pub st del \<Longrightarrow> h_nextID h \<noteq> MaxUint64 \<Longrightarrow> Watch spec h = Inr (k, h') \<Longrightarrow>
    hub_run h' pub (st(k := w_After spec)) (del(k := []))"
| hr_drain: "hub_run h pub st del \<Longrightarrow> Drain k session conn now h = ((recs, state, why), h') \<Longrightarrow>
    hub_run h' pub st (del(k := del k @ recs))"
| hr_ack: "hub_run h pub st del \<Longrightarrow> Ack k session conn p h = (reply, h') \<Longrightarrow> hub_run h' pub st del"
| hr_bind: "hub_run h pub st del \<Longrightarrow> BindDelivery k session conn h = (reply, h') \<Longrightarrow> hub_run h' pub st del"
| hr_cancel: "hub_run h pub st del \<Longrightarrow> Stream_Cancel k session now h = (reply, h') \<Longrightarrow> hub_run h' pub st del"
| hr_close_connection: "hub_run h pub st del \<Longrightarrow> hub_run (CloseConnection conn now h) pub st del"
| hr_close_session: "hub_run h pub st del \<Longrightarrow> hub_run (CloseSession session now h) pub st del"
| hr_sweep: "hub_run h pub st del \<Longrightarrow> Stream_Sweep now h = (n, h') \<Longrightarrow> hub_run h' pub st del"
| hr_notify: "hub_run h pub st del \<Longrightarrow> hub_run (SetNotify b h) pub st del"

definition stream_ok :: "StreamHub \<Rightarrow> CutRecord list \<Rightarrow> u64 \<Rightarrow> CutRecord list \<Rightarrow> string \<Rightarrow> Stream \<Rightarrow> bool" where
  "stream_ok h pub a d k s \<longleftrightarrow>
     st_ID s = k \<and> (\<exists>n. k = CHR ''s'' # FormatUint n \<and> n \<le> unat (h_nextID h)) \<and>
     1 \<le> st_Credit s \<and> st_Credit s \<le> 8 \<and>
     a \<le> st_acked s \<and> st_acked s \<le> st_sent s \<and> st_sent s \<le> h_head h \<and>
     d = view (st_Filter s) pub a (st_sent s)"

definition hub_inv :: "StreamHub \<Rightarrow> CutRecord list \<Rightarrow> (string \<Rightarrow> u64) \<Rightarrow> (string \<Rightarrow> CutRecord list) \<Rightarrow> bool" where
  "hub_inv h pub st del \<longleftrightarrow>
     log_ok h pub \<and> distinct (map fst (h_streams h)) \<and> length (h_streams h) \<le> maxStreams \<and>
     (\<forall>k s. map_of (h_streams h) k = Some s \<longrightarrow> stream_ok h pub (st k) (del k) k s)"

text \<open>Operations that leave the log alone and change only the life cycle of streams.\<close>

lemma inv_map_streams:
  assumes "hub_inv h pub st del"
    and f: "\<And>s. st_ID (f s) = st_ID s \<and> st_Credit (f s) = st_Credit s \<and> st_Filter (f s) = st_Filter s \<and>
      st_sent (f s) = st_sent s \<and> st_acked (f s) = st_acked s"
  shows "hub_inv (map_streams f h) pub st del"
proof -
  have m: "map_of (map (\<lambda>(k, s). (k, f s)) (h_streams h)) k = map_option f (map_of (h_streams h) k)" for k
    by (simp add: map_of_map)
  have d: "map fst (map (\<lambda>(k, s). (k, f s)) (h_streams h)) = map fst (h_streams h)"
    by (simp add: case_prod_unfold comp_def)
  have l: "log_ok (map_streams f h) pub" using assms(1) by (simp add: hub_inv_def map_streams_def)
  have "stream_ok (map_streams f h) pub (st k) (del k) k s"
    if s: "map_of (h_streams (map_streams f h)) k = Some s" for k s
  proof -
    obtain s0 where "map_of (h_streams h) k = Some s0" "s = f s0"
      using s m by (auto simp: map_streams_def)
    then show ?thesis using assms(1) f [of s0] by (simp add: hub_inv_def stream_ok_def map_streams_def)
  qed
  moreover have "distinct (map fst (h_streams (map_streams f h)))" "length (h_streams (map_streams f h)) \<le> maxStreams"
    using assms(1) arg_cong [OF d, of distinct] by (simp_all add: hub_inv_def map_streams_def)
  ultimately show ?thesis using l by (simp add: hub_inv_def)
qed

lemma length_AList_update_mem: "k \<in> set (map fst xs) \<Longrightarrow> length (AList.update k v xs) = length xs"
  by (induction xs) auto

lemma inv_put_stream:
  assumes "hub_inv h pub st del" "map_of (h_streams h) k = Some s0"
    and "stream_ok h pub (st k) d k s"
  shows "hub_inv (put_stream k s h) pub st (del(k := d))"
proof -
  have "length (AList.update k s (h_streams h)) = length (h_streams h)"
    using assms(2) by (intro length_AList_update_mem) (force dest: map_of_SomeD)
  then show ?thesis
    using assms(1,3) by (auto simp: hub_inv_def put_stream_def stream_ok_def update_conv' distinct_update)
qed

lemma owned_streamD:
  "owned_stream k session conn h = Some s \<Longrightarrow>
     map_of (h_streams h) k = Some s \<and> st_Session s = session \<and> st_Connection s = conn"
  by (auto simp: owned_stream_def split: option.splits if_splits)

lemma inv_same_position:
  assumes "hub_inv h pub st del" "map_of (h_streams h) k = Some s0"
    and "st_ID s = st_ID s0" "st_Credit s = st_Credit s0" "st_Filter s = st_Filter s0" "st_sent s = st_sent s0"
    and "st k \<le> st_acked s" "st_acked s \<le> st_sent s"
  shows "hub_inv (put_stream k s h) pub st del"
proof -
  have "stream_ok h pub (st k) (del k) k s0" using assms(1,2) by (simp add: hub_inv_def)
  then have "stream_ok h pub (st k) (del k) k s" using assms(3-) by (simp add: stream_ok_def)
  from inv_put_stream [OF assms(1,2) this] show ?thesis by simp
qed

section \<open>Every operation keeps the invariant\<close>

lemma hub_evictLocked_simps [simp]:
  "h_head (hub_evictLocked now h) = h_head h" "h_nextID (hub_evictLocked now h) = h_nextID h"
  "h_streams (hub_evictLocked now h) = h_streams h" "h_retention (hub_evictLocked now h) = h_retention h"
  "h_notify (hub_evictLocked now h) = h_notify h"
  by (simp_all add: hub_evictLocked_def split: prod.splits)

lemma inv_Append:
  assumes inv: "hub_inv h pub st del" and max: "h_head h \<noteq> MaxUint64"
    and ap: "Append order now now' rec h = Inr (sig, h')"
  shows "hub_inv h' (pub @ [seal rec (h_head h + 1)]) st del"
proof -
  let ?rec = "seal rec (h_head h + 1)" let ?pub = "pub @ [?rec]" let ?z = "\<lparr>lr_rec = ?rec, lr_at = now\<rparr>"
  let ?h1 = "h\<lparr>h_head := h_head h + 1, h_records := h_records h @ [?z], h_bytes := h_bytes h + Size ?rec\<rparr>"
  let ?h2 = "hub_evictLocked now ?h1"
  have log: "log_ok h pub" using inv by (simp add: hub_inv_def)
  have small: "Size ?rec \<le> MaxRecordBytes (h_retention h)" using ap by (auto simp: Append_def split: if_splits)
  obtain expired h3 where e: "expireBelowFloorLockedAll order now' ?h2 = (expired, h3)"
    by (cases "expireBelowFloorLockedAll order now' ?h2")
  have h': "h' = h3" using ap e small by (auto simp: Append_def Let_def split: if_splits)
  obtain b ys where ev: "evict_records (h_retention h) now (h_bytes ?h1) (h_records h @ [?z]) = (b, ys)"
    by (cases "evict_records (h_retention h) now (h_bytes ?h1) (h_records h @ [?z])")
  have bytes: "h_bytes ?h1 = (\<Sum>x\<leftarrow>h_records h @ [?z]. Size (lr_rec x))" using log by (simp add: log_ok_def)
  obtain k where ys: "ys = drop k (h_records h @ [?z])" "b = (\<Sum>x\<leftarrow>ys. Size (lr_rec x))"
    "ys \<noteq> [] \<longrightarrow> int (length ys) \<le> MaxRecords (h_retention h) \<and> b \<le> MaxBytes (h_retention h)"
    using evict_records_spec [OF ev bytes] by blast
  have "ys \<noteq> []"
    using evict_keeps_last [of "h_retention h" ?z now "h_bytes ?h1" "h_records h"] bytes log small ev
    by (simp add: log_ok_def)
  obtain j where j: "map lr_rec (h_records h) = drop j pub" "pub \<noteq> [] \<longrightarrow> j < length pub"
    using log by (auto simp: log_ok_def)
  let ?j = "if pub = [] then 0 else j"
  have "map lr_rec (h_records h @ [?z]) = drop ?j ?pub" using j by auto
  then have rs: "map lr_rec ys = drop (k + ?j) ?pub" unfolding ys(1) drop_map [symmetric] by (simp only: drop_drop)
  have "k + ?j < length ?pub" using \<open>ys \<noteq> []\<close> rs by (metis drop_all map_is_Nil_conv not_le)
  then have suf: "\<exists>k. map lr_rec ys = drop k ?pub \<and> (?pub \<noteq> [] \<longrightarrow> k < length ?pub)" using rs by blast
  have hd: "unat (h_head h + 1) = Suc (length pub)"
    using log max unat_Suc_no_wrap by (simp add: log_ok_def)
  have h2: "?h2 = ?h1\<lparr>h_bytes := b, h_records := ys\<rparr>" using ev by (simp add: hub_evictLocked_def)
  have "log_ok ?h2 ?pub"
    using log hd suf ys(2,3) \<open>ys \<noteq> []\<close> unfolding log_ok_def h2 by (simp add: nth_append less_Suc_eq)
  moreover have "stream_ok ?h2 ?pub (st k) (del k) k s" if s: "map_of (h_streams h) k = Some s" for k s
  proof -
    have ok: "stream_ok h pub (st k) (del k) k s" using inv s by (simp add: hub_inv_def)
    have lt: "h_head h < h_head h + 1" using max u64_less_Suc by simp
    have "view (st_Filter s) [?rec] (st k) (st_sent s) = []"
      using ok lt by (intro view_empty) (auto simp: stream_ok_def)
    moreover have "st_sent s \<le> h_head h + 1" using ok lt by (auto simp: stream_ok_def)
    ultimately show ?thesis using ok by (simp add: stream_ok_def view_append)
  qed
  ultimately have "hub_inv ?h2 ?pub st del" using inv by (simp add: hub_inv_def)
  then show ?thesis
    using e by (auto simp: h' expireBelowFloorLockedAll_def Let_def expire_stream_def split: if_splits
        intro!: inv_map_streams)
qed

lemma inv_Watch:
  assumes inv: "hub_inv h pub st del" and max: "h_nextID h \<noteq> MaxUint64" and w: "Watch spec h = Inr (k, h')"
  shows "hub_inv h' pub (st(k := w_After spec)) (del(k := [])) \<and> map_of (h_streams h) k = None"
proof -
  let ?n = "h_nextID h + 1"
  obtain flr where bl: "boundsLocked h = (flr, h_head h)" by (metis boundsLocked_head prod.collapse)
  obtain s where h': "h' = h\<lparr>h_nextID := ?n, h_streams := AList.update k s (h_streams h)\<rparr>"
    and k: "k = CHR ''s'' # FormatUint (unat ?n)" and len: "length (h_streams h) < maxStreams"
    and s: "st_ID s = k" "1 \<le> st_Credit s" "st_Credit s \<le> 8" "st_acked s = w_After spec" "st_sent s = w_After spec"
      "w_After spec \<le> h_head h"
  proof
    let ?s = "\<lparr>st_ID = CHR ''s'' # FormatUint (unat ?n), st_Session = w_Session spec, st_Connection = w_Connection spec,
                          st_Filter = Clone (w_Filter spec), st_Credit = w_Credit spec, st_state = StreamLive,
                          st_reason = [], st_sent = w_After spec, st_acked = w_After spec,
                          st_expiredAt = 0, st_bound = False\<rparr>"
    show "h' = h\<lparr>h_nextID := ?n, h_streams := AList.update k ?s (h_streams h)\<rparr>"
      "k = CHR ''s'' # FormatUint (unat ?n)" "length (h_streams h) < maxStreams"
      "st_ID ?s = k" "1 \<le> st_Credit ?s" "st_Credit ?s \<le> 8" "st_acked ?s = w_After spec" "st_sent ?s = w_After spec"
      "w_After spec \<le> h_head h"
      using w by (auto simp: Watch_def Let_def bl not_le not_less split: if_splits option.splits)
  qed
  have n: "unat ?n = Suc (unat (h_nextID h))" using max by (rule unat_Suc_no_wrap)
  have new: "map_of (h_streams h) k = None"
  proof (rule ccontr)
    assume "map_of (h_streams h) k \<noteq> None"
    then obtain s0 where "map_of (h_streams h) k = Some s0" by blast
    then have "stream_ok h pub (st k) (del k) k s0" using inv by (simp add: hub_inv_def)
    then show False using k n by (auto simp: stream_ok_def FormatUint_inj)
  qed
  have "stream_ok h' pub (w_After spec) [] k s"
    using s k by (auto simp: stream_ok_def h' view_same)
  moreover have "stream_ok h' pub (st k1) (del k1) k1 s1" if "map_of (h_streams h) k1 = Some s1" for k1 s1
    using inv that n by (fastforce simp: hub_inv_def stream_ok_def h')
  moreover have "length (AList.update k s (h_streams h)) \<le> maxStreams"
    using len length_AList_update [of k s "h_streams h"] by simp
  moreover have "log_ok h' pub" using inv by (simp add: hub_inv_def h')
  ultimately show ?thesis
    using inv new unfolding hub_inv_def by (auto simp: h' update_conv' distinct_update)
qed

lemma inv_Drain:
  assumes inv: "hub_inv h pub st del" and d: "Drain k session conn now h = ((recs, state, why), h')"
  shows "hub_inv h' pub st (del(k := del k @ recs))"
proof (cases "owned_stream k session conn h")
  case None
  then show ?thesis using assms by (simp add: Drain_def)
next
  case (Some s)
  note own = owned_streamD [OF Some]
  have log: "log_ok h pub" and ok: "stream_ok h pub (st k) (del k) k s"
    using inv own by (auto simp: hub_inv_def)
  let ?s1 = "hub_expireBelowFloorLocked h now s"
  have same: "st_ID ?s1 = st_ID s" "st_Credit ?s1 = st_Credit s" "st_Filter ?s1 = st_Filter s"
    "st_sent ?s1 = st_sent s" "st_acked ?s1 = st_acked s"
    by (simp_all add: hub_expireBelowFloorLocked_def Let_def expire_stream_def)
  consider (dead) "st_state s \<noteq> StreamLive" | (gone) "st_state s = StreamLive" "st_state ?s1 \<noteq> StreamLive"
    | (go) "st_state s = StreamLive" "st_state ?s1 = StreamLive" by blast
  then show ?thesis
  proof cases
    case dead
    then show ?thesis using assms Some by (simp add: Drain_def)
  next
    case gone
    then have "recs = []" "h' = put_stream k ?s1 h" using d Some by (auto simp: Drain_def Let_def)
    moreover have "hub_inv (put_stream k ?s1 h) pub st del"
      using inv_same_position [OF inv, of k s ?s1] own ok same by (simp add: stream_ok_def)
    ultimately show ?thesis by simp
  next
    case go
    obtain sent' where loop: "drain_loop (st_Filter s) (st_sent s) (credit_left ?s1) (h_records h) = (sent', recs)"
      and h': "h' = put_stream k (?s1\<lparr>st_sent := sent'\<rparr>) h"
      using d Some go same by (auto simp: Drain_def Let_def split: prod.splits)
    note v = drain_loop_view [OF records_ascending [OF log] loop]
    obtain j where j: "map lr_rec (h_records h) = drop j pub" "pub \<noteq> [] \<longrightarrow> j < length pub"
      using log by (auto simp: log_ok_def)
    have le: "sent' \<le> h_head h"
    proof -
      have "sent' = st_sent s \<or> (\<exists>r \<in> set pub. cr_Cursor r = sent')"
        using v j(1) by (metis image_iff image_set in_set_dropD)
      then show ?thesis using ok pub_cursor(1) [OF log] by (auto simp: stream_ok_def)
    qed
    have low: "cr_Cursor r \<le> st_sent s" if r: "r \<in> set (take j pub)" for r
    proof -
      from r obtain i where i: "i < j" "i < length pub" "r = pub ! i" by (auto simp: in_set_conv_nth)
      then have "j < length pub" using j(2) by auto
      then have f: "unat (fst (boundsLocked h)) = Suc j" using floor_drop [OF log j(1)] by simp
      have "\<not> below_floor (fst (boundsLocked h)) s"
        using go f by (auto simp: hub_expireBelowFloorLocked_def Let_def expire_stream_def split: if_splits)
      then have "Suc j \<le> unat (st_sent s + 1)" using f by (simp add: below_floor_def word_less_nat_alt)
      moreover have "unat (st_sent s + 1) \<le> Suc (unat (st_sent s))" by (simp add: unat_word_ariths)
      ultimately have "j \<le> unat (st_sent s)" by simp
      moreover have "unat (cr_Cursor r) = Suc i" using log i by (simp add: log_ok_def)
      ultimately show ?thesis using i(1) by (simp add: word_le_nat_alt)
    qed
    have "view (st_Filter s) pub (st_sent s) sent' = view (st_Filter s) (take j pub @ drop j pub) (st_sent s) sent'"
      by simp
    also have "\<dots> = view (st_Filter s) (drop j pub) (st_sent s) sent'"
      unfolding view_append using low by (simp add: view_empty)
    also have "\<dots> = recs" using v j(1) by simp
    finally have w: "view (st_Filter s) pub (st_sent s) sent' = recs" .
    have "st k \<le> st_sent s" "st_sent s \<le> sent'" using ok v by (auto simp: stream_ok_def)
    from view_split [OF pub_ascending [OF log] this, of "st_Filter s"]
    have "del k @ recs = view (st_Filter s) pub (st k) sent'" using ok w by (simp add: stream_ok_def)
    then have "stream_ok h pub (st k) (del k @ recs) k (?s1\<lparr>st_sent := sent'\<rparr>)"
      using ok v le same by (auto simp: stream_ok_def)
    then show ?thesis using inv_put_stream [OF inv] own h' by blast
  qed
qed

lemma inv_Ack:
  assumes inv: "hub_inv h pub st del" and d: "Ack k session conn p h = (reply, h')"
  shows "hub_inv h' pub st del"
proof (cases "owned_stream k session conn h")
  case None
  then show ?thesis using assms by (simp add: Ack_def)
next
  case (Some s)
  note own = owned_streamD [OF Some]
  have ok: "stream_ok h pub (st k) (del k) k s" using inv own by (auto simp: hub_inv_def)
  show ?thesis
  proof (cases "st_state s \<noteq> StreamLive \<or> st_sent s < p \<or> p < st_acked s")
    case True
    then show ?thesis using assms Some by (auto simp: Ack_def split: if_splits)
  next
    case False
    then have "h' = put_stream k (s\<lparr>st_acked := p\<rparr>) h" using d Some by (auto simp: Ack_def Let_def)
    then show ?thesis
      using inv_same_position [OF inv, of k s "s\<lparr>st_acked := p\<rparr>"] own ok False
      by (auto simp: stream_ok_def not_less)
  qed
qed

lemma inv_Bind:
  assumes inv: "hub_inv h pub st del" and d: "BindDelivery k session conn h = (reply, h')"
  shows "hub_inv h' pub st del"
proof (cases "owned_stream k session conn h")
  case (Some s)
  note own = owned_streamD [OF Some]
  have "stream_ok h pub (st k) (del k) k s" using inv own by (auto simp: hub_inv_def)
  then show ?thesis
    using inv_same_position [OF inv, of k s "s\<lparr>st_bound := True\<rparr>"] own d Some
    by (auto simp: BindDelivery_def stream_ok_def)
qed (use assms in \<open>simp add: BindDelivery_def\<close>)

lemma cancel_stream_simps [simp]:
  "st_ID (cancel_stream why now s) = st_ID s" "st_Credit (cancel_stream why now s) = st_Credit s"
  "st_Filter (cancel_stream why now s) = st_Filter s" "st_sent (cancel_stream why now s) = st_sent s"
  "st_acked (cancel_stream why now s) = st_acked s" "st_state (cancel_stream why now s) \<noteq> StreamLive"
  by (auto simp: cancel_stream_def)

lemma inv_Cancel:
  assumes inv: "hub_inv h pub st del" and d: "Stream_Cancel k session now h = (reply, h')"
  shows "hub_inv h' pub st del"
proof (cases "map_of (h_streams h) k")
  case (Some s)
  have "stream_ok h pub (st k) (del k) k s" using inv Some by (simp add: hub_inv_def)
  then show ?thesis
    using inv_same_position [OF inv Some, of "cancel_stream ''cancelled'' now s"] d Some
    by (auto simp: Stream_Cancel_def Let_def stream_ok_def)
qed (use assms in \<open>simp add: Stream_Cancel_def\<close>)

lemma map_of_filter_distinct:
  "distinct (map fst xs) \<Longrightarrow> map_of (filter P xs) k = Some v \<Longrightarrow> map_of xs k = Some v \<and> P (k, v)"
  by (auto dest!: map_of_SomeD)

lemma inv_Sweep:
  assumes inv: "hub_inv h pub st del"
  shows "hub_inv (h\<lparr>h_streams := filter P (h_streams h)\<rparr>) pub st del"
proof -
  have "distinct (map fst (filter P (h_streams h)))" "length (filter P (h_streams h)) \<le> maxStreams"
    using inv order_trans [OF length_filter_le] by (auto simp: hub_inv_def distinct_map_filter)
  moreover have "stream_ok (h\<lparr>h_streams := filter P (h_streams h)\<rparr>) pub (st k) (del k) k s"
    if "map_of (filter P (h_streams h)) k = Some s" for k s
  proof -
    have "map_of (h_streams h) k = Some s" using map_of_filter_distinct [OF _ that] inv unfolding hub_inv_def by blast
    then show ?thesis using inv unfolding hub_inv_def by (simp add: stream_ok_def)
  qed
  ultimately show ?thesis using inv by (simp add: hub_inv_def)
qed

lemma inv_new: "NewStreamHubWithRetention r = Some h \<Longrightarrow> hub_inv h [] st del"
  by (auto simp: NewStreamHubWithRetention_def hub_inv_def log_ok_def split: if_splits)

lemma hub_run_inv: "hub_run h pub st del \<Longrightarrow> hub_inv h pub st del"
proof (induction rule: hub_run.induct)
  case (hr_new r h)
  then show ?case by (rule inv_new)
next
  case (hr_append h pub st del order now now' rec sig h')
  from hr_append.IH hr_append.hyps(2,3) show ?case by (rule inv_Append)
next
  case (hr_watch h pub st del spec k h')
  from inv_Watch [OF hr_watch.IH hr_watch.hyps(2,3)] show ?case ..
next
  case (hr_drain h pub st del k session conn now recs state why h')
  from hr_drain.IH hr_drain.hyps(2) show ?case by (rule inv_Drain)
next
  case (hr_ack h pub st del k session conn p reply h')
  from hr_ack.IH hr_ack.hyps(2) show ?case by (rule inv_Ack)
next
  case (hr_bind h pub st del k session conn reply h')
  from hr_bind.IH hr_bind.hyps(2) show ?case by (rule inv_Bind)
next
  case (hr_cancel h pub st del k session now reply h')
  from hr_cancel.IH hr_cancel.hyps(2) show ?case by (rule inv_Cancel)
next
  case (hr_close_connection h pub st del conn now)
  then show ?case unfolding CloseConnection_def by (intro inv_map_streams) auto
next
  case (hr_close_session h pub st del session now)
  then show ?case unfolding CloseSession_def by (intro inv_map_streams) auto
next
  case (hr_sweep h pub st del now n h')
  then show ?case using inv_Sweep by (auto simp: Stream_Sweep_def)
next
  case (hr_notify h pub st del b)
  then show ?case by (simp add: hub_inv_def stream_ok_def SetNotify_def)
qed

section \<open>Delivery and credit\<close>

lemma drain_loop_progress:
  "drain_loop f sent credit xs = (sent', recs) \<Longrightarrow> ascending (map lr_rec xs) \<Longrightarrow>
     length recs \<le> unat credit \<and> length recs \<le> length xs \<and>
     (length recs < unat credit \<longrightarrow> (\<forall>x \<in> set xs. cr_Cursor (lr_rec x) \<le> sent'))"
proof (induction f sent credit xs arbitrary: recs rule: drain_loop.induct)
  case (1 f sent credit)
  then show ?case by simp
next
  case (2 f sent credit x xs)
  let ?r = "lr_rec x" let ?c = "cr_Cursor ?r"
  have asc: "ascending (map lr_rec xs)" using "2.prems"(2) by simp
  consider (skip) "?c \<le> sent" | (stop) "\<not> ?c \<le> sent" "credit = 0"
    | (none) "\<not> ?c \<le> sent" "credit \<noteq> 0" "filter (matches f) (cr_Events ?r) = []"
    | (some) "\<not> ?c \<le> sent" "credit \<noteq> 0" "filter (matches f) (cr_Events ?r) \<noteq> []" by blast
  then show ?case
  proof cases
    case skip
    then have d: "drain_loop f sent credit xs = (sent', recs)" using "2.prems"(1) by simp
    have "?c \<le> sent'" using drain_loop_view [OF asc d] skip by auto
    then show ?thesis using "2.IH"(1) [OF refl skip d asc] by auto
  next
    case stop
    then show ?thesis using "2.prems"(1) by (simp add: Let_def)
  next
    case none
    then have d: "drain_loop f ?c credit xs = (sent', recs)" using "2.prems"(1) by (simp add: Let_def)
    have "?c \<le> sent'" using drain_loop_view [OF asc d] by auto
    then show ?thesis using "2.IH"(2) [OF refl none(1,2) refl none(3) d asc] by auto
  next
    case some
    obtain recs' where d: "drain_loop f ?c (credit - 1) xs = (sent', recs')" and r: "length recs = Suc (length recs')"
      using "2.prems"(1) some by (auto simp: Let_def split: prod.splits)
    have "?c \<le> sent'" using drain_loop_view [OF asc d] by auto
    moreover have "unat credit = Suc (unat (credit - 1))" using some(2) by (simp add: unat_minus_one unat_gt_0)
    ultimately show ?thesis using "2.IH"(3) [OF refl some(1,2) refl some(3) d asc] r by auto
  qed
qed

lemma u64_sub_wrap: "unat (a :: u64) < unat b \<Longrightarrow> unat (a - b) = 2 ^ 64 + unat a - unat b"
  using unat_sub_if' [of a b] by simp

lemma unat_credit:
  assumes "1 \<le> c" "c \<le> 8"
  shows "unat (of_int c :: u64) = nat c"
proof -
  have "c \<in> {1, 2, 3, 4, 5, 6, 7, 8}" using assms unfolding insert_iff empty_iff by presburger
  then show ?thesis by auto
qed

text \<open>A live stream that is not below the floor, seen through \<open>Drain\<close>.\<close>

lemma Drain_live:
  assumes "owned_stream k session conn h = Some s" "st_state s = StreamLive"
    and "\<not> below_floor (fst (boundsLocked h)) s"
    and "drain_loop (st_Filter s) (st_sent s) (credit_left s) (h_records h) = (sent', recs)"
  shows "Drain k session conn now h = ((recs, Some StreamLive, st_reason s), put_stream k (s\<lparr>st_sent := sent'\<rparr>) h)"
  using assms by (simp add: Drain_def hub_expireBelowFloorLocked_def Let_def)

lemma drain_reaches_head:
  assumes "log_ok h pub" "a \<le> h_head h"
    and d: "drain_loop f a credit (h_records h) = (sent', recs)" and "length recs < unat credit"
  shows "sent' = h_head h"
proof -
  note v = drain_loop_view [OF records_ascending [OF assms(1)] d]
  have all: "\<forall>x \<in> set (h_records h). cr_Cursor (lr_rec x) \<le> sent'"
    using drain_loop_progress [OF d records_ascending [OF assms(1)]] assms(4) by simp
  obtain j where j: "map lr_rec (h_records h) = drop j pub" "pub \<noteq> [] \<longrightarrow> j < length pub"
    using assms(1) by (auto simp: log_ok_def)
  have le: "sent' \<le> h_head h"
    using v assms(2) pub_cursor(1) [OF assms(1)] j(1) by (metis image_iff image_set in_set_dropD)
  show ?thesis
  proof (cases "pub = []")
    case True
    then have "h_head h = 0" using assms(1) by (simp add: log_ok_def unat_eq_0)
    then show ?thesis using le by simp
  next
    case False
    then have "last pub = last (map lr_rec (h_records h))" "h_records h \<noteq> []"
      using j by (auto simp: last_drop)
    then obtain x where "x \<in> set (h_records h)" "lr_rec x = last pub" by (metis last_in_set last_map)
    moreover have "unat (cr_Cursor (pub ! (length pub - 1))) = Suc (length pub - 1)"
      using assms(1) False unfolding log_ok_def by (metis diff_less length_greater_0_conv zero_less_one)
    then have "unat (cr_Cursor (last pub)) = unat (h_head h)"
      using assms(1) False by (simp add: log_ok_def last_conv_nth)
    ultimately have "h_head h \<le> sent'" using all by (metis word_unat_eq_iff)
    then show ?thesis using le by simp
  qed
qed

section \<open>A sample hub\<close>

text \<open>
  The hub used by the witnesses: at most two records are retained; two records without a
  selected event are published, a stream with credit 1 watches from the start and drains
  past both, and then two selected records follow.
\<close>

definition sample_record :: "string \<Rightarrow> CutRecord" where
  "sample_record c = \<lparr>cr_Cursor = 0, cr_Cut = ''1'', cr_Frame = ''1'',
     cr_Events = [\<lparr>ev_Ordinal = 0, ev_Class = c, ev_Name = [], ev_Payload = []\<rparr>]\<rparr>"

definition sample_spec :: WatchSpec where
  "sample_spec = \<lparr>w_Session = ''a'', w_Connection = 1, w_Filter = \<lparr>f_Classes = [EventTreeChanged], f_Names = []\<rparr>,
     w_After = 0, w_Credit = 1\<rparr>"

definition sample_append :: "string \<Rightarrow> StreamHub \<Rightarrow> StreamHub" where
  "sample_append c h = (case Append [] 5 5 (sample_record c) h of Inr (_, h') \<Rightarrow> h' | Inl _ \<Rightarrow> h)"

definition sample_hub0 :: StreamHub where
  "sample_hub0 = \<lparr>h_retention = DefaultStreamRetention\<lparr>MaxRecords := 2\<rparr>, h_records = [], h_bytes = 0, h_head = 0,
     h_nextID = 0, h_streams = [], h_notify = False\<rparr>"
definition sample_hub1 :: StreamHub where
  "sample_hub1 = sample_append EventFrameReady (sample_append EventFrameReady sample_hub0)"
definition sample_hub2 :: StreamHub where
  "sample_hub2 = (case Watch sample_spec sample_hub1 of Inr (_, h) \<Rightarrow> h | Inl _ \<Rightarrow> sample_hub1)"
definition sample_hub3 :: StreamHub where
  "sample_hub3 = snd (Drain ''s1'' ''a'' 1 6 sample_hub2)"
definition sample_hub4 :: StreamHub where
  "sample_hub4 = sample_append EventTreeChanged (sample_append EventTreeChanged sample_hub3)"
definition sample_hub5 :: StreamHub where
  "sample_hub5 = sample_append EventFrameReady sample_hub1"

lemma sample_append_run:
  assumes "hub_run h pub st del" "h_head h \<noteq> MaxUint64" "Size (sample_record c) \<le> MaxRecordBytes (h_retention h)"
  shows "\<exists>pub. hub_run (sample_append c h) pub st del"
proof -
  have "Append [] 5 5 (sample_record c) h \<noteq> Inl e" for e
    using assms(3) by (auto simp: Append_def Let_def split: prod.splits)
  then obtain sig h' where a: "Append [] 5 5 (sample_record c) h = Inr (sig, h')"
    by (cases "Append [] 5 5 (sample_record c) h") auto
  then show ?thesis using hr_append [OF assms(1,2) a] by (auto simp: sample_append_def)
qed

lemma sample_hub1_run: "\<exists>pub. hub_run sample_hub1 pub (\<lambda>_. 0) (\<lambda>_. [])"
proof -
  have "NewStreamHubWithRetention (DefaultStreamRetention\<lparr>MaxRecords := 2\<rparr>) = Some sample_hub0" by code_simp
  then have 0: "hub_run sample_hub0 [] (\<lambda>_. 0) (\<lambda>_. [])" by (rule hr_new)
  have "h_head sample_hub0 \<noteq> MaxUint64"
    "Size (sample_record EventFrameReady) \<le> MaxRecordBytes (h_retention sample_hub0)" by code_simp+
  from sample_append_run [OF 0 this]
  obtain pub where 1: "hub_run (sample_append EventFrameReady sample_hub0) pub (\<lambda>_. 0) (\<lambda>_. [])" ..
  have "h_head (sample_append EventFrameReady sample_hub0) \<noteq> MaxUint64"
    "Size (sample_record EventFrameReady) \<le> MaxRecordBytes (h_retention (sample_append EventFrameReady sample_hub0))"
    by code_simp+
  from sample_append_run [OF 1 this] show ?thesis by (simp add: sample_hub1_def)
qed

lemma sample_hub2_run: "\<exists>pub st. hub_run sample_hub2 pub st (\<lambda>_. [])"
proof -
  obtain pub where r: "hub_run sample_hub1 pub (\<lambda>_. 0) (\<lambda>_. [])" using sample_hub1_run ..
  have "h_nextID sample_hub1 \<noteq> MaxUint64" "Watch sample_spec sample_hub1 = Inr (''s1'', sample_hub2)" by code_simp+
  from hr_watch [OF r this] show ?thesis by (auto simp: fun_upd_def)
qed

lemma sample_hub4_run: "\<exists>pub st del. hub_run sample_hub4 pub st del"
proof -
  obtain pub st where r: "hub_run sample_hub2 pub st (\<lambda>_. [])" using sample_hub2_run by blast
  have "Drain ''s1'' ''a'' 1 6 sample_hub2 = (([], Some StreamLive, []), sample_hub3)" by code_simp
  from hr_drain [OF r this] obtain del where 3: "hub_run sample_hub3 pub st del" by blast
  have "h_head sample_hub3 \<noteq> MaxUint64"
    "Size (sample_record EventTreeChanged) \<le> MaxRecordBytes (h_retention sample_hub3)" by code_simp+
  from sample_append_run [OF 3 this] obtain pub' where 4: "hub_run (sample_append EventTreeChanged sample_hub3) pub' st del" ..
  have "h_head (sample_append EventTreeChanged sample_hub3) \<noteq> MaxUint64"
    "Size (sample_record EventTreeChanged) \<le> MaxRecordBytes (h_retention (sample_append EventTreeChanged sample_hub3))"
    by code_simp+
  from sample_append_run [OF 4 this] show ?thesis unfolding sample_hub4_def by blast
qed

section \<open>Properties\<close>

text \<open>
  C6: No silent gap. In every run of a hub, whatever was published, evicted, acknowledged or
  cancelled, everything a live or ended stream has been handed so far is exactly the sequence
  of published records after its start position and up to its present position that have an
  event its filter selects, in order, each once, cut down to the selected events.
\<close>

theorem stream_sees_no_gap:
  assumes "hub_run h pub st del" and "Stream_Get k h = Some s"
  shows "del k = view (st_Filter s) pub (st k) (st_sent s) \<and>
    st k \<le> st_acked s \<and> st_acked s \<le> st_sent s \<and> st_sent s \<le> h_head h"
  using hub_run_inv [OF assms(1)] assms(2)
  by (auto simp: hub_inv_def stream_ok_def Stream_Get_def)

theorem stream_sees_no_gap_witness:
  "\<exists>pub st del s. hub_run sample_hub4 pub st del \<and> Stream_Get ''s1'' sample_hub4 = Some s \<and>
     del ''s1'' = view (st_Filter s) pub (st ''s1'') (st_sent s)"
proof -
  obtain pub st del where r: "hub_run sample_hub4 pub st del" using sample_hub4_run by blast
  have "Stream_Get ''s1'' sample_hub4 \<noteq> None" by code_simp
  then obtain s where s: "Stream_Get ''s1'' sample_hub4 = Some s" by blast
  show ?thesis using stream_sees_no_gap [OF r s] r s by blast
qed

text \<open>
  C7: The shared log. In every run the log holds the latest publications, contiguously
  numbered up to the head and at least the newest one; it never exceeds its record and byte
  bounds, its byte count is the sum of the record sizes, and there are at most 64 streams,
  all with a credit window between 1 and 8.
\<close>

theorem log_contiguous_and_bounded:
  assumes "hub_run h pub st del"
  shows "length pub = unat (h_head h) \<and>
    (\<exists>k. map lr_rec (h_records h) = drop k pub \<and> (pub \<noteq> [] \<longrightarrow> k < length pub)) \<and>
    (\<forall>i < length pub. unat (cr_Cursor (pub ! i)) = Suc i) \<and>
    int (length (h_records h)) \<le> MaxRecords (h_retention h) \<and>
    (\<Sum>x\<leftarrow>h_records h. Size (lr_rec x)) = h_bytes h \<and> h_bytes h \<le> MaxBytes (h_retention h) \<and>
    length (h_streams h) \<le> 64 \<and> (\<forall>k s. Stream_Get k h = Some s \<longrightarrow> 1 \<le> st_Credit s \<and> st_Credit s \<le> 8)"
  using hub_run_inv [OF assms]
  by (auto simp: hub_inv_def log_ok_def stream_ok_def Stream_Get_def maxStreams_def)

theorem log_contiguous_and_bounded_witness:
  "length (h_records sample_hub4) = 2 \<and> unat (h_head sample_hub4) = 4 \<and>
   h_bytes sample_hub4 \<le> MaxBytes (h_retention sample_hub4)"
proof -
  obtain pub st del where r: "hub_run sample_hub4 pub st del" using sample_hub4_run by blast
  have "length (h_records sample_hub4) = 2" "unat (h_head sample_hub4) = 4" by code_simp+
  then show ?thesis using log_contiguous_and_bounded [OF r] by simp
qed

text \<open>
  Draining within the window. For a live stream that is not below the retention floor
  and whose position is at most its credit window ahead of its acknowledgment, a drain hands
  out at most the credit that is left, and it stops short of the head of the log only when
  it has used all of it.
\<close>

theorem Drain_respects_credit:
  assumes "hub_run h pub st del" and "owned_stream k session conn h = Some s" and "st_state s = StreamLive"
    and "\<not> below_floor (fst (boundsLocked h)) s"
    and "int (unat (st_sent s) - unat (st_acked s)) \<le> st_Credit s"
  shows "\<exists>recs sent'. Drain k session conn now h =
       ((recs, Some StreamLive, st_reason s), put_stream k (s\<lparr>st_sent := sent'\<rparr>) h) \<and>
     int (length recs) \<le> st_Credit s - int (unat (st_sent s) - unat (st_acked s)) \<and>
     (int (length recs) < st_Credit s - int (unat (st_sent s) - unat (st_acked s)) \<longrightarrow> sent' = h_head h)"
proof -
  have inv: "hub_inv h pub st del" using assms(1) by (rule hub_run_inv)
  have log: "log_ok h pub" and ok: "stream_ok h pub (st k) (del k) k s"
    using inv owned_streamD [OF assms(2)] by (auto simp: hub_inv_def)
  have b: "st_acked s \<le> st_sent s" "1 \<le> st_Credit s" "st_Credit s \<le> 8" "st_sent s \<le> h_head h"
    using ok by (auto simp: stream_ok_def)
  have u: "unat (st_sent s - st_acked s) = unat (st_sent s) - unat (st_acked s)" using b(1) by (rule unat_sub)
  have c: "unat (of_int (st_Credit s) :: u64) = nat (st_Credit s)"
    using b(2,3) by (rule unat_credit)
  have "st_sent s - st_acked s \<le> of_int (st_Credit s)" using assms(5) u c by (simp add: word_le_nat_alt)
  then have left: "int (unat (credit_left s)) = st_Credit s - int (unat (st_sent s) - unat (st_acked s))"
    using u c b(2) assms(5) by (simp add: credit_left_def unat_sub of_nat_diff nat_le_iff)
  obtain sent' recs where d: "drain_loop (st_Filter s) (st_sent s) (credit_left s) (h_records h) = (sent', recs)"
    by (cases "drain_loop (st_Filter s) (st_sent s) (credit_left s) (h_records h)")
  have "length recs \<le> unat (credit_left s)"
    using drain_loop_progress [OF d records_ascending [OF log]] by simp
  moreover have "length recs < unat (credit_left s) \<longrightarrow> sent' = h_head h"
    using drain_reaches_head [OF log b(4) d] by simp
  ultimately show ?thesis using Drain_live [OF assms(2-4) d] left by (metis of_nat_le_iff of_nat_less_iff)
qed

theorem Drain_respects_credit_witness:
  "\<exists>s recs sent'. Drain ''s1'' ''a'' 1 6 sample_hub2 =
     ((recs, Some StreamLive, st_reason s), put_stream ''s1'' (s\<lparr>st_sent := sent'\<rparr>) sample_hub2) \<and> length recs \<le> 1"
proof -
  obtain pub st where r: "hub_run sample_hub2 pub st (\<lambda>_. [])" using sample_hub2_run by blast
  let ?s = "the (owned_stream ''s1'' ''a'' 1 sample_hub2)"
  have s: "owned_stream ''s1'' ''a'' 1 sample_hub2 = Some ?s" "st_state ?s = StreamLive"
    "\<not> below_floor (fst (boundsLocked sample_hub2)) ?s"
    "int (unat (st_sent ?s) - unat (st_acked ?s)) \<le> st_Credit ?s" by code_simp+
  have c: "st_Credit ?s = 1" by code_simp
  from Drain_respects_credit [OF r s, of 6] c show ?thesis by fastforce
qed

text \<open>
  C8: The credit window can underflow. Records without a selected event advance the position
  without a delivery, so the position can get more than the credit window ahead of the
  acknowledgment. Then the unsigned subtraction wraps around: the next drain ignores the
  window and hands out every remaining record the filter selects, while an append does not
  count the stream among those to be notified.
\<close>

theorem credit_window_underflow:
  assumes "hub_run h pub st del" and "owned_stream k session conn h = Some s" and "st_state s = StreamLive"
    and "\<not> below_floor (fst (boundsLocked h)) s"
    and "st_Credit s < int (unat (st_sent s) - unat (st_acked s))" and "unat (h_head h) < 2 ^ 63"
  shows "Drain k session conn now h =
       ((view (st_Filter s) (map lr_rec (h_records h)) (st_sent s) (h_head h), Some StreamLive, st_reason s),
        put_stream k (s\<lparr>st_sent := h_head h\<rparr>) h) \<and>
     k \<notin> set (collectSendableLocked order h)"
proof -
  have inv: "hub_inv h pub st del" using assms(1) by (rule hub_run_inv)
  note own = owned_streamD [OF assms(2)]
  have log: "log_ok h pub" and ok: "stream_ok h pub (st k) (del k) k s"
    using inv own by (auto simp: hub_inv_def)
  have b: "st_acked s \<le> st_sent s" "1 \<le> st_Credit s" "st_Credit s \<le> 8" "st_sent s \<le> h_head h"
    using ok by (auto simp: stream_ok_def)
  have u: "unat (st_sent s - st_acked s) = unat (st_sent s) - unat (st_acked s)" using b(1) by (rule unat_sub)
  have c: "unat (of_int (st_Credit s) :: u64) = nat (st_Credit s)"
    using b(2,3) by (rule unat_credit)
  let ?d = "st_sent s - st_acked s"
  have lt: "nat (st_Credit s) < unat ?d" using assms(5) u b(2) by simp
  have "unat ?d < 2 ^ 63" using u b(4) assms(6) by (simp add: word_le_nat_alt)
  moreover have "unat (credit_left s) = 2 ^ 64 + nat (st_Credit s) - unat ?d"
    unfolding credit_left_def using u64_sub_wrap [of "of_int (st_Credit s)" ?d] lt c by metis
  ultimately have left: "2 ^ 63 < unat (credit_left s)" by simp
  obtain sent' recs where d: "drain_loop (st_Filter s) (st_sent s) (credit_left s) (h_records h) = (sent', recs)"
    by (cases "drain_loop (st_Filter s) (st_sent s) (credit_left s) (h_records h)")
  have "length recs \<le> length (h_records h)"
    using drain_loop_progress [OF d records_ascending [OF log]] by simp
  also have "\<dots> \<le> length pub" using log by (metis log_ok_def diff_le_self length_drop length_map)
  also have "\<dots> < 2 ^ 63" using log assms(6) by (simp add: log_ok_def)
  finally have "sent' = h_head h" using drain_reaches_head [OF log b(4) d] left by simp
  then have "Drain k session conn now h =
       ((view (st_Filter s) (map lr_rec (h_records h)) (st_sent s) (h_head h), Some StreamLive, st_reason s),
        put_stream k (s\<lparr>st_sent := h_head h\<rparr>) h)"
    using Drain_live [OF assms(2-4) d] drain_loop_view [OF records_ascending [OF log] d] by simp
  moreover have "(of_int (st_Credit s) :: u64) \<le> ?d" using lt c by (simp add: word_le_nat_alt)
  then have "k \<notin> set (collectSendableLocked order h)"
    using own by (simp add: collectSendableLocked_def streams_where_def Let_def)
  ultimately show ?thesis by simp
qed

theorem credit_window_underflow_witness:
  "\<exists>s. Stream_Get ''s1'' sample_hub4 = Some s \<and> st_Credit s = 1 \<and>
     length (fst (fst (Drain ''s1'' ''a'' 1 7 sample_hub4))) = 2"
proof -
  obtain pub st del where r: "hub_run sample_hub4 pub st del" using sample_hub4_run by blast
  let ?s = "the (owned_stream ''s1'' ''a'' 1 sample_hub4)"
  have s: "owned_stream ''s1'' ''a'' 1 sample_hub4 = Some ?s" "st_state ?s = StreamLive"
    "\<not> below_floor (fst (boundsLocked sample_hub4)) ?s"
    "st_Credit ?s < int (unat (st_sent ?s) - unat (st_acked ?s))" by code_simp+
  have "h_head sample_hub4 = 4" by code_simp
  then have u: "unat (h_head sample_hub4) < 2 ^ 63" by simp
  have c: "Stream_Get ''s1'' sample_hub4 = Some ?s" "st_Credit ?s = 1" by code_simp+
  have l: "length (view (st_Filter ?s) (map lr_rec (h_records sample_hub4)) (st_sent ?s) (h_head sample_hub4)) = 2"
    by code_simp
  from credit_window_underflow [OF r s u, of 7] c l show ?thesis by (metis fst_conv)
qed

text \<open>
  Watching from position zero does not mean from the next record. A watch with \<open>After = 0\<close>
  (which is what a snapshot subscription passes) is accepted and starts at the beginning of
  the numbering; once the first record has been evicted such a stream can deliver nothing:
  its first drain expires it.
\<close>

theorem Watch_from_zero_expires:
  assumes "Watch spec h = Inr (k, h')" and "w_After spec = 0" and "1 < fst (boundsLocked h)"
  shows "\<exists>s. Stream_Get k h' = Some s \<and> st_sent s = 0 \<and> st_state s = StreamLive \<and>
    Drain k (w_Session spec) (w_Connection spec) now h' =
      (([], Some StreamExpired, ''retention.exhausted''), put_stream k (expire_stream now s) h')"
proof -
  obtain flr where bl: "boundsLocked h = (flr, h_head h)" by (metis boundsLocked_head prod.collapse)
  obtain s where s: "map_of (h_streams h') k = Some s" "st_sent s = 0" "st_state s = StreamLive"
    "st_Session s = w_Session spec" "st_Connection s = w_Connection spec" and r: "h_records h' = h_records h"
    using assms(1,2) by (auto simp: Watch_def Let_def bl update_conv' split: if_splits option.splits)
  have "fst (boundsLocked h') = fst (boundsLocked h)" using r by (simp add: boundsLocked_def split: list.splits)
  then have f: "below_floor (fst (boundsLocked h')) s" "fst (boundsLocked h') \<noteq> 0"
    using s(2) assms(3) by (auto simp: below_floor_def)
  then show ?thesis
    using s by (auto simp: Stream_Get_def Drain_def owned_stream_def Let_def hub_expireBelowFloorLocked_def
        expire_stream_def)
qed

theorem Watch_from_zero_expires_witness:
  "\<exists>k h. Watch sample_spec sample_hub5 = Inr (k, h) \<and>
     fst (Drain k ''a'' 1 8 h) = ([], Some StreamExpired, ''retention.exhausted'')"
proof -
  have "\<exists>k h. Watch sample_spec sample_hub5 = Inr (k, h)" by (intro exI) code_simp
  then obtain k h where w: "Watch sample_spec sample_hub5 = Inr (k, h)" by blast
  have a: "w_After sample_spec = 0" "1 < fst (boundsLocked sample_hub5)" by code_simp+
  have "w_Session sample_spec = ''a''" "w_Connection sample_spec = 1" by (simp_all add: sample_spec_def)
  then show ?thesis using Watch_from_zero_expires [OF w a, of 8] w by auto
qed

text \<open>
  Cancelling does not check the owner. The session argument of a cancel has no influence:
  any session that names a live stream ends it, although the other stream operations refuse
  a stream of another session.
\<close>

theorem Cancel_ignores_session:
  assumes "Stream_Get k h = Some s" and "st_state s = StreamLive" and "st_Session s \<noteq> session"
  shows "Stream_Cancel k session now h =
      ((Some StreamCancelled, ''cancelled''), put_stream k (cancel_stream ''cancelled'' now s) h) \<and>
    Status k session h = None \<and> fst (Ack k session conn p h) = (None, ''unknown stream'', False) \<and>
    fst (Drain k session conn now h) = ([], None, ''unknown stream'')"
  using assms
  by (simp add: Stream_Get_def Stream_Cancel_def cancel_stream_def Status_def Ack_def Drain_def owned_stream_def Let_def)

theorem Cancel_ignores_session_witness:
  "fst (Stream_Cancel ''s1'' ''b'' 9 sample_hub2) = (Some StreamCancelled, ''cancelled'') \<and>
   Status ''s1'' ''b'' sample_hub2 = None"
proof -
  let ?s = "the (Stream_Get ''s1'' sample_hub2)"
  have "Stream_Get ''s1'' sample_hub2 = Some ?s" "st_state ?s = StreamLive" "st_Session ?s \<noteq> ''b''" by code_simp+
  from Cancel_ignores_session [OF this, of 9] show ?thesis by simp
qed

end
