(* ===== verification/Scope.thy ===== *)
theory Scope
  imports Prelude "HOL-Library.Multiset"
begin

text \<open>
  Ownership scopes: \<^verbatim>\<open>src/store/scope.go\<close> and the projection guard of
  \<^verbatim>\<open>src/store/projection.go\<close>. Scopes form a tree and are shared by pointer, so the model
  keeps them in a heap and names them by address; the read guard and the flush phase, which
  the scopes of one tree share, are heap cells of their own. Queued deliveries (\<open>'n\<close>), owned
  resources (\<open>'r\<close>) and the rest of the program's state (\<open>'w\<close>) are parameters; what a delivery,
  a resource or a derived value does when it is called is an argument of the operation that
  calls it. A panic is a value of \<open>store_panic\<close>. The walks over the tree take fuel, since a
  callback may change the tree while it is walked.
\<close>

section \<open>State\<close>

datatype scopeState = scopeConstructing | scopeBound | scopeClosing | scopeClosed

fun state_rank :: "scopeState \<Rightarrow> nat" where
  "state_rank scopeConstructing = 0"
| "state_rank scopeBound = 1"
| "state_rank scopeClosing = 2"
| "state_rank scopeClosed = 3"

lemma state_rank_inj: "state_rank x = state_rank y \<Longrightarrow> x = y"
  by (cases x; cases y) auto

text \<open>The constants are declared by \<open>iota\<close> and compared as numbers.\<close>

instantiation scopeState :: linorder
begin

definition less_eq_scopeState :: "scopeState \<Rightarrow> scopeState \<Rightarrow> bool" where
  "x \<le> y \<longleftrightarrow> state_rank x \<le> state_rank y"

definition less_scopeState :: "scopeState \<Rightarrow> scopeState \<Rightarrow> bool" where
  "x < y \<longleftrightarrow> state_rank x < state_rank y"

instance
  by standard (auto simp: less_eq_scopeState_def less_scopeState_def intro: state_rank_inj)

end

datatype store_panic =
    ChildOfClosing | BindClosing | BoundToOther | NilBinding | NilResource | ResourceInClosing
  | RequireNil | ConstructInClosing | SignalCycle | NilDerived | RegisterDuringTreeFlush | DerivedInClosing
  | RegisterDuringFlush | SequenceExhausted | RecursiveFlush | DependencyCycle | StackCorruption
  | UndeclaredRead | UsedAfterClose | GenerationExhausted | WaitsForClose | MutationWhileProjecting
  | NotRuntimeThread | AnchorExporting | TransactionScope | CommitCompleted | IndexOutOfRange | PageArguments
  | NilCompute | NilSource | ForeignSource | SubscriptionsExhausted | OutOfFuel

record 'n queuedSignal =
  q_generation :: u64
  q_deliver :: 'n

record ('n, 'r) Scope =
  sc_state :: scopeState
  sc_generation :: u64
  sc_identity :: "nat option"
  sc_parent :: "nat option"
  sc_children :: "nat list"
  sc_resources :: "'r list"
  sc_sequence :: u64
  sc_dirty :: "nat list"
  sc_dirtySet :: "nat list"
  sc_signals :: "'n queuedSignal list"
  sc_flushing :: bool
  sc_readGuard :: nat
  sc_phaseState :: nat
  sc_frameEvals :: u64
  sc_frameRecomputes :: u64

record ('n, 'r, 'w) Scopes =
  h_scopes :: "('n, 'r) Scope list"
  h_guards :: "nat list list"
  h_phases :: "bool list"
  h_world :: 'w

record FlushResult =
  Evaluated :: int
  Recomputed :: int

abbreviation scope_at :: "('n, 'r, 'w) Scopes \<Rightarrow> nat \<Rightarrow> ('n, 'r) Scope" where
  "scope_at H a \<equiv> h_scopes H ! a"

definition set_scope :: "nat \<Rightarrow> ('n, 'r) Scope \<Rightarrow> ('n, 'r, 'w) Scopes \<Rightarrow> ('n, 'r, 'w) Scopes" where
  "set_scope a s H = H\<lparr>h_scopes := (h_scopes H)[a := s]\<rparr>"

definition closing :: "('n, 'r, 'w) Scopes \<Rightarrow> nat \<Rightarrow> bool" where
  "closing H a \<longleftrightarrow> scopeClosing \<le> sc_state (scope_at H a)"

section \<open>Creating, binding and owning\<close>

definition fresh_scope :: "nat \<Rightarrow> nat \<Rightarrow> ('n, 'r) Scope" where
  "fresh_scope guard phase =
     \<lparr>sc_state = scopeConstructing, sc_generation = 1, sc_identity = None, sc_parent = None, sc_children = [],
      sc_resources = [], sc_sequence = 0, sc_dirty = [], sc_dirtySet = [], sc_signals = [], sc_flushing = False,
      sc_readGuard = guard, sc_phaseState = phase, sc_frameEvals = 0, sc_frameRecomputes = 0\<rparr>"

definition NewScope :: "('n, 'r, 'w) Scopes \<Rightarrow> nat \<times> ('n, 'r, 'w) Scopes" where
  "NewScope H =
     (length (h_scopes H),
      H\<lparr>h_scopes := h_scopes H @ [fresh_scope (length (h_guards H)) (length (h_phases H))],
        h_guards := h_guards H @ [[]], h_phases := h_phases H @ [False]\<rparr>)"

definition Child :: "nat \<Rightarrow> ('n, 'r, 'w) Scopes \<Rightarrow> store_panic + (nat \<times> ('n, 'r, 'w) Scopes)" where
  "Child s H =
     (case NewScope H of (c, H1) \<Rightarrow>
        let child = (scope_at H1 c)\<lparr>sc_parent := Some s\<rparr> in
        if closing H1 s then Inl ChildOfClosing
        else let child1 = (if sc_state (scope_at H1 s) = scopeBound
                  then child\<lparr>sc_state := scopeBound, sc_identity := sc_identity (scope_at H1 s)\<rparr> else child);
                 child2 = child1\<lparr>sc_readGuard := sc_readGuard (scope_at H1 s),
                                 sc_phaseState := sc_phaseState (scope_at H1 s)\<rparr>;
                 owner = (scope_at H1 s)\<lparr>sc_children := sc_children (scope_at H1 s) @ [c]\<rparr>
             in Inr (c, set_scope s owner (set_scope c child2 H1)))"

text \<open>The loop over the children of a bound scope is the second function.\<close>

fun bindTree :: "nat \<Rightarrow> nat \<Rightarrow> nat \<Rightarrow> ('n, 'r, 'w) Scopes \<Rightarrow> store_panic + ('n, 'r, 'w) Scopes"
and bind_children :: "nat \<Rightarrow> nat \<Rightarrow> nat list \<Rightarrow> ('n, 'r, 'w) Scopes \<Rightarrow> store_panic + ('n, 'r, 'w) Scopes" where
  "bindTree 0 i s H = Inl OutOfFuel"
| "bindTree (Suc n) i s H =
     (if closing H s then Inl BindClosing
      else if sc_identity (scope_at H s) \<noteq> None \<and> sc_identity (scope_at H s) \<noteq> Some i then Inl BoundToOther
      else bind_children n i (sc_children (scope_at H s))
             (set_scope s ((scope_at H s)\<lparr>sc_identity := Some i, sc_state := scopeBound\<rparr>) H))"
| "bind_children n i [] H = Inr H"
| "bind_children n i (c # cs) H =
     (case bindTree n i c H of
        Inl p \<Rightarrow> Inl p
      | Inr H1 \<Rightarrow> bind_children n i cs H1)"

definition Bind :: "nat option \<Rightarrow> nat \<Rightarrow> ('n, 'r, 'w) Scopes \<Rightarrow> store_panic + ('n, 'r, 'w) Scopes" where
  "Bind identity s H =
     (case identity of
        None \<Rightarrow> Inl NilBinding
      | Some i \<Rightarrow> bindTree (Suc (length (h_scopes H))) i s H)"

text \<open>The walk from a scope to the root; more steps than there are scopes cannot be needed.\<close>

fun ancestor_walk :: "nat \<Rightarrow> nat \<Rightarrow> nat option \<Rightarrow> ('n, 'r, 'w) Scopes \<Rightarrow> bool" where
  "ancestor_walk 0 s current H = False"
| "ancestor_walk (Suc n) s None H = False"
| "ancestor_walk (Suc n) s (Some c) H =
     (if c = s then True else ancestor_walk n s (sc_parent (scope_at H c)) H)"

definition ancestorOf :: "nat \<Rightarrow> nat \<Rightarrow> ('n, 'r, 'w) Scopes \<Rightarrow> bool" where
  "ancestorOf s other H = ancestor_walk (Suc (length (h_scopes H))) s (Some other) H"

definition Owns :: "nat option \<Rightarrow> nat option \<Rightarrow> ('n, 'r, 'w) Scopes \<Rightarrow> bool" where
  "Owns s candidate H =
     (case (s, candidate) of (Some a, Some b) \<Rightarrow> ancestorOf a b H | _ \<Rightarrow> False)"

definition addResource :: "'r option \<Rightarrow> nat \<Rightarrow> ('n, 'r, 'w) Scopes \<Rightarrow> store_panic + ('n, 'r, 'w) Scopes" where
  "addResource resource s H =
     (case resource of
        None \<Rightarrow> Inl NilResource
      | Some r \<Rightarrow>
          if closing H s then Inl ResourceInClosing
          else Inr (set_scope s ((scope_at H s)\<lparr>sc_resources := sc_resources (scope_at H s) @ [r]\<rparr>) H))"

text \<open>\<open>wrap\<close> makes a resource from an external release function.\<close>

definition OwnRelease :: "('f \<Rightarrow> 'r) \<Rightarrow> 'f option \<Rightarrow> nat \<Rightarrow> ('n, 'r, 'w) Scopes \<Rightarrow>
    store_panic + ('n, 'r, 'w) Scopes" where
  "OwnRelease wrap release s H =
     (case release of None \<Rightarrow> Inr H | Some f \<Rightarrow> addResource (Some (wrap f)) s H)"

definition requireScope :: "nat option \<Rightarrow> ('n, 'r, 'w) Scopes \<Rightarrow> store_panic option" where
  "requireScope scope H =
     (case scope of
        None \<Rightarrow> Some RequireNil
      | Some s \<Rightarrow> if closing H s then Some ConstructInClosing else None)"

definition assertUsable :: "nat \<Rightarrow> ('n, 'r, 'w) Scopes \<Rightarrow> store_panic option" where
  "assertUsable s H = (if closing H s then Some UsedAfterClose else None)"

text \<open>
  The checks that depend on where a mutation is made from: on the runtime thread, not while
  anchors are exported, not while the projection phase runs.
\<close>

record call_site =
  at_runtime_thread :: bool
  at_exporting :: bool
  at_projecting :: bool

definition AssertRuntimeThread :: "call_site \<Rightarrow> store_panic option" where
  "AssertRuntimeThread w = (if at_runtime_thread w then None else Some NotRuntimeThread)"

definition AssertNotAnchorExporting :: "call_site \<Rightarrow> store_panic option" where
  "AssertNotAnchorExporting w = (if at_exporting w then Some AnchorExporting else None)"

definition assertNotProjecting :: "call_site \<Rightarrow> store_panic option" where
  "assertNotProjecting w = (if at_projecting w then Some MutationWhileProjecting else None)"

section \<open>Signals\<close>

definition enqueueSignal :: "'n \<Rightarrow> nat \<Rightarrow> ('n, 'r, 'w) Scopes \<Rightarrow> ('n, 'r, 'w) Scopes" where
  "enqueueSignal deliver s H =
     (if closing H s then H
      else set_scope s ((scope_at H s)\<lparr>sc_signals :=
             sc_signals (scope_at H s) @ [\<lparr>q_generation = sc_generation (scope_at H s), q_deliver = deliver\<rparr>]\<rparr>) H)"

definition QueueSignal :: "'n option \<Rightarrow> nat \<Rightarrow> ('n, 'r, 'w) Scopes \<Rightarrow> ('n, 'r, 'w) Scopes" where
  "QueueSignal deliver s H = (case deliver of None \<Rightarrow> H | Some d \<Rightarrow> enqueueSignal d s H)"

definition takeSignalBatch :: "nat \<Rightarrow> ('n, 'r, 'w) Scopes \<Rightarrow> ('n queuedSignal list \<times> u64) \<times> ('n, 'r, 'w) Scopes" where
  "takeSignalBatch s H =
     (if closing H s \<or> sc_signals (scope_at H s) = [] then (([], sc_generation (scope_at H s)), H)
      else ((sc_signals (scope_at H s), sc_generation (scope_at H s)),
            set_scope s ((scope_at H s)\<lparr>sc_signals := []\<rparr>) H))"

fun deliverSignalBatch :: "('n \<Rightarrow> ('n, 'r, 'w) Scopes \<Rightarrow> store_panic + ('n, 'r, 'w) Scopes) \<Rightarrow> nat \<Rightarrow>
    'n queuedSignal list \<Rightarrow> u64 \<Rightarrow> ('n, 'r, 'w) Scopes \<Rightarrow> store_panic + ('n, 'r, 'w) Scopes" where
  "deliverSignalBatch run s [] generation H = Inr H"
| "deliverSignalBatch run s (q # batch) generation H =
     (if \<not> closing H s \<and> sc_generation (scope_at H s) = generation \<and> q_generation q = generation
      then (case run (q_deliver q) H of
              Inl p \<Rightarrow> Inl p
            | Inr H1 \<Rightarrow> deliverSignalBatch run s batch generation H1)
      else deliverSignalBatch run s batch generation H)"

text \<open>
  The walk of \<open>visitTree\<close> and its loop over the children, which re-reads the list after every
  child because the visit may have changed it.
\<close>

fun visitTree :: "nat \<Rightarrow> (nat \<Rightarrow> 'a \<times> ('n, 'r, 'w) Scopes \<Rightarrow> store_panic + 'a \<times> ('n, 'r, 'w) Scopes) \<Rightarrow> nat \<Rightarrow>
    'a \<times> ('n, 'r, 'w) Scopes \<Rightarrow> store_panic + 'a \<times> ('n, 'r, 'w) Scopes"
and visit_children :: "nat \<Rightarrow> (nat \<Rightarrow> 'a \<times> ('n, 'r, 'w) Scopes \<Rightarrow> store_panic + 'a \<times> ('n, 'r, 'w) Scopes) \<Rightarrow> nat \<Rightarrow>
    nat \<Rightarrow> 'a \<times> ('n, 'r, 'w) Scopes \<Rightarrow> store_panic + 'a \<times> ('n, 'r, 'w) Scopes" where
  "visitTree 0 visit s x = Inl OutOfFuel"
| "visitTree (Suc n) visit s x =
     (if closing (snd x) s then Inr x
      else case visit s x of
        Inl p \<Rightarrow> Inl p
      | Inr x1 \<Rightarrow> visit_children n visit s 0 x1)"
| "visit_children 0 visit s index x = Inl OutOfFuel"
| "visit_children (Suc n) visit s index x =
     (if closing (snd x) s \<or> length (sc_children (scope_at (snd x) s)) \<le> index then Inr x
      else let child = sc_children (scope_at (snd x) s) ! index in
        (case visitTree n visit child x of
           Inl p \<Rightarrow> Inl p
         | Inr x1 \<Rightarrow>
             let cs = sc_children (scope_at (snd x1) s)
             in visit_children n visit s (if index < length cs \<and> cs ! index = child then index + 1 else index) x1))"

definition maxIterations :: nat where "maxIterations = 16"

text \<open>The visit of \<open>FlushSignals\<close>: the flag records that something was delivered, the number how much.\<close>

definition flush_visit :: "('n \<Rightarrow> ('n, 'r, 'w) Scopes \<Rightarrow> store_panic + ('n, 'r, 'w) Scopes) \<Rightarrow> nat \<Rightarrow>
    (bool \<times> int) \<times> ('n, 'r, 'w) Scopes \<Rightarrow> store_panic + (bool \<times> int) \<times> ('n, 'r, 'w) Scopes" where
  "flush_visit run owner x =
     (case x of ((work, n), H) \<Rightarrow>
      (case takeSignalBatch owner H of ((batch, generation), H1) \<Rightarrow>
        if batch = [] then Inr ((work, n), H1)
        else (case deliverSignalBatch run owner batch generation H1 of
                Inl p \<Rightarrow> Inl p
              | Inr H2 \<Rightarrow> Inr ((True, n + int (length batch)), H2))))"

fun flush_loop :: "nat \<Rightarrow> nat \<Rightarrow> ('n \<Rightarrow> ('n, 'r, 'w) Scopes \<Rightarrow> store_panic + ('n, 'r, 'w) Scopes) \<Rightarrow> nat \<Rightarrow>
    int \<Rightarrow> ('n, 'r, 'w) Scopes \<Rightarrow> store_panic + int \<times> ('n, 'r, 'w) Scopes" where
  "flush_loop fuel 0 run s n H = Inl SignalCycle"
| "flush_loop fuel (Suc left) run s n H =
     (case visitTree fuel (flush_visit run) s ((False, n), H) of
        Inl p \<Rightarrow> Inl p
      | Inr ((work, n1), H1) \<Rightarrow>
          if \<not> work then Inr (n1, H1) else flush_loop fuel left run s n1 H1)"

definition FlushSignals :: "nat \<Rightarrow> ('n \<Rightarrow> ('n, 'r, 'w) Scopes \<Rightarrow> store_panic + ('n, 'r, 'w) Scopes) \<Rightarrow> nat option \<Rightarrow>
    ('n, 'r, 'w) Scopes \<Rightarrow> store_panic + int \<times> ('n, 'r, 'w) Scopes" where
  "FlushSignals fuel run scope H =
     (case scope of None \<Rightarrow> Inr (0, H) | Some s \<Rightarrow> flush_loop fuel maxIterations run s 0 H)"

section \<open>Derived values\<close>

definition registerDerived :: "nat option \<Rightarrow> nat \<Rightarrow> ('n, 'r, 'w) Scopes \<Rightarrow> store_panic + u64 \<times> ('n, 'r, 'w) Scopes" where
  "registerDerived derived s H =
     (case derived of
        None \<Rightarrow> Inl NilDerived
      | Some d \<Rightarrow>
          if h_phases H ! sc_phaseState (scope_at H s) then Inl RegisterDuringTreeFlush
          else if closing H s then Inl DerivedInClosing
          else if sc_flushing (scope_at H s) then Inl RegisterDuringFlush
          else let sq = sc_sequence (scope_at H s) + 1 in
            if sq = 0 then Inl SequenceExhausted
            else Inr (sq, set_scope s ((scope_at H s)\<lparr>sc_sequence := sq, sc_dirty := sc_dirty (scope_at H s) @ [d],
                   sc_dirtySet := List.insert d (sc_dirtySet (scope_at H s))\<rparr>) H))"

definition enqueueDerived :: "nat option \<Rightarrow> nat option \<Rightarrow> ('n, 'r, 'w) Scopes \<Rightarrow> ('n, 'r, 'w) Scopes" where
  "enqueueDerived scope derived H =
     (case (scope, derived) of
        (Some s, Some d) \<Rightarrow>
          if \<not> closing H s \<and> d \<notin> set (sc_dirtySet (scope_at H s))
          then set_scope s ((scope_at H s)\<lparr>sc_dirty := sc_dirty (scope_at H s) @ [d],
                 sc_dirtySet := List.insert d (sc_dirtySet (scope_at H s))\<rparr>) H
          else H
      | _ \<Rightarrow> H)"

text \<open>
  The work list is sorted stably by rank and then by sequence. \<open>flushIfDirty\<close> is an argument:
  it reports whether the derived value was recomputed.
\<close>

fun flush_work :: "(nat \<Rightarrow> ('n, 'r, 'w) Scopes \<Rightarrow> store_panic + bool \<times> ('n, 'r, 'w) Scopes) \<Rightarrow> nat list \<Rightarrow>
    FlushResult \<Rightarrow> ('n, 'r, 'w) Scopes \<Rightarrow> store_panic + FlushResult \<times> ('n, 'r, 'w) Scopes" where
  "flush_work flushIfDirty [] result H = Inr (result, H)"
| "flush_work flushIfDirty (d # work) result H =
     (case flushIfDirty d H of
        Inl p \<Rightarrow> Inl p
      | Inr (did, H1) \<Rightarrow>
          flush_work flushIfDirty work
            (if did then result\<lparr>Evaluated := Evaluated result + 1, Recomputed := Recomputed result + 1\<rparr> else result) H1)"

definition sort_work :: "(nat \<Rightarrow> u64) \<Rightarrow> (nat \<Rightarrow> u64) \<Rightarrow> nat list \<Rightarrow> nat list" where
  "sort_work rank seqno work = sort_key rank (sort_key seqno work)"

definition flushDerivedLocal :: "(nat \<Rightarrow> u64) \<Rightarrow> (nat \<Rightarrow> u64) \<Rightarrow>
    (nat \<Rightarrow> ('n, 'r, 'w) Scopes \<Rightarrow> store_panic + bool \<times> ('n, 'r, 'w) Scopes) \<Rightarrow> nat \<Rightarrow>
    ('n, 'r, 'w) Scopes \<Rightarrow> store_panic + FlushResult \<times> ('n, 'r, 'w) Scopes" where
  "flushDerivedLocal rank seqno flushIfDirty s H =
     (if closing H s then Inr (\<lparr>Evaluated = 0, Recomputed = 0\<rparr>, H)
      else if sc_flushing (scope_at H s) then Inl RecursiveFlush
      else let work = sc_dirty (scope_at H s);
               H1 = set_scope s ((scope_at H s)\<lparr>sc_flushing := True, sc_dirty := [], sc_dirtySet := []\<rparr>) H
           in (case flush_work flushIfDirty (sort_work rank seqno work) \<lparr>Evaluated = 0, Recomputed = 0\<rparr> H1 of
                 Inl p \<Rightarrow> Inl p
               | Inr (result, H2) \<Rightarrow> Inr (result, set_scope s ((scope_at H2 s)\<lparr>sc_flushing := False\<rparr>) H2)))"

definition set_phase :: "nat \<Rightarrow> bool \<Rightarrow> ('n, 'r, 'w) Scopes \<Rightarrow> ('n, 'r, 'w) Scopes" where
  "set_phase p b H = H\<lparr>h_phases := (h_phases H)[p := b]\<rparr>"

definition FlushDerived :: "nat \<Rightarrow> (nat \<Rightarrow> u64) \<Rightarrow> (nat \<Rightarrow> u64) \<Rightarrow>
    (nat \<Rightarrow> ('n, 'r, 'w) Scopes \<Rightarrow> store_panic + bool \<times> ('n, 'r, 'w) Scopes) \<Rightarrow> nat option \<Rightarrow>
    ('n, 'r, 'w) Scopes \<Rightarrow> store_panic + FlushResult \<times> ('n, 'r, 'w) Scopes" where
  "FlushDerived fuel rank seqno flushIfDirty scope H =
     (case scope of
        None \<Rightarrow> Inr (\<lparr>Evaluated = 0, Recomputed = 0\<rparr>, H)
      | Some s \<Rightarrow>
          let p = sc_phaseState (scope_at H s) in
          if h_phases H ! p then Inl RecursiveFlush
          else (case visitTree fuel
                  (\<lambda>owner (result, H1). case flushDerivedLocal rank seqno flushIfDirty owner H1 of
                     Inl q \<Rightarrow> Inl q
                   | Inr (loc, H2) \<Rightarrow> Inr (\<lparr>Evaluated = Evaluated result + Evaluated loc,
                        Recomputed = Recomputed result + Recomputed loc\<rparr>, H2))
                  s (\<lparr>Evaluated = 0, Recomputed = 0\<rparr>, set_phase p True H) of
                  Inl q \<Rightarrow> Inl q
                | Inr (result, H3) \<Rightarrow> Inr (result, set_phase p False H3)))"

section \<open>Counters and the compute stack\<close>

definition ResetFrameDerivedCounters :: "nat option \<Rightarrow> ('n, 'r, 'w) Scopes \<Rightarrow> ('n, 'r, 'w) Scopes" where
  "ResetFrameDerivedCounters scope H =
     (case scope of None \<Rightarrow> H
      | Some s \<Rightarrow> set_scope s ((scope_at H s)\<lparr>sc_frameEvals := 0, sc_frameRecomputes := 0\<rparr>) H)"

definition FrameDerivedCounters :: "nat option \<Rightarrow> ('n, 'r, 'w) Scopes \<Rightarrow> u64 \<times> u64" where
  "FrameDerivedCounters scope H =
     (case scope of None \<Rightarrow> (0, 0)
      | Some s \<Rightarrow> (sc_frameEvals (scope_at H s), sc_frameRecomputes (scope_at H s)))"

definition ResetFrameDerivedCountersTree :: "nat \<Rightarrow> nat \<Rightarrow> ('n, 'r, 'w) Scopes \<Rightarrow> store_panic + unit \<times> ('n, 'r, 'w) Scopes" where
  "ResetFrameDerivedCountersTree fuel s H =
     visitTree fuel (\<lambda>owner (u, H1). Inr (u, ResetFrameDerivedCounters (Some owner) H1)) s ((), H)"

definition FrameDerivedCountersTree :: "nat \<Rightarrow> nat \<Rightarrow> ('n, 'r, 'w) Scopes \<Rightarrow>
    store_panic + (u64 \<times> u64) \<times> ('n, 'r, 'w) Scopes" where
  "FrameDerivedCountersTree fuel s H =
     visitTree fuel (\<lambda>owner ((ev, rc), H1). case FrameDerivedCounters (Some owner) H1 of
        (e, r) \<Rightarrow> Inr ((ev + e, rc + r), H1)) s ((0, 0), H)"

definition recordDerivedRecompute :: "nat \<Rightarrow> ('n, 'r, 'w) Scopes \<Rightarrow> ('n, 'r, 'w) Scopes" where
  "recordDerivedRecompute s H =
     set_scope s ((scope_at H s)\<lparr>sc_frameRecomputes := sc_frameRecomputes (scope_at H s) + 1\<rparr>) H"

definition recordDerivedGet :: "bool \<Rightarrow> nat \<Rightarrow> ('n, 'r, 'w) Scopes \<Rightarrow> ('n, 'r, 'w) Scopes" where
  "recordDerivedGet recomputed s H =
     (let H1 = set_scope s ((scope_at H s)\<lparr>sc_frameEvals := sc_frameEvals (scope_at H s) + 1\<rparr>) H
      in if recomputed then recordDerivedRecompute s H1 else H1)"

definition set_guard :: "nat \<Rightarrow> nat list \<Rightarrow> ('n, 'r, 'w) Scopes \<Rightarrow> ('n, 'r, 'w) Scopes" where
  "set_guard g st H = H\<lparr>h_guards := (h_guards H)[g := st]\<rparr>"

definition pushComputing :: "nat \<Rightarrow> nat \<Rightarrow> ('n, 'r, 'w) Scopes \<Rightarrow> store_panic + ('n, 'r, 'w) Scopes" where
  "pushComputing s v H =
     (let g = sc_readGuard (scope_at H s); st = h_guards H ! g in
      if list_ex (\<lambda>current. current = v) st then Inl DependencyCycle
      else Inr (set_guard g (st @ [v]) H))"

definition popComputing :: "nat \<Rightarrow> nat \<Rightarrow> ('n, 'r, 'w) Scopes \<Rightarrow> store_panic + ('n, 'r, 'w) Scopes" where
  "popComputing s v H =
     (let g = sc_readGuard (scope_at H s); st = h_guards H ! g in
      if st = [] \<or> last st \<noteq> v then Inl StackCorruption
      else Inr (set_guard g (butlast st) H))"

text \<open>\<open>declares\<close> tells whether the derived value on top of the stack declares the source.\<close>

definition assertDerivedReadAllowed :: "(nat \<Rightarrow> 'src \<Rightarrow> bool) \<Rightarrow> 'src \<Rightarrow> nat \<Rightarrow> ('n, 'r, 'w) Scopes \<Rightarrow>
    store_panic option" where
  "assertDerivedReadAllowed declares source s H =
     (case assertUsable s H of
        Some p \<Rightarrow> Some p
      | None \<Rightarrow>
          let st = h_guards H ! sc_readGuard (scope_at H s) in
          if st = [] then None
          else if \<not> declares (last st) source then Some UndeclaredRead else None)"

section \<open>Closing\<close>

definition removeChild :: "nat \<Rightarrow> nat \<Rightarrow> ('n, 'r, 'w) Scopes \<Rightarrow> ('n, 'r, 'w) Scopes" where
  "removeChild s child H =
     (case find_index (\<lambda>c. c = child) (sc_children (scope_at H s)) of
        None \<Rightarrow> H
      | Some i \<Rightarrow> set_scope s ((scope_at H s)\<lparr>sc_children := remove_at i (sc_children (scope_at H s))\<rparr>) H)"

text \<open>
  \<open>closeRes\<close> is what closing a resource does to the rest of the program. A close of a scope
  that is being closed waits for that close to end.
\<close>

fun Close :: "nat \<Rightarrow> ('r \<Rightarrow> 'w \<Rightarrow> 'w) \<Rightarrow> nat \<Rightarrow> ('n, 'r, 'w) Scopes \<Rightarrow> store_panic + ('n, 'r, 'w) Scopes"
and close_children :: "nat \<Rightarrow> ('r \<Rightarrow> 'w \<Rightarrow> 'w) \<Rightarrow> nat list \<Rightarrow> ('n, 'r, 'w) Scopes \<Rightarrow> store_panic + ('n, 'r, 'w) Scopes" where
  "Close 0 closeRes s H = Inl OutOfFuel"
| "Close (Suc n) closeRes s H =
     (if sc_state (scope_at H s) = scopeClosed then Inr H
      else if sc_state (scope_at H s) = scopeClosing then Inl WaitsForClose
      else if sc_generation (scope_at H s) + 1 = 0 then Inl GenerationExhausted
      else let sc = scope_at H s;
               H1 = set_scope s (sc\<lparr>sc_state := scopeClosing, sc_generation := sc_generation sc + 1, sc_signals := [],
                      sc_dirty := [], sc_dirtySet := [], sc_children := [], sc_resources := []\<rparr>) H
           in (case close_children n closeRes (rev (sc_children sc)) H1 of
                 Inl p \<Rightarrow> Inl p
               | Inr H2 \<Rightarrow>
                   let H3 = H2\<lparr>h_world := fold closeRes (rev (sc_resources sc)) (h_world H2)\<rparr>;
                       owner = sc_parent (scope_at H3 s);
                       H4 = set_scope s ((scope_at H3 s)\<lparr>sc_state := scopeClosed, sc_parent := None\<rparr>) H3
                   in Inr (case owner of None \<Rightarrow> H4 | Some p \<Rightarrow> removeChild p s H4)))"
| "close_children n closeRes [] H = Inr H"
| "close_children n closeRes (c # cs) H =
     (case Close n closeRes c H of
        Inl p \<Rightarrow> Inl p
      | Inr H1 \<Rightarrow> close_children n closeRes cs H1)"

section \<open>The tree of scopes\<close>

text \<open>A scope was created after its owner, and every listed child names its owner.\<close>

definition wf_tree :: "('n, 'r, 'w) Scopes \<Rightarrow> bool" where
  "wf_tree H \<longleftrightarrow>
     (\<forall>a < length (h_scopes H). distinct (sc_children (scope_at H a)) \<and>
        (\<forall>p. sc_parent (scope_at H a) = Some p \<longrightarrow> p < a) \<and>
        (\<forall>c \<in> set (sc_children (scope_at H a)). a < c \<and> c < length (h_scopes H) \<and> sc_parent (scope_at H c) = Some a))"

inductive owned :: "('n, 'r, 'w) Scopes \<Rightarrow> nat \<Rightarrow> nat \<Rightarrow> bool" for H a where
  owned_self: "owned H a a"
| owned_child: "owned H a b \<Longrightarrow> c \<in> set (sc_children (scope_at H b)) \<Longrightarrow> owned H a c"

lemma wf_treeD:
  assumes "wf_tree H" "a < length (h_scopes H)"
  shows "distinct (sc_children (scope_at H a))" "sc_parent (scope_at H a) = Some p \<Longrightarrow> p < a"
    "c \<in> set (sc_children (scope_at H a)) \<Longrightarrow> a < c"
    "c \<in> set (sc_children (scope_at H a)) \<Longrightarrow> c < length (h_scopes H)"
    "c \<in> set (sc_children (scope_at H a)) \<Longrightarrow> sc_parent (scope_at H c) = Some a"
  using assms unfolding wf_tree_def by blast+

lemma wf_tree_scopes:
  assumes e: "h_scopes H' = h_scopes H" and "wf_tree H"
  shows "wf_tree H'"
  using assms(2) unfolding wf_tree_def e .

lemma owned_bounds:
  "owned H a b \<Longrightarrow> wf_tree H \<Longrightarrow> a < length (h_scopes H) \<Longrightarrow> a \<le> b \<and> b < length (h_scopes H)"
proof (induction rule: owned.induct)
  case (owned_child b c)
  then show ?case using wf_treeD(3,4) [of H b c] by auto
qed simp

lemma owned_trans: "owned H b c \<Longrightarrow> owned H a b \<Longrightarrow> owned H a c"
proof (induction rule: owned.induct)
  case (owned_child x c)
  from owned.owned_child [OF owned_child.IH [OF owned_child.prems] owned_child.hyps(2)] show ?case .
qed

lemma owned_via_child:
  "owned H a b \<Longrightarrow> b = a \<or> (\<exists>c \<in> set (sc_children (scope_at H a)). owned H c b)"
proof (induction rule: owned.induct)
  case (owned_child b c)
  then show ?case by (metis owned.owned_child owned.owned_self)
qed simp

lemma owned_last: "owned H a c \<Longrightarrow> c = a \<or> (\<exists>x. owned H a x \<and> c \<in> set (sc_children (scope_at H x)))"
  by (erule owned.cases) auto

lemma owned_agree:
  assumes "\<And>b. owned H a b \<Longrightarrow> scope_at H' b = scope_at H b"
  shows "owned H' a b \<longleftrightarrow> owned H a b"
proof
  assume "owned H' a b"
  then show "owned H a b"
  proof (induction rule: owned.induct)
    case (owned_child b c)
    then show ?case using assms [of b] by (metis owned.owned_child)
  qed (rule owned_self)
next
  assume "owned H a b"
  then show "owned H' a b"
  proof (induction rule: owned.induct)
    case (owned_child b c)
    then show ?case using assms [of b] by (metis owned.owned_child)
  qed (rule owned_self)
qed

text \<open>The subtrees of two children of a scope have no scope in common.\<close>

lemma siblings_disjoint:
  assumes wf: "wf_tree H" and c: "s < c" "c < length (h_scopes H)" "sc_parent (scope_at H c) = Some s"
    and c': "s < c'" "c' < length (h_scopes H)" "sc_parent (scope_at H c') = Some s"
  shows "owned H c b \<Longrightarrow> owned H c' b \<Longrightarrow> c = c'"
proof (induction rule: owned.induct)
  case owned_self
  show ?case
  proof (rule ccontr)
    assume "c \<noteq> c'"
    with owned_last [OF owned_self] obtain x where x: "owned H c' x" "c \<in> set (sc_children (scope_at H x))" by blast
    note b = owned_bounds [OF x(1) wf c'(2)]
    then have "x = s" using wf_treeD(5) [OF wf _ x(2)] c(3) by simp
    then show False using b c'(1) by simp
  qed
next
  case (owned_child b d)
  note b = owned_bounds [OF owned_child.hyps(1) wf c(2)]
  have pd: "sc_parent (scope_at H d) = Some b" using wf_treeD(5) [OF wf _ owned_child.hyps(2)] b by simp
  from owned_last [OF owned_child.prems] show ?case
  proof (elim disjE exE conjE)
    assume "d = c'"
    then have "b = s" using pd c'(3) by simp
    then show ?thesis using b c(1) by simp
  next
    fix x assume x: "owned H c' x" "d \<in> set (sc_children (scope_at H x))"
    have "x = b" using wf_treeD(5) [OF wf _ x(2)] owned_bounds [OF x(1) wf c'(2)] pd by simp
    then show ?thesis using owned_child.IH x(1) by simp
  qed
qed

section \<open>Closing a tree\<close>

text \<open>The order in which the resources of a subtree are released.\<close>

fun release_order :: "nat \<Rightarrow> ('n, 'r, 'w) Scopes \<Rightarrow> nat \<Rightarrow> 'r list" where
  "release_order 0 H a = []"
| "release_order (Suc n) H a =
     concat (map (release_order n H) (rev (sc_children (scope_at H a)))) @ rev (sc_resources (scope_at H a))"

definition released :: "('n, 'r) Scope \<Rightarrow> bool" where
  "released sc \<longleftrightarrow> sc_state sc = scopeClosed \<and> sc_signals sc = [] \<and> sc_dirty sc = [] \<and> sc_children sc = [] \<and>
     sc_resources sc = [] \<and> sc_parent sc = None"

lemma release_order_agree:
  "(\<And>b. owned H a b \<Longrightarrow> scope_at H' b = scope_at H b) \<Longrightarrow> release_order n H' a = release_order n H a"
proof (induction n arbitrary: a)
  case (Suc n)
  have s: "scope_at H' a = scope_at H a" using Suc.prems owned_self by metis
  have "release_order n H' c = release_order n H c" if c: "c \<in> set (sc_children (scope_at H a))" for c
    using Suc.prems owned_trans [OF _ owned_child [OF owned_self c]] by (intro Suc.IH) blast
  then have "map (release_order n H') (rev (sc_children (scope_at H a))) =
      map (release_order n H) (rev (sc_children (scope_at H a)))" by simp
  then show ?case unfolding release_order.simps s by (simp only:)
qed simp

lemma removeChild_eq:
  "removeChild p c H = set_scope p ((scope_at H p)\<lparr>sc_children := remove1 c (sc_children (scope_at H p))\<rparr>) H"
proof -
  have "(case find_index (\<lambda>x. x = c) xs of None \<Rightarrow> xs | Some i \<Rightarrow> remove_at i xs) = remove1 c xs" for xs :: "nat list"
    by (induction xs) (auto simp: remove_at_def split: option.splits)
  note r = this [of "sc_children (scope_at H p)"]
  show ?thesis
  proof (cases "find_index (\<lambda>x. x = c) (sc_children (scope_at H p))")
    case None
    then have "remove1 c (sc_children (scope_at H p)) = sc_children (scope_at H p)" using r by simp
    then show ?thesis using None by (simp add: removeChild_def set_scope_def)
  next
    case (Some i)
    then show ?thesis using r by (simp add: removeChild_def)
  qed
qed

lemma scope_at_set [simp]:
  "a < length (h_scopes H) \<Longrightarrow> scope_at (set_scope b sc H) a = (if a = b then sc else scope_at H a)"
  by (simp add: set_scope_def nth_list_update_cases)

lemma set_scope_simps [simp]:
  "length (h_scopes (set_scope a sc H)) = length (h_scopes H)" "h_world (set_scope a sc H) = h_world H"
  "h_guards (set_scope a sc H) = h_guards H" "h_phases (set_scope a sc H) = h_phases H"
  by (simp_all add: set_scope_def)

text \<open>What closing a scope of a well-formed tree does to the heap.\<close>

definition close_effect :: "nat \<Rightarrow> ('r \<Rightarrow> 'w \<Rightarrow> 'w) \<Rightarrow> nat \<Rightarrow> ('n, 'r, 'w) Scopes \<Rightarrow> ('n, 'r, 'w) Scopes \<Rightarrow> bool" where
  "close_effect n closeRes a H H' \<longleftrightarrow>
     wf_tree H' \<and> length (h_scopes H') = length (h_scopes H) \<and>
     (\<forall>b. owned H a b \<longrightarrow> released (scope_at H' b)) \<and>
     (\<forall>b < length (h_scopes H). \<not> owned H a b \<longrightarrow> scope_at H' b =
        (if sc_parent (scope_at H a) = Some b
         then (scope_at H b)\<lparr>sc_children := remove1 a (sc_children (scope_at H b))\<rparr> else scope_at H b)) \<and>
     h_world H' = fold closeRes (release_order n H a) (h_world H)"

definition closable :: "('n, 'r, 'w) Scopes \<Rightarrow> nat \<Rightarrow> bool" where
  "closable H a \<longleftrightarrow>
     (\<forall>b. owned H a b \<longrightarrow> \<not> closing H b \<and> sc_generation (scope_at H b) + 1 \<noteq> 0)"

lemma closable_child: "closable H a \<Longrightarrow> c \<in> set (sc_children (scope_at H a)) \<Longrightarrow> closable H c"
  unfolding closable_def using owned_trans owned_child [OF owned_self] by blast

lemma closable_agree:
  assumes "closable H a" "\<And>b. owned H a b \<Longrightarrow> scope_at H' b = scope_at H b"
  shows "closable H' a"
  using assms owned_agree [of H a H'] by (simp add: closable_def closing_def)

text \<open>The loop over the children, given that each of them can be closed.\<close>

lemma close_children_effect:
  fixes closeRes :: "'r \<Rightarrow> 'w \<Rightarrow> 'w" and H :: "('n, 'r, 'w) Scopes"
  assumes step: "\<And>c (H :: ('n, 'r, 'w) Scopes). wf_tree H \<Longrightarrow> s < c \<Longrightarrow> c < length (h_scopes H) \<Longrightarrow> length (h_scopes H) - c \<le> n \<Longrightarrow> closable H c \<Longrightarrow>
      \<exists>H'. Close n closeRes c H = Inr H' \<and> close_effect n closeRes c H H'"
  shows "wf_tree H \<Longrightarrow> s < length (h_scopes H) \<Longrightarrow> sc_children (scope_at H s) = [] \<Longrightarrow> distinct cs \<Longrightarrow>
    (\<forall>c \<in> set cs. s < c \<and> c < length (h_scopes H) \<and> length (h_scopes H) - c \<le> n \<and>
       sc_parent (scope_at H c) = Some s \<and> closable H c) \<Longrightarrow>
    \<exists>H'. close_children n closeRes cs H = Inr H' \<and> wf_tree H' \<and> length (h_scopes H') = length (h_scopes H) \<and>
      (\<forall>b. (\<exists>c \<in> set cs. owned H c b) \<longrightarrow> released (scope_at H' b)) \<and>
      (\<forall>b < length (h_scopes H). \<not> (\<exists>c \<in> set cs. owned H c b) \<longrightarrow> scope_at H' b = scope_at H b) \<and>
      h_world H' = fold closeRes (concat (map (release_order n H) cs)) (h_world H)"
proof (induction cs arbitrary: H)
  case Nil
  then show ?case by simp
next
  case (Cons c cs)
  have c: "s < c" "c < length (h_scopes H)" "length (h_scopes H) - c \<le> n" "sc_parent (scope_at H c) = Some s" "closable H c"
    using Cons.prems(5) by auto
  from step [OF Cons.prems(1) c(1-3,5)] obtain H1 where H1: "Close n closeRes c H = Inr H1"
    and e: "close_effect n closeRes c H H1" by blast
  have len: "length (h_scopes H1) = length (h_scopes H)" and wf1: "wf_tree H1"
    and rel: "\<And>b. owned H c b \<Longrightarrow> released (scope_at H1 b)"
    and w: "h_world H1 = fold closeRes (release_order n H c) (h_world H)" using e by (auto simp: close_effect_def)
  have s: "\<not> owned H c s" using owned_bounds [of H c s] Cons.prems(1) c(1,2) by auto
  have keep: "scope_at H1 b = scope_at H b" if "b < length (h_scopes H)" "\<not> owned H c b" for b
    using e that c(4) Cons.prems(3) by (auto simp: close_effect_def)
  have agree: "scope_at H1 b = scope_at H b" if d: "d \<in> set cs" and b: "owned H d b" for d b
  proof -
    have d': "s < d" "d < length (h_scopes H)" "sc_parent (scope_at H d) = Some s" using Cons.prems(5) d by auto
    have "\<not> owned H c b" using siblings_disjoint [OF Cons.prems(1) d' c(1,2,4) b] d Cons.prems(4) by auto
    then show ?thesis using keep owned_bounds [OF b Cons.prems(1) d'(2)] by simp
  qed
  have "\<exists>H'. close_children n closeRes cs H1 = Inr H' \<and> wf_tree H' \<and> length (h_scopes H') = length (h_scopes H1) \<and>
      (\<forall>b. (\<exists>c \<in> set cs. owned H1 c b) \<longrightarrow> released (scope_at H' b)) \<and>
      (\<forall>b < length (h_scopes H1). \<not> (\<exists>c \<in> set cs. owned H1 c b) \<longrightarrow> scope_at H' b = scope_at H1 b) \<and>
      h_world H' = fold closeRes (concat (map (release_order n H1) cs)) (h_world H1)"
  proof (rule Cons.IH [OF wf1])
    show "s < length (h_scopes H1)" "sc_children (scope_at H1 s) = []" "distinct cs"
      using Cons.prems(2-4) len keep [OF _ s] by simp_all
    show "\<forall>c \<in> set cs. s < c \<and> c < length (h_scopes H1) \<and> length (h_scopes H1) - c \<le> n \<and>
       sc_parent (scope_at H1 c) = Some s \<and> closable H1 c"
    proof
      fix d assume d: "d \<in> set cs"
      then show "s < d \<and> d < length (h_scopes H1) \<and> length (h_scopes H1) - d \<le> n \<and>
          sc_parent (scope_at H1 d) = Some s \<and> closable H1 d"
        using Cons.prems(5) len agree [OF d owned_self] closable_agree [of H d H1, OF _ agree [OF d]] by auto
    qed
  qed
  then obtain H' where H': "close_children n closeRes cs H1 = Inr H'" "wf_tree H'"
    "length (h_scopes H') = length (h_scopes H1)"
    "\<And>b c. c \<in> set cs \<Longrightarrow> owned H1 c b \<Longrightarrow> released (scope_at H' b)"
    "\<And>b. b < length (h_scopes H1) \<Longrightarrow> \<not> (\<exists>c \<in> set cs. owned H1 c b) \<Longrightarrow> scope_at H' b = scope_at H1 b"
    "h_world H' = fold closeRes (concat (map (release_order n H1) cs)) (h_world H1)" by blast
  have own: "owned H1 d b \<longleftrightarrow> owned H d b" if "d \<in> set cs" for d b
    using agree [OF that] by (rule owned_agree)
  have "map (release_order n H1) cs = map (release_order n H) cs"
    using agree by (auto intro!: release_order_agree)
  from H'(6) [unfolded this] have "h_world H' = fold closeRes (concat (map (release_order n H) (c # cs))) (h_world H)"
    using w by simp
  moreover have "released (scope_at H' b)" if "\<exists>d \<in> set (c # cs). owned H d b" for b
  proof (cases "\<exists>d \<in> set cs. owned H d b")
    case True
    then show ?thesis using H'(4) own by blast
  next
    case False
    then have cb: "owned H c b" using that by auto
    then have "b < length (h_scopes H1)" using owned_bounds [OF cb Cons.prems(1) c(2)] len by simp
    then show ?thesis using H'(5) False own rel [OF cb] by metis
  qed
  moreover have "scope_at H' b = scope_at H b" if "b < length (h_scopes H)" "\<not> (\<exists>d \<in> set (c # cs). owned H d b)" for b
    using H'(5) [of b] own keep [of b] that len by auto
  ultimately show ?case using H1 H'(1-3) len by (intro exI [of _ H']) auto
qed

lemma owned_iff_child:
  "owned H a b \<longleftrightarrow> b = a \<or> (\<exists>c \<in> set (sc_children (scope_at H a)). owned H c b)"
  using owned_via_child owned_trans owned_child [OF owned_self] owned_self by blast

lemma wf_treeI:
  assumes "\<And>a. a < length (h_scopes H) \<Longrightarrow> distinct (sc_children (scope_at H a))"
    and "\<And>a p. a < length (h_scopes H) \<Longrightarrow> sc_parent (scope_at H a) = Some p \<Longrightarrow> p < a"
    and "\<And>a c. a < length (h_scopes H) \<Longrightarrow> c \<in> set (sc_children (scope_at H a)) \<Longrightarrow>
      a < c \<and> c < length (h_scopes H) \<and> sc_parent (scope_at H c) = Some a"
  shows "wf_tree H"
  using assms unfolding wf_tree_def by blast

text \<open>Emptying the children of a scope, and taking a scope out of the tree.\<close>

lemma wf_tree_drop_children:
  assumes "wf_tree H" "sc_children sc = []" "sc_parent sc = sc_parent (scope_at H s)"
  shows "wf_tree (set_scope s sc H)"
proof (rule wf_treeI)
  fix a assume a: "a < length (h_scopes (set_scope s sc H))"
  then show "distinct (sc_children (scope_at (set_scope s sc H) a))"
    using assms(2) wf_treeD(1) [OF assms(1)] by simp
  show "p < a" if "sc_parent (scope_at (set_scope s sc H) a) = Some p" for p
    using that a assms(3) wf_treeD(2) [OF assms(1)] by (auto split: if_splits)
  show "a < c \<and> c < length (h_scopes (set_scope s sc H)) \<and> sc_parent (scope_at (set_scope s sc H) c) = Some a"
    if "c \<in> set (sc_children (scope_at (set_scope s sc H) a))" for c
    using that a assms(2,3) wf_treeD(3-5) [OF assms(1), of a c] by (auto split: if_splits)
qed

definition detach :: "nat \<Rightarrow> ('n, 'r) Scope \<Rightarrow> ('n, 'r, 'w) Scopes \<Rightarrow> ('n, 'r, 'w) Scopes" where
  "detach s sc H =
     (case sc_parent (scope_at H s) of
        None \<Rightarrow> set_scope s sc H
      | Some p \<Rightarrow> removeChild p s (set_scope s sc H))"

lemma scope_at_detach:
  assumes "wf_tree H" "s < length (h_scopes H)" "b < length (h_scopes H)"
  shows "scope_at (detach s sc H) b =
    (if b = s then sc
     else if sc_parent (scope_at H s) = Some b then (scope_at H b)\<lparr>sc_children := remove1 s (sc_children (scope_at H b))\<rparr>
     else scope_at H b)"
  using assms wf_treeD(2) [OF assms(1,2)]
  by (auto simp: detach_def removeChild_eq split: option.splits)

lemma detach_simps [simp]:
  "length (h_scopes (detach s sc H)) = length (h_scopes H)" "h_world (detach s sc H) = h_world H"
  by (simp_all add: detach_def removeChild_eq split: option.splits)

lemma wf_tree_detach:
  assumes wf: "wf_tree H" and s: "s < length (h_scopes H)" and sc: "sc_children sc = []" "sc_parent sc = None"
  shows "wf_tree (detach s sc H)"
proof (rule wf_treeI)
  fix a assume "a < length (h_scopes (detach s sc H))"
  then have a: "a < length (h_scopes H)" by simp
  note at = scope_at_detach [OF wf s a, of sc]
  show "distinct (sc_children (scope_at (detach s sc H) a))"
    using at sc(1) wf_treeD(1) [OF wf a] by simp
  show "p < a" if "sc_parent (scope_at (detach s sc H) a) = Some p" for p
    using that at sc(2) wf_treeD(2) [OF wf a] by (auto split: if_splits)
  fix c assume c: "c \<in> set (sc_children (scope_at (detach s sc H) a))"
  have c0: "c \<in> set (sc_children (scope_at H a))" "a \<noteq> s"
    using c at sc(1) by (auto split: if_splits dest: set_remove1_subset [THEN subsetD])
  note d = wf_treeD(3-5) [OF wf a c0(1)]
  have "c \<noteq> s" using c at d(3) c0(2) wf_treeD(1) [OF wf a] by (auto split: if_splits)
  then show "a < c \<and> c < length (h_scopes (detach s sc H)) \<and> sc_parent (scope_at (detach s sc H) c) = Some a"
    using d scope_at_detach [OF wf s d(2), of sc] by auto
qed

lemma Close_effect:
  "wf_tree H \<Longrightarrow> s < length (h_scopes H) \<Longrightarrow> length (h_scopes H) - s \<le> n \<Longrightarrow> closable H s \<Longrightarrow>
     \<exists>H'. Close n closeRes s H = Inr H' \<and> close_effect n closeRes s H H'"
proof (induction n arbitrary: s H)
  case 0
  then show ?case by simp
next
  case (Suc n)
  let ?sc = "scope_at H s"
  let ?sc1 = "?sc\<lparr>sc_state := scopeClosing, sc_generation := sc_generation ?sc + 1, sc_signals := [],
    sc_dirty := [], sc_dirtySet := [], sc_children := [], sc_resources := []\<rparr>"
  let ?H1 = "set_scope s ?sc1 H"
  have live: "sc_state ?sc \<noteq> scopeClosed" "sc_state ?sc \<noteq> scopeClosing" "sc_generation ?sc + 1 \<noteq> 0"
    using Suc.prems(4) owned_self [of H s] by (auto simp: closable_def closing_def less_eq_scopeState_def)
  have wf1: "wf_tree ?H1" using Suc.prems(1) by (rule wf_tree_drop_children) simp_all
  have same: "scope_at ?H1 b = scope_at H b" if "c \<in> set (sc_children ?sc)" "owned H c b" for c b
  proof -
    have "s < c" "c < length (h_scopes H)" using wf_treeD(3,4) [OF Suc.prems(1,2) that(1)] by auto
    then show ?thesis using owned_bounds [OF that(2) Suc.prems(1)] by auto
  qed
  have own: "owned ?H1 c b \<longleftrightarrow> owned H c b" if "c \<in> set (sc_children ?sc)" for c b
    using same [OF that] by (rule owned_agree)
  have kids: "\<forall>c \<in> set (rev (sc_children ?sc)). s < c \<and> c < length (h_scopes ?H1) \<and> length (h_scopes ?H1) - c \<le> n \<and>
       sc_parent (scope_at ?H1 c) = Some s \<and> closable ?H1 c"
  proof
    fix c assume "c \<in> set (rev (sc_children ?sc))"
    then have c: "c \<in> set (sc_children ?sc)" by simp
    note d = wf_treeD(3-5) [OF Suc.prems(1,2) c]
    have "closable ?H1 c" using closable_agree [OF closable_child [OF Suc.prems(4) c] same [OF c]] .
    then show "s < c \<and> c < length (h_scopes ?H1) \<and> length (h_scopes ?H1) - c \<le> n \<and>
       sc_parent (scope_at ?H1 c) = Some s \<and> closable ?H1 c"
      using d Suc.prems(2,3) by auto
  qed
  have "\<exists>H'. close_children n closeRes (rev (sc_children ?sc)) ?H1 = Inr H' \<and> wf_tree H' \<and>
      length (h_scopes H') = length (h_scopes ?H1) \<and>
      (\<forall>b. (\<exists>c \<in> set (rev (sc_children ?sc)). owned ?H1 c b) \<longrightarrow> released (scope_at H' b)) \<and>
      (\<forall>b < length (h_scopes ?H1). \<not> (\<exists>c \<in> set (rev (sc_children ?sc)). owned ?H1 c b) \<longrightarrow>
         scope_at H' b = scope_at ?H1 b) \<and>
      h_world H' = fold closeRes (concat (map (release_order n ?H1) (rev (sc_children ?sc)))) (h_world ?H1)"
  proof (rule close_children_effect [OF _ wf1])
    show "\<exists>H'. Close n closeRes c H = Inr H' \<and> close_effect n closeRes c H H'"
      if "wf_tree H" "s < c" "c < length (h_scopes H)" "length (h_scopes H) - c \<le> n" "closable H c" for c and H :: "('a, 'b, 'c) Scopes"
      using Suc.IH that by blast
    show "s < length (h_scopes ?H1)" "sc_children (scope_at ?H1 s) = []" using Suc.prems(2) by simp_all
    show "distinct (rev (sc_children ?sc))" using wf_treeD(1) [OF Suc.prems(1,2)] by simp
    show "\<forall>c \<in> set (rev (sc_children ?sc)). s < c \<and> c < length (h_scopes ?H1) \<and> length (h_scopes ?H1) - c \<le> n \<and>
       sc_parent (scope_at ?H1 c) = Some s \<and> closable ?H1 c" by (rule kids)
  qed
  then obtain H2 where R: "close_children n closeRes (rev (sc_children ?sc)) ?H1 = Inr H2" "wf_tree H2"
      "length (h_scopes H2) = length (h_scopes ?H1)"
      "\<forall>b. (\<exists>c \<in> set (rev (sc_children ?sc)). owned ?H1 c b) \<longrightarrow> released (scope_at H2 b)"
      "\<forall>b < length (h_scopes ?H1). \<not> (\<exists>c \<in> set (rev (sc_children ?sc)). owned ?H1 c b) \<longrightarrow>
         scope_at H2 b = scope_at ?H1 b"
      "h_world H2 = fold closeRes (concat (map (release_order n ?H1) (rev (sc_children ?sc)))) (h_world ?H1)" by blast
  have H2_closed: "released (scope_at H2 b)" if "c \<in> set (sc_children ?sc)" "owned H c b" for b c
    using R(4) own that by (metis set_rev)
  have H2_same: "scope_at H2 b = scope_at ?H1 b"
    if "b < length (h_scopes H)" "\<not> (\<exists>c \<in> set (sc_children ?sc). owned H c b)" for b
    using R(5) own that by (metis set_rev set_scope_simps(1))
  have H2: "length (h_scopes H2) = length (h_scopes H)"
    "h_world H2 = fold closeRes (concat (map (release_order n ?H1) (rev (sc_children ?sc)))) (h_world H)"
    using R(3,6) by simp_all
  let ?w = "fold closeRes (rev (sc_resources ?sc)) (h_world H2)"
  let ?H3 = "H2\<lparr>h_world := ?w\<rparr>"
  have nots: "\<not> owned H c s" if "c \<in> set (sc_children ?sc)" for c
    using wf_treeD(3,4) [OF Suc.prems(1,2) that] owned_bounds [of H c s] Suc.prems(1) by auto
  have at_s: "scope_at H2 s = ?sc1" using H2_same [OF Suc.prems(2)] nots Suc.prems(2) by auto
  let ?sc4 = "(scope_at H2 s)\<lparr>sc_state := scopeClosed, sc_parent := None\<rparr>"
  let ?H' = "detach s ?sc4 ?H3"
  have "Close (Suc n) closeRes s H = Inr ?H'"
    using live R(1) by (simp add: Let_def detach_def split: option.splits)
  moreover have "close_effect (Suc n) closeRes s H ?H'"
    unfolding close_effect_def
  proof (intro conjI allI impI)
    have wf3: "wf_tree ?H3" by (rule wf_tree_scopes [OF _ R(2)]) simp
    have s3: "s < length (h_scopes ?H3)" using Suc.prems(2) H2(1) by simp
    show "wf_tree ?H'" by (rule wf_tree_detach [OF wf3 s3]) (simp_all add: at_s)
    show "length (h_scopes ?H') = length (h_scopes H)" using H2(1) by simp
    have par: "sc_parent (scope_at H2 s) = sc_parent ?sc" by (simp add: at_s)
    fix b
    show "released (scope_at ?H' b)" if b: "owned H s b"
    proof -
      have bl: "b < length (h_scopes H)" "s \<le> b" using owned_bounds [OF b Suc.prems(1,2)] by auto
      have "sc_parent ?sc \<noteq> Some b" using wf_treeD(2) [OF Suc.prems(1,2), of b] bl(2) by auto
      then have "scope_at ?H' b = (if b = s then ?sc4 else scope_at H2 b)"
        using scope_at_detach [OF wf3 s3, of b ?sc4] bl(1) H2(1) par by simp
      moreover have "b = s \<or> (\<exists>c \<in> set (sc_children ?sc). owned H c b)" using b owned_iff_child [of H s b] by simp
      ultimately show ?thesis using H2_closed at_s by (auto simp: released_def)
    qed
    assume bl: "b < length (h_scopes H)" and nb: "\<not> owned H s b"
    then have "b \<noteq> s" "scope_at H2 b = scope_at H b" using owned_iff_child [of H s b] H2_same [OF bl] by auto
    then show "scope_at ?H' b = (if sc_parent ?sc = Some b
         then (scope_at H b)\<lparr>sc_children := remove1 s (sc_children (scope_at H b))\<rparr> else scope_at H b)"
      using scope_at_detach [OF wf3 s3, of b ?sc4] bl H2(1) par by simp
  next
    have "map (release_order n ?H1) (rev (sc_children ?sc)) = map (release_order n H) (rev (sc_children ?sc))"
      using same by (auto intro!: release_order_agree)
    from H2(2) [unfolded this]
    show "h_world ?H' = fold closeRes (release_order (Suc n) H s) (h_world H)" by simp
  qed
  ultimately show ?case by blast
qed

lemma set_scope_same [simp]: "set_scope a sc (set_scope a sc' H) = set_scope a sc H"
  by (simp add: set_scope_def)

lemma set_scope_id [simp]: "set_scope a (scope_at H a) H = H"
  by (simp add: set_scope_def)

lemma closing_set [simp]: "a < length (h_scopes H) \<Longrightarrow> closing (set_scope b sc H) a =
    (if a = b then scopeClosing \<le> sc_state sc else closing H a)"
  by (simp add: closing_def)

lemma closing_world [simp]: "closing (H\<lparr>h_world := w\<rparr>) a = closing H a"
  by (simp add: closing_def)

section \<open>Building the tree\<close>

lemma scope_at_New: "a < length (h_scopes H) \<Longrightarrow> scope_at (snd (NewScope H)) a = scope_at H a"
  by (simp add: NewScope_def nth_append)

lemma Child_at:
  assumes "Child s H = Inr (c, H')" "s < length (h_scopes H)"
  shows "c = length (h_scopes H)" "length (h_scopes H') = Suc c" "\<not> closing H s"
    "scope_at H' s = (scope_at H s)\<lparr>sc_children := sc_children (scope_at H s) @ [c]\<rparr>"
    "a < c \<Longrightarrow> a \<noteq> s \<Longrightarrow> scope_at H' a = scope_at H a"
    "sc_parent (scope_at H' c) = Some s" "sc_children (scope_at H' c) = []"
    "sc_readGuard (scope_at H' c) = sc_readGuard (scope_at H s)"
    "sc_phaseState (scope_at H' c) = sc_phaseState (scope_at H s)"
    "sc_state (scope_at H s) = scopeBound \<Longrightarrow>
       sc_state (scope_at H' c) = scopeBound \<and> sc_identity (scope_at H' c) = sc_identity (scope_at H s)"
  using assms
  by (auto simp: Child_def NewScope_def fresh_scope_def Let_def nth_append set_scope_def closing_def nth_list_update_cases
      split: if_splits)

lemma wf_tree_New: "wf_tree H \<Longrightarrow> wf_tree (snd (NewScope H))"
proof (rule wf_treeI)
  fix a assume wf: "wf_tree H" and "a < length (h_scopes (snd (NewScope H)))"
  then consider "a < length (h_scopes H)" | "a = length (h_scopes H)" by (fastforce simp: NewScope_def less_Suc_eq)
  note cases = this
  from cases show "distinct (sc_children (scope_at (snd (NewScope H)) a))"
    by cases (simp add: scope_at_New wf_treeD(1) [OF wf], simp add: NewScope_def fresh_scope_def)
  from cases show "p < a" if "sc_parent (scope_at (snd (NewScope H)) a) = Some p" for p
    using that wf_treeD(2) [OF wf, of a p] by cases (auto simp: scope_at_New, auto simp: NewScope_def fresh_scope_def)
  from cases show "a < c \<and> c < length (h_scopes (snd (NewScope H))) \<and> sc_parent (scope_at (snd (NewScope H)) c) = Some a"
    if c: "c \<in> set (sc_children (scope_at (snd (NewScope H)) a))" for c
  proof cases
    case 1
    then have "c \<in> set (sc_children (scope_at H a))" using c by (simp add: scope_at_New)
    note d = wf_treeD(3-5) [OF wf 1 this]
    then show ?thesis using scope_at_New [OF d(2)] by (simp add: NewScope_def)
  next
    case 2
    then show ?thesis using c by (simp add: NewScope_def fresh_scope_def)
  qed
qed

lemma wf_tree_Child:
  assumes wf: "wf_tree H" and s: "s < length (h_scopes H)" and ch: "Child s H = Inr (c, H')"
  shows "wf_tree H'"
proof (rule wf_treeI)
  note C = Child_at [OF ch s]
  fix a assume "a < length (h_scopes H')"
  then have "a < c \<or> a = c" using C(2) by auto
  then consider (owner) "a = s" "a < length (h_scopes H)" | (old) "a \<noteq> s" "a < length (h_scopes H)" | (new) "a = c" "a \<noteq> s"
    using C(1) s by auto
  note cases = this
  have fresh: "c \<notin> set (sc_children (scope_at H b))" if "b < length (h_scopes H)" for b
    using wf_treeD(4) [OF wf that, of c] C(1) by auto
  from cases show "distinct (sc_children (scope_at H' a))"
    using C fresh wf_treeD(1) [OF wf] by cases auto
  from cases show "p < a" if "sc_parent (scope_at H' a) = Some p" for p
    using that C(1,4-6) s wf_treeD(2) [OF wf, of a p] by cases auto
  from cases show "a < d \<and> d < length (h_scopes H') \<and> sc_parent (scope_at H' d) = Some a"
    if d: "d \<in> set (sc_children (scope_at H' a))" for d
  proof cases
    case new
    then show ?thesis using d C(7) by simp
  next
    case old
    then have d0: "d \<in> set (sc_children (scope_at H a))" using d C(1,5) by simp
    note w = wf_treeD(3-5) [OF wf old(2) d0]
    show ?thesis using w C(1,2,4) C(5) [of d] by (cases "d = s") auto
  next
    case owner
    then consider "d \<in> set (sc_children (scope_at H a))" | "d = c" using d C(4) by auto
    then show ?thesis
    proof cases
      case 1
      note w = wf_treeD(3-5) [OF wf owner(2) 1]
      then have "d \<noteq> s" using owner(1) by auto
      then show ?thesis using w C(1,2) C(5) [of d] by simp
    next
      case 2
      then show ?thesis using C(1,2,6) owner s by simp
    qed
  qed
qed

section \<open>Properties\<close>

text \<open>
  C9: Closing a scope releases everything it owns. In a well-formed tree of live scopes,
  closing a scope ends (the fuel suffices) with every scope of its subtree closed, without
  queued signals, dirty values, children or resources, detached from its owner; every other
  scope is unchanged, except that the owner no longer lists the closed one. The resources are
  released children first, in the reverse of the order in which children and resources were
  added. Afterwards the scope refuses use and drops signals, and closing it again does nothing.
\<close>

theorem Close_releases_subtree:
  fixes closeRes :: "'r \<Rightarrow> 'w \<Rightarrow> 'w" and H :: "('n, 'r, 'w) Scopes"
  assumes "wf_tree H" and "s < length (h_scopes H)" and "closable H s"
  shows "\<exists>H'. Close (length (h_scopes H)) closeRes s H = Inr H' \<and> wf_tree H' \<and>
    (\<forall>b. owned H s b \<longrightarrow> released (scope_at H' b)) \<and>
    (\<forall>b < length (h_scopes H). \<not> owned H s b \<longrightarrow> scope_at H' b =
        (if sc_parent (scope_at H s) = Some b
         then (scope_at H b)\<lparr>sc_children := remove1 s (sc_children (scope_at H b))\<rparr> else scope_at H b)) \<and>
    h_world H' = fold closeRes (release_order (length (h_scopes H)) H s) (h_world H) \<and>
    assertUsable s H' = Some UsedAfterClose \<and> enqueueSignal d s H' = H' \<and> Close (Suc n) closeRes s H' = Inr H'"
proof -
  obtain H' where c: "Close (length (h_scopes H)) closeRes s H = Inr H'"
    and e: "close_effect (length (h_scopes H)) closeRes s H H'"
    using Close_effect [OF assms(1,2) _ assms(3), of "length (h_scopes H)" closeRes] by auto
  have "released (scope_at H' s)" using e owned_self [of H s] by (auto simp: close_effect_def)
  then have "sc_state (scope_at H' s) = scopeClosed" by (simp add: released_def)
  moreover from this have "closing H' s" by (simp add: closing_def less_eq_scopeState_def)
  ultimately have "assertUsable s H' = Some UsedAfterClose \<and> enqueueSignal d s H' = H' \<and> Close (Suc n) closeRes s H' = Inr H'"
    by (simp add: assertUsable_def enqueueSignal_def)
  then show ?thesis using c e unfolding close_effect_def by blast
qed

definition empty_scopes :: "'w \<Rightarrow> ('n, 'r, 'w) Scopes" where
  "empty_scopes w = \<lparr>h_scopes = [], h_guards = [], h_phases = [], h_world = w\<rparr>"

definition sample_tree :: "(nat, nat, nat list) Scopes" where
  "sample_tree =
     (case Child 0 (snd (NewScope (empty_scopes []))) of
        Inr (c, H) \<Rightarrow> (case addResource (Some 5) 0 H of
          Inr H1 \<Rightarrow> (case addResource (Some 7) c H1 of Inr H2 \<Rightarrow> H2 | Inl _ \<Rightarrow> H1) | Inl _ \<Rightarrow> H)
      | Inl _ \<Rightarrow> empty_scopes [])"

lemma sample_tree_at:
  "length (h_scopes sample_tree) = 2" "sc_children (scope_at sample_tree 0) = [1]" "sc_children (scope_at sample_tree (Suc 0)) = []"
  "sc_resources (scope_at sample_tree 0) = [5]" "sc_resources (scope_at sample_tree (Suc 0)) = [7]"
  "sc_parent (scope_at sample_tree (Suc 0)) = Some 0" "sc_parent (scope_at sample_tree 0) = None" "h_world sample_tree = []"
  "\<not> closing sample_tree 0" "\<not> closing sample_tree (Suc 0)"
  "sc_generation (scope_at sample_tree 0) = 1" "sc_generation (scope_at sample_tree (Suc 0)) = 1"
  by (simp_all add: sample_tree_def Child_def NewScope_def empty_scopes_def fresh_scope_def addResource_def Let_def
      closing_def set_scope_def less_eq_scopeState_def)

theorem Close_releases_subtree_witness:
  "\<exists>H'. Close 2 (\<lambda>r w. w @ [r]) 0 sample_tree = Inr H' \<and> h_world H' = [7, 5] \<and> released (scope_at H' (Suc 0))"
proof -
  have n: "a < 2 \<longleftrightarrow> a = 0 \<or> a = Suc 0" for a :: nat by auto
  have wf: "wf_tree sample_tree" by (rule wf_treeI) (auto simp: n sample_tree_at)
  have o1: "owned sample_tree (Suc 0) b \<longleftrightarrow> b = Suc 0" for b by (simp add: owned_iff_child [of _ "Suc 0"] sample_tree_at)
  have o: "owned sample_tree 0 b \<longleftrightarrow> b = 0 \<or> b = Suc 0" for b by (simp add: owned_iff_child [of _ 0] sample_tree_at o1)
  have "closable sample_tree 0" by (auto simp: closable_def o sample_tree_at)
  moreover have "0 < length (h_scopes sample_tree)" by (simp add: sample_tree_at)
  ultimately obtain H' where c: "Close (length (h_scopes sample_tree)) (\<lambda>r w. w @ [r]) 0 sample_tree = Inr H'"
    and r: "\<forall>b. owned sample_tree 0 b \<longrightarrow> released (scope_at H' b)"
    and w: "h_world H' = fold (\<lambda>r w. w @ [r]) (release_order (length (h_scopes sample_tree)) sample_tree 0) (h_world sample_tree)"
    using Close_releases_subtree [OF wf, of 0 "\<lambda>r w. w @ [r]" 0 0] by blast
  have "h_world H' = [7, 5]" using w by (simp add: sample_tree_at eval_nat_numeral)
  then show ?thesis using c r o by (auto simp: sample_tree_at simp del: Close.simps)
qed

text \<open>A live scope without children is visited once.\<close>

lemma visit_leaf:
  assumes "\<not> closing (snd x) s" "visit s x = Inr x1" "closing (snd x1) s \<or> sc_children (scope_at (snd x1) s) = []"
  shows "visitTree (Suc (Suc n)) visit s x = Inr x1"
  using assms by auto

lemma deliver_world:
  assumes "\<And>d H. run d H = Inr (H\<lparr>h_world := f d (h_world H)\<rparr>)"
    and "\<not> closing H s" "\<forall>q \<in> set batch. q_generation q = sc_generation (scope_at H s)"
  shows "deliverSignalBatch run s batch (sc_generation (scope_at H s)) H =
    Inr (H\<lparr>h_world := fold f (map q_deliver batch) (h_world H)\<rparr>)"
  using assms(2,3)
proof (induction batch arbitrary: H)
  case (Cons q batch)
  have "deliverSignalBatch run s batch (sc_generation (scope_at (H\<lparr>h_world := f (q_deliver q) (h_world H)\<rparr>) s))
      (H\<lparr>h_world := f (q_deliver q) (h_world H)\<rparr>) =
    Inr (H\<lparr>h_world := fold f (map q_deliver batch) (f (q_deliver q) (h_world H))\<rparr>)"
    using Cons.IH [of "H\<lparr>h_world := f (q_deliver q) (h_world H)\<rparr>"] Cons.prems by simp
  then show ?case using Cons.prems assms(1) [of "q_deliver q" H] by simp
qed simp

lemma deliver_requeue:
  assumes "\<And>d H. run d H = Inr (enqueueSignal d s H)" and "s < length (h_scopes H)"
    and "\<not> closing H s" "\<forall>q \<in> set batch. q_generation q = sc_generation (scope_at H s)"
  shows "deliverSignalBatch run s batch (sc_generation (scope_at H s)) H =
    Inr (set_scope s ((scope_at H s)\<lparr>sc_signals := sc_signals (scope_at H s) @ batch\<rparr>) H)"
  using assms(2-4)
proof (induction batch arbitrary: H)
  case (Cons q batch)
  let ?H1 = "set_scope s ((scope_at H s)\<lparr>sc_signals := sc_signals (scope_at H s) @ [q]\<rparr>) H"
  have "run (q_deliver q) H = Inr ?H1"
    using Cons.prems assms(1) [of "q_deliver q" H] by (cases q) (simp add: enqueueSignal_def)
  moreover have "deliverSignalBatch run s batch (sc_generation (scope_at ?H1 s)) ?H1 =
      Inr (set_scope s ((scope_at ?H1 s)\<lparr>sc_signals := sc_signals (scope_at ?H1 s) @ batch\<rparr>) ?H1)"
    using Cons.IH [of ?H1] Cons.prems by (simp add: closing_def)
  ultimately show ?case using Cons.prems by simp
qed simp

definition fresh_queue :: "('n, 'r, 'w) Scopes \<Rightarrow> nat \<Rightarrow> bool" where
  "fresh_queue H s \<longleftrightarrow> s < length (h_scopes H) \<and> \<not> closing H s \<and> sc_children (scope_at H s) = [] \<and>
     (\<forall>q \<in> set (sc_signals (scope_at H s)). q_generation q = sc_generation (scope_at H s))"

lemma no_signals: "sc_signals sc = [] \<Longrightarrow> sc\<lparr>sc_signals := []\<rparr> = sc"
  by (cases sc) simp

lemma take_batch:
  assumes "fresh_queue H s"
  shows "takeSignalBatch s H = ((sc_signals (scope_at H s), sc_generation (scope_at H s)),
    set_scope s ((scope_at H s)\<lparr>sc_signals := []\<rparr>) H)"
  using assms by (simp add: takeSignalBatch_def fresh_queue_def no_signals)


definition sample_queue :: "(nat, nat, nat list) Scopes" where
  "sample_queue = enqueueSignal 4 0 (enqueueSignal 3 0 (snd (NewScope (empty_scopes []))))"

lemma sample_queue_fresh: "fresh_queue sample_queue 0" "map q_deliver (sc_signals (scope_at sample_queue 0)) = [3, 4]"
  "h_world sample_queue = []"
  by (simp_all add: sample_queue_def fresh_queue_def enqueueSignal_def NewScope_def empty_scopes_def fresh_scope_def
      closing_def set_scope_def less_eq_scopeState_def)


text \<open>
  A signal cycle is detected. When every delivery queues itself again on the same scope, a
  flush of a non-empty queue does not run forever: it panics after its sixteen batches.
\<close>

theorem FlushSignals_detects_cycle:
  fixes H :: "('n, 'r, 'w) Scopes"
  assumes "fresh_queue H s" and "sc_signals (scope_at H s) \<noteq> []" and "\<And>d H. run d H = Inr (enqueueSignal d s H)"
  shows "FlushSignals (Suc (Suc n)) run (Some s) H = Inl SignalCycle"
proof -
  let ?qs = "sc_signals (scope_at H s)"
  let ?H1 = "set_scope s ((scope_at H s)\<lparr>sc_signals := []\<rparr>) H"
  have q: "s < length (h_scopes H)" "\<not> closing H s" "sc_children (scope_at H s) = []"
    "\<forall>q \<in> set ?qs. q_generation q = sc_generation (scope_at H s)" using assms(1) by (auto simp: fresh_queue_def)
  have "deliverSignalBatch run s ?qs (sc_generation (scope_at ?H1 s)) ?H1 =
      Inr (set_scope s ((scope_at ?H1 s)\<lparr>sc_signals := sc_signals (scope_at ?H1 s) @ ?qs\<rparr>) ?H1)"
    using deliver_requeue [OF assms(3), where H = ?H1 and batch = ?qs] q by (simp add: closing_def)
  then have "deliverSignalBatch run s ?qs (sc_generation (scope_at H s)) ?H1 = Inr H" using q(1) by simp
  then have v: "flush_visit run s ((False, m), H) = Inr ((True, m + int (length ?qs)), H)" for m
    using assms(2) by (simp add: flush_visit_def take_batch [OF assms(1)])
  have "flush_loop (Suc (Suc n)) left run s m H = Inl SignalCycle" for left m
  proof (induction left arbitrary: m)
    case (Suc left)
    have "visitTree (Suc (Suc n)) (flush_visit run) s ((False, m), H) = Inr ((True, m + int (length ?qs)), H)"
      using q(2,3) v by (intro visit_leaf) simp_all
    then show ?case using Suc.IH by simp
  qed simp
  then show ?thesis by (simp add: FlushSignals_def)
qed

theorem FlushSignals_detects_cycle_witness:
  "FlushSignals 2 (\<lambda>d H. Inr (enqueueSignal d 0 H)) (Some 0) sample_queue = Inl SignalCycle"
proof -
  have "sc_signals (scope_at sample_queue 0) \<noteq> []" using sample_queue_fresh(2) by auto
  then show ?thesis
    using FlushSignals_detects_cycle [OF sample_queue_fresh(1), of "\<lambda>d H. Inr (enqueueSignal d 0 H)" 0]
    by (simp add: numeral_2_eq_2)
qed

text \<open>The work list of a flush as the sort leaves it.\<close>

lemma sort_work_spec:
  "mset (sort_work rank seqno work) = mset work" "sorted (map rank (sort_work rank seqno work))"
  "sorted (map seqno (filter (\<lambda>d. rank d = k) (sort_work rank seqno work)))"
proof -
  have "filter (\<lambda>d. rank d = k) (sort_work rank seqno work) = filter (\<lambda>d. rank d = k) (sort_key seqno work)"
    unfolding sort_work_def by (rule sort_key_stable)
  moreover have "sorted (map seqno (filter (\<lambda>d. rank d = k) (sort_key seqno work)))"
    by (rule sorted_filter) simp
  ultimately show "sorted (map seqno (filter (\<lambda>d. rank d = k) (sort_work rank seqno work)))" by simp
qed (simp_all add: sort_work_def)

lemma flush_work_log:
  assumes "\<And>d H. flushIfDirty d H = Inr (True, H\<lparr>h_world := f d (h_world H)\<rparr>)"
  shows "flush_work flushIfDirty work res H =
    Inr (res\<lparr>Evaluated := Evaluated res + int (length work), Recomputed := Recomputed res + int (length work)\<rparr>,
         H\<lparr>h_world := fold f work (h_world H)\<rparr>)"
proof (induction work arbitrary: res H)
  case (Cons d work)
  then show ?case using assms [of d H] by simp
qed simp

definition dirty_ok :: "('n, 'r) Scope \<Rightarrow> bool" where
  "dirty_ok sc \<longleftrightarrow> distinct (sc_dirty sc) \<and> set (sc_dirty sc) = set (sc_dirtySet sc)"

lemma enqueueDerived_dirty_ok:
  assumes "dirty_ok (scope_at H s)" "s < length (h_scopes H)"
  shows "dirty_ok (scope_at (enqueueDerived (Some s) (Some d) H) s)"
  using assms by (auto simp: enqueueDerived_def dirty_ok_def)

text \<open>
  Derived values are flushed once each, in dependency order. However often a derived value
  is queued, a scope keeps it once; a flush of a live scope evaluates exactly the queued values,
  lower ranks before higher ones and equal ranks in the order of their registration, and leaves
  the scope with nothing queued.
\<close>

theorem flushDerivedLocal_in_rank_order:
  fixes H :: "('n, 'r, 'w) Scopes"
  assumes "s < length (h_scopes H)" and "\<not> closing H s" and "\<not> sc_flushing (scope_at H s)" and "dirty_ok (scope_at H s)"
    and "\<And>d H. flushIfDirty d H = Inr (True, H\<lparr>h_world := f d (h_world H)\<rparr>)"
  shows "\<exists>work H'. flushDerivedLocal rank seqno flushIfDirty s H =
      Inr (\<lparr>Evaluated = int (length work), Recomputed = int (length work)\<rparr>, H') \<and>
    h_world H' = fold f work (h_world H) \<and> sc_dirty (scope_at H' s) = [] \<and> \<not> sc_flushing (scope_at H' s) \<and>
    distinct work \<and> set work = set (sc_dirtySet (scope_at H s)) \<and> sorted (map rank work) \<and>
    (\<forall>k. sorted (map seqno (filter (\<lambda>d. rank d = k) work))) \<and>
    dirty_ok (scope_at (enqueueDerived (Some s) (Some d) H) s)"
proof -
  let ?work = "sort_work rank seqno (sc_dirty (scope_at H s))"
  let ?H1 = "set_scope s ((scope_at H s)\<lparr>sc_flushing := True, sc_dirty := [], sc_dirtySet := []\<rparr>) H"
  let ?H2 = "?H1\<lparr>h_world := fold f ?work (h_world H)\<rparr>"
  let ?H' = "set_scope s ((scope_at ?H2 s)\<lparr>sc_flushing := False\<rparr>) ?H2"
  have "length ?work = length (sc_dirty (scope_at H s))" using sort_work_spec(1) by (rule mset_eq_length)
  then have "flushDerivedLocal rank seqno flushIfDirty s H =
      Inr (\<lparr>Evaluated = int (length ?work), Recomputed = int (length ?work)\<rparr>, ?H')"
    using assms(2,3) flush_work_log [of flushIfDirty f, OF assms(5)] by (simp add: flushDerivedLocal_def Let_def)
  moreover have "distinct ?work" "set ?work = set (sc_dirtySet (scope_at H s))"
    using assms(4) mset_eq_imp_distinct_iff [OF sort_work_spec(1)] mset_eq_setD [OF sort_work_spec(1)]
    by (simp_all add: dirty_ok_def)
  ultimately show ?thesis
    using sort_work_spec(2,3) assms(1) enqueueDerived_dirty_ok [OF assms(4,1)] by (intro exI [of _ ?work] exI [of _ ?H']) simp
qed

definition sample_derived :: "(nat, nat, nat list) Scopes" where
  "sample_derived = enqueueDerived (Some 0) (Some 8) (enqueueDerived (Some 0) (Some 9)
     (enqueueDerived (Some 0) (Some 8) (snd (NewScope (empty_scopes [])))))"

theorem flushDerivedLocal_in_rank_order_witness:
  "\<exists>work H'. flushDerivedLocal (\<lambda>d. if d = 9 then 0 else 1) (\<lambda>d. 0) (\<lambda>d H. Inr (True, H\<lparr>h_world := h_world H @ [d]\<rparr>)) 0
     sample_derived = Inr (\<lparr>Evaluated = int (length work), Recomputed = int (length work)\<rparr>, H') \<and>
     distinct work \<and> set work = {8, 9 :: nat} \<and> sc_dirty (scope_at H' 0) = []"
proof -
  have "0 < length (h_scopes sample_derived)" "\<not> closing sample_derived 0" "\<not> sc_flushing (scope_at sample_derived 0)"
    "dirty_ok (scope_at sample_derived 0)" and d: "set (sc_dirtySet (scope_at sample_derived 0)) = {8, 9}"
    by (auto simp: sample_derived_def enqueueDerived_def NewScope_def empty_scopes_def fresh_scope_def
      closing_def set_scope_def less_eq_scopeState_def dirty_ok_def)
  from flushDerivedLocal_in_rank_order [OF this(1-4), of "\<lambda>d H. Inr (True, H\<lparr>h_world := h_world H @ [d]\<rparr>)" "\<lambda>d w. w @ [d]"
      "\<lambda>d. if d = 9 then 0 else 1" "\<lambda>d. 0" 8]
  show ?thesis using d by metis
qed

text \<open>
  The compute stack detects dependency cycles and is balanced. Computing a value that is
  already being computed panics; otherwise entering and leaving the computation restores the
  stack exactly, and leaving any other value panics.
\<close>

theorem computing_stack_balanced:
  assumes "sc_readGuard (scope_at H s) < length (h_guards H)"
  shows "(let st = h_guards H ! sc_readGuard (scope_at H s) in
    if v \<in> set st then pushComputing s v H = Inl DependencyCycle
    else \<exists>H1. pushComputing s v H = Inr H1 \<and> popComputing s v H1 = Inr H \<and>
      (\<forall>u. u \<noteq> v \<longrightarrow> popComputing s u H1 = Inl StackCorruption) \<and>
      pushComputing s v H1 = Inl DependencyCycle)"
  using assms
  by (auto simp: pushComputing_def popComputing_def set_guard_def Let_def list_ex_iff)

theorem computing_stack_balanced_witness:
  "\<exists>H1. pushComputing 0 8 sample_derived = Inr H1 \<and> popComputing 0 8 H1 = Inr sample_derived"
proof -
  have "sc_readGuard (scope_at sample_derived 0) = 0" "h_guards sample_derived = [[]]"
    by (simp_all add: sample_derived_def enqueueDerived_def NewScope_def empty_scopes_def fresh_scope_def
      closing_def set_scope_def less_eq_scopeState_def)
  then show ?thesis using computing_stack_balanced [of sample_derived 0 8] by (auto simp: Let_def)
qed

end
