(* ===== verification/Invalidation.thy ===== *)
theory Invalidation
  imports Prelude
begin

text \<open>
  Store versions and invalidation subscriptions: \<^verbatim>\<open>src/store/version.go\<close> and
  \<^verbatim>\<open>src/store/invalidation.go\<close>. A set keeps its callbacks in slots that are reused through
  a free list; every subscription gets a fresh 64-bit identifier, and both the release token
  and the callbacks of a snapshot carry the slot together with that identifier. Callbacks
  are opaque values (\<open>'f\<close>); firing a snapshot callback yields the callback to run, if any.
\<close>

section \<open>Versions\<close>

type_synonym Version = u64

record VersionSource =
  v_current :: Version

definition Increment :: "VersionSource \<Rightarrow> Version \<times> VersionSource" where
  "Increment v = (let n = v_current v + 1 in (n, v\<lparr>v_current := n\<rparr>))"

definition Current :: "VersionSource \<Rightarrow> Version" where
  "Current v = v_current v"

definition bump :: "VersionSource \<Rightarrow> VersionSource" where
  "bump v = snd (Increment v)"

lemma Current_bump [simp]: "Current (bump v) = Current v + 1"
  by (simp add: Current_def bump_def Increment_def Let_def)

section \<open>Invalidation sets\<close>

record 'f invalidationSlot =
  slot_id :: u64
  slot_fn :: "'f option"

record 'f invalidationSet =
  is_slots :: "'f invalidationSlot list"
  is_free :: "nat list"
  is_next :: u64

definition empty_slot :: "'f invalidationSlot" where
  "empty_slot = \<lparr>slot_id = 0, slot_fn = None\<rparr>"

definition empty_set :: "'f invalidationSet" where
  "empty_set = \<lparr>is_slots = [], is_free = [], is_next = 0\<rparr>"

text \<open>
  A release token: the slot and identifier it was made for, or nothing for a nil callback;
  \<open>once\<close> records that it was used.
\<close>

record Subscription =
  sub_done :: bool
  sub_target :: "(nat \<times> u64) option"

text \<open>\<open>None\<close> is the panic when the identifiers are exhausted.\<close>

definition inv_add :: "'f option \<Rightarrow> 'f invalidationSet \<Rightarrow> (Subscription \<times> 'f invalidationSet) option" where
  "inv_add fn s =
     (case fn of
        None \<Rightarrow> Some (\<lparr>sub_done = False, sub_target = None\<rparr>, s)
      | Some f \<Rightarrow>
          let s1 = s\<lparr>is_next := is_next s + 1\<rparr> in
          if is_next s1 = 0 then None
          else let i = is_next s1; slot = \<lparr>slot_id = i, slot_fn = Some f\<rparr> in
            if is_free s1 \<noteq> [] then
              let index = last (is_free s1)
              in Some (\<lparr>sub_done = False, sub_target = Some (index, i)\<rparr>,
                       s1\<lparr>is_free := butlast (is_free s1), is_slots := (is_slots s1)[index := slot]\<rparr>)
            else
              let index = length (is_slots s1)
              in Some (\<lparr>sub_done = False, sub_target = Some (index, i)\<rparr>,
                       s1\<lparr>is_slots := is_slots s1 @ [slot]\<rparr>))"

definition inv_release :: "nat \<Rightarrow> u64 \<Rightarrow> 'f invalidationSet \<Rightarrow> 'f invalidationSet" where
  "inv_release index i s =
     (if length (is_slots s) \<le> index \<or> slot_id (is_slots s ! index) \<noteq> i then s
      else s\<lparr>is_slots := (is_slots s)[index := empty_slot], is_free := is_free s @ [index]\<rparr>)"

definition Subscription_Release :: "Subscription \<Rightarrow> 'f invalidationSet \<Rightarrow> Subscription \<times> 'f invalidationSet" where
  "Subscription_Release sub s =
     (if sub_done sub then (sub, s)
      else case sub_target sub of
        None \<Rightarrow> (sub\<lparr>sub_done := True\<rparr>, s)
      | Some (index, i) \<Rightarrow> (sub\<lparr>sub_done := True, sub_target := None\<rparr>, inv_release index i s))"

text \<open>The snapshot: the slots with a callback, by slot and identifier.\<close>

definition inv_snapshot :: "'f invalidationSet \<Rightarrow> (nat \<times> u64) list" where
  "inv_snapshot s =
     map (\<lambda>(index, slot). (index, slot_id slot))
       (filter (\<lambda>(index, slot). slot_fn slot \<noteq> None) (enumerate 0 (is_slots s)))"

text \<open>What calling one callback of a snapshot runs in the present state of the set.\<close>

definition inv_fire :: "nat \<times> u64 \<Rightarrow> 'f invalidationSet \<Rightarrow> 'f option" where
  "inv_fire cb s =
     (case cb of (index, i) \<Rightarrow>
        if length (is_slots s) \<le> index \<or> slot_id (is_slots s ! index) \<noteq> i then None
        else slot_fn (is_slots s ! index))"

definition inv_clear :: "'f invalidationSet \<Rightarrow> 'f invalidationSet" where
  "inv_clear s = s\<lparr>is_slots := [], is_free := []\<rparr>"

section \<open>Well-formed sets and what they stand for\<close>

text \<open>
  Identifiers of occupied slots are positive, at most the counter and pairwise different;
  the free list names exactly the empty slots, once each.
\<close>

definition wf_set :: "'f invalidationSet \<Rightarrow> bool" where
  "wf_set s \<longleftrightarrow>
     distinct (is_free s) \<and>
     (\<forall>i. i \<in> set (is_free s) \<longleftrightarrow> i < length (is_slots s) \<and> slot_fn (is_slots s ! i) = None) \<and>
     (\<forall>i < length (is_slots s). (slot_fn (is_slots s ! i) = None \<longleftrightarrow> slot_id (is_slots s ! i) = 0) \<and>
        slot_id (is_slots s ! i) \<le> is_next s) \<and>
     (\<forall>i < length (is_slots s). \<forall>j < length (is_slots s).
        slot_id (is_slots s ! i) = slot_id (is_slots s ! j) \<longrightarrow> slot_id (is_slots s ! i) \<noteq> 0 \<longrightarrow> i = j)"

text \<open>The abstract registry: from subscription identifiers to callbacks.\<close>

definition registry :: "'f invalidationSet \<Rightarrow> u64 \<rightharpoonup> 'f" where
  "registry s i =
     (case find (\<lambda>slot. slot_id slot = i) (is_slots s) of
        None \<Rightarrow> None
      | Some slot \<Rightarrow> slot_fn slot)"

lemma wf_setD:
  assumes "wf_set s"
  shows "i \<in> set (is_free s) \<Longrightarrow> i < length (is_slots s)"
    "i \<in> set (is_free s) \<longleftrightarrow> i < length (is_slots s) \<and> slot_id (is_slots s ! i) = 0"
    "i < length (is_slots s) \<Longrightarrow> slot_fn (is_slots s ! i) = None \<longleftrightarrow> slot_id (is_slots s ! i) = 0"
    "i < length (is_slots s) \<Longrightarrow> slot_id (is_slots s ! i) \<le> is_next s"
    "i < length (is_slots s) \<Longrightarrow> j < length (is_slots s) \<Longrightarrow> slot_id (is_slots s ! i) = slot_id (is_slots s ! j) \<Longrightarrow>
       slot_id (is_slots s ! i) \<noteq> 0 \<Longrightarrow> i = j"
  using assms unfolding wf_set_def by blast+

lemma registry_nth:
  assumes "wf_set s" "i < length (is_slots s)" "slot_id (is_slots s ! i) \<noteq> 0"
  shows "registry s (slot_id (is_slots s ! i)) = slot_fn (is_slots s ! i)"
proof -
  let ?id = "slot_id (is_slots s ! i)"
  obtain slot where f: "find (\<lambda>slot. slot_id slot = ?id) (is_slots s) = Some slot"
    using nth_mem [OF assms(2)]
    by (cases "find (\<lambda>slot. slot_id slot = ?id) (is_slots s)") (auto simp: find_None_iff)
  then obtain j where "j < length (is_slots s)" "is_slots s ! j = slot" "slot_id slot = ?id"
    by (auto simp: find_Some_iff)
  then have "j = i" using wf_setD(5) [OF assms(1), of j i] assms(2,3) by simp
  then show ?thesis using f \<open>is_slots s ! j = slot\<close> by (simp add: registry_def)
qed

lemma registry_none:
  assumes "\<And>i. i < length (is_slots s) \<Longrightarrow> slot_id (is_slots s ! i) \<noteq> k"
  shows "registry s k = None"
  using assms by (auto simp: registry_def find_Some_iff split: option.splits)

lemma registry_zero: "wf_set s \<Longrightarrow> registry s 0 = None"
  by (auto simp: registry_def find_Some_iff wf_set_def split: option.splits)

lemma registry_iff:
  assumes "wf_set s" "k \<noteq> 0"
  shows "registry s k = Some f \<longleftrightarrow>
    (\<exists>i < length (is_slots s). slot_id (is_slots s ! i) = k \<and> slot_fn (is_slots s ! i) = Some f)"
proof
  assume "registry s k = Some f"
  then show "\<exists>i < length (is_slots s). slot_id (is_slots s ! i) = k \<and> slot_fn (is_slots s ! i) = Some f"
    by (auto simp: registry_def find_Some_iff split: option.splits)
next
  assume "\<exists>i < length (is_slots s). slot_id (is_slots s ! i) = k \<and> slot_fn (is_slots s ! i) = Some f"
  then show "registry s k = Some f" using registry_nth [OF assms(1)] assms(2) by auto
qed

text \<open>Writing a slot that holds no live identifier, with a fresh identifier.\<close>

lemma fresh_slot:
  assumes "wf_set s" "i < length (is_slots s)" "is_next s < k"
  shows "slot_id (is_slots s ! i) \<noteq> k"
  using wf_setD(4) [OF assms(1,2)] assms(3) by auto

text \<open>An occupied slot, as tokens and snapshots name it.\<close>

definition occupied :: "'f invalidationSet \<Rightarrow> nat \<times> u64 \<Rightarrow> bool" where
  "occupied s cb \<longleftrightarrow>
     fst cb < length (is_slots s) \<and> slot_id (is_slots s ! fst cb) = snd cb \<and> snd cb \<noteq> 0"

lemma registry_upd:
  assumes wf: "wf_set s" and wf': "wf_set s'" and "k \<noteq> 0" and "registry s k = None"
    and keep: "\<And>i. i < length (is_slots s) \<Longrightarrow> slot_id (is_slots s ! i) \<noteq> 0 \<Longrightarrow>
      i < length (is_slots s') \<and> is_slots s' ! i = is_slots s ! i"
    and new: "\<And>i. i < length (is_slots s') \<Longrightarrow> slot_id (is_slots s' ! i) \<noteq> 0 \<Longrightarrow>
      (i < length (is_slots s) \<and> is_slots s ! i = is_slots s' ! i) \<or> i = index"
    and at: "index < length (is_slots s')" "slot_id (is_slots s' ! index) = k" "slot_fn (is_slots s' ! index) = Some f"
  shows "registry s' = (registry s)(k \<mapsto> f)"
proof
  fix j
  show "registry s' j = ((registry s)(k \<mapsto> f)) j"
  proof (cases "j = 0")
    case True
    then show ?thesis using registry_zero [OF wf] registry_zero [OF wf'] assms(3) by simp
  next
    case False
    show ?thesis
    proof (cases "j = k")
      case True
      then show ?thesis using registry_nth [OF wf' at(1)] at assms(3) by simp
    next
      case neq: False
      have "registry s' j = Some g \<longleftrightarrow> registry s j = Some g" for g
        unfolding registry_iff [OF wf False] registry_iff [OF wf' False]
        using keep new at(2) neq False by metis
      then have "registry s' j = registry s j" by (rule option_eqI)
      then show ?thesis using neq by simp
    qed
  qed
qed

lemma slot_simps [simp]: "slot_id empty_slot = 0" "slot_fn empty_slot = None"
  by (simp_all add: empty_slot_def)

lemma add_spec:
  assumes wf: "wf_set s" and add: "inv_add (Some f) s = Some (sub, s')"
  shows "wf_set s' \<and> (\<exists>index i. sub_target sub = Some (index, i) \<and> \<not> sub_done sub \<and> registry s i = None \<and> i \<noteq> 0 \<and>
        registry s' = (registry s)(i \<mapsto> f) \<and> occupied s' (index, i) \<and>
        (\<forall>cb. occupied s cb \<longrightarrow> occupied s' cb \<and> snd cb \<noteq> i))"
proof -
  let ?k = "is_next s + 1"
  have k: "?k \<noteq> 0" using add by (auto simp: inv_add_def Let_def split: if_splits)
  then have "is_next s \<noteq> MaxUint64" by (auto simp: MaxUint64_def)
  then have lt: "is_next s < ?k" by (rule u64_less_Suc)
  have fresh: "slot_id (is_slots s ! i) \<noteq> ?k" if "i < length (is_slots s)" for i
    using fresh_slot [OF wf that lt] .
  have le: "slot_id (is_slots s ! i) \<le> ?k" if "i < length (is_slots s)" for i
    using wf_setD(4) [OF wf that] lt by simp
  have none: "registry s ?k = None" using fresh by (rule registry_none)
  define index where "index = (if is_free s = [] then length (is_slots s) else last (is_free s))"
  have sub: "sub_target sub = Some (index, ?k)" "\<not> sub_done sub"
    and nx: "is_next s' = ?k"
    and fr: "is_free s' = butlast (is_free s)"
    and sl: "is_slots s' = (if is_free s = [] then is_slots s @ [\<lparr>slot_id = ?k, slot_fn = Some f\<rparr>]
      else (is_slots s)[index := \<lparr>slot_id = ?k, slot_fn = Some f\<rparr>])"
    using add by (auto simp: inv_add_def Let_def index_def split: if_splits)
  have idx: "is_free s \<noteq> [] \<Longrightarrow> index < length (is_slots s) \<and> slot_id (is_slots s ! index) = 0"
    using wf_setD(2) [OF wf, of index] by (simp add: index_def)
  have at: "index < length (is_slots s')" "slot_id (is_slots s' ! index) = ?k" "slot_fn (is_slots s' ! index) = Some f"
    using idx by (auto simp: sl index_def)
  have other: "i < length (is_slots s) \<and> is_slots s' ! i = is_slots s ! i"
    if "i < length (is_slots s')" "i \<noteq> index" for i
    using that by (auto simp: sl index_def nth_append split: if_splits)
  have grow: "length (is_slots s) \<le> length (is_slots s')" by (simp add: sl)
  have free: "i \<in> set (is_free s') \<longleftrightarrow> i \<in> set (is_free s) \<and> i \<noteq> index" for i
  proof (cases "is_free s = []")
    case False
    then have "is_free s = butlast (is_free s) @ [index]" by (simp add: index_def)
    moreover have "distinct (is_free s)" using wf by (simp add: wf_set_def)
    ultimately have "set (is_free s) = insert index (set (butlast (is_free s)))" "index \<notin> set (butlast (is_free s))"
      by (metis list.simps(15) rotate1.simps(2) set_rotate1, metis distinct_append distinct.simps(2) not_distinct_conv_prefix append.assoc append_Cons append_Nil)
    then show ?thesis using fr by auto
  qed (simp add: fr)
  have "wf_set s'"
    unfolding wf_set_def
  proof (intro conjI allI impI)
    show "distinct (is_free s')" using wf by (simp add: wf_set_def fr distinct_butlast)
  next
    fix i
    show "i \<in> set (is_free s') \<longleftrightarrow> i < length (is_slots s') \<and> slot_fn (is_slots s' ! i) = None"
      using free [of i] other [of i] at grow wf_setD(2,3) [OF wf, of i] by (cases "i = index") auto
  next
    fix i assume i: "i < length (is_slots s')"
    show "slot_fn (is_slots s' ! i) = None \<longleftrightarrow> slot_id (is_slots s' ! i) = 0"
      using other [OF i] at k wf_setD(3) [OF wf, of i] by (cases "i = index") auto
    show "slot_id (is_slots s' ! i) \<le> is_next s'"
      using other [OF i] at le nx by (cases "i = index") auto
    fix j assume j: "j < length (is_slots s')" "slot_id (is_slots s' ! i) = slot_id (is_slots s' ! j)"
      "slot_id (is_slots s' ! i) \<noteq> 0"
    show "i = j"
      using other [OF i] other [OF j(1)] at(2) fresh wf_setD(5) [OF wf, of i j] j(2,3) by metis
  qed
  moreover have "registry s' = (registry s)(?k \<mapsto> f)"
  proof (rule registry_upd [OF wf \<open>wf_set s'\<close> k none _ _ at])
    fix i assume "i < length (is_slots s)" "slot_id (is_slots s ! i) \<noteq> 0"
    then show "i < length (is_slots s') \<and> is_slots s' ! i = is_slots s ! i"
      using other [of i] grow idx by (cases "i = index") (auto simp: index_def split: if_splits)
  next
    fix i assume "i < length (is_slots s')" "slot_id (is_slots s' ! i) \<noteq> 0"
    then show "(i < length (is_slots s) \<and> is_slots s ! i = is_slots s' ! i) \<or> i = index" using other [of i] by auto
  qed
  moreover have "occupied s' cb \<and> snd cb \<noteq> ?k" if cb: "occupied s cb" for cb
  proof -
    have "fst cb < length (is_slots s)" "slot_id (is_slots s ! fst cb) = snd cb" "snd cb \<noteq> 0"
      using cb by (auto simp: occupied_def)
    moreover from this have "fst cb \<noteq> index" using idx by (auto simp: index_def split: if_splits)
    ultimately show ?thesis using other [of "fst cb"] grow fresh [of "fst cb"] by (auto simp: occupied_def)
  qed
  moreover have "occupied s' (index, ?k)" using at k by (simp add: occupied_def)
  ultimately show ?thesis using sub none k by blast
qed

lemma release_spec:
  assumes wf: "wf_set s" and occ: "occupied s (index, i)"
  shows "wf_set (inv_release index i s) \<and> registry (inv_release index i s) = (registry s)(i := None) \<and>
    \<not> occupied (inv_release index i s) (index, i) \<and>
    (\<forall>cb. occupied s cb \<longrightarrow> snd cb \<noteq> i \<longrightarrow> occupied (inv_release index i s) cb)"
proof -
  let ?s = "inv_release index i s"
  have idx: "index < length (is_slots s)" "slot_id (is_slots s ! index) = i" "i \<noteq> 0"
    using occ by (auto simp: occupied_def)
  then have s: "is_slots ?s = (is_slots s)[index := empty_slot]" "is_free ?s = is_free s @ [index]" "is_next ?s = is_next s"
    by (auto simp: inv_release_def)
  have nth: "is_slots ?s ! j = (if j = index then empty_slot else is_slots s ! j)" if "j < length (is_slots s)" for j
    using that by (simp add: s nth_list_update_cases)
  have "index \<notin> set (is_free s)" using wf_setD(2) [OF wf, of index] idx by simp
  then have wf': "wf_set ?s"
    using wf nth idx unfolding wf_set_def s(2,3) by (auto simp: s(1) nth_list_update_cases)
  have "registry ?s j = ((registry s)(i := None)) j" for j
  proof (cases "j = 0 \<or> j = i")
    case True
    then show ?thesis
    proof
      assume "j = i"
      moreover have "registry ?s i = None"
      proof (rule registry_none)
        fix j assume "j < length (is_slots ?s)"
        then show "slot_id (is_slots ?s ! j) \<noteq> i"
          using wf_setD(5) [OF wf, of j index] idx by (auto simp: s(1) nth_list_update_cases split: if_splits)
      qed
      ultimately show ?thesis by simp
    qed (use registry_zero [OF wf] registry_zero [OF wf'] in \<open>simp add: fun_upd_def\<close>)
  next
    case False
    then have "registry ?s j = Some g \<longleftrightarrow> registry s j = Some g" for g
      using registry_iff [OF wf, of j g] registry_iff [OF wf', of j g] nth idx by (auto simp: s(1) nth_list_update_cases)
    then have "registry ?s j = registry s j" by (rule option_eqI)
    then show ?thesis using False by simp
  qed
  then have "registry ?s = (registry s)(i := None)" by blast
  then show ?thesis using wf' nth idx by (auto simp: occupied_def s(1) nth_list_update_cases)
qed

lemma release_stale: "i \<noteq> 0 \<Longrightarrow> \<not> occupied s (index, i) \<Longrightarrow> inv_release index i s = s"
  by (auto simp: occupied_def inv_release_def)

lemma fire_spec:
  "wf_set s \<Longrightarrow> i \<noteq> 0 \<Longrightarrow> inv_fire (index, i) s = (if occupied s (index, i) then registry s i else None)"
  using registry_nth [of s index] by (auto simp: occupied_def inv_fire_def not_less)

section \<open>The contract of a callback registry\<close>

text \<open>
  What the stores rely on, without the slots: adding a callback returns a token and
  registers it under an identifier not in use; firing through a token yields exactly what is
  registered under its identifier; releasing removes exactly that identifier.
\<close>

locale callback_registry =
  fixes ok :: "'s \<Rightarrow> bool" and reg :: "'s \<Rightarrow> u64 \<rightharpoonup> 'f"
    and add :: "'f option \<Rightarrow> 's \<Rightarrow> (Subscription \<times> 's) option"
    and rel :: "nat \<Rightarrow> u64 \<Rightarrow> 's \<Rightarrow> 's"
    and fire :: "nat \<times> u64 \<Rightarrow> 's \<Rightarrow> 'f option"
    and holds :: "'s \<Rightarrow> nat \<times> u64 \<Rightarrow> bool"
  assumes add_ok: "ok s \<Longrightarrow> add (Some f) s = Some (sub, s') \<Longrightarrow>
      ok s' \<and> (\<exists>index i. sub_target sub = Some (index, i) \<and> \<not> sub_done sub \<and> reg s i = None \<and> i \<noteq> 0 \<and>
        reg s' = (reg s)(i \<mapsto> f) \<and> holds s' (index, i) \<and> (\<forall>cb. holds s cb \<longrightarrow> holds s' cb \<and> snd cb \<noteq> i))"
    and rel_ok: "ok s \<Longrightarrow> holds s (index, i) \<Longrightarrow>
      ok (rel index i s) \<and> reg (rel index i s) = (reg s)(i := None) \<and> \<not> holds (rel index i s) (index, i) \<and>
      (\<forall>cb. holds s cb \<longrightarrow> snd cb \<noteq> i \<longrightarrow> holds (rel index i s) cb)"
    and rel_stale: "ok s \<Longrightarrow> i \<noteq> 0 \<Longrightarrow> \<not> holds s (index, i) \<Longrightarrow> rel index i s = s"
    and fire_ok: "ok s \<Longrightarrow> i \<noteq> 0 \<Longrightarrow> fire (index, i) s = (if holds s (index, i) then reg s i else None)"
begin

text \<open>A subscription added and released again leaves the registry as it was.\<close>

lemma add_release:
  assumes "ok s" "add (Some f) s = Some (sub, s')"
  obtains index i where "sub_target sub = Some (index, i)" "fire (index, i) s' = Some f"
    "reg (rel index i s') = reg s" "fire (index, i) (rel index i s') = None"
    "rel index i (rel index i s') = rel index i s'"
proof -
  from add_ok [OF assms] obtain index i where a: "ok s'" "sub_target sub = Some (index, i)"
    "reg s i = None" "i \<noteq> 0" "reg s' = (reg s)(i \<mapsto> f)" "holds s' (index, i)" by blast
  from rel_ok [OF a(1,6)] have r: "ok (rel index i s')" "reg (rel index i s') = (reg s')(i := None)"
    "\<not> holds (rel index i s') (index, i)" by auto
  show thesis
  proof (rule that)
    show "sub_target sub = Some (index, i)" by (rule a(2))
    show "fire (index, i) s' = Some f" using fire_ok [OF a(1,4)] a(5,6) by simp
    show "reg (rel index i s') = reg s" using r(2) a(3,5) by (auto simp: fun_eq_iff)
    show "fire (index, i) (rel index i s') = None" using fire_ok [OF r(1) a(4)] r(3) by simp
    show "rel index i (rel index i s') = rel index i s'" using rel_stale [OF r(1) a(4) r(3)] .
  qed
qed

text \<open>Releasing one subscription does not affect another one.\<close>

lemma release_other:
  assumes "ok s" "holds s (index, i)" "holds s (index', i')" "i' \<noteq> i" "i' \<noteq> 0"
  shows "fire (index', i') (rel index i s) = fire (index', i') s"
  using rel_ok [OF assms(1,2)] fire_ok [OF assms(1,5)] fire_ok [of "rel index i s" i' index'] assms(3-5) by auto

end

interpretation invset: callback_registry wf_set registry inv_add inv_release inv_fire occupied
proof unfold_locales
  show "wf_set s' \<and> (\<exists>index i. sub_target sub = Some (index, i) \<and> \<not> sub_done sub \<and> registry s i = None \<and> i \<noteq> 0 \<and>
        registry s' = (registry s)(i \<mapsto> f) \<and> occupied s' (index, i) \<and>
        (\<forall>cb. occupied s cb \<longrightarrow> occupied s' cb \<and> snd cb \<noteq> i))"
    if "wf_set s" "inv_add (Some f) s = Some (sub, s')" for s s' :: "'f invalidationSet" and f sub
    using that by (rule add_spec)
qed (simp_all add: release_spec release_stale fire_spec)

lemma wf_empty_set [simp]: "wf_set empty_set"
  by (simp add: wf_set_def empty_set_def)

lemma wf_clear: "wf_set s \<Longrightarrow> wf_set (inv_clear s)"
  by (simp add: wf_set_def inv_clear_def)

text \<open>The snapshot names exactly the occupied slots.\<close>

lemma snapshot_occupied:
  assumes "wf_set s"
  shows "set (inv_snapshot s) = {cb. occupied s cb}" "distinct (map snd (inv_snapshot s))"
proof -
  have e: "(i, slot) \<in> set (enumerate 0 (is_slots s)) \<longleftrightarrow> i < length (is_slots s) \<and> slot = is_slots s ! i" for i slot
    by (auto simp: in_set_enumerate_eq)
  show "set (inv_snapshot s) = {cb. occupied s cb}"
    using wf_setD(3) [OF assms] by (force simp: inv_snapshot_def occupied_def e image_iff)
  have d: "distinct (enumerate 0 (is_slots s))" by simp
  have "a = b" if "a < length (is_slots s)" "b < length (is_slots s)" "slot_fn (is_slots s ! a) \<noteq> None"
    "slot_id (is_slots s ! a) = slot_id (is_slots s ! b)" for a b
    using wf_setD(3,5) [OF assms] that by metis
  then have "inj_on (\<lambda>(index, slot). slot_id slot) (set (filter (\<lambda>(index, slot). slot_fn slot \<noteq> None) (enumerate 0 (is_slots s))))"
    by (auto simp: inj_on_def e)
  then show "distinct (map snd (inv_snapshot s))"
    using d by (simp add: inv_snapshot_def distinct_map comp_def case_prod_unfold)
qed

section \<open>Properties\<close>

text \<open>
  Invalidation subscriptions behave like a registry under fresh identifiers, although
  slots are reused. Adding a callback to a well-formed set keeps it well formed, registers the
  callback under an identifier not in use, leaves every other registration alone, and the
  returned token releases exactly this registration: afterwards the registry is as before,
  a snapshot callback taken in between runs nothing, and a second release does nothing.
\<close>

theorem invalidation_add_release:
  assumes "wf_set s" and "inv_add (Some f) s = Some (sub, s')"
  shows "\<exists>index i. sub_target sub = Some (index, i) \<and> wf_set s' \<and> registry s i = None \<and>
    registry s' = (registry s)(i \<mapsto> f) \<and> (index, i) \<in> set (inv_snapshot s') \<and> inv_fire (index, i) s' = Some f \<and>
    (let s'' = inv_release index i s' in
       wf_set s'' \<and> registry s'' = registry s \<and> inv_fire (index, i) s'' = None \<and> inv_release index i s'' = s'')"
proof -
  from add_spec [OF assms] obtain index i where a: "sub_target sub = Some (index, i)" "wf_set s'" "registry s i = None"
    "registry s' = (registry s)(i \<mapsto> f)" "occupied s' (index, i)" by blast
  from invset.add_release [OF assms] a(1) have "inv_fire (index, i) s' = Some f"
    "registry (inv_release index i s') = registry s" "inv_fire (index, i) (inv_release index i s') = None"
    "inv_release index i (inv_release index i s') = inv_release index i s'"
    by (metis option.inject prod.inject)+
  moreover have "wf_set (inv_release index i s')" using release_spec [OF a(2,5)] by simp
  moreover have "(index, i) \<in> set (inv_snapshot s')" using snapshot_occupied(1) [OF a(2)] a(5) by simp
  ultimately show ?thesis using a by (auto simp: Let_def)
qed

theorem invalidation_add_release_witness:
  "\<exists>sub s. inv_add (Some (7 :: nat)) empty_set = Some (sub, s) \<and> sub_target sub = Some (0, 1) \<and>
     registry s = [1 \<mapsto> 7] \<and> registry (inv_release 0 1 s) = Map.empty"
proof -
  obtain sub s where a: "inv_add (Some (7 :: nat)) empty_set = Some (sub, s)" and t: "sub_target sub = Some (0, 1)"
    by (simp add: inv_add_def empty_set_def Let_def)
  have "registry (empty_set :: nat invalidationSet) = Map.empty" by (simp add: registry_def empty_set_def fun_eq_iff)
  then show ?thesis using invalidation_add_release [OF wf_empty_set a] a t by (auto simp: Let_def)
qed



end
