(* ===== verification/Transaction.thy ===== *)
theory Transaction
  imports Scope Invalidation
begin

text \<open>
  Transactions (\<^verbatim>\<open>src/store/transaction.go\<close>) and the shape shared by the mutating methods of
  the stores. A staged mutation is a value of type \<open>'m\<close>, and \<open>mut\<close> is what running it does to
  the state of the store: it returns the notification to deliver afterwards, or \<open>None\<close> when the
  mutation was skipped. The notification closure that is staged together with a mutation reads
  the variables the mutation has written; it is kept as the position of its mutation. What is
  queued for delivery is therefore an optional notification: the closure of a skipped mutation
  is queued too, and does nothing.
\<close>

section \<open>Transactions\<close>

datatype 'n deferred = Staged nat | Direct 'n

record ('m, 'n) Transaction =
  tx_scope :: nat
  tx_mutations :: "'m list"
  tx_deferred :: "'n deferred list"
  tx_committed :: bool

definition Begin :: "call_site \<Rightarrow> nat option \<Rightarrow> ('n option, 'r, 's) Scopes \<Rightarrow> store_panic + ('m, 'n) Transaction" where
  "Begin site scope H =
     (case AssertRuntimeThread site of
        Some p \<Rightarrow> Inl p
      | None \<Rightarrow> (case requireScope scope H of
          Some p \<Rightarrow> Inl p
        | None \<Rightarrow> Inr \<lparr>tx_scope = the scope, tx_mutations = [], tx_deferred = [], tx_committed = False\<rparr>))"

definition tx_requireScope :: "nat \<Rightarrow> ('m, 'n) Transaction \<Rightarrow> store_panic option" where
  "tx_requireScope scope t = (if tx_scope t \<noteq> scope then Some TransactionScope else None)"

definition stage :: "'m \<Rightarrow> ('m, 'n) Transaction \<Rightarrow> ('m, 'n) Transaction" where
  "stage m t = t\<lparr>tx_mutations := tx_mutations t @ [m],
                 tx_deferred := tx_deferred t @ [Staged (length (tx_mutations t))]\<rparr>"

definition deferCall :: "'n option \<Rightarrow> ('m, 'n) Transaction option \<Rightarrow> ('m, 'n) Transaction option" where
  "deferCall fn tx =
     (case (tx, fn) of
        (Some t, Some n) \<Rightarrow> Some (t\<lparr>tx_deferred := tx_deferred t @ [Direct n]\<rparr>)
      | _ \<Rightarrow> tx)"

text \<open>Running the staged mutations in order; the results are what their notifications will read.\<close>

fun run_mutations :: "('m \<Rightarrow> 's \<Rightarrow> 'n option \<times> 's) \<Rightarrow> 'm list \<Rightarrow> 's \<Rightarrow> 'n option list \<times> 's" where
  "run_mutations mut [] s = ([], s)"
| "run_mutations mut (m # ms) s =
     (case mut m s of (n, s1) \<Rightarrow> (case run_mutations mut ms s1 of (ns, s2) \<Rightarrow> (n # ns, s2)))"

fun deferred_call :: "'n option list \<Rightarrow> 'n deferred \<Rightarrow> 'n option" where
  "deferred_call results (Staged i) = results ! i"
| "deferred_call results (Direct n) = Some n"

definition Commit :: "('m \<Rightarrow> 's \<Rightarrow> 'n option \<times> 's) \<Rightarrow> call_site \<Rightarrow> ('m, 'n) Transaction \<Rightarrow>
    ('n option, 'r, 's) Scopes \<Rightarrow> store_panic + ('m, 'n) Transaction \<times> ('n option, 'r, 's) Scopes" where
  "Commit mut site t H =
     (case AssertRuntimeThread site of
        Some p \<Rightarrow> Inl p
      | None \<Rightarrow> (case assertUsable (tx_scope t) H of
          Some p \<Rightarrow> Inl p
        | None \<Rightarrow>
            if tx_committed t then Inl CommitCompleted
            else (case run_mutations mut (tx_mutations t) (h_world H) of (results, s) \<Rightarrow>
              Inr (t\<lparr>tx_committed := True, tx_mutations := [], tx_deferred := []\<rparr>,
                   fold (\<lambda>d. enqueueSignal (deferred_call results d) (tx_scope t)) (tx_deferred t) (H\<lparr>h_world := s\<rparr>)))))"

definition Rollback :: "call_site \<Rightarrow> ('m, 'n) Transaction option \<Rightarrow> store_panic + ('m, 'n) Transaction option" where
  "Rollback site tx =
     (case AssertRuntimeThread site of
        Some p \<Rightarrow> Inl p
      | None \<Rightarrow> (case tx of
          None \<Rightarrow> Inr None
        | Some t \<Rightarrow> if tx_committed t then Inr (Some t)
                    else Inr (Some (t\<lparr>tx_committed := True, tx_mutations := [], tx_deferred := []\<rparr>))))"

section \<open>The mutating methods of a store\<close>

text \<open>
  Without a transaction a mutation runs at once and its notification is queued on the scope of
  the store; with one, it is staged.
\<close>

definition mutate_now :: "('m \<Rightarrow> 's \<Rightarrow> 'n option \<times> 's) \<Rightarrow> call_site \<Rightarrow> nat \<Rightarrow> 'm \<Rightarrow>
    ('n option, 'r, 's) Scopes \<Rightarrow> store_panic + ('n option, 'r, 's) Scopes" where
  "mutate_now mut site scope m H =
     (case assertUsable scope H of
        Some p \<Rightarrow> Inl p
      | None \<Rightarrow> (case assertNotProjecting site of
          Some p \<Rightarrow> Inl p
        | None \<Rightarrow> (case mut m (h_world H) of
            (None, s) \<Rightarrow> Inr (H\<lparr>h_world := s\<rparr>)
          | (Some n, s) \<Rightarrow> Inr (enqueueSignal (Some n) scope (H\<lparr>h_world := s\<rparr>)))))"

definition mutate_tx :: "call_site \<Rightarrow> nat \<Rightarrow> 'm \<Rightarrow> ('m, 'n) Transaction \<Rightarrow>
    ('n option, 'r, 's) Scopes \<Rightarrow> store_panic + ('m, 'n) Transaction" where
  "mutate_tx site scope m t H =
     (case assertUsable scope H of
        Some p \<Rightarrow> Inl p
      | None \<Rightarrow> (case assertNotProjecting site of
          Some p \<Rightarrow> Inl p
        | None \<Rightarrow> (case tx_requireScope scope t of
            Some p \<Rightarrow> Inl p
          | None \<Rightarrow> Inr (stage m t))))"

text \<open>A client that makes several mutations, directly or in one transaction.\<close>

fun direct_all :: "('m \<Rightarrow> 's \<Rightarrow> 'n option \<times> 's) \<Rightarrow> call_site \<Rightarrow> nat \<Rightarrow> 'm list \<Rightarrow>
    ('n option, 'r, 's) Scopes \<Rightarrow> store_panic + ('n option, 'r, 's) Scopes" where
  "direct_all mut site scope [] H = Inr H"
| "direct_all mut site scope (m # ms) H =
     (case mutate_now mut site scope m H of Inl p \<Rightarrow> Inl p | Inr H1 \<Rightarrow> direct_all mut site scope ms H1)"

fun stage_all :: "call_site \<Rightarrow> nat \<Rightarrow> 'm list \<Rightarrow> ('m, 'n) Transaction \<Rightarrow>
    ('n option, 'r, 's) Scopes \<Rightarrow> store_panic + ('m, 'n) Transaction" where
  "stage_all site scope [] t H = Inr t"
| "stage_all site scope (m # ms) t H =
     (case mutate_tx site scope m t H of Inl p \<Rightarrow> Inl p | Inr t1 \<Rightarrow> stage_all site scope ms t1 H)"

section \<open>Queues\<close>

text \<open>What the queue of a scope will really deliver.\<close>

definition pending :: "('n option, 'r, 's) Scopes \<Rightarrow> nat \<Rightarrow> (u64 \<times> 'n) list" where
  "pending H s = List.map_filter (\<lambda>q. map_option (Pair (q_generation q)) (q_deliver q)) (sc_signals (scope_at H s))"

definition quiet_site :: "call_site \<Rightarrow> bool" where
  "quiet_site site \<longleftrightarrow> at_runtime_thread site \<and> \<not> at_exporting site \<and> \<not> at_projecting site"

lemma enqueue_live:
  assumes "s < length (h_scopes H)" "\<not> closing H s"
  shows "h_world (enqueueSignal n s H) = h_world H" "length (h_scopes (enqueueSignal n s H)) = length (h_scopes H)"
    "\<not> closing (enqueueSignal n s H) s" "sc_generation (scope_at (enqueueSignal n s H) s) = sc_generation (scope_at H s)"
    "sc_signals (scope_at (enqueueSignal n s H) s) =
       sc_signals (scope_at H s) @ [\<lparr>q_generation = sc_generation (scope_at H s), q_deliver = n\<rparr>]"
  using assms by (simp_all add: enqueueSignal_def closing_def)

lemma enqueue_all_live:
  assumes "s < length (h_scopes H)" "\<not> closing H s"
  shows "h_world (fold (\<lambda>d. enqueueSignal (g d) s) ds H) = h_world H \<and>
    \<not> closing (fold (\<lambda>d. enqueueSignal (g d) s) ds H) s \<and>
    sc_signals (scope_at (fold (\<lambda>d. enqueueSignal (g d) s) ds H) s) =
       sc_signals (scope_at H s) @ map (\<lambda>d. \<lparr>q_generation = sc_generation (scope_at H s), q_deliver = g d\<rparr>) ds"
  using assms
proof (induction ds arbitrary: H)
  case (Cons d ds)
  note e = enqueue_live [OF Cons.prems, of "g d"]
  show ?case using Cons.IH [of "enqueueSignal (g d) s H"] e Cons.prems by simp
qed simp

lemma length_run_mutations: "length (fst (run_mutations mut ms s)) = length ms"
proof (induction ms arbitrary: s)
  case (Cons m ms)
  obtain n s1 where "mut m s = (n, s1)" by (cases "mut m s")
  then show ?case using Cons.IH [of s1] by (cases "run_mutations mut ms s1") simp
qed simp

lemma stage_all_live:
  assumes "\<not> closing H s" "quiet_site site" "tx_scope t = s"
  shows "stage_all site s ms t H =
    Inr (t\<lparr>tx_mutations := tx_mutations t @ ms,
           tx_deferred := tx_deferred t @ map Staged [length (tx_mutations t) ..< length (tx_mutations t) + length ms]\<rparr>)"
  using assms(3)
proof (induction ms arbitrary: t)
  case (Cons m ms)
  have "mutate_tx site s m t H = Inr (stage m t)"
    using assms(1,2) Cons.prems by (simp add: mutate_tx_def assertUsable_def assertNotProjecting_def tx_requireScope_def quiet_site_def)
  moreover have "stage_all site s ms (stage m t) H = Inr ((stage m t)\<lparr>tx_mutations := tx_mutations (stage m t) @ ms,
      tx_deferred := tx_deferred (stage m t) @ map Staged [length (tx_mutations (stage m t)) ..<
        length (tx_mutations (stage m t)) + length ms]\<rparr>)"
    using Cons.IH [of "stage m t"] Cons.prems by (simp add: stage_def)
  ultimately show ?case by (simp add: stage_def upt_conv_Cons del: upt_Suc)
qed simp

lemma Commit_live:
  assumes "s < length (h_scopes H)" "\<not> closing H s" "quiet_site site" "tx_scope t = s" "\<not> tx_committed t"
    "tx_mutations t = ms" "tx_deferred t = map Staged [0 ..< length ms]" "run_mutations mut ms (h_world H) = (ns, w)"
  shows "\<exists>t' H'. Commit mut site t H = Inr (t', H') \<and> tx_committed t' \<and> tx_scope t' = s \<and> \<not> closing H' s \<and> h_world H' = w \<and>
    sc_signals (scope_at H' s) = sc_signals (scope_at H s) @
      map (\<lambda>n. \<lparr>q_generation = sc_generation (scope_at H s), q_deliver = n\<rparr>) ns"
proof -
  have len: "length ns = length ms" using length_run_mutations [of mut ms "h_world H"] assms(8) by simp
  have "map (\<lambda>d. \<lparr>q_generation = g, q_deliver = deferred_call ns d\<rparr>) (map Staged [0 ..< length ms]) =
      map (\<lambda>n. \<lparr>q_generation = g, q_deliver = n\<rparr>) ns" for g
    using len by (auto intro!: nth_equalityI)
  then show ?thesis
    using assms enqueue_all_live [of s "H\<lparr>h_world := w\<rparr>" "deferred_call ns" "map Staged [0 ..< length ms]"]
    by (simp add: Commit_def AssertRuntimeThread_def quiet_site_def assertUsable_def)
qed

lemma mutate_now_live:
  assumes "s < length (h_scopes H)" "\<not> closing H s" "quiet_site site" "mut m (h_world H) = (n, w)"
  shows "\<exists>H'. mutate_now mut site s m H = Inr H' \<and> h_world H' = w \<and> s < length (h_scopes H') \<and> \<not> closing H' s \<and>
    sc_generation (scope_at H' s) = sc_generation (scope_at H s) \<and>
    pending H' s = pending H s @ (case n of None \<Rightarrow> [] | Some x \<Rightarrow> [(sc_generation (scope_at H s), x)])"
proof (cases n)
  case None
  then show ?thesis
    using assms by (simp add: mutate_now_def assertUsable_def assertNotProjecting_def quiet_site_def pending_def)
next
  case (Some x)
  then show ?thesis
    using assms enqueue_live [of s "H\<lparr>h_world := w\<rparr>" "Some x"]
    by (simp add: mutate_now_def assertUsable_def assertNotProjecting_def quiet_site_def pending_def map_filter_append map_filter_simps)
qed

lemma direct_all_live:
  assumes "s < length (h_scopes H)" "\<not> closing H s" "quiet_site site"
  shows "run_mutations mut ms (h_world H) = (ns, w) \<Longrightarrow>
    \<exists>H'. direct_all mut site s ms H = Inr H' \<and> h_world H' = w \<and>
      pending H' s = pending H s @ List.map_filter (map_option (Pair (sc_generation (scope_at H s)))) ns"
  using assms(1,2)
proof (induction ms arbitrary: H ns w)
  case Nil
  then show ?case by (simp add: map_filter_simps)
next
  case (Cons m ms)
  obtain n w1 where m: "mut m (h_world H) = (n, w1)" by (cases "mut m (h_world H)")
  from mutate_now_live [OF Cons.prems(2,3) assms(3), of mut m n w1, OF m] obtain H1 where H1: "mutate_now mut site s m H = Inr H1"
    "h_world H1 = w1" "s < length (h_scopes H1)" "\<not> closing H1 s"
    "sc_generation (scope_at H1 s) = sc_generation (scope_at H s)"
    "pending H1 s = pending H s @ (case n of None \<Rightarrow> [] | Some x \<Rightarrow> [(sc_generation (scope_at H s), x)])" by blast
  obtain ns' where ns: "run_mutations mut ms (h_world H1) = (ns', w)" "ns = n # ns'"
    using Cons.prems(1) m H1(2) by (auto split: prod.splits)
  from Cons.IH [OF ns(1) H1(3,4)] show ?case
    using H1 ns(2) by (cases n) (simp_all add: map_filter_simps)
qed

section \<open>The contract of a versioned store\<close>

text \<open>
  What the stores promise about a mutation: it is either skipped, and then nothing changes, or
  it takes effect, and then the version grows by one; and it keeps the store well formed.
\<close>

locale versioned_store =
  fixes ok :: "'s \<Rightarrow> bool" and ver :: "'s \<Rightarrow> Version" and mut :: "'m \<Rightarrow> 's \<Rightarrow> 'n option \<times> 's"
  assumes mut_ok: "ok s \<Longrightarrow> mut m s = (n, s') \<Longrightarrow> ok s'"
    and mut_skip: "ok s \<Longrightarrow> mut m s = (None, s') \<Longrightarrow> s' = s"
    and mut_version: "ok s \<Longrightarrow> mut m s = (Some x, s') \<Longrightarrow> ver s' = ver s + 1"
begin

text \<open>The version counts the mutations that took effect.\<close>

lemma run_version:
  "ok s \<Longrightarrow> run_mutations mut ms s = (ns, s') \<Longrightarrow>
     ok s' \<and> ver s' = ver s + of_nat (length (filter (\<lambda>n. n \<noteq> None) ns))"
proof (induction ms arbitrary: s ns)
  case (Cons m ms)
  obtain n s1 where m: "mut m s = (n, s1)" by (cases "mut m s")
  obtain ns' where r: "run_mutations mut ms s1 = (ns', s')" "ns = n # ns'"
    using Cons.prems(2) m by (auto split: prod.splits)
  have "ok s1" using mut_ok [OF Cons.prems(1) m] .
  with Cons.IH [OF this r(1)] show ?case
    using mut_skip [OF Cons.prems(1)] mut_version [OF Cons.prems(1)] m r(2) by (cases n) auto
qed simp

text \<open>
  Committing a transaction that staged some mutations has the effect of making them directly,
  one after the other: the same state, and the same deliveries in the same order. Until the
  commit nothing changes, and the version grows by the number of deliveries.
\<close>

lemma commit_equals_direct:
  assumes "ok (h_world H)" "s < length (h_scopes H)" "\<not> closing H s" "quiet_site site"
    and "Begin site (Some s) H = Inr t" "stage_all site s ms t H = Inr t1"
  obtains t2 Hc Hd where "Commit mut site t1 H = Inr (t2, Hc)" "direct_all mut site s ms H = Inr Hd"
    "h_world Hc = h_world Hd" "pending Hc s = pending Hd s" "ok (h_world Hc)"
    "ver (h_world Hc) = ver (h_world H) + of_nat (length (pending Hc s) - length (pending H s))"
    "Commit mut site t2 Hc = Inl CommitCompleted"
proof -
  have t: "t = \<lparr>tx_scope = s, tx_mutations = [], tx_deferred = [], tx_committed = False\<rparr>"
    using assms(3-5) by (simp add: Begin_def AssertRuntimeThread_def requireScope_def quiet_site_def)
  have t1: "t1 = t\<lparr>tx_mutations := ms, tx_deferred := map Staged [0 ..< length ms]\<rparr>"
    using stage_all_live [OF assms(3,4), of t ms] assms(6) t by simp
  obtain ns w where r: "run_mutations mut ms (h_world H) = (ns, w)" by (cases "run_mutations mut ms (h_world H)")
  obtain t2 Hc where c: "Commit mut site t1 H = Inr (t2, Hc)" "tx_committed t2" "tx_scope t2 = s" "\<not> closing Hc s" "h_world Hc = w"
    "sc_signals (scope_at Hc s) = sc_signals (scope_at H s) @
      map (\<lambda>n. \<lparr>q_generation = sc_generation (scope_at H s), q_deliver = n\<rparr>) ns"
    using Commit_live [OF assms(2-4), of t1 ms mut ns w] t t1 r by auto
  obtain Hd where d: "direct_all mut site s ms H = Inr Hd" "h_world Hd = w"
    "pending Hd s = pending H s @ List.map_filter (map_option (Pair (sc_generation (scope_at H s)))) ns"
    using direct_all_live [OF assms(2-4) r] by blast
  have p: "pending Hc s = pending H s @ List.map_filter (map_option (Pair (sc_generation (scope_at H s)))) ns"
    by (simp add: pending_def c(6) map_filter_append) (induction ns; simp add: map_filter_simps split: option.splits)
  have len: "length (List.map_filter (map_option (Pair g)) ns) = length (filter (\<lambda>n. n \<noteq> None) ns)" for g :: u64
    by (induction ns) (auto simp: map_filter_simps)
  note v = run_version [OF assms(1) r]
  have "Commit mut site t2 Hc = Inl CommitCompleted"
    using c(2-4) assms(4) by (simp add: Commit_def AssertRuntimeThread_def quiet_site_def assertUsable_def)
  then show thesis using that [OF c(1) d(1)] c(5) d(2,3) p v len by simp
qed

end

end
