(* ===== verification/Value_Store.thy ===== *)
theory Value_Store
  imports Transaction Signal
begin

text \<open>
  \<^verbatim>\<open>src/store/value.go\<close>: a store of one observable value. The part of \<open>set\<close> under the lock is
  \<open>value_mutate\<close>; the closure that is queued for delivery is kept as what it captures, the
  invalidation callbacks of the moment and the change event, and \<open>run_notification\<close> is its body.
\<close>

section \<open>The store\<close>

record 't Change =
  Old :: 't
  New :: 't

type_synonym 'e notification = "(nat \<times> u64) list \<times> 'e"

record ('t, 'f, 'h) ValueStore =
  vs_scope :: nat
  vs_version :: VersionSource
  vs_value :: 't
  vs_invalidations :: "'f invalidationSet"
  vs_OnChange :: "'h signal"

text \<open>\<open>wrap\<close> turns the store into a resource of its scope.\<close>

definition NewValueStore :: "(('t, 'f, 'h) ValueStore \<Rightarrow> 'r) \<Rightarrow> nat option \<Rightarrow> 't \<Rightarrow> ('n, 'r, 'w) Scopes \<Rightarrow>
    store_panic + ('t, 'f, 'h) ValueStore \<times> ('n, 'r, 'w) Scopes" where
  "NewValueStore wrap scope initial H =
     (case requireScope scope H of
        Some p \<Rightarrow> Inl p
      | None \<Rightarrow>
          let s = \<lparr>vs_scope = the scope, vs_version = \<lparr>v_current = 0\<rparr>, vs_value = initial,
                   vs_invalidations = empty_set, vs_OnChange = NewSignal ''ValueStore.OnChange''\<rparr>
          in (case addResource (Some (wrap s)) (the scope) H of Inl p \<Rightarrow> Inl p | Inr H1 \<Rightarrow> Inr (s, H1)))"

definition Value_Get :: "(nat \<Rightarrow> 'src \<Rightarrow> bool) \<Rightarrow> 'src \<Rightarrow> ('n, 'r, ('t, 'f, 'h) ValueStore) Scopes \<Rightarrow> store_panic + 't" where
  "Value_Get declares self H =
     (case assertDerivedReadAllowed declares self (vs_scope (h_world H)) H of
        Some p \<Rightarrow> Inl p
      | None \<Rightarrow> Inr (vs_value (h_world H)))"

definition Value_Version :: "('n, 'r, ('t, 'f, 'h) ValueStore) Scopes \<Rightarrow> store_panic + Version" where
  "Value_Version H =
     (case assertUsable (vs_scope (h_world H)) H of
        Some p \<Rightarrow> Inl p
      | None \<Rightarrow> Inr (Current (vs_version (h_world H))))"

definition value_mutate :: "'t \<Rightarrow> ('t, 'f, 'h) ValueStore \<Rightarrow> 't Change notification option \<times> ('t, 'f, 'h) ValueStore" where
  "value_mutate v s =
     (let old = vs_value s;
          s' = s\<lparr>vs_value := v, vs_version := bump (vs_version s)\<rparr>
      in (Some (inv_snapshot (vs_invalidations s'), \<lparr>Old = old, New = v\<rparr>), s'))"

definition Value_Set :: "call_site \<Rightarrow> 't \<Rightarrow> ('t Change notification option, 'r, ('t, 'f, 'h) ValueStore) Scopes \<Rightarrow>
    store_panic + ('t Change notification option, 'r, ('t, 'f, 'h) ValueStore) Scopes" where
  "Value_Set site v H =
     (case AssertRuntimeThread site of
        Some p \<Rightarrow> Inl p
      | None \<Rightarrow> (case AssertNotAnchorExporting site of
          Some p \<Rightarrow> Inl p
        | None \<Rightarrow> mutate_now value_mutate site (vs_scope (h_world H)) v H))"

definition Value_SetTx :: "call_site \<Rightarrow> 't \<Rightarrow> ('t, 't Change notification) Transaction \<Rightarrow>
    ('t Change notification option, 'r, ('t, 'f, 'h) ValueStore) Scopes \<Rightarrow>
    store_panic + ('t, 't Change notification) Transaction" where
  "Value_SetTx site v t H =
     (case AssertRuntimeThread site of
        Some p \<Rightarrow> Inl p
      | None \<Rightarrow> (case AssertNotAnchorExporting site of
          Some p \<Rightarrow> Inl p
        | None \<Rightarrow> mutate_tx site (vs_scope (h_world H)) v t H))"

definition Value_addInvalidationTarget :: "'f option \<Rightarrow> ('t, 'f, 'h) ValueStore \<Rightarrow>
    (Subscription \<times> ('t, 'f, 'h) ValueStore) option" where
  "Value_addInvalidationTarget fn s =
     map_option (\<lambda>(sub, i). (sub, s\<lparr>vs_invalidations := i\<rparr>)) (inv_add fn (vs_invalidations s))"

definition Value_closeScopeResource :: "'t \<Rightarrow> ('t, 'f, 'h) ValueStore \<Rightarrow> ('t, 'f, 'h) ValueStore" where
  "Value_closeScopeResource zero s =
     s\<lparr>vs_value := zero, vs_invalidations := inv_clear (vs_invalidations s), vs_OnChange := UnsubscribeAll (vs_OnChange s)\<rparr>"

text \<open>
  The body of a notification closure: the captured invalidation callbacks that are still
  registered run in order, then the event is emitted. \<open>invs\<close> reads the store's invalidation set
  from the state, \<open>runf\<close> is what a callback does and \<open>emit\<close> what emitting does.
\<close>

definition run_notification :: "('w \<Rightarrow> 'f invalidationSet) \<Rightarrow> ('f \<Rightarrow> 'w \<Rightarrow> 'w) \<Rightarrow> ('e \<Rightarrow> 'w \<Rightarrow> 'w) \<Rightarrow>
    'e notification option \<Rightarrow> 'w \<Rightarrow> 'w" where
  "run_notification invs runf emit n w =
     (case n of
        None \<Rightarrow> w
      | Some (cbs, ev) \<Rightarrow>
          emit ev (fold (\<lambda>cb w. case inv_fire cb (invs w) of None \<Rightarrow> w | Some f \<Rightarrow> runf f w) cbs w))"

section \<open>The contract\<close>

interpretation value_store: versioned_store "\<lambda>s. wf_set (vs_invalidations s)" "\<lambda>s. Current (vs_version s)" value_mutate
  by unfold_locales (auto simp: value_mutate_def Let_def)

section \<open>Properties\<close>

text \<open>
  Setting a value. On the runtime thread, outside projection and anchor export, and with a
  usable scope, a set stores the value, adds one to the version and queues exactly one
  notification that carries the old and the new value and the subscriptions of that moment,
  even when the value did not change. In every other situation it panics and changes nothing.
\<close>

theorem Value_Set_spec:
  fixes H :: "('t Change notification option, 'r, ('t, 'f, 'h) ValueStore) Scopes"
  assumes "vs_scope (h_world H) < length (h_scopes H)"
  shows "if quiet_site site \<and> \<not> closing H (vs_scope (h_world H))
    then \<exists>H'. Value_Set site v H = Inr H' \<and> vs_value (h_world H') = v \<and>
      Current (vs_version (h_world H')) = Current (vs_version (h_world H)) + 1 \<and>
      pending H' (vs_scope (h_world H)) = pending H (vs_scope (h_world H)) @
        [(sc_generation (scope_at H (vs_scope (h_world H))),
          inv_snapshot (vs_invalidations (h_world H)), \<lparr>Old = vs_value (h_world H), New = v\<rparr>)]
    else \<exists>p. Value_Set site v H = Inl p"
proof (cases "quiet_site site \<and> \<not> closing H (vs_scope (h_world H))")
  case True
  then have q: "Value_Set site v H = mutate_now value_mutate site (vs_scope (h_world H)) v H"
    by (simp add: Value_Set_def quiet_site_def AssertRuntimeThread_def AssertNotAnchorExporting_def)
  obtain n w where m: "value_mutate v (h_world H) = (n, w)" by (cases "value_mutate v (h_world H)")
  then have n: "n = Some (inv_snapshot (vs_invalidations (h_world H)), \<lparr>Old = vs_value (h_world H), New = v\<rparr>)"
    "vs_value w = v" "Current (vs_version w) = Current (vs_version (h_world H)) + 1"
    by (auto simp: value_mutate_def Let_def)
  show ?thesis
    using mutate_now_live [OF assms, of site value_mutate v n w] True m n q by auto
next
  case False
  then show ?thesis
    by (auto simp: Value_Set_def mutate_now_def quiet_site_def AssertRuntimeThread_def AssertNotAnchorExporting_def
        assertUsable_def assertNotProjecting_def split: prod.splits option.splits)
qed

definition sample_site :: call_site where
  "sample_site = \<lparr>at_runtime_thread = True, at_exporting = False, at_projecting = False\<rparr>"

definition sample_value :: "(nat, nat, nat) ValueStore" where
  "sample_value = \<lparr>vs_scope = 0, vs_version = \<lparr>v_current = 0\<rparr>, vs_value = 3,
     vs_invalidations = empty_set, vs_OnChange = NewSignal ''ValueStore.OnChange''\<rparr>"

definition sample_value_heap :: "(nat Change notification option, nat, (nat, nat, nat) ValueStore) Scopes" where
  "sample_value_heap = snd (NewScope (empty_scopes sample_value))"

lemma sample_value_heap_simps [simp]:
  "h_world sample_value_heap = sample_value" "vs_scope sample_value = 0" "length (h_scopes sample_value_heap) = 1"
  "\<not> closing sample_value_heap 0" "quiet_site sample_site" "vs_value sample_value = 3"
  "wf_set (vs_invalidations sample_value)" "Current (vs_version sample_value) = 0"
  by (simp_all add: sample_value_heap_def NewScope_def empty_scopes_def sample_value_def fresh_scope_def closing_def
      less_eq_scopeState_def quiet_site_def sample_site_def Current_def)

theorem Value_Set_spec_witness:
  "\<exists>H'. Value_Set sample_site 7 sample_value_heap = Inr H' \<and> vs_value (h_world H') = 7 \<and>
     Current (vs_version (h_world H')) = 1"
  using Value_Set_spec [of sample_value_heap sample_site 7] by auto

text \<open>
  C12: A transaction of value sets equals the sets made one by one. Staging changes nothing;
  committing leaves the same value and version as making the sets directly, queues the same
  notifications in the same order, and a second commit panics.
\<close>

theorem value_transaction_equals_direct:
  fixes H :: "('t Change notification option, 'r, ('t, 'f, 'h) ValueStore) Scopes"
  assumes "wf_set (vs_invalidations (h_world H))" and "s < length (h_scopes H)" and "\<not> closing H s" and "quiet_site site"
    and "Begin site (Some s) H = Inr t" and "stage_all site s vs t H = Inr t1"
  shows "\<exists>t2 Hc Hd. Commit value_mutate site t1 H = Inr (t2, Hc) \<and> direct_all value_mutate site s vs H = Inr Hd \<and>
    h_world Hc = h_world Hd \<and> pending Hc s = pending Hd s \<and> Commit value_mutate site t2 Hc = Inl CommitCompleted"
  using value_store.commit_equals_direct [OF assms] by metis

theorem value_transaction_equals_direct_witness:
  "\<exists>t t1 t2 Hc Hd. Begin sample_site (Some 0) sample_value_heap = Inr t \<and>
     stage_all sample_site 0 [4, 5] t sample_value_heap = Inr t1 \<and>
     Commit value_mutate sample_site t1 sample_value_heap = Inr (t2, Hc) \<and>
     direct_all value_mutate sample_site 0 [4, 5] sample_value_heap = Inr Hd \<and> h_world Hc = h_world Hd"
proof -
  let ?t = "\<lparr>tx_scope = 0, tx_mutations = [], tx_deferred = [], tx_committed = False\<rparr> :: (nat, nat Change notification) Transaction"
  have b: "Begin sample_site (Some 0) sample_value_heap = Inr ?t"
    by (simp add: Begin_def AssertRuntimeThread_def requireScope_def sample_site_def)
  obtain t1 where s: "stage_all sample_site 0 [4, 5] ?t sample_value_heap = Inr t1"
    using stage_all_live [of sample_value_heap 0 sample_site ?t "[4, 5]"] by simp
  have w: "wf_set (vs_invalidations (h_world sample_value_heap))" "0 < length (h_scopes sample_value_heap)" by simp_all
  from value_transaction_equals_direct [OF w _ _ b s] b s show ?thesis by (simp only: sample_value_heap_simps) blast
qed

end
