(* ===== verification/Map_Store.thy ===== *)
theory Map_Store
  imports Value_Store
begin

text \<open>
  \<^verbatim>\<open>src/store/map.go\<close>: an observable map. The Go map is an association list with distinct keys;
  \<open>map_of\<close> is what it stands for. The three kinds of mutation are the values of \<open>map_op\<close>, and
  \<open>map_mutate\<close> is the part of \<open>set\<close>, \<open>delete\<close> and \<open>clear\<close> under the lock.
\<close>

record ('k, 'v) MapSetEvent =
  mse_Key :: 'k
  mse_Value :: 'v
  mse_Previous :: "'v option"
  mse_WasNew :: bool

record ('k, 'v) MapDeleteEvent =
  mde_Key :: 'k
  mde_Value :: 'v

datatype ('k, 'v) map_event =
    OnSet "('k, 'v) MapSetEvent" | OnDelete "('k, 'v) MapDeleteEvent" | OnClear

record ('k, 'v, 'f, 'h) MapStore =
  ms_scope :: nat
  ms_version :: VersionSource
  ms_entries :: "('k \<times> 'v) list"
  ms_invalidations :: "'f invalidationSet"
  ms_onSet :: "'h signal"
  ms_onDelete :: "'h signal"
  ms_onClear :: "'h signal"

datatype ('k, 'v) map_op = MSet 'k 'v | MDelete 'k | MClear

definition NewMapStore :: "(('k, 'v, 'f, 'h) MapStore \<Rightarrow> 'r) \<Rightarrow> nat option \<Rightarrow> ('n, 'r, 'w) Scopes \<Rightarrow>
    store_panic + ('k, 'v, 'f, 'h) MapStore \<times> ('n, 'r, 'w) Scopes" where
  "NewMapStore wrap scope H =
     (case requireScope scope H of
        Some p \<Rightarrow> Inl p
      | None \<Rightarrow>
          let s = \<lparr>ms_scope = the scope, ms_version = \<lparr>v_current = 0\<rparr>, ms_entries = [], ms_invalidations = empty_set,
                   ms_onSet = NewSignal ''MapStore.onSet'', ms_onDelete = NewSignal ''MapStore.onDelete'',
                   ms_onClear = NewSignal ''MapStore.onClear''\<rparr>
          in (case addResource (Some (wrap s)) (the scope) H of Inl p \<Rightarrow> Inl p | Inr H1 \<Rightarrow> Inr (s, H1)))"

text \<open>All reads first check that the read is allowed.\<close>

definition map_read :: "(nat \<Rightarrow> 'src \<Rightarrow> bool) \<Rightarrow> 'src \<Rightarrow> (('k, 'v, 'f, 'h) MapStore \<Rightarrow> 'a) \<Rightarrow>
    ('n, 'r, ('k, 'v, 'f, 'h) MapStore) Scopes \<Rightarrow> store_panic + 'a" where
  "map_read declares self get H =
     (case assertDerivedReadAllowed declares self (ms_scope (h_world H)) H of
        Some p \<Rightarrow> Inl p
      | None \<Rightarrow> Inr (get (h_world H)))"

definition Map_Get :: "(nat \<Rightarrow> 'src \<Rightarrow> bool) \<Rightarrow> 'src \<Rightarrow> 'k \<Rightarrow> ('n, 'r, ('k, 'v, 'f, 'h) MapStore) Scopes \<Rightarrow>
    store_panic + 'v option" where
  "Map_Get declares self key H = map_read declares self (\<lambda>s. map_of (ms_entries s) key) H"

definition Map_Has :: "(nat \<Rightarrow> 'src \<Rightarrow> bool) \<Rightarrow> 'src \<Rightarrow> 'k \<Rightarrow> ('n, 'r, ('k, 'v, 'f, 'h) MapStore) Scopes \<Rightarrow>
    store_panic + bool" where
  "Map_Has declares self key H = map_read declares self (\<lambda>s. map_of (ms_entries s) key \<noteq> None) H"

definition Map_Len :: "(nat \<Rightarrow> 'src \<Rightarrow> bool) \<Rightarrow> 'src \<Rightarrow> ('n, 'r, ('k, 'v, 'f, 'h) MapStore) Scopes \<Rightarrow> store_panic + nat" where
  "Map_Len declares self H = map_read declares self (\<lambda>s. length (ms_entries s)) H"

definition Map_Snapshot :: "(nat \<Rightarrow> 'src \<Rightarrow> bool) \<Rightarrow> 'src \<Rightarrow> ('n, 'r, ('k, 'v, 'f, 'h) MapStore) Scopes \<Rightarrow>
    store_panic + ('k \<times> 'v) list" where
  "Map_Snapshot declares self H = map_read declares self ms_entries H"

definition Map_Version :: "('n, 'r, ('k, 'v, 'f, 'h) MapStore) Scopes \<Rightarrow> store_panic + Version" where
  "Map_Version H =
     (case assertUsable (ms_scope (h_world H)) H of
        Some p \<Rightarrow> Inl p
      | None \<Rightarrow> Inr (Current (ms_version (h_world H))))"

definition map_set :: "'k \<Rightarrow> 'v \<Rightarrow> ('k, 'v, 'f, 'h) MapStore \<Rightarrow>
    ('k, 'v) map_event notification option \<times> ('k, 'v, 'f, 'h) MapStore" where
  "map_set key v s =
     (let previous = map_of (ms_entries s) key;
          s' = s\<lparr>ms_entries := AList.update key v (ms_entries s), ms_version := bump (ms_version s)\<rparr>
      in (Some (inv_snapshot (ms_invalidations s'),
            OnSet \<lparr>mse_Key = key, mse_Value = v, mse_Previous = previous, mse_WasNew = (previous = None)\<rparr>), s'))"

definition map_delete :: "'k \<Rightarrow> ('k, 'v, 'f, 'h) MapStore \<Rightarrow>
    ('k, 'v) map_event notification option \<times> ('k, 'v, 'f, 'h) MapStore" where
  "map_delete key s =
     (case map_of (ms_entries s) key of
        None \<Rightarrow> (None, s)
      | Some v \<Rightarrow>
          let s' = s\<lparr>ms_entries := AList.delete key (ms_entries s), ms_version := bump (ms_version s)\<rparr>
          in (Some (inv_snapshot (ms_invalidations s'), OnDelete \<lparr>mde_Key = key, mde_Value = v\<rparr>), s'))"

definition map_clear :: "('k, 'v, 'f, 'h) MapStore \<Rightarrow>
    ('k, 'v) map_event notification option \<times> ('k, 'v, 'f, 'h) MapStore" where
  "map_clear s =
     (if length (ms_entries s) = 0 then (None, s)
      else let s' = s\<lparr>ms_entries := [], ms_version := bump (ms_version s)\<rparr>
           in (Some (inv_snapshot (ms_invalidations s'), OnClear), s'))"

fun map_mutate :: "('k, 'v) map_op \<Rightarrow> ('k, 'v, 'f, 'h) MapStore \<Rightarrow>
    ('k, 'v) map_event notification option \<times> ('k, 'v, 'f, 'h) MapStore" where
  "map_mutate (MSet key v) s = map_set key v s"
| "map_mutate (MDelete key) s = map_delete key s"
| "map_mutate MClear s = map_clear s"

lemmas map_mutate_defs = map_set_def map_delete_def map_clear_def Let_def

text \<open>The exported methods: on the runtime thread, directly or in a transaction.\<close>

definition Map_apply :: "call_site \<Rightarrow> ('k, 'v) map_op \<Rightarrow>
    (('k, 'v) map_event notification option, 'r, ('k, 'v, 'f, 'h) MapStore) Scopes \<Rightarrow>
    store_panic + (('k, 'v) map_event notification option, 'r, ('k, 'v, 'f, 'h) MapStore) Scopes" where
  "Map_apply site m H =
     (case AssertRuntimeThread site of
        Some p \<Rightarrow> Inl p
      | None \<Rightarrow> mutate_now map_mutate site (ms_scope (h_world H)) m H)"

definition Map_Set :: "call_site \<Rightarrow> 'k \<Rightarrow> 'v \<Rightarrow>
    (('k, 'v) map_event notification option, 'r, ('k, 'v, 'f, 'h) MapStore) Scopes \<Rightarrow>
    store_panic + (('k, 'v) map_event notification option, 'r, ('k, 'v, 'f, 'h) MapStore) Scopes" where
  "Map_Set site key v H = Map_apply site (MSet key v) H"

definition Map_Delete :: "call_site \<Rightarrow> 'k \<Rightarrow>
    (('k, 'v) map_event notification option, 'r, ('k, 'v, 'f, 'h) MapStore) Scopes \<Rightarrow>
    store_panic + (('k, 'v) map_event notification option, 'r, ('k, 'v, 'f, 'h) MapStore) Scopes" where
  "Map_Delete site key H = Map_apply site (MDelete key) H"

definition Map_Clear :: "call_site \<Rightarrow>
    (('k, 'v) map_event notification option, 'r, ('k, 'v, 'f, 'h) MapStore) Scopes \<Rightarrow>
    store_panic + (('k, 'v) map_event notification option, 'r, ('k, 'v, 'f, 'h) MapStore) Scopes" where
  "Map_Clear site H = Map_apply site MClear H"

definition Map_applyTx :: "call_site \<Rightarrow> ('k, 'v) map_op \<Rightarrow> (('k, 'v) map_op, ('k, 'v) map_event notification) Transaction \<Rightarrow>
    (('k, 'v) map_event notification option, 'r, ('k, 'v, 'f, 'h) MapStore) Scopes \<Rightarrow>
    store_panic + (('k, 'v) map_op, ('k, 'v) map_event notification) Transaction" where
  "Map_applyTx site m t H =
     (case AssertRuntimeThread site of
        Some p \<Rightarrow> Inl p
      | None \<Rightarrow> mutate_tx site (ms_scope (h_world H)) m t H)"

definition Map_SetTx :: "call_site \<Rightarrow> 'k \<Rightarrow> 'v \<Rightarrow> (('k, 'v) map_op, ('k, 'v) map_event notification) Transaction \<Rightarrow>
    (('k, 'v) map_event notification option, 'r, ('k, 'v, 'f, 'h) MapStore) Scopes \<Rightarrow>
    store_panic + (('k, 'v) map_op, ('k, 'v) map_event notification) Transaction" where
  "Map_SetTx site key v t H = Map_applyTx site (MSet key v) t H"

definition Map_DeleteTx :: "call_site \<Rightarrow> 'k \<Rightarrow> (('k, 'v) map_op, ('k, 'v) map_event notification) Transaction \<Rightarrow>
    (('k, 'v) map_event notification option, 'r, ('k, 'v, 'f, 'h) MapStore) Scopes \<Rightarrow>
    store_panic + (('k, 'v) map_op, ('k, 'v) map_event notification) Transaction" where
  "Map_DeleteTx site key t H = Map_applyTx site (MDelete key) t H"

definition Map_ClearTx :: "call_site \<Rightarrow> (('k, 'v) map_op, ('k, 'v) map_event notification) Transaction \<Rightarrow>
    (('k, 'v) map_event notification option, 'r, ('k, 'v, 'f, 'h) MapStore) Scopes \<Rightarrow>
    store_panic + (('k, 'v) map_op, ('k, 'v) map_event notification) Transaction" where
  "Map_ClearTx site t H = Map_applyTx site MClear t H"

definition Map_addInvalidationTarget :: "'f option \<Rightarrow> ('k, 'v, 'f, 'h) MapStore \<Rightarrow>
    (Subscription \<times> ('k, 'v, 'f, 'h) MapStore) option" where
  "Map_addInvalidationTarget fn s =
     map_option (\<lambda>(sub, i). (sub, s\<lparr>ms_invalidations := i\<rparr>)) (inv_add fn (ms_invalidations s))"

definition Map_closeScopeResource :: "('k, 'v, 'f, 'h) MapStore \<Rightarrow> ('k, 'v, 'f, 'h) MapStore" where
  "Map_closeScopeResource s =
     s\<lparr>ms_entries := [], ms_invalidations := inv_clear (ms_invalidations s), ms_onSet := UnsubscribeAll (ms_onSet s),
       ms_onDelete := UnsubscribeAll (ms_onDelete s), ms_onClear := UnsubscribeAll (ms_onClear s)\<rparr>"

section \<open>The contract\<close>

definition map_ok :: "('k, 'v, 'f, 'h) MapStore \<Rightarrow> bool" where
  "map_ok s \<longleftrightarrow> distinct (map fst (ms_entries s)) \<and> wf_set (ms_invalidations s)"

lemma map_mutate_ok: "map_ok s \<Longrightarrow> map_mutate m s = (n, s') \<Longrightarrow> map_ok s'"
  by (cases m) (auto simp: map_ok_def map_mutate_defs distinct_update distinct_delete split: option.splits if_splits)

interpretation map_store: versioned_store map_ok "\<lambda>s. Current (ms_version s)" map_mutate
proof unfold_locales
  fix s s' :: "('k, 'v, 'f, 'h) MapStore" and m :: "('k, 'v) map_op" and n x
  show "map_ok s \<Longrightarrow> map_mutate m s = (n, s') \<Longrightarrow> map_ok s'" by (rule map_mutate_ok)
  show "map_mutate m s = (None, s') \<Longrightarrow> s' = s"
    by (cases m) (auto simp: map_mutate_defs split: option.splits if_splits)
  show "map_mutate m s = (Some x, s') \<Longrightarrow> Current (ms_version s') = Current (ms_version s) + 1"
    by (cases m) (auto simp: map_mutate_defs split: option.splits if_splits)
qed

text \<open>The abstract map and the effect of one mutation on it.\<close>

fun map_spec :: "('k, 'v) map_op \<Rightarrow> ('k \<rightharpoonup> 'v) \<Rightarrow> ('k \<rightharpoonup> 'v)" where
  "map_spec (MSet k v) m = m(k \<mapsto> v)"
| "map_spec (MDelete k) m = m(k := None)"
| "map_spec MClear m = Map.empty"

lemma map_mutate_refines:
  assumes "map_mutate m s = (n, s')"
  shows "map_of (ms_entries s') = map_spec m (map_of (ms_entries s))"
proof (cases m)
  case (MDelete k)
  show ?thesis
  proof (cases "map_of (ms_entries s) k")
    case None
    then show ?thesis using assms MDelete by (auto simp: map_delete_def fun_eq_iff)
  next
    case (Some v)
    then show ?thesis using assms MDelete by (auto simp: map_mutate_defs delete_conv' fun_eq_iff)
  qed
qed (use assms in \<open>auto simp: map_mutate_defs update_conv' split: if_splits\<close>)

section \<open>Properties\<close>

text \<open>
  Refinement of maps. In every sequence of map mutations the entries stand for the map that
  the abstract updates give, keys stay distinct, and the version grows by one for every
  mutation that is notified; deleting an absent key or clearing an empty map is skipped without
  a notification.
\<close>

theorem map_store_refines:
  assumes "map_ok s" and "run_mutations map_mutate ms s = (ns, s')"
  shows "map_of (ms_entries s') = fold map_spec ms (map_of (ms_entries s)) \<and> distinct (map fst (ms_entries s')) \<and>
    Current (ms_version s') = Current (ms_version s) + of_nat (length (filter (\<lambda>n. n \<noteq> None) ns)) \<and>
    (\<forall>k. map_of (ms_entries s') k = None \<longrightarrow> fst (map_mutate (MDelete k) s') = None)"
proof -
  have v: "map_ok s'" "Current (ms_version s') = Current (ms_version s) + of_nat (length (filter (\<lambda>n. n \<noteq> None) ns))"
    using map_store.run_version [OF assms] by auto
  have "map_of (ms_entries s') = fold map_spec ms (map_of (ms_entries s))"
    using assms
  proof (induction ms arbitrary: s ns)
    case (Cons m ms)
    obtain n s1 where m: "map_mutate m s = (n, s1)" by (cases "map_mutate m s")
    obtain ns' where r: "run_mutations map_mutate ms s1 = (ns', s')" using Cons.prems(2) m by (auto split: prod.splits)
    show ?case
      using Cons.IH [OF map_mutate_ok [OF Cons.prems(1) m] r] map_mutate_refines [OF m] by simp
  qed simp
  then show ?thesis using v by (simp add: map_ok_def map_delete_def)
qed

definition sample_map :: "(nat, nat, nat, nat) MapStore" where
  "sample_map = \<lparr>ms_scope = 0, ms_version = \<lparr>v_current = 0\<rparr>, ms_entries = [], ms_invalidations = empty_set,
     ms_onSet = NewSignal [], ms_onDelete = NewSignal [], ms_onClear = NewSignal []\<rparr>"

theorem map_store_refines_witness:
  "\<exists>ns s'. run_mutations map_mutate [MSet 1 10, MSet 2 20, MDelete 1, MDelete 9] sample_map = (ns, s') \<and>
     map_of (ms_entries s') = [2 \<mapsto> 20] \<and> Current (ms_version s') = 3"
proof -
  have ok: "map_ok sample_map" by (simp add: map_ok_def sample_map_def)
  obtain ns s' where r: "run_mutations map_mutate [MSet 1 10, MSet 2 20, MDelete 1, MDelete 9] sample_map = (ns, s')"
    by (cases "run_mutations map_mutate [MSet 1 10, MSet 2 20, MDelete 1, MDelete 9] sample_map")
  have "length (filter (\<lambda>n. n \<noteq> None) ns) = 3" using r by (auto simp: sample_map_def map_mutate_defs split: if_splits)
  then show ?thesis
    using map_store_refines [OF ok r] r by (simp add: sample_map_def Current_def fun_eq_iff)
qed

text \<open>
  A transaction of map mutations equals the mutations made one by one: the same entries and
  version and the same notifications, with skipped mutations delivering nothing in both.
\<close>

theorem map_transaction_equals_direct:
  fixes H :: "(('k, 'v) map_event notification option, 'r, ('k, 'v, 'f, 'h) MapStore) Scopes"
  assumes "map_ok (h_world H)" and "s < length (h_scopes H)" and "\<not> closing H s" and "quiet_site site"
    and "Begin site (Some s) H = Inr t" and "stage_all site s ms t H = Inr t1"
  shows "\<exists>t2 Hc Hd. Commit map_mutate site t1 H = Inr (t2, Hc) \<and> direct_all map_mutate site s ms H = Inr Hd \<and>
    h_world Hc = h_world Hd \<and> pending Hc s = pending Hd s \<and> map_ok (h_world Hc)"
  using map_store.commit_equals_direct [OF assms] by metis

theorem map_transaction_equals_direct_witness:
  "\<exists>(H :: ((nat, nat) map_event notification option, nat, (nat, nat, nat, nat) MapStore) Scopes) t t1 t2 Hc Hd.
     h_world H = sample_map \<and> Begin sample_site (Some 0) H = Inr t \<and>
     stage_all sample_site 0 [MSet 1 10, MDelete 9] t H = Inr t1 \<and> Commit map_mutate sample_site t1 H = Inr (t2, Hc) \<and>
     direct_all map_mutate sample_site 0 [MSet 1 10, MDelete 9] H = Inr Hd \<and> h_world Hc = h_world Hd"
proof -
  let ?H = "snd (NewScope (empty_scopes sample_map)) :: ((nat, nat) map_event notification option, nat, (nat, nat, nat, nat) MapStore) Scopes"
  let ?t = "\<lparr>tx_scope = 0, tx_mutations = [], tx_deferred = [], tx_committed = False\<rparr> ::
    ((nat, nat) map_op, (nat, nat) map_event notification) Transaction"
  have h: "h_world ?H = sample_map" "0 < length (h_scopes ?H)" "\<not> closing ?H 0"
    by (simp_all add: NewScope_def empty_scopes_def fresh_scope_def closing_def less_eq_scopeState_def)
  have b: "Begin sample_site (Some 0) ?H = Inr ?t"
    using h by (simp add: Begin_def AssertRuntimeThread_def requireScope_def sample_site_def)
  obtain t1 where s: "stage_all sample_site 0 [MSet 1 10, MDelete 9] ?t ?H = Inr t1"
    using stage_all_live [OF h(3), of sample_site ?t "[MSet 1 10, MDelete 9]"] by simp
  have ok: "map_ok (h_world ?H)" unfolding h(1) by (simp add: map_ok_def sample_map_def)
  from map_transaction_equals_direct [OF ok h(2,3) sample_value_heap_simps(5) b s] h(1) b s show ?thesis by blast
qed

end
