(* ===== verification/Collection_Store.thy ===== *)
theory Collection_Store
  imports Value_Store
begin

text \<open>
  \<^verbatim>\<open>src/store/collection.go\<close>: an ordered collection of items with stable identifiers. The state
  is the slice of items and the index from identifiers to positions, an association list; the
  function that identifies an item is a field, as in the source. The four kinds of mutation are
  the values of \<open>coll_op\<close>; \<open>coll_insert\<close>, \<open>coll_remove\<close>, \<open>coll_update\<close> and \<open>coll_replace\<close> are what
  the methods of these names do under the lock, which is the same with and without a
  transaction. Slice positions are natural numbers; arguments that the caller may pass out of
  range are integers, and their sum wraps around at 64 bits.
\<close>

section \<open>State\<close>

type_synonym ItemID = u64

record 't CollectionInsertEvent =
  cie_Item :: 't
  cie_Index :: nat

record 't CollectionRemoveEvent =
  cre_ID :: ItemID
  cre_Index :: nat
  cre_Item :: 't

record 't CollectionUpdateEvent =
  cue_ID :: ItemID
  cue_Index :: nat
  cue_Old :: 't
  cue_New :: 't

datatype 't coll_event =
    OnInsert "'t CollectionInsertEvent" | OnRemove "'t CollectionRemoveEvent"
  | OnUpdate "'t CollectionUpdateEvent" | OnReplace

record ('t, 'f, 'h) CollectionStore =
  cs_scope :: nat
  cs_version :: VersionSource
  cs_identify :: "'t \<Rightarrow> ItemID"
  cs_items :: "'t list"
  cs_index :: "(ItemID \<times> nat) list"
  cs_invalidations :: "'f invalidationSet"
  cs_onInsert :: "'h signal"
  cs_onRemove :: "'h signal"
  cs_onUpdate :: "'h signal"
  cs_onReplace :: "'h signal"

datatype 't coll_op = CInsert 't | CRemove ItemID | CUpdate 't | CReplace "'t list"

definition NewCollectionStore :: "(('t, 'f, 'h) CollectionStore \<Rightarrow> 'r) \<Rightarrow> nat option \<Rightarrow> ('t \<Rightarrow> ItemID) \<Rightarrow>
    ('n, 'r, 'w) Scopes \<Rightarrow> store_panic + ('t, 'f, 'h) CollectionStore \<times> ('n, 'r, 'w) Scopes" where
  "NewCollectionStore wrap scope identify H =
     (case requireScope scope H of
        Some p \<Rightarrow> Inl p
      | None \<Rightarrow>
          let s = \<lparr>cs_scope = the scope, cs_version = \<lparr>v_current = 0\<rparr>, cs_identify = identify, cs_items = [],
                   cs_index = [], cs_invalidations = empty_set,
                   cs_onInsert = NewSignal ''CollectionStore.onInsert'', cs_onRemove = NewSignal ''CollectionStore.onRemove'',
                   cs_onUpdate = NewSignal ''CollectionStore.onUpdate'', cs_onReplace = NewSignal ''CollectionStore.onReplace''\<rparr>
          in (case addResource (Some (wrap s)) (the scope) H of Inl p \<Rightarrow> Inl p | Inr H1 \<Rightarrow> Inr (s, H1)))"

section \<open>Reads\<close>

text \<open>The reads that take part in dependency tracking first check that the read is allowed.\<close>

definition coll_read :: "(nat \<Rightarrow> 'src \<Rightarrow> bool) \<Rightarrow> 'src \<Rightarrow> (('t, 'f, 'h) CollectionStore \<Rightarrow> store_panic + 'a) \<Rightarrow>
    ('n, 'r, ('t, 'f, 'h) CollectionStore) Scopes \<Rightarrow> store_panic + 'a" where
  "coll_read declares self get H =
     (case assertDerivedReadAllowed declares self (cs_scope (h_world H)) H of
        Some p \<Rightarrow> Inl p
      | None \<Rightarrow> get (h_world H))"

definition coll_lookup :: "ItemID \<Rightarrow> ('t, 'f, 'h) CollectionStore \<Rightarrow> 't option" where
  "coll_lookup i s =
     (case map_of (cs_index s) i of
        None \<Rightarrow> None
      | Some idx \<Rightarrow> if length (cs_items s) \<le> idx then None else Some (cs_items s ! idx))"

definition Coll_Get :: "(nat \<Rightarrow> 'src \<Rightarrow> bool) \<Rightarrow> 'src \<Rightarrow> ItemID \<Rightarrow> ('n, 'r, ('t, 'f, 'h) CollectionStore) Scopes \<Rightarrow>
    store_panic + 't option" where
  "Coll_Get declares self i H = coll_read declares self (\<lambda>s. Inr (coll_lookup i s)) H"

definition coll_at :: "int \<Rightarrow> ('t, 'f, 'h) CollectionStore \<Rightarrow> store_panic + 't" where
  "coll_at i s = (if i < 0 \<or> int (length (cs_items s)) \<le> i then Inl IndexOutOfRange else Inr (cs_items s ! nat i))"

definition Coll_At :: "(nat \<Rightarrow> 'src \<Rightarrow> bool) \<Rightarrow> 'src \<Rightarrow> int \<Rightarrow> ('n, 'r, ('t, 'f, 'h) CollectionStore) Scopes \<Rightarrow>
    store_panic + 't" where
  "Coll_At declares self i H = coll_read declares self (coll_at i) H"

definition Coll_Len :: "(nat \<Rightarrow> 'src \<Rightarrow> bool) \<Rightarrow> 'src \<Rightarrow> ('n, 'r, ('t, 'f, 'h) CollectionStore) Scopes \<Rightarrow>
    store_panic + nat" where
  "Coll_Len declares self H = coll_read declares self (\<lambda>s. Inr (length (cs_items s))) H"

definition Coll_All :: "(nat \<Rightarrow> 'src \<Rightarrow> bool) \<Rightarrow> 'src \<Rightarrow> ('n, 'r, ('t, 'f, 'h) CollectionStore) Scopes \<Rightarrow>
    store_panic + 't list" where
  "Coll_All declares self H = coll_read declares self (\<lambda>s. Inr (cs_items s)) H"

text \<open>The versioned reads do not consult the scope. A refused snapshot still reports the version.\<close>

datatype snapshot_error = NegativeLimit | TooManyItems nat int Version

definition maxInt :: int where "maxInt = 2 ^ 63 - 1"

definition AllVersionedLimit :: "int \<Rightarrow> ('t, 'f, 'h) CollectionStore \<Rightarrow> snapshot_error + 't list \<times> Version" where
  "AllVersionedLimit maxItems s =
     (if maxItems < 0 then Inl NegativeLimit
      else if maxItems < int (length (cs_items s))
      then Inl (TooManyItems (length (cs_items s)) maxItems (Current (cs_version s)))
      else Inr (cs_items s, Current (cs_version s)))"

text \<open>\<open>AllVersioned\<close> drops the error, and with it the items.\<close>

definition AllVersioned :: "('t, 'f, 'h) CollectionStore \<Rightarrow> 't list \<times> Version" where
  "AllVersioned s =
     (case AllVersionedLimit maxInt s of
        Inl NegativeLimit \<Rightarrow> ([], 0)
      | Inl (TooManyItems _ _ v) \<Rightarrow> ([], v)
      | Inr r \<Rightarrow> r)"

definition Page :: "int \<Rightarrow> int \<Rightarrow> ('t, 'f, 'h) CollectionStore \<Rightarrow> store_panic + 't list \<times> nat \<times> Version" where
  "Page offset limit s =
     (if offset < 0 \<or> limit < 1 \<or> 256 < limit then Inl PageArguments
      else let n = length (cs_items s) in
        if int n \<le> offset then Inr ([], n, Current (cs_version s))
        else let stop = min (int n) (wrap_int (offset + limit)) in
          if stop < offset then Inl IndexOutOfRange
          else Inr (take (nat (stop - offset)) (drop (nat offset) (cs_items s)), n, Current (cs_version s)))"

definition Identify :: "'t \<Rightarrow> ('t, 'f, 'h) CollectionStore \<Rightarrow> ItemID" where
  "Identify item s = cs_identify s item"

definition Coll_Version :: "('n, 'r, ('t, 'f, 'h) CollectionStore) Scopes \<Rightarrow> store_panic + Version" where
  "Coll_Version H =
     (case assertUsable (cs_scope (h_world H)) H of
        Some p \<Rightarrow> Inl p
      | None \<Rightarrow> Inr (Current (cs_version (h_world H))))"

section \<open>Mutations\<close>

text \<open>The loops that write the positions of the items from \<open>from\<close> on into the index.\<close>

definition reindex :: "('t \<Rightarrow> ItemID) \<Rightarrow> nat \<Rightarrow> 't list \<Rightarrow> (ItemID \<times> nat) list \<Rightarrow> (ItemID \<times> nat) list" where
  "reindex identify from items index =
     fold (\<lambda>i ix. AList.update (identify (items ! i)) i ix) [from ..< length items] index"

text \<open>
  \<open>insert\<close> does not check the position it finds in the index; that it is in range is an
  invariant, shown below.
\<close>

definition coll_insert :: "'t \<Rightarrow> ('t, 'f, 'h) CollectionStore \<Rightarrow>
    't coll_event notification option \<times> ('t, 'f, 'h) CollectionStore" where
  "coll_insert item s =
     (let i = cs_identify s item in
      case map_of (cs_index s) i of
        Some idx \<Rightarrow>
          let s' = s\<lparr>cs_items := (cs_items s)[idx := item], cs_version := bump (cs_version s)\<rparr>
          in (Some (inv_snapshot (cs_invalidations s'),
                OnUpdate \<lparr>cue_ID = i, cue_Index = idx, cue_Old = cs_items s ! idx, cue_New = item\<rparr>), s')
      | None \<Rightarrow>
          let idx = length (cs_items s);
              s' = s\<lparr>cs_items := cs_items s @ [item], cs_index := AList.update i idx (cs_index s),
                     cs_version := bump (cs_version s)\<rparr>
          in (Some (inv_snapshot (cs_invalidations s'), OnInsert \<lparr>cie_Item = item, cie_Index = idx\<rparr>), s'))"

definition coll_remove :: "ItemID \<Rightarrow> ('t, 'f, 'h) CollectionStore \<Rightarrow>
    't coll_event notification option \<times> ('t, 'f, 'h) CollectionStore" where
  "coll_remove i s =
     (case map_of (cs_index s) i of
        None \<Rightarrow> (None, s)
      | Some idx \<Rightarrow>
          if length (cs_items s) \<le> idx then (None, s)
          else let items' = remove_at idx (cs_items s);
                   s' = s\<lparr>cs_items := items', cs_index := reindex (cs_identify s) idx items' (AList.delete i (cs_index s)),
                          cs_version := bump (cs_version s)\<rparr>
               in (Some (inv_snapshot (cs_invalidations s'),
                     OnRemove \<lparr>cre_ID = i, cre_Index = idx, cre_Item = cs_items s ! idx\<rparr>), s'))"

definition coll_update :: "'t \<Rightarrow> ('t, 'f, 'h) CollectionStore \<Rightarrow>
    't coll_event notification option \<times> ('t, 'f, 'h) CollectionStore" where
  "coll_update item s =
     (let i = cs_identify s item in
      case map_of (cs_index s) i of
        None \<Rightarrow> (None, s)
      | Some idx \<Rightarrow>
          if length (cs_items s) \<le> idx then (None, s)
          else let s' = s\<lparr>cs_items := (cs_items s)[idx := item], cs_version := bump (cs_version s)\<rparr>
               in (Some (inv_snapshot (cs_invalidations s'),
                     OnUpdate \<lparr>cue_ID = i, cue_Index = idx, cue_Old = cs_items s ! idx, cue_New = item\<rparr>), s'))"

definition coll_replace :: "'t list \<Rightarrow> ('t, 'f, 'h) CollectionStore \<Rightarrow>
    't coll_event notification option \<times> ('t, 'f, 'h) CollectionStore" where
  "coll_replace items s =
     (let s' = s\<lparr>cs_items := items, cs_index := reindex (cs_identify s) 0 items [], cs_version := bump (cs_version s)\<rparr>
      in (Some (inv_snapshot (cs_invalidations s'), OnReplace), s'))"

fun coll_mutate :: "'t coll_op \<Rightarrow> ('t, 'f, 'h) CollectionStore \<Rightarrow>
    't coll_event notification option \<times> ('t, 'f, 'h) CollectionStore" where
  "coll_mutate (CInsert item) s = coll_insert item s"
| "coll_mutate (CRemove i) s = coll_remove i s"
| "coll_mutate (CUpdate item) s = coll_update item s"
| "coll_mutate (CReplace items) s = coll_replace items s"

lemmas coll_defs = coll_insert_def coll_remove_def coll_update_def coll_replace_def Let_def

text \<open>The exported methods: on the runtime thread, directly or in a transaction.\<close>

definition Coll_apply :: "call_site \<Rightarrow> 't coll_op \<Rightarrow>
    ('t coll_event notification option, 'r, ('t, 'f, 'h) CollectionStore) Scopes \<Rightarrow>
    store_panic + ('t coll_event notification option, 'r, ('t, 'f, 'h) CollectionStore) Scopes" where
  "Coll_apply site m H =
     (case AssertRuntimeThread site of
        Some p \<Rightarrow> Inl p
      | None \<Rightarrow> mutate_now coll_mutate site (cs_scope (h_world H)) m H)"

definition Coll_applyTx :: "call_site \<Rightarrow> 't coll_op \<Rightarrow> ('t coll_op, 't coll_event notification) Transaction \<Rightarrow>
    ('t coll_event notification option, 'r, ('t, 'f, 'h) CollectionStore) Scopes \<Rightarrow>
    store_panic + ('t coll_op, 't coll_event notification) Transaction" where
  "Coll_applyTx site m t H =
     (case AssertRuntimeThread site of
        Some p \<Rightarrow> Inl p
      | None \<Rightarrow> mutate_tx site (cs_scope (h_world H)) m t H)"

definition Coll_addInvalidationTarget :: "'f option \<Rightarrow> ('t, 'f, 'h) CollectionStore \<Rightarrow>
    (Subscription \<times> ('t, 'f, 'h) CollectionStore) option" where
  "Coll_addInvalidationTarget fn s =
     map_option (\<lambda>(sub, i). (sub, s\<lparr>cs_invalidations := i\<rparr>)) (inv_add fn (cs_invalidations s))"

definition Coll_closeScopeResource :: "('t, 'f, 'h) CollectionStore \<Rightarrow> ('t, 'f, 'h) CollectionStore" where
  "Coll_closeScopeResource s =
     s\<lparr>cs_items := [], cs_index := [], cs_invalidations := inv_clear (cs_invalidations s),
       cs_onInsert := UnsubscribeAll (cs_onInsert s), cs_onRemove := UnsubscribeAll (cs_onRemove s),
       cs_onUpdate := UnsubscribeAll (cs_onUpdate s), cs_onReplace := UnsubscribeAll (cs_onReplace s)\<rparr>"

section \<open>The index\<close>

text \<open>
  The index is sound when every entry names an item with its identifier, and exact when it
  also finds every item; an exact index excludes two items with one identifier.
\<close>

definition sound_index :: "('t \<Rightarrow> ItemID) \<Rightarrow> 't list \<Rightarrow> (ItemID \<times> nat) list \<Rightarrow> bool" where
  "sound_index f xs ix \<longleftrightarrow> (\<forall>i k. map_of ix i = Some k \<longrightarrow> k < length xs \<and> f (xs ! k) = i)"

definition exact_index :: "('t \<Rightarrow> ItemID) \<Rightarrow> 't list \<Rightarrow> (ItemID \<times> nat) list \<Rightarrow> bool" where
  "exact_index f xs ix \<longleftrightarrow> sound_index f xs ix \<and> (\<forall>k < length xs. map_of ix (f (xs ! k)) = Some k)"

lemma sound_indexD: "sound_index f xs ix \<Longrightarrow> map_of ix i = Some k \<Longrightarrow> k < length xs \<and> f (xs ! k) = i"
  by (simp add: sound_index_def)

lemma exact_indexD:
  "exact_index f xs ix \<Longrightarrow> sound_index f xs ix"
  "exact_index f xs ix \<Longrightarrow> k < length xs \<Longrightarrow> map_of ix (f (xs ! k)) = Some k"
  by (simp_all add: exact_index_def)

lemma exact_index_inj:
  assumes "exact_index f xs ix" and "j < length xs" and "k < length xs" and "f (xs ! j) = f (xs ! k)"
  shows "j = k"
proof -
  have "Some j = Some k"
    unfolding exact_indexD(2) [OF assms(1,2), symmetric] exact_indexD(2) [OF assms(1,3), symmetric] assms(4) ..
  then show ?thesis by simp
qed

lemma exact_index_distinct:
  assumes "exact_index f xs ix"
  shows "distinct (map f xs)"
  unfolding distinct_conv_nth
proof (intro allI impI)
  fix i j assume "i < length (map f xs)" "j < length (map f xs)" "i \<noteq> j"
  then show "map f xs ! i \<noteq> map f xs ! j" using exact_index_inj [OF assms, of i j] by auto
qed

lemma nth_remove_at:
  "i < length xs \<Longrightarrow> j < length xs - 1 \<Longrightarrow> remove_at i xs ! j = (if j < i then xs ! j else xs ! Suc j)"
  by (simp add: remove_at_def nth_append min_def)

text \<open>What a lookup finds after the positions \<open>a, \<dots>, b - 1\<close> were written.\<close>

lemma written_range:
  assumes "map_of (fold (\<lambda>i ix. AList.update (g i) i ix) [a ..< b] ix) i = r"
  shows "(\<exists>k. r = Some k \<and> a \<le> k \<and> k < b \<and> g k = i) \<or> (r = map_of ix i \<and> (\<forall>k. a \<le> k \<longrightarrow> k < b \<longrightarrow> g k \<noteq> i))"
  using assms
proof (induction b arbitrary: r)
  case (Suc b)
  show ?case
  proof (cases "a \<le> b")
    case True
    then have *: "r = (if g b = i then Some b else map_of (fold (\<lambda>i ix. AList.update (g i) i ix) [a ..< b] ix) i)"
      using Suc.prems by (auto simp: update_conv')
    show ?thesis
    proof (cases "g b = i")
      case False
      then have "r = map_of (fold (\<lambda>i ix. AList.update (g i) i ix) [a ..< b] ix) i" using * by simp
      from Suc.IH [OF this [symmetric]] show ?thesis using False by (metis less_Suc_eq)
    qed (use * True in auto)
  qed (use Suc.prems in auto)
qed simp

lemma reindex_lookup:
  "(\<exists>k. map_of (reindex f a xs ix) i = Some k \<and> a \<le> k \<and> k < length xs \<and> f (xs ! k) = i) \<or>
   (map_of (reindex f a xs ix) i = map_of ix i \<and> (\<forall>k. a \<le> k \<longrightarrow> k < length xs \<longrightarrow> f (xs ! k) \<noteq> i))"
  unfolding reindex_def by (rule written_range [OF refl, of "\<lambda>i. f (xs ! i)" a "length xs" ix i, unfolded ex_simps])

lemma sound_reindex_all: "sound_index f xs (reindex f 0 xs [])"
  unfolding sound_index_def
proof (intro allI impI)
  fix i k assume "map_of (reindex f 0 xs []) i = Some k"
  then show "k < length xs \<and> f (xs ! k) = i" using reindex_lookup [of f 0 xs "[]" i] by auto
qed

lemma exact_reindex_all: "distinct (map f xs) \<Longrightarrow> exact_index f xs (reindex f 0 xs [])"
  unfolding exact_index_def
proof (intro conjI allI impI)
  fix k assume d: "distinct (map f xs)" and k: "k < length xs"
  from reindex_lookup [of f 0 xs "[]" "f (xs ! k)"] k obtain j where
    j: "map_of (reindex f 0 xs []) (f (xs ! k)) = Some j" "j < length xs" "f (xs ! j) = f (xs ! k)" by auto
  then have "j = k" using d k by (auto simp: distinct_conv_nth)
  with j(1) show "map_of (reindex f 0 xs []) (f (xs ! k)) = Some k" by simp
qed (rule sound_reindex_all)

text \<open>Appending, overwriting and removing an item.\<close>

lemma sound_index_append:
  "sound_index f xs ix \<Longrightarrow> sound_index f (xs @ [x]) (AList.update (f x) (length xs) ix)"
  unfolding sound_index_def
proof (intro allI impI)
  fix i k assume *: "\<forall>i k. map_of ix i = Some k \<longrightarrow> k < length xs \<and> f (xs ! k) = i"
    and "map_of (AList.update (f x) (length xs) ix) i = Some k"
  then show "k < length (xs @ [x]) \<and> f ((xs @ [x]) ! k) = i"
    using * [rule_format, of i k] by (auto simp: update_conv' nth_append split: if_splits)
qed

lemma exact_index_append:
  "exact_index f xs ix \<Longrightarrow> map_of ix (f x) = None \<Longrightarrow> exact_index f (xs @ [x]) (AList.update (f x) (length xs) ix)"
  by (auto simp: exact_index_def sound_index_append update_conv' nth_append less_Suc_eq)

lemma sound_index_overwrite:
  "sound_index f xs ix \<Longrightarrow> map_of ix (f x) = Some k \<Longrightarrow> sound_index f (xs[k := x]) ix"
  unfolding sound_index_def by (metis length_list_update nth_list_update_eq nth_list_update_neq)

lemma exact_index_overwrite:
  "exact_index f xs ix \<Longrightarrow> map_of ix (f x) = Some k \<Longrightarrow> exact_index f (xs[k := x]) ix"
  unfolding exact_index_def
proof (intro conjI allI impI; elim conjE)
  fix j assume *: "\<forall>k < length xs. map_of ix (f (xs ! k)) = Some k" "map_of ix (f x) = Some k" "j < length (xs[k := x])"
  then show "map_of ix (f (xs[k := x] ! j)) = Some j" by (cases "j = k") auto
qed (rule sound_index_overwrite)

lemma sound_index_remove:
  assumes s: "sound_index f xs ix" and k: "map_of ix i = Some k"
  shows "sound_index f (remove_at k xs) (reindex f k (remove_at k xs) (AList.delete i ix))"
  unfolding sound_index_def
proof (intro allI impI)
  fix j m assume m: "map_of (reindex f k (remove_at k xs) (AList.delete i ix)) j = Some m"
  have kl: "k < length xs" "f (xs ! k) = i" using sound_indexD [OF s k] by auto
  from reindex_lookup [of f k "remove_at k xs" "AList.delete i ix" j] m consider
      "m < length (remove_at k xs) \<and> f (remove_at k xs ! m) = j"
    | "map_of ix j = Some m" "j \<noteq> i" "\<forall>n. k \<le> n \<longrightarrow> n < length (remove_at k xs) \<longrightarrow> f (remove_at k xs ! n) \<noteq> j"
    by (auto simp: delete_conv' split: if_splits)
  then show "m < length (remove_at k xs) \<and> f (remove_at k xs ! m) = j"
  proof cases
    case 2
    have ml: "m < length xs" "f (xs ! m) = j" using sound_indexD [OF s 2(1)] by auto
    have "m < k"
    proof (rule ccontr)
      assume "\<not> m < k"
      then have "k < m" using ml kl 2(2) by (metis linorder_neqE_nat)
      then have "f (remove_at k xs ! (m - 1)) = j" using ml kl nth_remove_at [of k xs "m - 1"] by (cases m) auto
      then show False using 2(3) [rule_format, of "m - 1"] \<open>k < m\<close> ml kl length_remove_at [OF kl(1)] by linarith
    qed
    then show ?thesis using ml kl by (simp add: nth_remove_at)
  qed
qed

lemma exact_index_remove:
  assumes e: "exact_index f xs ix" and k: "map_of ix i = Some k"
  shows "exact_index f (remove_at k xs) (reindex f k (remove_at k xs) (AList.delete i ix))"
  unfolding exact_index_def
proof (intro conjI allI impI)
  note s = exact_indexD(1) [OF e]
  have kl: "k < length xs" "f (xs ! k) = i" using sound_indexD [OF s k] by auto
  show "sound_index f (remove_at k xs) (reindex f k (remove_at k xs) (AList.delete i ix))"
    using sound_index_remove [OF s k] .
  fix m assume m: "m < length (remove_at k xs)"
  have d: "distinct (map f (remove_at k xs))"
    using exact_index_distinct [OF e] by (simp add: map_remove_at distinct_remove_at)
  define j where "j = f (remove_at k xs ! m)"
  have "map_of (reindex f k (remove_at k xs) (AList.delete i ix)) j \<noteq> None"
  proof (cases "m < k")
    case True
    then have j: "j = f (xs ! m)" using m kl by (simp add: j_def nth_remove_at)
    then have "map_of ix j = Some m" using exact_indexD(2) [OF e, of m] m kl by simp
    moreover have "j \<noteq> i" using True j kl exact_index_inj [OF e, of m k] m by auto
    ultimately show ?thesis
      using reindex_lookup [of f k "remove_at k xs" "AList.delete i ix" j] by (auto simp: delete_conv')
  next
    case False
    then have "\<not> (\<forall>n. k \<le> n \<longrightarrow> n < length (remove_at k xs) \<longrightarrow> f (remove_at k xs ! n) \<noteq> j)"
      using m unfolding j_def by (metis not_less)
    then show ?thesis using reindex_lookup [of f k "remove_at k xs" "AList.delete i ix" j] by auto
  qed
  then obtain n where n: "map_of (reindex f k (remove_at k xs) (AList.delete i ix)) j = Some n" by auto
  then have "n < length (remove_at k xs)" "f (remove_at k xs ! n) = j"
    using sound_indexD [OF sound_index_remove [OF s k]] by auto
  then have "n = m" using d m by (auto simp: distinct_conv_nth j_def)
  with n show "map_of (reindex f k (remove_at k xs) (AList.delete i ix)) (f (remove_at k xs ! m)) = Some m"
    by (simp add: j_def)
qed

section \<open>The contract\<close>

definition coll_ok :: "('t, 'f, 'h) CollectionStore \<Rightarrow> bool" where
  "coll_ok s \<longleftrightarrow> sound_index (cs_identify s) (cs_items s) (cs_index s) \<and> wf_set (cs_invalidations s)"

definition coll_exact :: "('t, 'f, 'h) CollectionStore \<Rightarrow> bool" where
  "coll_exact s \<longleftrightarrow> exact_index (cs_identify s) (cs_items s) (cs_index s)"

lemma coll_mutate_ok: "coll_ok s \<Longrightarrow> coll_mutate m s = (n, s') \<Longrightarrow> coll_ok s'"
  by (cases m) (auto simp: coll_ok_def coll_defs sound_reindex_all
      intro: sound_index_append sound_index_overwrite sound_index_remove split: option.splits if_splits)

interpretation coll_store: versioned_store coll_ok "\<lambda>s. Current (cs_version s)" coll_mutate
proof unfold_locales
  fix s s' :: "('t, 'f, 'h) CollectionStore" and m :: "'t coll_op" and n x
  show "coll_ok s \<Longrightarrow> coll_mutate m s = (n, s') \<Longrightarrow> coll_ok s'" by (rule coll_mutate_ok)
  show "coll_mutate m s = (None, s') \<Longrightarrow> s' = s"
    by (cases m) (auto simp: coll_defs split: option.splits if_splits)
  show "coll_mutate m s = (Some x, s') \<Longrightarrow> Current (cs_version s') = Current (cs_version s) + 1"
    by (cases m) (auto simp: coll_defs split: option.splits if_splits)
qed

text \<open>The list of items as an abstract keyed list.\<close>

fun coll_spec :: "('t \<Rightarrow> ItemID) \<Rightarrow> 't coll_op \<Rightarrow> 't list \<Rightarrow> 't list" where
  "coll_spec f (CInsert x) xs =
     (if f x \<in> f ` set xs then map (\<lambda>y. if f y = f x then x else y) xs else xs @ [x])"
| "coll_spec f (CRemove i) xs = filter (\<lambda>y. f y \<noteq> i) xs"
| "coll_spec f (CUpdate x) xs = map (\<lambda>y. if f y = f x then x else y) xs"
| "coll_spec f (CReplace ys) xs = ys"

fun coll_op_distinct :: "('t \<Rightarrow> ItemID) \<Rightarrow> 't coll_op \<Rightarrow> bool" where
  "coll_op_distinct f (CReplace ys) = distinct (map f ys)"
| "coll_op_distinct f _ = True"

lemma exact_lookup_None: "exact_index f xs ix \<Longrightarrow> map_of ix i = None \<longleftrightarrow> i \<notin> f ` set xs"
proof
  assume e: "exact_index f xs ix" and "map_of ix i = None"
  then show "i \<notin> f ` set xs" using exact_indexD(2) [OF e] by (auto simp: in_set_conv_nth)
next
  assume e: "exact_index f xs ix" and i: "i \<notin> f ` set xs"
  show "map_of ix i = None"
  proof (rule ccontr)
    assume "map_of ix i \<noteq> None"
    then obtain k where "map_of ix i = Some k" by auto
    from sound_indexD [OF exact_indexD(1) [OF e] this] i show False by auto
  qed
qed

lemma exact_overwrite_map:
  assumes e: "exact_index f xs ix" and k: "map_of ix (f x) = Some k"
  shows "xs[k := x] = map (\<lambda>y. if f y = f x then x else y) xs"
proof (rule nth_equalityI)
  fix j assume j: "j < length (xs[k := x])"
  have kl: "k < length xs" "f (xs ! k) = f x" using sound_indexD [OF exact_indexD(1) [OF e] k] by auto
  show "xs[k := x] ! j = map (\<lambda>y. if f y = f x then x else y) xs ! j"
    using j kl exact_index_inj [OF e, of j k] by (cases "j = k") auto
qed simp

lemma exact_remove_filter:
  assumes e: "exact_index f xs ix" and k: "map_of ix i = Some k"
  shows "remove_at k xs = filter (\<lambda>y. f y \<noteq> i) xs"
proof (rule remove_at_filter)
  have kl: "k < length xs" "f (xs ! k) = i" using sound_indexD [OF exact_indexD(1) [OF e] k] by auto
  show u: "j = k" if "j < length xs" "f (xs ! j) = i" for j using exact_index_inj [OF e that(1) kl(1)] that kl by simp
  have "f (xs ! j) \<noteq> i" if "j < k" for j using u [of j] that kl(1) by auto
  then show "find_index (\<lambda>y. f y = i) xs = Some k" using kl by (simp add: find_index_Some)
qed

lemma map_if_absent: "i \<notin> f ` set xs \<Longrightarrow> map (\<lambda>y. if f y = i then x else y) xs = xs"
  by (rule map_idI) auto

lemma coll_mutate_exact:
  assumes e: "coll_exact s" and d: "coll_op_distinct (cs_identify s) m" and m: "coll_mutate m s = (n, s')"
  shows "coll_exact s' \<and> cs_identify s' = cs_identify s \<and> cs_items s' = coll_spec (cs_identify s) m (cs_items s)"
proof -
  note e' = e [unfolded coll_exact_def]
  note present = exact_lookup_None [OF e'] and sd = sound_indexD [OF exact_indexD(1) [OF e']]
  show ?thesis
  proof (cases m)
    case (CInsert x)
    show ?thesis
    proof (cases "map_of (cs_index s) (cs_identify s x)")
      case None
      then have "cs_identify s x \<notin> cs_identify s ` set (cs_items s)" using present [of "cs_identify s x"] by simp
      with None show ?thesis
        using CInsert m exact_index_append [OF e' None] by (auto simp: coll_exact_def coll_defs)
    next
      case (Some k)
      moreover from Some have "cs_identify s x \<in> cs_identify s ` set (cs_items s)" using present [of "cs_identify s x"] by simp
      ultimately show ?thesis
        using CInsert m exact_index_overwrite [OF e' Some] exact_overwrite_map [OF e' Some] by (auto simp: coll_exact_def coll_defs)
    qed
  next
    case (CRemove i)
    show ?thesis
    proof (cases "map_of (cs_index s) i")
      case None
      then have "filter (\<lambda>y. cs_identify s y \<noteq> i) (cs_items s) = cs_items s" using present [of i] by (auto simp: filter_id_conv)
      then show ?thesis using None CRemove m e by (simp add: coll_defs)
    next
      case (Some k)
      then show ?thesis
        using CRemove m sd [OF Some] exact_index_remove [OF e' Some] exact_remove_filter [OF e' Some]
        by (auto simp: coll_exact_def coll_defs)
    qed
  next
    case (CUpdate x)
    show ?thesis
    proof (cases "map_of (cs_index s) (cs_identify s x)")
      case None
      then show ?thesis using CUpdate m e present [of "cs_identify s x"] by (simp add: coll_defs map_if_absent)
    next
      case (Some k)
      then show ?thesis
        using CUpdate m sd [OF Some] exact_index_overwrite [OF e' Some] exact_overwrite_map [OF e' Some]
        by (auto simp: coll_exact_def coll_defs)
    qed
  next
    case (CReplace ys)
    then show ?thesis using m d by (auto simp: coll_exact_def coll_defs exact_reindex_all)
  qed
qed

lemma coll_lookup_exact:
  assumes "coll_exact s"
  shows "coll_lookup i s = find (\<lambda>x. cs_identify s x = i) (cs_items s)"
proof (cases "map_of (cs_index s) i")
  case None
  then have "i \<notin> cs_identify s ` set (cs_items s)" using exact_lookup_None [OF assms [unfolded coll_exact_def], of i] by simp
  then show ?thesis using None by (auto simp: coll_lookup_def find_None_iff2)
next
  case (Some k)
  note e = assms [unfolded coll_exact_def]
  have k: "k < length (cs_items s)" "cs_identify s (cs_items s ! k) = i"
    using sound_indexD [OF exact_indexD(1) [OF e] Some] by auto
  have "find (\<lambda>x. cs_identify s x = i) (cs_items s) = Some (cs_items s ! k)"
    unfolding find_Some_iff
  proof (intro exI [of _ k] conjI allI impI)
    fix j assume "j < k"
    then show "cs_identify s (cs_items s ! j) \<noteq> i" using k exact_index_inj [OF e, of j k] by auto
  qed (use k in auto)
  then show ?thesis using Some k by (simp add: coll_lookup_def)
qed

section \<open>Properties\<close>

text \<open>
  C13: A collection refines an ordered list of items with distinct identifiers. From a
  collection whose index is exact, any sequence of mutations in which every replacement has
  distinct identifiers leaves the items that the abstract list operations give: inserting
  overwrites the item of the same identifier in place or appends, removing filters it out,
  updating overwrites it or does nothing. The index stays exact, so that a lookup finds the item
  with the identifier and no other, and every access through the index is in range.
\<close>

theorem collection_refines:
  assumes "coll_exact s" and "list_all (coll_op_distinct (cs_identify s)) ms"
    and "run_mutations coll_mutate ms s = (ns, s')"
  shows "cs_items s' = fold (coll_spec (cs_identify s)) ms (cs_items s) \<and> distinct (map (cs_identify s) (cs_items s')) \<and>
    (\<forall>i. coll_lookup i s' = find (\<lambda>x. cs_identify s x = i) (cs_items s')) \<and>
    (\<forall>i k. map_of (cs_index s') i = Some k \<longrightarrow> k < length (cs_items s'))"
proof -
  have r: "coll_exact s' \<and> cs_identify s' = cs_identify s \<and> cs_items s' = fold (coll_spec (cs_identify s)) ms (cs_items s)"
    using assms
  proof (induction ms arbitrary: s ns)
    case (Cons m ms)
    obtain n s1 where m: "coll_mutate m s = (n, s1)" by (cases "coll_mutate m s")
    obtain ns' where r: "run_mutations coll_mutate ms s1 = (ns', s')" using Cons.prems(3) m by (auto split: prod.splits)
    have e: "coll_exact s1" "cs_identify s1 = cs_identify s" "cs_items s1 = coll_spec (cs_identify s) m (cs_items s)"
      using coll_mutate_exact [OF Cons.prems(1) _ m] Cons.prems(2) by auto
    show ?case using Cons.IH [OF e(1) _ r] Cons.prems(2) e by simp
  qed simp
  note e = r [THEN conjunct1, unfolded coll_exact_def]
  show ?thesis
    using r coll_lookup_exact [of s'] exact_index_distinct [OF e] sound_indexD [OF exact_indexD(1) [OF e]] by simp
qed

definition sample_coll :: "(nat \<times> nat, nat, nat) CollectionStore" where
  "sample_coll = \<lparr>cs_scope = 0, cs_version = \<lparr>v_current = 0\<rparr>, cs_identify = (\<lambda>x. of_nat (fst x)), cs_items = [],
     cs_index = [], cs_invalidations = empty_set, cs_onInsert = NewSignal [], cs_onRemove = NewSignal [],
     cs_onUpdate = NewSignal [], cs_onReplace = NewSignal []\<rparr>"

definition sample_ops :: "(nat \<times> nat) coll_op list" where
  "sample_ops = [CReplace [(1, 10), (2, 20)], CInsert (3, 30), CInsert (2, 21), CRemove 1]"

lemma sample_coll_exact: "coll_exact sample_coll" "coll_ok sample_coll"
  by (simp_all add: coll_exact_def coll_ok_def sample_coll_def exact_index_def sound_index_def)

theorem collection_refines_witness:
  "cs_items (snd (run_mutations coll_mutate sample_ops sample_coll)) = [(2, 21), (3, 30)]"
proof -
  obtain ns s' where r: "run_mutations coll_mutate sample_ops sample_coll = (ns, s')"
    by (cases "run_mutations coll_mutate sample_ops sample_coll")
  have d: "list_all (coll_op_distinct (cs_identify sample_coll)) sample_ops"
    by (simp add: sample_ops_def sample_coll_def)
  have "cs_items s' = fold (coll_spec (cs_identify sample_coll)) sample_ops (cs_items sample_coll)"
    using collection_refines [OF sample_coll_exact(1) d r] by simp
  also have "\<dots> = [(2, 21), (3, 30)]" by (simp add: sample_coll_def sample_ops_def)
  finally show ?thesis using r by simp
qed

lemma Page_take_drop:
  assumes "int (length (cs_items s)) \<le> maxInt - 256" and "0 \<le> offset" "1 \<le> limit" "limit \<le> 256"
  shows "Page offset limit s =
    Inr (take (nat limit) (drop (nat offset) (cs_items s)), length (cs_items s), Current (cs_version s))"
proof (cases "int (length (cs_items s)) \<le> offset")
  case False
  then have w: "wrap_int (offset + limit) = offset + limit"
    using assms by (simp add: wrap_int_def maxInt_def)
  show ?thesis
  proof (cases "int (length (cs_items s)) \<le> offset + limit")
    case True
    then show ?thesis using False assms w by (simp add: Page_def Let_def)
  next
    case c: False
    then show ?thesis using False assms w by (simp add: Page_def Let_def)
  qed
qed (use assms in \<open>simp add: Page_def\<close>)

lemma pages_concat: "concat (map (\<lambda>k. take n (drop (k * n) xs)) [0 ..< m]) = take (m * n) xs"
  by (induction m) (simp_all add: add.commute flip: take_add)

text \<open>
  C14: Pages are bounded and cover the collection exactly once. For a collection whose length
  leaves room for one page below the largest integer, a page request with a non-negative offset
  and a limit of at most 256 returns the items from the offset on, at most \<open>limit\<close> of them, with
  the number of all items and the version; reading page after page gives all the items in order
  without repetition. Every other request panics.
\<close>

theorem Page_bounded_and_complete:
  assumes "int (length (cs_items s)) \<le> maxInt - 256"
  shows "(if 0 \<le> offset \<and> 1 \<le> limit \<and> limit \<le> 256
      then \<exists>page. Page offset limit s = Inr (page, length (cs_items s), Current (cs_version s)) \<and> length page \<le> nat limit \<and>
        page = take (nat limit) (drop (nat offset) (cs_items s))
      else Page offset limit s = Inl PageArguments) \<and>
    (\<forall>n m. 1 \<le> n \<and> n \<le> 256 \<and> length (cs_items s) \<le> m * n \<longrightarrow>
       concat (map (\<lambda>k. fst (projr (Page (int (k * n)) (int n) s))) [0 ..< m]) = cs_items s)"
proof (intro conjI allI impI)
  show "if 0 \<le> offset \<and> 1 \<le> limit \<and> limit \<le> 256
      then \<exists>page. Page offset limit s = Inr (page, length (cs_items s), Current (cs_version s)) \<and> length page \<le> nat limit \<and>
        page = take (nat limit) (drop (nat offset) (cs_items s))
      else Page offset limit s = Inl PageArguments"
    using Page_take_drop [OF assms, of offset limit] by (auto simp: Page_def)
next
  fix n m :: nat assume n: "1 \<le> n \<and> n \<le> 256 \<and> length (cs_items s) \<le> m * n"
  have "fst (projr (Page (int (k * n)) (int n) s)) = take n (drop (k * n) (cs_items s))" for k
    using Page_take_drop [OF assms, of "int (k * n)" "int n"] n by (simp flip: of_nat_mult)
  then show "concat (map (\<lambda>k. fst (projr (Page (int (k * n)) (int n) s))) [0 ..< m]) = cs_items s"
    using n pages_concat [of n "cs_items s" m] by simp
qed

theorem Page_bounded_and_complete_witness:
  "Page 1 2 (sample_coll\<lparr>cs_items := [(1, 10), (2, 20), (3, 30), (4, 40)]\<rparr>) = Inr ([(2, 20), (3, 30)], 4, 0)"
  using Page_bounded_and_complete [of "sample_coll\<lparr>cs_items := [(1, 10), (2, 20), (3, 30), (4, 40)]\<rparr>" 1 2]
  by (simp add: maxInt_def sample_coll_def Current_def)

end
