(* ===== verification/Derived.thy ===== *)
theory Derived
  imports Value_Store
begin

text \<open>
  Derived values: \<^verbatim>\<open>src/store/derived.go\<close>, in a graph of value stores and derived values that share one
  tree of scopes. The author's compute function is a closure over the stores it reads; here it
  is a program of reads: it returns a value, or reads one source and goes on with what it found.
  Invalidation callbacks are the \<open>markDirty\<close> methods of derived values, so a callback is the address
  of the derived value. Queued deliveries are values of \<open>delivery\<close>; what subscribers of the signals do
  is an argument of \<open>run_delivery\<close>. Reading a derived value may compute others first; the
  recursion carries fuel, of which the length of the longest chain of dependencies is enough.
\<close>

section \<open>State\<close>

datatype src = SVal nat | SDer nat

datatype 't compute = Return 't | ReadSrc src "'t \<Rightarrow> 't compute"

record ('t, 'h) Derived =
  d_scope :: nat
  d_version :: VersionSource
  d_compute :: "'t compute option"
  d_rank :: u64
  d_sequence :: u64
  d_value :: 't
  d_dirty :: bool
  d_initialized :: bool
  d_sourceVersions :: "Version list"
  d_sources :: "src list"
  d_releases :: "Subscription list"
  d_invalidations :: "nat invalidationSet"
  d_OnChange :: "'h signal"
  d_OnInvalidated :: "'h signal"

record ('t, 'h) Graph =
  g_values :: "('t, nat, 'h) ValueStore list"
  g_derived :: "('t, 'h) Derived list"

datatype 't delivery =
    ValueChanged nat "(nat \<times> u64) list" "'t Change"
  | DerivedInvalidated nat "(nat \<times> u64) list"
  | DerivedChanged nat "'t Change"

type_synonym ('t, 'h) reactive = "('t delivery, src, ('t, 'h) Graph) Scopes"

abbreviation val_at :: "('t, 'h) reactive \<Rightarrow> nat \<Rightarrow> ('t, nat, 'h) ValueStore" where
  "val_at H a \<equiv> g_values (h_world H) ! a"

abbreviation der_at :: "('t, 'h) reactive \<Rightarrow> nat \<Rightarrow> ('t, 'h) Derived" where
  "der_at H d \<equiv> g_derived (h_world H) ! d"

definition put_value :: "nat \<Rightarrow> ('t, nat, 'h) ValueStore \<Rightarrow> ('t, 'h) reactive \<Rightarrow> ('t, 'h) reactive" where
  "put_value a s H = H\<lparr>h_world := (h_world H)\<lparr>g_values := (g_values (h_world H))[a := s]\<rparr>\<rparr>"

definition put_derived :: "nat \<Rightarrow> ('t, 'h) Derived \<Rightarrow> ('t, 'h) reactive \<Rightarrow> ('t, 'h) reactive" where
  "put_derived d x H = H\<lparr>h_world := (h_world H)\<lparr>g_derived := (g_derived (h_world H))[d := x]\<rparr>\<rparr>"

section \<open>Sources\<close>

fun storeScope :: "('t, 'h) reactive \<Rightarrow> src \<Rightarrow> nat" where
  "storeScope H (SVal a) = vs_scope (val_at H a)"
| "storeScope H (SDer d) = d_scope (der_at H d)"

fun current_version :: "('t, 'h) reactive \<Rightarrow> src \<Rightarrow> Version" where
  "current_version H (SVal a) = Current (vs_version (val_at H a))"
| "current_version H (SDer d) = Current (d_version (der_at H d))"

definition source_Version :: "('t, 'h) reactive \<Rightarrow> src \<Rightarrow> store_panic + Version" where
  "source_Version H s =
     (case assertUsable (storeScope H s) H of Some p \<Rightarrow> Inl p | None \<Rightarrow> Inr (current_version H s))"

definition scopeRank :: "('t, 'h) reactive \<Rightarrow> nat \<Rightarrow> u64" where
  "scopeRank H d = d_rank (der_at H d)"

definition scopeSequence :: "('t, 'h) reactive \<Rightarrow> nat \<Rightarrow> u64" where
  "scopeSequence H d = d_sequence (der_at H d)"

definition declares :: "('t, 'h) reactive \<Rightarrow> nat \<Rightarrow> src \<Rightarrow> bool" where
  "declares H d source \<longleftrightarrow> list_ex (\<lambda>declared. declared = source) (d_sources (der_at H d))"

fun versions_differ :: "('t, 'h) reactive \<Rightarrow> src list \<Rightarrow> Version list \<Rightarrow> store_panic + bool" where
  "versions_differ H (s # ss) (v # vs) =
     (case source_Version H s of
        Inl p \<Rightarrow> Inl p
      | Inr u \<Rightarrow> if u \<noteq> v then Inr True else versions_differ H ss vs)"
| "versions_differ H _ _ = Inr False"

definition sourcesChangedLocked :: "nat \<Rightarrow> ('t, 'h) reactive \<Rightarrow> store_panic + bool" where
  "sourcesChangedLocked d H =
     (if length (d_sources (der_at H d)) \<noteq> length (d_sourceVersions (der_at H d)) then Inr True
      else versions_differ H (d_sources (der_at H d)) (d_sourceVersions (der_at H d)))"

fun snapshotSourceVersions :: "('t, 'h) reactive \<Rightarrow> src list \<Rightarrow> store_panic + Version list" where
  "snapshotSourceVersions H [] = Inr []"
| "snapshotSourceVersions H (s # ss) =
     (case source_Version H s of
        Inl p \<Rightarrow> Inl p
      | Inr v \<Rightarrow> (case snapshotSourceVersions H ss of Inl p \<Rightarrow> Inl p | Inr vs \<Rightarrow> Inr (v # vs)))"

fun source_add :: "src \<Rightarrow> nat option \<Rightarrow> ('t, 'h) reactive \<Rightarrow> store_panic + Subscription \<times> ('t, 'h) reactive" where
  "source_add (SVal a) fn H =
     (case inv_add fn (vs_invalidations (val_at H a)) of
        None \<Rightarrow> Inl SubscriptionsExhausted
      | Some (sub, i) \<Rightarrow> Inr (sub, put_value a ((val_at H a)\<lparr>vs_invalidations := i\<rparr>) H))"
| "source_add (SDer d) fn H =
     (case inv_add fn (d_invalidations (der_at H d)) of
        None \<Rightarrow> Inl SubscriptionsExhausted
      | Some (sub, i) \<Rightarrow> Inr (sub, put_derived d ((der_at H d)\<lparr>d_invalidations := i\<rparr>) H))"

fun source_release :: "src \<Rightarrow> Subscription \<Rightarrow> ('t, 'h) reactive \<Rightarrow> ('t, 'h) reactive" where
  "source_release (SVal a) sub H =
     put_value a ((val_at H a)\<lparr>vs_invalidations := snd (Subscription_Release sub (vs_invalidations (val_at H a)))\<rparr>) H"
| "source_release (SDer d) sub H =
     put_derived d ((der_at H d)\<lparr>d_invalidations := snd (Subscription_Release sub (d_invalidations (der_at H d)))\<rparr>) H"

section \<open>Construction\<close>

text \<open>The loop over the declared sources: the list of sources and the rank above them.\<close>

fun collect_sources :: "nat \<Rightarrow> ('t, 'h) reactive \<Rightarrow> src option list \<Rightarrow> src list \<Rightarrow> u64 \<Rightarrow> store_panic + src list \<times> u64" where
  "collect_sources scope H [] acc rank = Inr (acc, rank)"
| "collect_sources scope H (None # ss) acc rank = Inl NilSource"
| "collect_sources scope H (Some s # ss) acc rank =
     (if \<not> ancestorOf (storeScope H s) scope H then Inl ForeignSource
      else collect_sources scope H ss (acc @ [s])
             (case s of SVal _ \<Rightarrow> rank | SDer d \<Rightarrow> if rank < scopeRank H d + 1 then scopeRank H d + 1 else rank))"

fun subscribe_all :: "nat \<Rightarrow> src list \<Rightarrow> ('t, 'h) reactive \<Rightarrow> store_panic + Subscription list \<times> ('t, 'h) reactive" where
  "subscribe_all d [] H = Inr ([], H)"
| "subscribe_all d (s # ss) H =
     (case source_add s (Some d) H of
        Inl p \<Rightarrow> Inl p
      | Inr (sub, H1) \<Rightarrow>
          (case subscribe_all d ss H1 of Inl p \<Rightarrow> Inl p | Inr (subs, H2) \<Rightarrow> Inr (sub # subs, H2)))"

definition NewDerived :: "'t \<Rightarrow> nat option \<Rightarrow> 't compute option \<Rightarrow> src option list \<Rightarrow> ('t, 'h) reactive \<Rightarrow>
    store_panic + nat \<times> ('t, 'h) reactive" where
  "NewDerived zero scope compute sources H =
     (case requireScope scope H of
        Some p \<Rightarrow> Inl p
      | None \<Rightarrow>
          if Option.is_none compute then Inl NilCompute
          else (case collect_sources (the scope) H sources [] 0 of
            Inl p \<Rightarrow> Inl p
          | Inr (srcs, rank) \<Rightarrow>
              let d = length (g_derived (h_world H)) in
              (case registerDerived (Some d) (the scope) H of
                 Inl p \<Rightarrow> Inl p
               | Inr (sequence, H1) \<Rightarrow>
                   let x = \<lparr>d_scope = the scope, d_version = \<lparr>v_current = 0\<rparr>, d_compute = compute, d_rank = rank,
                            d_sequence = sequence, d_value = zero, d_dirty = True, d_initialized = False, d_sourceVersions = [],
                            d_sources = srcs, d_releases = [], d_invalidations = empty_set,
                            d_OnChange = NewSignal ''Derived.OnChange'', d_OnInvalidated = NewSignal ''Derived.OnInvalidated''\<rparr>;
                       H2 = H1\<lparr>h_world := (h_world H1)\<lparr>g_derived := g_derived (h_world H1) @ [x]\<rparr>\<rparr>
                   in (case subscribe_all d srcs H2 of
                         Inl p \<Rightarrow> Inl p
                       | Inr (subs, H3) \<Rightarrow>
                           (case addResource (Some (SDer d)) (the scope) (put_derived d ((der_at H3 d)\<lparr>d_releases := subs\<rparr>) H3) of
                              Inl p \<Rightarrow> Inl p
                            | Inr H4 \<Rightarrow> Inr (d, H4))))))"

section \<open>Invalidation\<close>

definition markDirty :: "nat \<Rightarrow> ('t, 'h) reactive \<Rightarrow> ('t, 'h) reactive" where
  "markDirty d H =
     (let x = der_at H d;
          wasClean = (d_initialized x \<and> \<not> d_dirty x);
          H1 = put_derived d (x\<lparr>d_dirty := True\<rparr>) H;
          H2 = enqueueDerived (Some (d_scope x)) (Some d) H1
      in if wasClean then enqueueSignal (DerivedInvalidated d (inv_snapshot (d_invalidations (der_at H2 d)))) (d_scope x) H2
         else H2)"

text \<open>Calling the callbacks of a snapshot; each looks up its slot when it is called.\<close>

definition fire_callbacks :: "(('t, 'h) reactive \<Rightarrow> nat invalidationSet) \<Rightarrow> (nat \<times> u64) list \<Rightarrow> ('t, 'h) reactive \<Rightarrow> ('t, 'h) reactive" where
  "fire_callbacks invs cbs H =
     fold (\<lambda>cb H. case inv_fire cb (invs H) of None \<Rightarrow> H | Some d \<Rightarrow> markDirty d H) cbs H"

text \<open>A queued delivery: the invalidations first, then the signal, whose handlers are \<open>emit\<close>.\<close>

fun run_delivery :: "('t delivery \<Rightarrow> ('t, 'h) reactive \<Rightarrow> ('t, 'h) reactive) \<Rightarrow> 't delivery \<Rightarrow>
    ('t, 'h) reactive \<Rightarrow> store_panic + ('t, 'h) reactive" where
  "run_delivery emit (ValueChanged a cbs c) H =
     Inr (emit (ValueChanged a cbs c) (fire_callbacks (\<lambda>H. vs_invalidations (val_at H a)) cbs H))"
| "run_delivery emit (DerivedInvalidated d cbs) H =
     Inr (emit (DerivedInvalidated d cbs) (fire_callbacks (\<lambda>H. d_invalidations (der_at H d)) cbs H))"
| "run_delivery emit (DerivedChanged d c) H = Inr (emit (DerivedChanged d c) H)"

section \<open>Reading\<close>

primrec run_compute :: "(src \<Rightarrow> ('t, 'h) reactive \<Rightarrow> store_panic + 't \<times> ('t, 'h) reactive) \<Rightarrow> 't compute \<Rightarrow>
    ('t, 'h) reactive \<Rightarrow> store_panic + 't \<times> ('t, 'h) reactive" where
  "run_compute read (Return v) H = Inr (v, H)"
| "run_compute read (ReadSrc s k) H =
     (case read s H of Inl p \<Rightarrow> Inl p | Inr (v, H1) \<Rightarrow> run_compute read (k v) H1)"

definition read_value :: "nat \<Rightarrow> ('t, 'h) reactive \<Rightarrow> store_panic + 't \<times> ('t, 'h) reactive" where
  "read_value a H =
     (case assertDerivedReadAllowed (declares H) (SVal a) (vs_scope (val_at H a)) H of
        Some p \<Rightarrow> Inl p
      | None \<Rightarrow> Inr (vs_value (val_at H a), H))"

fun read_source :: "(nat \<Rightarrow> ('t, 'h) reactive \<Rightarrow> store_panic + 't \<times> ('t, 'h) reactive) \<Rightarrow> src \<Rightarrow>
    ('t, 'h) reactive \<Rightarrow> store_panic + 't \<times> ('t, 'h) reactive" where
  "read_source get (SVal a) H = read_value a H"
| "read_source get (SDer d) H = get d H"

text \<open>What \<open>Get\<close> does once the new value is computed.\<close>

definition store_computed :: "nat \<Rightarrow> 't \<Rightarrow> ('t, 'h) reactive \<Rightarrow> store_panic + 't \<times> ('t, 'h) reactive" where
  "store_computed d v H =
     (case snapshotSourceVersions H (d_sources (der_at H d)) of
        Inl p \<Rightarrow> Inl p
      | Inr vs \<Rightarrow>
          let x = der_at H d;
              x' = x\<lparr>d_value := v, d_initialized := True, d_dirty := False, d_sourceVersions := vs, d_version := bump (d_version x)\<rparr>;
              H1 = recordDerivedRecompute (d_scope x) (put_derived d x' H);
              H2 = fire_callbacks (\<lambda>H. d_invalidations (der_at H d)) (inv_snapshot (d_invalidations x')) H1
          in Inr (v, enqueueSignal (DerivedChanged d \<lparr>Old = d_value x, New = v\<rparr>) (d_scope x) H2))"

fun Derived_Get :: "'t \<Rightarrow> nat \<Rightarrow> nat \<Rightarrow> ('t, 'h) reactive \<Rightarrow> store_panic + 't \<times> ('t, 'h) reactive" where
  "Derived_Get zero 0 d H = Inl OutOfFuel"
| "Derived_Get zero (Suc n) d H =
     (let sc = d_scope (der_at H d) in
      case assertDerivedReadAllowed (declares H) (SDer d) sc H of
        Some p \<Rightarrow> Inl p
      | None \<Rightarrow>
        (let H1 = recordDerivedGet False sc H; x = der_at H1 d in
         case (if d_initialized x \<and> \<not> d_dirty x then sourcesChangedLocked d H1 else Inr True) of
           Inl p \<Rightarrow> Inl p
         | Inr False \<Rightarrow> Inr (d_value x, H1)
         | Inr True \<Rightarrow>
             (case d_compute x of
                None \<Rightarrow> Inr (zero, H1)
              | Some prog \<Rightarrow>
                  (case pushComputing sc d H1 of
                     Inl p \<Rightarrow> Inl p
                   | Inr H2 \<Rightarrow>
                       (case run_compute (read_source (Derived_Get zero n)) prog H2 of
                          Inl p \<Rightarrow> Inl p
                        | Inr (v, H3) \<Rightarrow>
                            (case popComputing sc d H3 of
                               Inl p \<Rightarrow> Inl p
                             | Inr H4 \<Rightarrow> store_computed d v H4))))))"

declare Derived_Get.simps [simp del]

definition Peek :: "nat \<Rightarrow> ('t, 'h) reactive \<Rightarrow> store_panic + 't \<times> bool" where
  "Peek d H =
     (let x = der_at H d in
      case assertUsable (d_scope x) H of
        Some p \<Rightarrow> Inl p
      | None \<Rightarrow>
          (case (if d_dirty x then Inr True else if d_initialized x then sourcesChangedLocked d H else Inr False) of
             Inl p \<Rightarrow> Inl p
           | Inr b \<Rightarrow> Inr (d_value x, b)))"

definition Derived_Version :: "nat \<Rightarrow> ('t, 'h) reactive \<Rightarrow> store_panic + Version" where
  "Derived_Version d H = source_Version H (SDer d)"

definition flushIfDirty :: "'t \<Rightarrow> nat \<Rightarrow> nat \<Rightarrow> ('t, 'h) reactive \<Rightarrow> store_panic + bool \<times> ('t, 'h) reactive" where
  "flushIfDirty zero n d H =
     (let x = der_at H d in
      case (if \<not> d_initialized x \<or> d_dirty x then Inr True else sourcesChangedLocked d H) of
        Inl p \<Rightarrow> Inl p
      | Inr False \<Rightarrow> Inr (False, H)
      | Inr True \<Rightarrow> (case Derived_Get zero n d H of Inl p \<Rightarrow> Inl p | Inr (v, H1) \<Rightarrow> Inr (True, H1)))"

definition Derived_closeScopeResource :: "'t \<Rightarrow> nat \<Rightarrow> ('t, 'h) reactive \<Rightarrow> ('t, 'h) reactive" where
  "Derived_closeScopeResource zero d H =
     (let x = der_at H d;
          H1 = fold (\<lambda>(s, sub). source_release s sub) (zip (d_sources x) (d_releases x)) H;
          x1 = der_at H1 d
      in put_derived d (x1\<lparr>d_releases := [], d_sources := [], d_sourceVersions := [], d_compute := None, d_value := zero,
           d_initialized := False, d_dirty := True, d_invalidations := inv_clear (d_invalidations x1),
           d_OnChange := UnsubscribeAll (d_OnChange x1), d_OnInvalidated := UnsubscribeAll (d_OnInvalidated x1)\<rparr>) H1)"

section \<open>Setting a value of the graph\<close>

definition Graph_Set :: "call_site \<Rightarrow> nat \<Rightarrow> 't \<Rightarrow> ('t, 'h) reactive \<Rightarrow> store_panic + ('t, 'h) reactive" where
  "Graph_Set site a v H =
     (case AssertRuntimeThread site of
        Some p \<Rightarrow> Inl p
      | None \<Rightarrow> (case AssertNotAnchorExporting site of
          Some p \<Rightarrow> Inl p
        | None \<Rightarrow> (case assertUsable (vs_scope (val_at H a)) H of
            Some p \<Rightarrow> Inl p
          | None \<Rightarrow> (case assertNotProjecting site of
              Some p \<Rightarrow> Inl p
            | None \<Rightarrow> (case value_mutate v (val_at H a) of
                (None, s) \<Rightarrow> Inr (put_value a s H)
              | (Some (cbs, c), s) \<Rightarrow> Inr (enqueueSignal (ValueChanged a cbs c) (vs_scope s) (put_value a s H)))))))"

section \<open>What a computation means\<close>

primrec eval :: "(src \<Rightarrow> 't) \<Rightarrow> 't compute \<Rightarrow> 't" where
  "eval \<sigma> (Return v) = v"
| "eval \<sigma> (ReadSrc s k) = eval \<sigma> (k (\<sigma> s))"

primrec reads_only :: "src set \<Rightarrow> 't compute \<Rightarrow> bool" where
  "reads_only S (Return v) \<longleftrightarrow> True"
| "reads_only S (ReadSrc s k) \<longleftrightarrow> s \<in> S \<and> (\<forall>v. reads_only S (k v))"

lemma eval_agree: "reads_only S prog \<Longrightarrow> (\<And>s. s \<in> S \<Longrightarrow> \<sigma> s = \<tau> s) \<Longrightarrow> eval \<sigma> prog = eval \<tau> prog"
  by (induction prog) auto

fun values_of :: "('t, 'h) reactive \<Rightarrow> src \<Rightarrow> 't" where
  "values_of H (SVal a) = vs_value (val_at H a)"
| "values_of H (SDer d) = d_value (der_at H d)"

text \<open>
  A derived value over value stores: its compute function reads declared sources only, and it and
  its sources live in usable scopes of one tree.
\<close>

definition usable_in :: "('t, 'h) reactive \<Rightarrow> nat \<Rightarrow> nat \<Rightarrow> bool" where
  "usable_in H g s \<longleftrightarrow> s < length (h_scopes H) \<and> \<not> closing H s \<and> sc_readGuard (scope_at H s) = g"

definition plain :: "nat \<Rightarrow> ('t, 'h) reactive \<Rightarrow> bool" where
  "plain d H \<longleftrightarrow> d < length (g_derived (h_world H)) \<and>
     (\<exists>g. g < length (h_guards H) \<and> usable_in H g (d_scope (der_at H d)) \<and>
       (\<forall>s \<in> set (d_sources (der_at H d)). \<exists>a. s = SVal a \<and> usable_in H g (vs_scope (val_at H a)))) \<and>
     (\<exists>prog. d_compute (der_at H d) = Some prog \<and> reads_only (set (d_sources (der_at H d))) prog)"

text \<open>
  The memo of a derived value: the recorded versions do not lie in the future, and when they are
  the present ones the stored value is what the computation gives now.
\<close>

definition memo_ok :: "nat \<Rightarrow> ('t, 'h) reactive \<Rightarrow> bool" where
  "memo_ok d H \<longleftrightarrow> (let x = der_at H d in d_initialized x \<longrightarrow>
     length (d_sourceVersions x) = length (d_sources x) \<and>
     (\<forall>i < length (d_sources x). d_sourceVersions x ! i \<le> current_version H (d_sources x ! i)) \<and>
     (d_sourceVersions x = map (current_version H) (d_sources x) \<longrightarrow> d_value x = eval (values_of H) (the (d_compute x))))"

definition graph_ok :: "('t, 'h) reactive \<Rightarrow> bool" where
  "graph_ok H \<longleftrightarrow> (\<forall>d. plain d H \<longrightarrow> memo_ok d H)"

section \<open>Changes that keep the graph\<close>

text \<open>
  Queueing, counting and marking change no value, no version and no scope state: at most the dirty
  flags of derived values.
\<close>

definition mild :: "('t, 'h) reactive \<Rightarrow> ('t, 'h) reactive \<Rightarrow> bool" where
  "mild H H' \<longleftrightarrow> g_values (h_world H') = g_values (h_world H) \<and> h_guards H' = h_guards H \<and>
     length (g_derived (h_world H')) = length (g_derived (h_world H)) \<and>
     (\<forall>d. \<exists>b. der_at H' d = (der_at H d)\<lparr>d_dirty := b\<rparr>) \<and>
     length (h_scopes H') = length (h_scopes H) \<and>
     (\<forall>s. sc_state (scope_at H' s) = sc_state (scope_at H s) \<and> sc_readGuard (scope_at H' s) = sc_readGuard (scope_at H s))"

lemma same_dirty: "\<exists>b. (x :: ('t, 'h) Derived) = x\<lparr>d_dirty := b\<rparr>"
  by (rule exI [of _ "d_dirty x"]) simp

lemma mild_refl [simp]: "mild H H"
  unfolding mild_def by (simp add: same_dirty)

lemma mild_trans:
  assumes "mild H H1" "mild H1 H2"
  shows "mild H H2"
proof -
  have "\<exists>b. der_at H2 d = (der_at H d)\<lparr>d_dirty := b\<rparr>" for d
  proof -
    obtain b c where "der_at H1 d = (der_at H d)\<lparr>d_dirty := b\<rparr>" "der_at H2 d = (der_at H1 d)\<lparr>d_dirty := c\<rparr>"
      using assms by (metis mild_def)
    then have "der_at H2 d = (der_at H d)\<lparr>d_dirty := c\<rparr>" by simp
    then show ?thesis ..
  qed
  then show ?thesis using assms by (simp add: mild_def)
qed

lemma mild_set_scope:
  assumes "sc_state sc = sc_state (scope_at H s)" "sc_readGuard sc = sc_readGuard (scope_at H s)"
  shows "mild H (set_scope s sc H)"
proof -
  have "sc_state ((h_scopes H)[s := sc] ! t) = sc_state (scope_at H t) \<and>
      sc_readGuard ((h_scopes H)[s := sc] ! t) = sc_readGuard (scope_at H t)" for t
    using assms by (cases "s < length (h_scopes H)"; cases "t = s") (auto simp: list_update_beyond)
  then show ?thesis by (simp add: mild_def set_scope_def same_dirty)
qed

lemma mild_scope_ops:
  "mild H (enqueueSignal n s H)" "mild H (enqueueDerived a b H)" "mild H (recordDerivedRecompute s H)"
  "mild H (recordDerivedGet False s H)"
  by (auto simp: enqueueSignal_def enqueueDerived_def recordDerivedRecompute_def recordDerivedGet_def Let_def
      intro!: mild_set_scope split: option.split)

lemma mild_put_dirty: "mild H (put_derived d ((der_at H d)\<lparr>d_dirty := b\<rparr>) H)"
proof -
  have "\<exists>c. (g_derived (h_world H))[d := (der_at H d)\<lparr>d_dirty := b\<rparr>] ! e = (der_at H e)\<lparr>d_dirty := c\<rparr>" for e
    by (cases "d < length (g_derived (h_world H))"; cases "e = d") (auto simp: list_update_beyond same_dirty)
  then show ?thesis by (simp add: mild_def put_derived_def)
qed

lemma mild_markDirty: "mild H (markDirty d H)"
proof -
  let ?H1 = "put_derived d ((der_at H d)\<lparr>d_dirty := True\<rparr>) H"
  let ?H2 = "enqueueDerived (Some (d_scope (der_at H d))) (Some d) ?H1"
  have "mild H ?H2" by (rule mild_trans [OF mild_put_dirty mild_scope_ops(2)])
  moreover from this have "mild H (enqueueSignal n s ?H2)" for n s by (rule mild_trans [OF _ mild_scope_ops(1)])
  ultimately show ?thesis by (simp add: markDirty_def Let_def)
qed

lemma mild_fire: "mild H (fire_callbacks invs cbs H)"
  unfolding fire_callbacks_def
proof (induction cbs arbitrary: H)
  case (Cons cb cbs)
  show ?case
  proof (cases "inv_fire cb (invs H)")
    case None
    then show ?thesis using Cons [of H] by simp
  next
    case (Some d)
    then show ?thesis using mild_trans [OF mild_markDirty Cons [of "markDirty d H"]] by simp
  qed
qed simp

lemma mild_der:
  assumes "mild H H'"
  shows "d_sources (der_at H' d) = d_sources (der_at H d)" "d_compute (der_at H' d) = d_compute (der_at H d)"
    "d_value (der_at H' d) = d_value (der_at H d)" "d_version (der_at H' d) = d_version (der_at H d)"
    "d_scope (der_at H' d) = d_scope (der_at H d)" "d_initialized (der_at H' d) = d_initialized (der_at H d)"
    "d_sourceVersions (der_at H' d) = d_sourceVersions (der_at H d)"
proof -
  obtain b where "der_at H' d = (der_at H d)\<lparr>d_dirty := b\<rparr>" using assms by (auto simp: mild_def)
  then show "d_sources (der_at H' d) = d_sources (der_at H d)" "d_compute (der_at H' d) = d_compute (der_at H d)"
    "d_value (der_at H' d) = d_value (der_at H d)" "d_version (der_at H' d) = d_version (der_at H d)"
    "d_scope (der_at H' d) = d_scope (der_at H d)" "d_initialized (der_at H' d) = d_initialized (der_at H d)"
    "d_sourceVersions (der_at H' d) = d_sourceVersions (der_at H d)" by simp_all
qed

lemma mild_reads:
  assumes "mild H H'"
  shows "values_of H' s = values_of H s" "current_version H' s = current_version H s" "usable_in H' g c = usable_in H g c"
proof -
  show "values_of H' s = values_of H s" "current_version H' s = current_version H s"
    using assms mild_der [OF assms] by (cases s; simp add: mild_def)+
  show "usable_in H' g c = usable_in H g c" using assms by (simp add: usable_in_def closing_def mild_def)
qed

lemma mild_plain: "mild H H' \<Longrightarrow> plain d H' = plain d H"
proof -
  assume m: "mild H H'"
  then have "g_values (h_world H') = g_values (h_world H)" "h_guards H' = h_guards H"
    "length (g_derived (h_world H')) = length (g_derived (h_world H))" by (simp_all add: mild_def)
  then show ?thesis by (simp add: plain_def mild_der [OF m] mild_reads [OF m])
qed

lemma mild_memo: "mild H H' \<Longrightarrow> memo_ok d H' = memo_ok d H"
proof -
  assume m: "mild H H'"
  have "values_of H' = values_of H" "current_version H' = current_version H" using mild_reads [OF m] by (simp_all add: fun_eq_iff)
  then show ?thesis by (simp add: memo_ok_def Let_def mild_der [OF m])
qed

lemma mild_graph: "mild H H' \<Longrightarrow> graph_ok H' = graph_ok H"
  by (simp add: graph_ok_def mild_plain mild_memo)

section \<open>Reading a derived value over value stores\<close>

lemma der_put [simp]:
  "d < length (g_derived (h_world H)) \<Longrightarrow> der_at (put_derived d x H) d = x"
  "e \<noteq> d \<Longrightarrow> der_at (put_derived d x H) e = der_at H e"
  "g_values (h_world (put_derived d x H)) = g_values (h_world H)" "h_scopes (put_derived d x H) = h_scopes H"
  "h_guards (put_derived d x H) = h_guards H"
  "length (g_derived (h_world (put_derived d x H))) = length (g_derived (h_world H))"
  by (simp_all add: put_derived_def)

lemma val_put [simp]:
  "a < length (g_values (h_world H)) \<Longrightarrow> val_at (put_value a s H) a = s"
  "b \<noteq> a \<Longrightarrow> val_at (put_value a s H) b = val_at H b"
  "g_derived (h_world (put_value a s H)) = g_derived (h_world H)" "h_scopes (put_value a s H) = h_scopes H"
  "h_guards (put_value a s H) = h_guards H" "length (g_values (h_world (put_value a s H))) = length (g_values (h_world H))"
  by (simp_all add: put_value_def)

lemma guard_put [simp]:
  "h_world (set_guard g st H) = h_world H" "h_scopes (set_guard g st H) = h_scopes H"
  "length (h_guards (set_guard g st H)) = length (h_guards H)"
  "g < length (h_guards H) \<Longrightarrow> h_guards (set_guard g st H) ! g = st"
  by (simp_all add: set_guard_def)

lemma usable_cong: "h_scopes H' = h_scopes H \<Longrightarrow> usable_in H' g s = usable_in H g s"
  by (simp add: usable_in_def closing_def)

lemma usable_facts:
  "usable_in H g s \<Longrightarrow> assertUsable s H = None" "usable_in H g s \<Longrightarrow> sc_readGuard (scope_at H s) = g"
  by (simp_all add: usable_in_def assertUsable_def)

text \<open>The memo depends only on the derived value and the value stores.\<close>

lemma memo_agree:
  assumes "plain d H" "der_at H' d = der_at H d" "g_values (h_world H') = g_values (h_world H)"
  shows "memo_ok d H' = memo_ok d H"
proof -
  let ?S = "d_sources (der_at H d)"
  obtain prog where p: "d_compute (der_at H d) = Some prog" "reads_only (set ?S) prog" using assms(1) by (auto simp: plain_def)
  have v: "\<forall>s \<in> set ?S. \<exists>a. s = SVal a" using assms(1) by (auto simp: plain_def)
  have same: "current_version H' s = current_version H s" "values_of H' s = values_of H s" if "s \<in> set ?S" for s
    using v that assms(3) by auto
  have e1: "map (current_version H') ?S = map (current_version H) ?S" using same(1) by simp
  have e2: "\<forall>i < length ?S. current_version H' (?S ! i) = current_version H (?S ! i)" using same(1) by simp
  have e3: "eval (values_of H') prog = eval (values_of H) prog" using eval_agree [OF p(2)] same(2) by blast
  show ?thesis unfolding memo_ok_def Let_def assms(2) e1 p(1) option.sel e3 using e2 by auto
qed

lemma run_plain:
  assumes "plain d H" "h_guards H ! sc_readGuard (scope_at H (d_scope (der_at H d))) = [d]"
    and "reads_only (set (d_sources (der_at H d))) prog"
  shows "run_compute (read_source get) prog H = Inr (eval (values_of H) prog, H)"
  using assms(3)
proof (induction prog)
  case (ReadSrc s k)
  obtain a g where a: "s = SVal a" "usable_in H g (vs_scope (val_at H a))" "usable_in H g (d_scope (der_at H d))"
    using assms(1) ReadSrc.prems by (auto simp: plain_def)
  have "declares H d (SVal a)" using ReadSrc.prems a(1) by (auto simp: declares_def list_ex_iff)
  then have "read_value a H = Inr (vs_value (val_at H a), H)"
    using a(2,3) assms(2) by (simp add: read_value_def assertDerivedReadAllowed_def usable_facts)
  then show ?case using ReadSrc a(1) by simp
qed simp

lemma snapshot_plain:
  "(\<forall>s \<in> set ss. assertUsable (storeScope H s) H = None) \<Longrightarrow> snapshotSourceVersions H ss = Inr (map (current_version H) ss)"
  by (induction ss) (auto simp: source_Version_def)

lemma differ_plain:
  "(\<forall>s \<in> set ss. assertUsable (storeScope H s) H = None) \<Longrightarrow> length vs = length ss \<Longrightarrow>
     versions_differ H ss vs = Inr (vs \<noteq> map (current_version H) ss)"
  by (induction ss vs rule: list_induct2') (auto simp: source_Version_def)

lemma plain_sources_usable: "plain d H \<Longrightarrow> \<forall>s \<in> set (d_sources (der_at H d)). assertUsable (storeScope H s) H = None"
  by (auto simp: plain_def usable_facts)

lemma plain_put_derived:
  assumes "plain e (put_derived d x H)" "d_scope x = d_scope (der_at H d)" "d_sources x = d_sources (der_at H d)"
    "d_compute x = d_compute (der_at H d)" "d < length (g_derived (h_world H))"
  shows "plain e H"
proof -
  have "d_scope (der_at (put_derived d x H) e) = d_scope (der_at H e)"
    "d_sources (der_at (put_derived d x H) e) = d_sources (der_at H e)"
    "d_compute (der_at (put_derived d x H) e) = d_compute (der_at H e)"
    using assms(2-5) by (cases "e = d"; simp)+
  then show ?thesis using assms(1) by (simp add: plain_def usable_cong [OF der_put(4)])
qed

text \<open>Storing a computed value keeps every memo right.\<close>

lemma store_computed_ok:
  assumes "plain d H" "graph_ok H" "d_compute (der_at H d) = Some prog" "v = eval (values_of H) prog"
  shows "\<exists>H'. store_computed d v H = Inr (v, H') \<and> graph_ok H' \<and> g_values (h_world H') = g_values (h_world H) \<and> h_guards H' = h_guards H \<and>
    d_value (der_at H' d) = v \<and> d_version (der_at H' d) = bump (d_version (der_at H d))"
proof -
  let ?x = "der_at H d"
  let ?vs = "map (current_version H) (d_sources ?x)"
  let ?x' = "?x\<lparr>d_value := v, d_initialized := True, d_dirty := False, d_sourceVersions := ?vs, d_version := bump (d_version ?x)\<rparr>"
  let ?P = "put_derived d ?x' H"
  have d: "d < length (g_derived (h_world H))" using assms(1) by (simp add: plain_def)
  have P: "graph_ok ?P"
    unfolding graph_ok_def
  proof (intro allI impI)
    fix e assume pe: "plain e ?P"
    then have e: "plain e H" by (rule plain_put_derived) (simp_all add: d)
    show "memo_ok e ?P"
    proof (cases "e = d")
      case False
      then show ?thesis using memo_agree [OF e, of ?P] assms(2) e by (simp add: graph_ok_def)
    next
      case True
      have v: "\<forall>s \<in> set (d_sources ?x). \<exists>a. s = SVal a" and r: "reads_only (set (d_sources ?x)) prog"
        using assms(1,3) by (auto simp: plain_def)
      have same: "current_version ?P s = current_version H s" "values_of ?P s = values_of H s" if "s \<in> set (d_sources ?x)" for s
        using v that by (auto simp: put_derived_def)
      have "eval (values_of ?P) prog = v" using eval_agree [OF r same(2)] assms(4) by simp
      then show ?thesis using True d assms(3) same(1) by (simp add: memo_ok_def Let_def)
    qed
  qed
  define H' where "H' = enqueueSignal (DerivedChanged d \<lparr>Old = d_value ?x, New = v\<rparr>) (d_scope ?x)
    (fire_callbacks (\<lambda>H. d_invalidations (der_at H d)) (inv_snapshot (d_invalidations ?x')) (recordDerivedRecompute (d_scope ?x) ?P))"
  have m: "mild ?P H'"
    unfolding H'_def by (rule mild_trans [OF mild_trans [OF mild_scope_ops(3) mild_fire] mild_scope_ops(1)])
  have "store_computed d v H = Inr (v, H')"
    by (simp add: store_computed_def snapshot_plain [OF plain_sources_usable [OF assms(1)]] Let_def H'_def)
  then show ?thesis using P m d mild_graph [OF m] mild_der [OF m, of d] by (simp add: mild_def)
qed

lemma plain_guard: "plain d (set_guard g st H) = plain d H"
  by (simp add: plain_def usable_cong [OF guard_put(2)])

lemma values_guard: "values_of (set_guard g st H) = values_of H"
proof
  fix s
  show "values_of (set_guard g st H) s = values_of H s" by (cases s) simp_all
qed

lemma Get_plain:
  assumes "plain d H" "graph_ok H" "d_compute (der_at H d) = Some prog"
    and "h_guards H ! sc_readGuard (scope_at H (d_scope (der_at H d))) = []"
  shows "\<exists>H'. Derived_Get zero (Suc n) d H = Inr (eval (values_of H) prog, H') \<and> graph_ok H' \<and>
    g_values (h_world H') = g_values (h_world H) \<and> h_guards H' = h_guards H"
proof -
  let ?sc = "d_scope (der_at H d)"
  define H1 where "H1 = recordDerivedGet False ?sc H"
  have m: "mild H H1" unfolding H1_def by (rule mild_scope_ops(4))
  define g where "g = sc_readGuard (scope_at H ?sc)"
  obtain u: "usable_in H g ?sc" and gl: "g < length (h_guards H)" using assms(1) by (auto simp: plain_def g_def usable_in_def)
  have p1: "plain d H1" "graph_ok H1" "memo_ok d H1" "d_compute (der_at H1 d) = Some prog" "values_of H1 = values_of H"
    "d_scope (der_at H1 d) = ?sc" "h_guards H1 = h_guards H" "g_values (h_world H1) = g_values (h_world H)" "usable_in H1 g ?sc"
  proof -
    show "plain d H1" "graph_ok H1" using assms(1,2) mild_plain [OF m] mild_graph [OF m] by simp_all
    then show "memo_ok d H1" by (simp add: graph_ok_def)
    show "d_compute (der_at H1 d) = Some prog" "d_scope (der_at H1 d) = ?sc" using assms(3) mild_der [OF m, of d] by simp_all
    show "values_of H1 = values_of H" using mild_reads(1) [OF m] by (rule ext)
    show "h_guards H1 = h_guards H" "g_values (h_world H1) = g_values (h_world H)" using m by (simp_all add: mild_def)
    show "usable_in H1 g ?sc" using u mild_reads(3) [OF m] by simp
  qed
  have allowed: "assertDerivedReadAllowed (declares H) (SDer d) ?sc H = None"
    using u assms(4) by (simp add: assertDerivedReadAllowed_def usable_facts)
  show ?thesis
  proof (cases "d_initialized (der_at H1 d) \<and> \<not> d_dirty (der_at H1 d) \<and>
      d_sourceVersions (der_at H1 d) = map (current_version H1) (d_sources (der_at H1 d))")
    case True
    then have "sourcesChangedLocked d H1 = Inr False"
      using differ_plain [OF plain_sources_usable [OF p1(1)]] by (simp add: sourcesChangedLocked_def)
    then have c: "(if d_initialized (der_at H1 d) \<and> \<not> d_dirty (der_at H1 d) then sourcesChangedLocked d H1 else Inr True) = Inr False"
      using True by simp
    have "Derived_Get zero (Suc n) d H = Inr (d_value (der_at H1 d), H1)"
      by (simp only: Derived_Get.simps Let_def allowed option.case H1_def [symmetric] c sum.case bool.case)
    moreover have "d_value (der_at H1 d) = eval (values_of H) prog" using True p1(3,4,5) by (simp add: memo_ok_def Let_def)
    ultimately show ?thesis using p1 by auto
  next
    case False
    then have ch: "(if d_initialized (der_at H1 d) \<and> \<not> d_dirty (der_at H1 d) then sourcesChangedLocked d H1 else Inr True) = Inr True"
      using differ_plain [OF plain_sources_usable [OF p1(1)]] by (auto simp: sourcesChangedLocked_def)
    have g1: "sc_readGuard (scope_at H1 ?sc) = g" "h_guards H1 ! g = []" using p1(7,9) assms(4) by (simp_all add: usable_facts g_def)
    then have push: "pushComputing ?sc d H1 = Inr (set_guard g [d] H1)" by (simp add: pushComputing_def Let_def)
    have "h_guards (set_guard g [d] H1) ! sc_readGuard (scope_at (set_guard g [d] H1) (d_scope (der_at (set_guard g [d] H1) d))) = [d]"
      using p1(6,7) g1 gl by simp
    moreover have "reads_only (set (d_sources (der_at (set_guard g [d] H1) d))) prog" using p1(1,4) by (auto simp: plain_def)
    ultimately have run: "run_compute (read_source (Derived_Get zero n)) prog (set_guard g [d] H1) =
        Inr (eval (values_of H) prog, set_guard g [d] H1)"
      using run_plain [of d "set_guard g [d] H1" prog] p1(1,5) by (simp add: plain_guard values_guard)
    have "(h_guards H1)[g := []] = h_guards H1" using g1(2) list_update_id [of "h_guards H1" g] by simp
    then have "set_guard g [] (set_guard g [d] H1) = H1" by (simp add: set_guard_def)
    then have pop: "popComputing ?sc d (set_guard g [d] H1) = Inr H1"
      using g1 gl p1(7) by (simp add: popComputing_def Let_def)
    from store_computed_ok [OF p1(1,2,4) refl] p1(5) obtain H' where
      "store_computed d (eval (values_of H) prog) H1 = Inr (eval (values_of H) prog, H')" "graph_ok H'"
      "g_values (h_world H') = g_values (h_world H1)" "h_guards H' = h_guards H1" by auto
    then show ?thesis
      using p1(7,8)
      by (simp only: Derived_Get.simps Let_def allowed option.case H1_def [symmetric] ch sum.case bool.case p1(4) push run pop prod.case) simp
  qed
qed

section \<open>Runs\<close>

lemma Graph_Set_cases:
  assumes "Graph_Set site a v H = Inr H'"
  shows "\<exists>n. H' = enqueueSignal n (vs_scope (val_at H a))
    (put_value a ((val_at H a)\<lparr>vs_value := v, vs_version := bump (vs_version (val_at H a))\<rparr>) H)"
  using assms by (auto simp: Graph_Set_def value_mutate_def Let_def split: option.splits)

lemma plain_put_value:
  assumes "vs_scope s = vs_scope (val_at H a)" "a < length (g_values (h_world H))"
  shows "plain d (put_value a s H) = plain d H"
proof -
  have "vs_scope (val_at (put_value a s H) b) = vs_scope (val_at H b)" for b using assms by (cases "b = a") simp_all
  then show ?thesis by (simp add: plain_def usable_cong [OF val_put(4)])
qed

text \<open>Setting a value makes the memos that depend on it stale, and no other.\<close>

lemma Graph_Set_ok:
  assumes "Graph_Set site a v H = Inr H'" "graph_ok H" "a < length (g_values (h_world H))"
    "Current (vs_version (val_at H a)) \<noteq> MaxUint64"
  shows "graph_ok H'"
proof -
  let ?s = "(val_at H a)\<lparr>vs_value := v, vs_version := bump (vs_version (val_at H a))\<rparr>"
  let ?P = "put_value a ?s H"
  obtain n where H': "H' = enqueueSignal n (vs_scope (val_at H a)) ?P" using Graph_Set_cases [OF assms(1)] by blast
  have "graph_ok ?P"
    unfolding graph_ok_def
  proof (intro allI impI)
    fix d assume "plain d ?P"
    then have p: "plain d H" using plain_put_value [of ?s H a d] assms(3) by simp
    then have m: "memo_ok d H" using assms(2) by (simp add: graph_ok_def)
    let ?S = "d_sources (der_at H d)" and ?V = "d_sourceVersions (der_at H d)"
    have v: "\<forall>s \<in> set ?S. \<exists>b. s = SVal b" using p by (auto simp: plain_def)
    obtain prog where prog: "d_compute (der_at H d) = Some prog" "reads_only (set ?S) prog" using p by (auto simp: plain_def)
    have same: "current_version ?P s = current_version H s \<and> values_of ?P s = values_of H s" if "s \<in> set ?S" "s \<noteq> SVal a" for s
    proof -
      obtain b where "s = SVal b" using v \<open>s \<in> set ?S\<close> by blast
      then show ?thesis using that by simp
    qed
    have new: "current_version ?P (SVal a) = current_version H (SVal a) + 1" using assms(3) by simp
    have lt: "current_version H (SVal a) < current_version H (SVal a) + 1" using assms(4) u64_less_Suc by simp
    have up: "current_version H s \<le> current_version ?P s" if "s \<in> set ?S" for s
      using same [OF that] new lt by (cases "s = SVal a") auto
    show "memo_ok d ?P"
      unfolding memo_ok_def Let_def val_put(3)
    proof (intro impI conjI allI)
      assume i: "d_initialized (der_at H d)"
      note mi = m [unfolded memo_ok_def Let_def, rule_format, OF i]
      show "length ?V = length ?S" using mi by simp
      show "?V ! i \<le> current_version ?P (?S ! i)" if "i < length ?S" for i
        using mi that up [of "?S ! i"] by (meson nth_mem order_trans)
      assume e: "?V = map (current_version ?P) ?S"
      show "d_value (der_at H d) = eval (values_of ?P) (the (d_compute (der_at H d)))"
      proof (cases "SVal a \<in> set ?S")
        case True
        then obtain i where i: "i < length ?S" "?S ! i = SVal a" by (auto simp: in_set_conv_nth)
        then have "?V ! i = current_version H (SVal a) + 1" using e new by (metis nth_map)
        moreover have "?V ! i \<le> current_version H (SVal a)" using mi i by metis
        ultimately show ?thesis using lt by simp
      next
        case False
        have s: "current_version ?P s = current_version H s" "values_of ?P s = values_of H s" if "s \<in> set ?S" for s
          using same [OF that] False that by auto
        have "map (current_version ?P) ?S = map (current_version H) ?S" using s(1) by simp
        then have "d_value (der_at H d) = eval (values_of H) prog" using mi e prog(1) by simp
        then show ?thesis using eval_agree [OF prog(2), of "values_of ?P" "values_of H"] s(2) prog(1) by simp
      qed
    qed
  qed
  then show ?thesis using mild_graph [OF mild_scope_ops(1)] H' by blast
qed

text \<open>
  Sets, reads and deliveries in any order. A delivery may come from any queue; the signal handlers
  do not touch the graph.
\<close>

inductive graph_step :: "'t \<Rightarrow> ('t, 'h) reactive \<Rightarrow> ('t, 'h) reactive \<Rightarrow> bool" for zero where
  set_step: "Graph_Set site a v H = Inr H' \<Longrightarrow> a < length (g_values (h_world H)) \<Longrightarrow>
     Current (vs_version (val_at H a)) \<noteq> MaxUint64 \<Longrightarrow> graph_step zero H H'"
| get_step: "plain d H \<Longrightarrow> h_guards H ! sc_readGuard (scope_at H (d_scope (der_at H d))) = [] \<Longrightarrow>
     Derived_Get zero (Suc n) d H = Inr (v, H') \<Longrightarrow> graph_step zero H H'"
| deliver_step: "run_delivery (\<lambda>_ H. H) n H = Inr H' \<Longrightarrow> graph_step zero H H'"

lemma graph_step_ok: "graph_step zero H H' \<Longrightarrow> graph_ok H \<Longrightarrow> graph_ok H'"
proof (induction rule: graph_step.induct)
  case (set_step site a v H H')
  show ?case by (rule Graph_Set_ok [OF set_step(1,4,2,3)])
next
  case (get_step d H n v H')
  obtain prog where "d_compute (der_at H d) = Some prog" using get_step(1) by (auto simp: plain_def)
  from Get_plain [OF get_step(1,4) this get_step(2), of zero n] obtain w H1
    where "Derived_Get zero (Suc n) d H = Inr (w, H1)" and ok: "graph_ok H1" by blast
  with get_step(3) have "H' = H1" by (simp only: sum.inject prod.inject)
  then show ?case using ok by simp
next
  case (deliver_step n H H')
  have "mild H H'" using deliver_step(1) by (cases n) (auto simp: mild_fire)
  then show ?case using deliver_step(2) mild_graph by blast
qed

lemma graph_run_ok: "(graph_step zero)\<^sup>*\<^sup>* H H' \<Longrightarrow> graph_ok H \<Longrightarrow> graph_ok H'"
  by (induction rule: rtranclp_induct) (auto dest: graph_step_ok)

section \<open>Properties\<close>

text \<open>
  C15: A derived value over value stores is always fresh when it is read. In every run of sets,
  reads and deliveries that starts with right memos (for instance with no derived value computed),
  and as long as no version counter is at its maximum, reading returns what the compute function
  gives on the present values of its sources, whether the change was already delivered or not; one
  unit of fuel is enough, and the value stores are left alone.
\<close>

theorem derived_read_fresh:
  assumes "graph_ok H0" and "(graph_step zero)\<^sup>*\<^sup>* H0 H" and "plain d H" and "d_compute (der_at H d) = Some prog"
    and "h_guards H ! sc_readGuard (scope_at H (d_scope (der_at H d))) = []"
  shows "\<exists>H'. Derived_Get zero (Suc n) d H = Inr (eval (values_of H) prog, H') \<and> g_values (h_world H') = g_values (h_world H) \<and> graph_ok H'"
  using Get_plain [OF assms(3) graph_run_ok [OF assms(2,1)] assms(4,5), of zero n] by blast

definition sample_source :: "nat \<Rightarrow> (nat, nat, nat) ValueStore" where
  "sample_source v = \<lparr>vs_scope = 0, vs_version = \<lparr>v_current = 0\<rparr>, vs_value = v, vs_invalidations = empty_set,
     vs_OnChange = NewSignal ''ValueStore.OnChange''\<rparr>"

definition sample_graph :: "(nat, nat) reactive" where
  "sample_graph = snd (NewScope \<lparr>h_scopes = [], h_guards = [], h_phases = [], h_world = \<lparr>g_values = [sample_source 10], g_derived = []\<rparr>\<rparr>)"

text \<open>A doubled value, and one more than the doubled value.\<close>

definition sample_double :: "(nat, nat) reactive" where
  "sample_double = snd (projr (NewDerived 0 (Some 0) (Some (ReadSrc (SVal 0) (\<lambda>a. Return (2 * a)))) [Some (SVal 0)] sample_graph))"

definition sample_chain :: "(nat, nat) reactive" where
  "sample_chain = snd (projr (NewDerived 0 (Some 0) (Some (ReadSrc (SDer 0) (\<lambda>b. Return (b + 1)))) [Some (SDer 0)] sample_double))"

definition after_set :: "nat \<Rightarrow> nat \<Rightarrow> (nat, nat) reactive \<Rightarrow> (nat, nat) reactive" where
  "after_set a v H = projr (Graph_Set sample_site a v H)"

definition after_get :: "nat \<Rightarrow> (nat, nat) reactive \<Rightarrow> (nat, nat) reactive" where
  "after_get d H = snd (projr (Derived_Get 0 3 d H))"

lemma sample_double_facts:
  "d_compute (der_at sample_double 0) = Some (ReadSrc (SVal 0) (\<lambda>a. Return (2 * a)))" "d_sources (der_at sample_double 0) = [SVal 0]"
  "d_scope (der_at sample_double 0) = 0" "vs_scope (val_at sample_double 0) = 0" "length (g_derived (h_world sample_double)) = 1"
  "g_values (h_world sample_double) \<noteq> []" "length (h_scopes sample_double) = 1" "\<not> closing sample_double 0"
  "h_guards sample_double = [[]]" "sc_readGuard (scope_at sample_double 0) = 0" "\<not> d_initialized (der_at sample_double 0)"
  "Current (vs_version (val_at sample_double 0)) = 0"
  by (simp_all add: sample_double_def NewDerived_def requireScope_def sample_graph_def NewScope_def fresh_scope_def closing_def
      less_eq_scopeState_def storeScope.simps ancestorOf_def registerDerived_def Let_def sample_source_def inv_add_def empty_set_def
      put_value_def put_derived_def addResource_def set_scope_def Current_def)

lemma sample_double_plain: "plain 0 sample_double"
  by (simp add: plain_def usable_in_def sample_double_facts)

lemma sample_double_ok: "graph_ok sample_double"
  unfolding graph_ok_def
proof (intro allI impI)
  fix d assume "plain d sample_double"
  then have "d = 0" by (simp add: plain_def sample_double_facts)
  then show "memo_ok d sample_double" by (simp add: memo_ok_def Let_def sample_double_facts)
qed

theorem derived_read_fresh_witness:
  "\<exists>H1 H2. Graph_Set sample_site 0 20 sample_double = Inr H1 \<and> Derived_Get 0 1 0 H1 = Inr (40, H2)"
proof -
  let ?H1 = "after_set 0 20 sample_double"
  let ?s = "(val_at sample_double 0)\<lparr>vs_value := 20, vs_version := bump (vs_version (val_at sample_double 0))\<rparr>"
  have set: "Graph_Set sample_site 0 20 sample_double = Inr ?H1"
    by (simp add: after_set_def Graph_Set_def AssertRuntimeThread_def AssertNotAnchorExporting_def assertUsable_def
        assertNotProjecting_def sample_site_def sample_double_facts value_mutate_def Let_def)
  have a: "0 < length (g_values (h_world sample_double))" using sample_double_facts(6) by simp
  obtain n where H1: "?H1 = enqueueSignal n 0 (put_value 0 ?s sample_double)"
    using Graph_Set_cases [OF set] sample_double_facts(4) by auto
  have m: "mild (put_value 0 ?s sample_double) ?H1" unfolding H1 by (rule mild_scope_ops(1))
  have p: "plain 0 ?H1" using sample_double_plain a mild_plain [OF m] by (simp add: plain_put_value)
  have c: "d_compute (der_at ?H1 0) = Some (ReadSrc (SVal 0) (\<lambda>a. Return (2 * a)))" "d_scope (der_at ?H1 0) = 0"
    using mild_der [OF m, of 0] sample_double_facts by simp_all
  have g: "h_guards ?H1 ! sc_readGuard (scope_at ?H1 (d_scope (der_at ?H1 0))) = []"
    using m c(2) by (simp add: mild_def sample_double_facts)
  have "values_of ?H1 (SVal 0) = 20" unfolding mild_reads(1) [OF m] using a by simp
  moreover have "(graph_step 0)\<^sup>*\<^sup>* sample_double ?H1"
    by (rule r_into_rtranclp, rule graph_step.set_step [OF set a]) (simp add: sample_double_facts MaxUint64_def)
  ultimately show ?thesis
    using derived_read_fresh [OF sample_double_ok _ p c(1) g, of 0 0] set by auto
qed

text \<open>
  A derived value of a derived value can be stale when it is read. The freshness check compares
  the versions of the direct sources, and a derived source gets a new version only when it is
  recomputed. With \<open>b = 2 * a\<close> and \<open>c = b + 1\<close> computed for \<open>a = 10\<close>, setting \<open>a\<close> to 20 and reading \<open>c\<close>
  before the signal phase returns 21, and \<open>Peek\<close> reports it as not dirty, although reading \<open>b\<close> gives 40;
  only after \<open>b\<close> was read does \<open>c\<close> give 41.
\<close>

theorem derived_chain_stale:
  "map_sum id fst (Derived_Get 0 3 1 (after_set 0 20 (after_get 1 sample_chain))) = Inr 21 \<and>
   Peek 1 (after_set 0 20 (after_get 1 sample_chain)) = Inr (21, False) \<and>
   map_sum id fst (Derived_Get 0 3 0 (after_set 0 20 (after_get 1 sample_chain))) = Inr 40 \<and>
   map_sum id fst (Derived_Get 0 3 1 (after_get 0 (after_set 0 20 (after_get 1 sample_chain)))) = Inr 41"
  by code_simp

lemma markDirty_effect:
  assumes "d < length (g_derived (h_world H))" "d_scope (der_at H d) < length (h_scopes H)" "\<not> closing H (d_scope (der_at H d))"
  shows "der_at (markDirty d H) d = (der_at H d)\<lparr>d_dirty := True\<rparr>"
    "sc_signals (scope_at (markDirty d H) (d_scope (der_at H d))) = sc_signals (scope_at H (d_scope (der_at H d))) @
       (if d_initialized (der_at H d) \<and> \<not> d_dirty (der_at H d)
        then [\<lparr>q_generation = sc_generation (scope_at H (d_scope (der_at H d))),
               q_deliver = DerivedInvalidated d (inv_snapshot (d_invalidations (der_at H d)))\<rparr>] else [])"
    "d \<in> set (sc_dirtySet (scope_at (markDirty d H) (d_scope (der_at H d))))" 
  using assms
  by (auto simp: markDirty_def Let_def enqueueDerived_def enqueueSignal_def set_scope_def closing_def)

text \<open>
  Invalidations coalesce. Marking a derived value dirty twice is the same as marking it once, and
  marking a computed clean one in a live scope queues it once for the derived phase and queues
  exactly one invalidation signal, which carries its subscribers of that moment.
\<close>

theorem markDirty_coalesces:
  assumes "d < length (g_derived (h_world H))" and "d_scope (der_at H d) < length (h_scopes H)"
    and "\<not> closing H (d_scope (der_at H d))"
  shows "markDirty d (markDirty d H) = markDirty d H \<and> d \<in> set (sc_dirtySet (scope_at (markDirty d H) (d_scope (der_at H d)))) \<and>
    sc_signals (scope_at (markDirty d H) (d_scope (der_at H d))) = sc_signals (scope_at H (d_scope (der_at H d))) @
       (if d_initialized (der_at H d) \<and> \<not> d_dirty (der_at H d)
        then [\<lparr>q_generation = sc_generation (scope_at H (d_scope (der_at H d))),
               q_deliver = DerivedInvalidated d (inv_snapshot (d_invalidations (der_at H d)))\<rparr>] else [])"
proof -
  let ?M = "markDirty d H"
  have x: "der_at ?M d = (der_at H d)\<lparr>d_dirty := True\<rparr>" using markDirty_effect(1) [OF assms] .
  have "(g_derived (h_world ?M))[d := der_at ?M d] = g_derived (h_world ?M)" by (rule list_update_id)
  then have put: "put_derived d ((der_at ?M d)\<lparr>d_dirty := True\<rparr>) ?M = ?M" unfolding x by (simp add: put_derived_def x)
  have "enqueueDerived (Some (d_scope (der_at ?M d))) (Some d) ?M = ?M"
    using markDirty_effect(3) [OF assms] by (simp add: enqueueDerived_def x)
  then have "markDirty d ?M = ?M" by (simp add: markDirty_def [of d ?M] Let_def put) (simp add: x)
  then show ?thesis using markDirty_effect [OF assms] by simp
qed

theorem markDirty_coalesces_witness:
  "markDirty 0 (markDirty 0 (after_get 0 sample_double)) = markDirty 0 (after_get 0 sample_double) \<and>
   d_dirty (der_at (markDirty 0 (after_get 0 sample_double)) 0) \<and>
   map q_deliver (sc_signals (scope_at (markDirty 0 (after_get 0 sample_double)) 0)) =
     [DerivedChanged 0 \<lparr>Old = 0, New = 20\<rparr>, DerivedInvalidated 0 []]"
proof -
  let ?H = "after_get 0 sample_double"
  have h: "length (g_derived (h_world ?H)) = 1" "d_scope (der_at ?H 0) = 0" "length (h_scopes ?H) = 1" "\<not> closing ?H 0"
    "d_initialized (der_at ?H 0)" "\<not> d_dirty (der_at ?H 0)"
    by code_simp+
  have q: "map q_deliver (sc_signals (scope_at ?H 0)) = [DerivedChanged 0 \<lparr>Old = 0, New = 20\<rparr>]"
    "inv_snapshot (d_invalidations (der_at ?H 0)) = []"
    by code_simp+
  have "d_dirty (der_at (markDirty 0 ?H) 0)" by code_simp
  then show ?thesis using markDirty_coalesces [of 0 ?H] h q by simp
qed

end
