(* ===== verification/Sorting.thy ===== *)
theory Sorting
  imports Prelude "HOL-Library.Multiset" "HOL-Library.Product_Lexorder"
begin

text \<open>
  Facts about the stable sort by a key (\<^verbatim>\<open>sort.SliceStable\<close>) that the components share: a sort by
  distinct keys does not depend on the order of its input, and a second key that grows along the
  input does not matter.
\<close>

lemma sort_key_unique:
  assumes "mset xs = mset ys" "distinct (map f xs)"
  shows "sort_key f xs = sort_key f ys"
proof (rule properties_for_sort_key)
  have y: "distinct (map f ys)" using assms mset_eq_imp_distinct_iff [of "map f xs" "map f ys"] by simp
  have one: "filter (\<lambda>x. f k = f x) zs = [k]" if "k \<in> set zs" "distinct (map f zs)" for k zs
    using that
  proof (induction zs)
    case (Cons z zs)
    then show ?case by (cases "k = z") (auto simp: filter_empty_conv image_iff)
  qed simp
  show "filter (\<lambda>x. f k = f x) (sort_key f ys) = filter (\<lambda>x. f k = f x) xs" if "k \<in> set (sort_key f ys)" for k
  proof -
    have "k \<in> set ys" "k \<in> set xs" using that assms(1) by (auto dest: mset_eq_setD)
    moreover have "distinct (map f (sort_key f ys))"
      using y mset_eq_imp_distinct_iff [of "map f (sort_key f ys)" "map f ys"] by simp
    ultimately show ?thesis using one [of k "sort_key f ys"] one [of k xs] assms(2) by simp
  qed
qed (use assms in simp_all)

lemma insort_key_position:
  "\<forall>y \<in> set ys. p x < p y \<Longrightarrow> insort_key (\<lambda>x. (f x :: 'a :: linorder, p x :: 'b :: linorder)) x ys = insort_key f x ys"
  by (induction ys) (auto simp: less_eq_prod_def)

lemma sort_key_position:
  "sorted_wrt (\<lambda>x y. p x < p y) xs \<Longrightarrow> sort_key (\<lambda>x. (f x :: 'a :: linorder, p x :: 'b :: linorder)) xs = sort_key f xs"
  by (induction xs) (simp_all add: insort_key_position)

lemma sort_key_map: "sort_key f (map g xs) = map g (sort_key (f \<circ> g) xs)"
proof (induction xs)
  case (Cons x xs)
  have "insort_key f (g x) (map g ys) = map g (insort_key (f \<circ> g) x ys)" for ys by (induction ys) simp_all
  then show ?case using Cons by (simp add: comp_def)
qed simp

end
