(* ===== verification/Job_Pool.thy ===== *)
theory Job_Pool
  imports Membudget Invalidation Sorting
begin

text \<open>
  The job pool: \<^verbatim>\<open>src/job/job.go\<close>. Submitters, workers and the consumer run concurrently. The
  model is a state with the queues, the maps of the pool, the memory ledger and one control
  state per worker goroutine, and one operation per atomic section of the source: an admission,
  each turn of \<open>worker\<close>, the completion of a job up to sending its result, the bookkeeping after
  the send, and the receipt of results by the consumer. A bounded channel is a list with a
  capacity. What a job's \<open>Work\<close> returns is an argument of the step that finishes it; the state
  that commits change is the type \<open>'w\<close>. A cancellation token is a position in a list of flags.
  The field \<open>ownerID\<close> of a drained result is never assigned in the source and is left out.
\<close>

section \<open>Memory declarations\<close>

record JobMemoryDecl =
  MaxInputBytes :: u64
  MaxScratchBytes :: u64
  MaxOutputBytes :: u64

datatype job_error =
    DeclOverflowInput | DeclOverflowOutput | ZeroDecl | NilPoolOrJob | NilWork | ReservationFailed membudget_error | PoolClosed
  | RefusedTotal int int | PublishFailed membudget_error | RefusedInteractive | RefusedBackground

definition TotalBytes :: "JobMemoryDecl \<Rightarrow> job_error + u64" where
  "TotalBytes j =
     (if MaxUint64 - MaxScratchBytes j < MaxInputBytes j then Inl DeclOverflowInput
      else let s = MaxInputBytes j + MaxScratchBytes j in
        if MaxUint64 - s < MaxOutputBytes j then Inl DeclOverflowOutput
        else Inr (s + MaxOutputBytes j))"

definition Decl_Validate :: "JobMemoryDecl \<Rightarrow> job_error option" where
  "Decl_Validate j =
     (case TotalBytes j of
        Inl e \<Rightarrow> Some e
      | Inr _ \<Rightarrow>
          if MaxInputBytes j = 0 \<and> MaxScratchBytes j = 0 \<and> MaxOutputBytes j = 0 then Some ZeroDecl else None)"

section \<open>Configuration and snapshots\<close>

record PoolConfig =
  cfg_WorkerCount :: int
  cfg_JobsWallet :: "nat option"
  cfg_RequireDeclarations :: bool
  cfg_MaxWaitingInteractive :: int
  cfg_MaxTotalRecords :: int

definition ProfilePoolConfig :: "string \<Rightarrow> PoolConfig" where
  "ProfilePoolConfig profile =
     (if profile = ''Compact'' \<or> profile = ''compact''
      then \<lparr>cfg_WorkerCount = 2, cfg_JobsWallet = None, cfg_RequireDeclarations = True,
            cfg_MaxWaitingInteractive = 32, cfg_MaxTotalRecords = 64\<rparr>
      else \<lparr>cfg_WorkerCount = 4, cfg_JobsWallet = None, cfg_RequireDeclarations = True,
            cfg_MaxWaitingInteractive = 128, cfg_MaxTotalRecords = 256\<rparr>)"

record ('i, 'w) Snapshot =
  snap_Data :: 'i
  snap_Versions :: "Version list"
  snap_current :: "('w \<Rightarrow> Version list) option"

definition NewSnapshot :: "'i \<Rightarrow> Version list \<Rightarrow> ('i, 'w) Snapshot" where
  "NewSnapshot d versions = \<lparr>snap_Data = d, snap_Versions = versions, snap_current = None\<rparr>"

definition BindCurrentVersions :: "('i, 'w) Snapshot \<Rightarrow> ('w \<Rightarrow> Version list) option \<Rightarrow> ('i, 'w) Snapshot" where
  "BindCurrentVersions snap current = snap\<lparr>snap_current := current\<rparr>"

text \<open>\<open>None\<close> is the panic on a wrong number of versions.\<close>

definition StillValid :: "Version list \<Rightarrow> ('i, 'w) Snapshot \<Rightarrow> bool option" where
  "StillValid current s =
     (if length current \<noteq> length (snap_Versions s) then None
      else Some (list_all2 (=) (snap_Versions s) current))"

section \<open>Jobs and results\<close>

datatype Priority = PriorityInteractive | PriorityBackground

type_synonym JobID = u64

text \<open>A commit changes the consumer's state and reports whether it took place; \<open>None\<close> is a panic.\<close>

type_synonym 'w commit_fn = "'w \<Rightarrow> (bool \<times> 'w) option"

record ('i, 'o, 'w) Job =
  job_ID :: JobID
  job_Priority :: Priority
  job_Snapshot :: "('i, 'w) Snapshot"
  job_has_Work :: bool
  job_MemoryDecl :: JobMemoryDecl

record 'w DrainedResult =
  dr_jobID :: JobID
  dr_sequence :: u64
  dr_cancelled :: bool
  dr_err :: "string option"
  dr_committed :: bool
  dr_commitFn :: "'w commit_fn option"
  dr_reservation :: "Reservation option"

record ('o, 'w) queuedJob =
  q_jobID :: JobID
  q_sequence :: u64
  q_priority :: Priority
  q_cancel :: nat
  q_reservation :: "Reservation option"
  q_commit :: "'o \<Rightarrow> 'w commit_fn"

text \<open>The commit closure built for a finished job.\<close>

definition commit_closure :: "('w \<Rightarrow> bool) option \<Rightarrow> ('i, 'w) Snapshot \<Rightarrow> ('o \<Rightarrow> 'w \<Rightarrow> 'w) option \<Rightarrow> 'o \<Rightarrow> 'w commit_fn" where
  "commit_closure commitAllowed snap onCommit out w =
     (if (case commitAllowed of None \<Rightarrow> False | Some allowed \<Rightarrow> \<not> allowed w) then Some (False, w)
      else let commit = Some (True, (case onCommit of None \<Rightarrow> w | Some f \<Rightarrow> f out w)) in
        case snap_current snap of
          None \<Rightarrow> commit
        | Some current \<Rightarrow>
            (case StillValid (current w) snap of
               None \<Rightarrow> None
             | Some valid \<Rightarrow> if \<not> valid then Some (False, w) else commit))"

definition Result_Commit :: "'w DrainedResult \<Rightarrow> 'w \<Rightarrow> ('w DrainedResult \<times> 'w) option" where
  "Result_Commit r w =
     (case dr_commitFn r of
        None \<Rightarrow> Some (r\<lparr>dr_committed := False\<rparr>, w)
      | Some f \<Rightarrow> map_option (\<lambda>(ok, w'). (r\<lparr>dr_committed := ok\<rparr>, w')) (f w))"

section \<open>The pool\<close>

text \<open>
  Where a worker is in its loop: before the pause check, before the first \<open>select\<close>, waiting in
  the second \<open>select\<close>, running a job, after sending its result, or gone.
\<close>

datatype ('o, 'w) worker = Idle | Armed | Waiting | Running "('o, 'w) queuedJob" | Sent "('o, 'w) queuedJob" | Exited

record ('o, 'w) Pool =
  p_interactive :: "('o, 'w) queuedJob list"
  p_background :: "('o, 'w) queuedJob list"
  p_results :: "'w DrainedResult list"
  p_shutdown :: bool
  p_tokens :: "bool list"
  p_active :: "(JobID \<times> nat) list"
  p_nextSequence :: u64
  p_pendingSequence :: "(u64 \<times> bool) list"
  p_frontierWake :: bool
  p_drainedSequence :: "u64 list"
  p_ready :: "(JobID \<times> int) list"
  p_drainedEarly :: "(JobID \<times> int) list"
  p_closed :: bool
  p_jobReservations :: "(JobID \<times> Reservation option) list"
  p_jobsWallet :: "nat option"
  p_requireDeclarations :: bool
  p_maxWaitingInteractive :: nat
  p_maxTotalRecords :: nat
  p_pendingRecords :: int
  p_reservationFaults :: int
  p_admissionRefusals :: int
  p_paused :: bool
  p_workers :: "('o, 'w) worker list"
  p_ledger :: walletLedger

text \<open>A map read of an absent counter gives zero.\<close>

definition counter_of :: "(JobID \<times> int) list \<Rightarrow> JobID \<Rightarrow> int" where
  "counter_of m j = (case map_of m j of None \<Rightarrow> 0 | Some n \<Rightarrow> n)"

text \<open>Decrement a positive counter and drop it at zero, as the two bookkeeping sections do.\<close>

definition counter_dec :: "JobID \<Rightarrow> (JobID \<times> int) list \<Rightarrow> (JobID \<times> int) list" where
  "counter_dec j m = (if counter_of m j - 1 = 0 then AList.delete j m else AList.update j (counter_of m j - 1) m)"

definition counter_inc :: "JobID \<Rightarrow> (JobID \<times> int) list \<Rightarrow> (JobID \<times> int) list" where
  "counter_inc j m = AList.update j (counter_of m j + 1) m"

definition Pending :: "('o, 'w) Pool option \<Rightarrow> nat" where
  "Pending p =
     (case p of
        None \<Rightarrow> 0
      | Some p \<Rightarrow> length (p_active p) + length (p_interactive p) + length (p_background p) + length (p_results p))"

record PoolDiagnostics =
  AdmissionRefusals :: int
  ReservationFaults :: int

definition Diagnostics :: "('o, 'w) Pool option \<Rightarrow> PoolDiagnostics" where
  "Diagnostics p =
     (case p of
        None \<Rightarrow> \<lparr>AdmissionRefusals = 0, ReservationFaults = 0\<rparr>
      | Some p \<Rightarrow> \<lparr>AdmissionRefusals = p_admissionRefusals p, ReservationFaults = p_reservationFaults p\<rparr>)"

definition Ready :: "JobID \<Rightarrow> ('o, 'w) Pool option \<Rightarrow> bool" where
  "Ready j p = (case p of None \<Rightarrow> False | Some p \<Rightarrow> 0 < counter_of (p_ready p) j)"

definition Frontier :: "('o, 'w) Pool option \<Rightarrow> u64" where
  "Frontier p = (case p of None \<Rightarrow> 0 | Some p \<Rightarrow> p_nextSequence p)"

definition ReadyThrough :: "u64 \<Rightarrow> ('o, 'w) Pool option \<Rightarrow> bool" where
  "ReadyThrough frontier p =
     (case p of
        None \<Rightarrow> True
      | Some p \<Rightarrow> list_all (\<lambda>(sequence, ready). \<not> (sequence \<le> frontier \<and> \<not> ready)) (p_pendingSequence p))"

definition Pause :: "('o, 'w) Pool \<Rightarrow> ('o, 'w) Pool" where
  "Pause p = p\<lparr>p_paused := True\<rparr>"

definition Pool_Resume :: "('o, 'w) Pool \<Rightarrow> ('o, 'w) Pool" where
  "Pool_Resume p = p\<lparr>p_paused := False\<rparr>"

definition NewPoolWithConfig :: "PoolConfig \<Rightarrow> walletLedger \<Rightarrow> ('o, 'w) Pool" where
  "NewPoolWithConfig c L =
     (let n = (if cfg_WorkerCount c \<le> 0 then 1 else cfg_WorkerCount c);
          waiting = (if cfg_MaxWaitingInteractive c \<le> 0 then n * 4 else cfg_MaxWaitingInteractive c);
          tot = (if cfg_MaxTotalRecords c \<le> 0 then n * 4 else cfg_MaxTotalRecords c)
      in \<lparr>p_interactive = [], p_background = [], p_results = [], p_shutdown = False, p_tokens = [], p_active = [],
          p_nextSequence = 0, p_pendingSequence = [], p_frontierWake = False, p_drainedSequence = [], p_ready = [],
          p_drainedEarly = [], p_closed = False, p_jobReservations = [], p_jobsWallet = cfg_JobsWallet c,
          p_requireDeclarations = cfg_RequireDeclarations c, p_maxWaitingInteractive = nat waiting,
          p_maxTotalRecords = nat tot, p_pendingRecords = 0, p_reservationFaults = 0, p_admissionRefusals = 0,
          p_paused = False, p_workers = replicate (nat n) Idle, p_ledger = L\<rparr>)"

definition NewPool :: "int \<Rightarrow> nat option \<Rightarrow> walletLedger \<Rightarrow> ('o, 'w) Pool" where
  "NewPool workerCount jobsWallet L =
     NewPoolWithConfig \<lparr>cfg_WorkerCount = workerCount, cfg_JobsWallet = jobsWallet, cfg_RequireDeclarations = False,
       cfg_MaxWaitingInteractive = workerCount * 4, cfg_MaxTotalRecords = workerCount * 4\<rparr> L"

section \<open>Submission\<close>

text \<open>The terminal calls on a reservation whose error the source drops; a nil reservation is left alone.\<close>

definition settle :: "(Reservation option \<Rightarrow> walletLedger \<Rightarrow> membudget_error + walletLedger) \<Rightarrow> Reservation option \<Rightarrow>
    walletLedger \<Rightarrow> walletLedger" where
  "settle op r L = (if r = None then L else case op r L of Inl _ \<Rightarrow> L | Inr L' \<Rightarrow> L')"

definition refused :: "('o, 'w) Pool \<Rightarrow> ('o, 'w) Pool" where
  "refused p = p\<lparr>p_admissionRefusals := p_admissionRefusals p + 1\<rparr>"

definition reserve_for :: "u64 \<Rightarrow> ('o, 'w) Pool \<Rightarrow> membudget_error + Reservation option \<times> walletLedger" where
  "reserve_for n p =
     (if p_jobsWallet p \<noteq> None \<and> 0 < n
      then (case Reserve (p_jobsWallet p) n (p_ledger p) of Inl e \<Rightarrow> Inl e | Inr (r, L) \<Rightarrow> Inr (Some r, L))
      else Inr (None, p_ledger p))"

definition publish_for :: "Reservation option \<Rightarrow> walletLedger \<Rightarrow> membudget_error + walletLedger" where
  "publish_for r L = (if r = None then Inr L else Publish r L)"

text \<open>A job of the same identifier that is still active is cancelled.\<close>

definition replace_previous :: "JobID \<Rightarrow> ('o, 'w) Pool \<Rightarrow> ('o, 'w) Pool" where
  "replace_previous j p =
     (case map_of (p_active p) j of
        None \<Rightarrow> p
      | Some prev \<Rightarrow>
          let p1 = p\<lparr>p_tokens := (p_tokens p)[prev := True]\<rparr> in
          (case map_of (p_jobReservations p) j of
             Some (Some old) \<Rightarrow> p1\<lparr>p_ledger := settle Cancel (Some old) (p_ledger p1),
                                   p_jobReservations := AList.delete j (p_jobReservations p1)\<rparr>
           | _ \<Rightarrow> p1))"

text \<open>The registration of an admitted job; \<open>None\<close> is the panic when the sequence numbers are exhausted.\<close>

definition register_job :: "JobID \<Rightarrow> Reservation option \<Rightarrow> ('o, 'w) Pool \<Rightarrow> (nat \<times> u64 \<times> ('o, 'w) Pool) option" where
  "register_job j r p =
     (let p1 = replace_previous j p;
          tok = length (p_tokens p1);
          sq = p_nextSequence p1 + 1
      in if sq = 0 then None
         else Some (tok, sq, p1\<lparr>p_tokens := p_tokens p1 @ [False], p_active := AList.update j tok (p_active p1),
                p_jobReservations := AList.update j r (p_jobReservations p1), p_nextSequence := sq,
                p_pendingSequence := AList.update sq False (p_pendingSequence p1)\<rparr>))"

text \<open>What a refusal by a full queue undoes.\<close>

definition undo_admission :: "('o, 'w) queuedJob \<Rightarrow> ('o, 'w) Pool \<Rightarrow> ('o, 'w) Pool" where
  "undo_admission q p =
     refused (p\<lparr>p_pendingRecords := p_pendingRecords p - 1, p_ledger := settle Cancel (q_reservation q) (p_ledger p),
                p_active := AList.delete (q_jobID q) (p_active p),
                p_jobReservations := AList.delete (q_jobID q) (p_jobReservations p)\<rparr>)"

text \<open>The nonblocking send to the queue of the job's priority; both queues have the same capacity.\<close>

definition try_enqueue :: "('o, 'w) queuedJob \<Rightarrow> ('o, 'w) Pool \<Rightarrow> job_error option \<times> ('o, 'w) Pool" where
  "try_enqueue q p =
     (case q_priority q of
        PriorityInteractive \<Rightarrow>
          if length (p_interactive p) < p_maxWaitingInteractive p
          then (None, p\<lparr>p_interactive := p_interactive p @ [q]\<rparr>)
          else (Some RefusedInteractive, undo_admission q p)
      | PriorityBackground \<Rightarrow>
          if length (p_background p) < p_maxWaitingInteractive p
          then (None, p\<lparr>p_background := p_background p @ [q]\<rparr>)
          else (Some RefusedBackground, undo_admission q p))"

text \<open>
  \<open>ScheduleGuarded\<close>. The result is \<open>None\<close> for a panic, else the error and the pool.
\<close>

definition ScheduleGuarded :: "bool \<Rightarrow> ('i, 'o, 'w) Job \<Rightarrow> ('w \<Rightarrow> bool) option \<Rightarrow> ('o \<Rightarrow> 'w \<Rightarrow> 'w) option \<Rightarrow>
    ('o, 'w) Pool \<Rightarrow> (job_error option \<times> ('o, 'w) Pool) option" where
  "ScheduleGuarded exporting job commitAllowed onCommit p =
     (if exporting then None
      else if \<not> job_has_Work job then Some (Some NilWork, p)
      else case (if p_requireDeclarations p then Decl_Validate (job_MemoryDecl job) else None) of
        Some e \<Rightarrow> Some (Some e, refused p)
      | None \<Rightarrow>
        (case TotalBytes (job_MemoryDecl job) of
           Inl e \<Rightarrow> Some (Some e, refused p)
         | Inr n \<Rightarrow>
           (case reserve_for n p of
              Inl e \<Rightarrow> Some (Some (ReservationFailed e), p)
            | Inr (r, L) \<Rightarrow>
                if p_closed p then Some (Some PoolClosed, p\<lparr>p_ledger := settle Cancel r L\<rparr>)
                else let records = p_pendingRecords p + 1 in
                  if int (p_maxTotalRecords p) < records
                  then Some (Some (RefusedTotal records (int (p_maxTotalRecords p))), refused (p\<lparr>p_ledger := settle Cancel r L\<rparr>))
                  else (case publish_for r L of
                    Inl e \<Rightarrow> Some (Some (PublishFailed e), p\<lparr>p_ledger := settle Cancel r L\<rparr>)
                  | Inr L1 \<Rightarrow>
                    (case register_job (job_ID job) r (p\<lparr>p_ledger := L1, p_pendingRecords := records\<rparr>) of
                       None \<Rightarrow> None
                     | Some (tok, sq, p1) \<Rightarrow>
                         Some (try_enqueue \<lparr>q_jobID = job_ID job, q_sequence = sq, q_priority = job_Priority job, q_cancel = tok,
                           q_reservation = r, q_commit = commit_closure commitAllowed (job_Snapshot job) onCommit\<rparr> p1))))))"

definition Schedule :: "bool \<Rightarrow> ('i, 'o, 'w) Job \<Rightarrow> ('o \<Rightarrow> 'w \<Rightarrow> 'w) option \<Rightarrow> ('o, 'w) Pool \<Rightarrow>
    (job_error option \<times> ('o, 'w) Pool) option" where
  "Schedule exporting job onCommit p = ScheduleGuarded exporting job None onCommit p"

text \<open>
  Opaque jobs (\<^verbatim>\<open>src/job/anyjob.go\<close>): a job with its owner and its commit hook, which is followed by
  the hook of the submitter on a result that says who committed.
\<close>

record boundResult =
  br_jobID :: JobID
  br_ownerID :: u64
  br_err :: "string option"
  br_cancelled :: bool
  br_committed :: bool

record ('i, 'o, 'w) boundJob =
  bj_ownerID :: u64
  bj_job :: "('i, 'o, 'w) Job"
  bj_onCommit :: "('o \<Rightarrow> 'w \<Rightarrow> 'w) option"

definition BindJob :: "u64 \<Rightarrow> ('i, 'o, 'w) Job \<Rightarrow> ('o \<Rightarrow> 'w \<Rightarrow> 'w) option \<Rightarrow> ('i, 'o, 'w) boundJob" where
  "BindJob ownerID j onCommit = \<lparr>bj_ownerID = ownerID, bj_job = j, bj_onCommit = onCommit\<rparr>"

definition bound_submit :: "('i, 'o, 'w) boundJob \<Rightarrow> ('w \<Rightarrow> bool) option \<Rightarrow> (boundResult \<Rightarrow> 'w \<Rightarrow> 'w) option \<Rightarrow> bool \<Rightarrow>
    ('o, 'w) Pool \<Rightarrow> (job_error option \<times> ('o, 'w) Pool) option" where
  "bound_submit b commitAllowed afterCommit exporting p =
     ScheduleGuarded exporting (bj_job b) commitAllowed
       (Some (\<lambda>out w.
          let w1 = (case bj_onCommit b of None \<Rightarrow> w | Some f \<Rightarrow> f out w) in
          case afterCommit of
            None \<Rightarrow> w1
          | Some f \<Rightarrow> f \<lparr>br_jobID = job_ID (bj_job b), br_ownerID = bj_ownerID b, br_err = None, br_cancelled = False,
                           br_committed = True\<rparr> w1)) p"

text \<open>\<open>SubmitAny\<close> and \<open>SubmitAnyGuarded\<close>; a nil pool or job is an error.\<close>

definition SubmitAnyGuarded :: "('i, 'o, 'w) boundJob option \<Rightarrow> ('w \<Rightarrow> bool) option \<Rightarrow> (boundResult \<Rightarrow> 'w \<Rightarrow> 'w) option \<Rightarrow>
    bool \<Rightarrow> ('o, 'w) Pool option \<Rightarrow> (job_error option \<times> ('o, 'w) Pool option) option" where
  "SubmitAnyGuarded j commitAllowed afterCommit exporting pool =
     (if exporting then None
      else case (pool, j) of
        (Some p, Some b) \<Rightarrow> map_option (\<lambda>(e, p'). (e, Some p')) (bound_submit b commitAllowed afterCommit exporting p)
      | _ \<Rightarrow> Some (Some NilPoolOrJob, pool))"

definition SubmitAny :: "('i, 'o, 'w) boundJob option \<Rightarrow> (boundResult \<Rightarrow> 'w \<Rightarrow> 'w) option \<Rightarrow>
    bool \<Rightarrow> ('o, 'w) Pool option \<Rightarrow> (job_error option \<times> ('o, 'w) Pool option) option" where
  "SubmitAny j afterCommit exporting pool = SubmitAnyGuarded j None afterCommit exporting pool"

section \<open>Workers\<close>

definition set_worker :: "nat \<Rightarrow> ('o, 'w) worker \<Rightarrow> ('o, 'w) Pool \<Rightarrow> ('o, 'w) Pool" where
  "set_worker i s p = p\<lparr>p_workers := (p_workers p)[i := s]\<rparr>"

text \<open>
  A turn of the worker loop up to the \<open>select\<close> statements: the pause gate and the shutdown
  check, then the preference for interactive jobs, then the wait for either queue.
\<close>

definition worker_gate :: "nat \<Rightarrow> ('o, 'w) Pool \<Rightarrow> ('o, 'w) Pool" where
  "worker_gate i p =
     (if p_paused p then p
      else if p_shutdown p then set_worker i Exited p
      else set_worker i Armed p)"

definition worker_prefer :: "nat \<Rightarrow> ('o, 'w) Pool \<Rightarrow> ('o, 'w) Pool" where
  "worker_prefer i p =
     (case p_interactive p of
        q # qs \<Rightarrow> set_worker i (Running q) (p\<lparr>p_interactive := qs\<rparr>)
      | [] \<Rightarrow> set_worker i Waiting p)"

text \<open>Which ready case of the second \<open>select\<close> is taken is arbitrary.\<close>

datatype wait_case = TakeInteractive | TakeBackground | SeeShutdown

definition worker_wait :: "wait_case \<Rightarrow> nat \<Rightarrow> ('o, 'w) Pool \<Rightarrow> ('o, 'w) Pool" where
  "worker_wait c i p =
     (case c of
        TakeInteractive \<Rightarrow>
          (case p_interactive p of q # qs \<Rightarrow> set_worker i (Running q) (p\<lparr>p_interactive := qs\<rparr>) | [] \<Rightarrow> p)
      | TakeBackground \<Rightarrow>
          (case p_background p of q # qs \<Rightarrow> set_worker i (Running q) (p\<lparr>p_background := qs\<rparr>) | [] \<Rightarrow> p)
      | SeeShutdown \<Rightarrow> if p_shutdown p then set_worker i Exited p else p)"

text \<open>What the work of a job did: it returned an output and maybe an error, or it panicked.\<close>

datatype 'o outcome = Returned 'o "string option" | Panicked string

definition job_result :: "('o, 'w) queuedJob \<Rightarrow> bool \<Rightarrow> 'o outcome \<Rightarrow> 'w DrainedResult" where
  "job_result q cancelled out =
     (case out of
        Returned x err \<Rightarrow>
          \<lparr>dr_jobID = q_jobID q, dr_sequence = q_sequence q, dr_cancelled = cancelled, dr_err = err, dr_committed = False,
           dr_commitFn = (if \<not> cancelled \<and> err = None then Some (q_commit q x) else None), dr_reservation = None\<rparr>
      | Panicked msg \<Rightarrow>
          \<lparr>dr_jobID = q_jobID q, dr_sequence = q_sequence q, dr_cancelled = cancelled,
           dr_err = Some (''worker panic: '' @ msg), dr_committed = False, dr_commitFn = None, dr_reservation = None\<rparr>)"

text \<open>\<open>execute\<close> up to and including the nonblocking send of the result.\<close>

definition exec_settle :: "('o, 'w) queuedJob \<Rightarrow> 'o outcome \<Rightarrow> ('o, 'w) Pool \<Rightarrow> 'w DrainedResult \<times> ('o, 'w) Pool" where
  "exec_settle q out p =
     (let res = job_result q (p_tokens p ! q_cancel q) out;
          p1 = (case out of
                  Panicked _ \<Rightarrow>
                    if q_reservation q = None then p
                    else p\<lparr>p_ledger := settle Acknowledge (q_reservation q) (settle Retire (q_reservation q) (p_ledger p)),
                           p_reservationFaults := p_reservationFaults p + 1\<rparr>
                | Returned _ _ \<Rightarrow> p);
          p2 = (if map_of (p_active p1) (q_jobID q) = Some (q_cancel q)
                then p1\<lparr>p_active := AList.delete (q_jobID q) (p_active p1),
                        p_jobReservations := AList.delete (q_jobID q) (p_jobReservations p1)\<rparr>
                else p1);
          p3 = p2\<lparr>p_pendingRecords := p_pendingRecords p2 - 1\<rparr>
      in (case out of
            Panicked _ \<Rightarrow> (res, p3)
          | Returned _ _ \<Rightarrow>
              if q_reservation q = None then (res, p3)
              else (res\<lparr>dr_reservation := q_reservation q\<rparr>, p3\<lparr>p_ledger := settle Retire (q_reservation q) (p_ledger p3)\<rparr>)))"

definition exec_send :: "nat \<Rightarrow> ('o, 'w) queuedJob \<Rightarrow> 'o outcome \<Rightarrow> ('o, 'w) Pool \<Rightarrow> ('o, 'w) Pool" where
  "exec_send i q out p =
     (case exec_settle q out p of (res, p1) \<Rightarrow>
        if length (p_results p1) < p_maxTotalRecords p1
        then set_worker i (Sent q) (p1\<lparr>p_results := p_results p1 @ [res]\<rparr>)
        else set_worker i Idle (p1\<lparr>p_reservationFaults := p_reservationFaults p1 + 1,
               p_ledger := settle Acknowledge (dr_reservation res) (p_ledger p1)\<rparr>))"

text \<open>The bookkeeping after a successful send.\<close>

definition exec_publish :: "nat \<Rightarrow> ('o, 'w) queuedJob \<Rightarrow> ('o, 'w) Pool \<Rightarrow> ('o, 'w) Pool" where
  "exec_publish i q p =
     (let p1 = (if q_sequence q \<in> set (p_drainedSequence p)
                then p\<lparr>p_drainedSequence := removeAll (q_sequence q) (p_drainedSequence p)\<rparr>
                else p\<lparr>p_pendingSequence := AList.update (q_sequence q) True (p_pendingSequence p)\<rparr>);
          p2 = (if 0 < counter_of (p_drainedEarly p1) (q_jobID q)
                then p1\<lparr>p_drainedEarly := counter_dec (q_jobID q) (p_drainedEarly p1)\<rparr>
                else p1\<lparr>p_ready := counter_inc (q_jobID q) (p_ready p1)\<rparr>)
      in set_worker i Idle (p2\<lparr>p_frontierWake := True\<rparr>))"

section \<open>Draining, cancelling and shutting down\<close>

text \<open>The receipt of one result, with the bookkeeping under the lock.\<close>

definition drain_receive :: "'w DrainedResult \<Rightarrow> ('o, 'w) Pool \<Rightarrow> ('o, 'w) Pool" where
  "drain_receive res p =
     (let p1 = (case map_of (p_pendingSequence p) (dr_sequence res) of
                  Some ready \<Rightarrow>
                    let p' = p\<lparr>p_pendingSequence := AList.delete (dr_sequence res) (p_pendingSequence p)\<rparr> in
                    if \<not> ready then p'\<lparr>p_drainedSequence := List.insert (dr_sequence res) (p_drainedSequence p')\<rparr> else p'
                | None \<Rightarrow> p\<lparr>p_drainedSequence := List.insert (dr_sequence res) (p_drainedSequence p)\<rparr>)
      in if 0 < counter_of (p_ready p1) (dr_jobID res)
         then p1\<lparr>p_ready := counter_dec (dr_jobID res) (p_ready p1)\<rparr>
         else p1\<lparr>p_drainedEarly := counter_inc (dr_jobID res) (p_drainedEarly p1)\<rparr>)"

definition collect_results :: "('o, 'w) Pool \<Rightarrow> 'w DrainedResult list \<times> ('o, 'w) Pool" where
  "collect_results p = (p_results p, fold drain_receive (p_results p) (p\<lparr>p_results := []\<rparr>))"

text \<open>The commits and acknowledgements over the collected results.\<close>

fun commit_all :: "'w DrainedResult list \<Rightarrow> 'w \<Rightarrow> walletLedger \<Rightarrow> ('w DrainedResult list \<times> 'w \<times> walletLedger) option" where
  "commit_all [] w L = Some ([], w, L)"
| "commit_all (r # rs) w L =
     (case (if \<not> dr_cancelled r \<and> dr_err r = None then Result_Commit r w else Some (r, w)) of
        None \<Rightarrow> None
      | Some (r', w') \<Rightarrow>
          map_option (\<lambda>(rs', w'', L'). (r' # rs', w'', L')) (commit_all rs w' (settle Acknowledge (dr_reservation r') L)))"

definition drain :: "bool \<Rightarrow> 'w \<Rightarrow> ('o, 'w) Pool \<Rightarrow> ('w DrainedResult list \<times> 'w \<times> ('o, 'w) Pool) option" where
  "drain ordered w p =
     (case collect_results p of (out, p1) \<Rightarrow>
        let out1 = (if ordered \<and> 1 < length out then sort_key dr_sequence out else out) in
        map_option (\<lambda>(rs, w', L). (rs, w', p1\<lparr>p_ledger := L\<rparr>)) (commit_all out1 w (p_ledger p1)))"

definition Pool_Drain :: "'w \<Rightarrow> ('o, 'w) Pool \<Rightarrow> ('w DrainedResult list \<times> 'w \<times> ('o, 'w) Pool) option" where
  "Pool_Drain w p = drain False w p"

definition DrainOrdered :: "'w \<Rightarrow> ('o, 'w) Pool \<Rightarrow> ('w DrainedResult list \<times> 'w \<times> ('o, 'w) Pool) option" where
  "DrainOrdered w p = drain True w p"

definition cancel_tokens :: "(JobID \<times> nat) list \<Rightarrow> bool list \<Rightarrow> bool list" where
  "cancel_tokens act toks = fold (\<lambda>(_, t) ts. ts[t := True]) act toks"

definition CancelJob :: "JobID \<Rightarrow> ('o, 'w) Pool \<Rightarrow> ('o, 'w) Pool" where
  "CancelJob j p =
     (case map_of (p_active p) j of None \<Rightarrow> p | Some t \<Rightarrow> p\<lparr>p_tokens := (p_tokens p)[t := True]\<rparr>)"

definition CancelAll :: "('o, 'w) Pool \<Rightarrow> ('o, 'w) Pool" where
  "CancelAll p = p\<lparr>p_tokens := cancel_tokens (p_active p) (p_tokens p)\<rparr>"

text \<open>
  \<open>Shutdown\<close> up to the point where it waits for the workers, with the reservations it will
  release, and the part that runs after the last worker has left.
\<close>

definition Shutdown_begin :: "('o, 'w) Pool \<Rightarrow> (JobID \<times> Reservation option) list \<times> ('o, 'w) Pool" where
  "Shutdown_begin p =
     (if p_closed p then ([], p)
      else (p_jobReservations p,
            p\<lparr>p_closed := True, p_tokens := cancel_tokens (p_active p) (p_tokens p), p_paused := False, p_shutdown := True\<rparr>))"

definition Shutdown_end :: "(JobID \<times> Reservation option) list \<Rightarrow> ('o, 'w) Pool \<Rightarrow> ('o, 'w) Pool" where
  "Shutdown_end reservations p =
     (let L1 = fold (\<lambda>res. settle Acknowledge (dr_reservation res)) (p_results p) (p_ledger p);
          L2 = fold (\<lambda>(_, r) L. settle Acknowledge r (settle Retire r L)) reservations L1
      in p\<lparr>p_results := [], p_ledger := L2,
           p_jobReservations := fold (\<lambda>(j, r) m. if r = None then m else AList.delete j m) reservations (p_jobReservations p)\<rparr>)"

section \<open>Runs of the pool\<close>

text \<open>
  Every interleaving of submitters, workers, the consumer and the controls. The consumer
  receives results one at a time; what happens to the memory ledger between the steps of the
  pool, by acknowledgements or by other users of the wallets, is arbitrary.
\<close>

inductive pool_step :: "'i itself \<Rightarrow> ('o, 'w) Pool \<Rightarrow> ('o, 'w) Pool \<Rightarrow> bool" for T :: "'i itself" where
  submit: "ScheduleGuarded False (job :: ('i, 'o, 'w) Job) allowed onCommit p = Some (e, p') \<Longrightarrow> pool_step T p p'"
| gate: "i < length (p_workers p) \<Longrightarrow> p_workers p ! i = Idle \<Longrightarrow> pool_step T p (worker_gate i p)"
| first_select: "i < length (p_workers p) \<Longrightarrow> p_workers p ! i = Armed \<Longrightarrow> pool_step T p (worker_prefer i p)"
| second_select: "i < length (p_workers p) \<Longrightarrow> p_workers p ! i = Waiting \<Longrightarrow> pool_step T p (worker_wait c i p)"
| finish: "i < length (p_workers p) \<Longrightarrow> p_workers p ! i = Running q \<Longrightarrow> pool_step T p (exec_send i q out p)"
| publish: "i < length (p_workers p) \<Longrightarrow> p_workers p ! i = Sent q \<Longrightarrow> pool_step T p (exec_publish i q p)"
| receive: "p_results p = res # rest \<Longrightarrow> pool_step T p (drain_receive res (p\<lparr>p_results := rest\<rparr>))"
| ledger: "pool_step T p (p\<lparr>p_ledger := L\<rparr>)"
| pause: "pool_step T p (Pause p)"
| resume: "pool_step T p (Pool_Resume p)"
| cancel_job: "pool_step T p (CancelJob j p)"
| cancel_all: "pool_step T p (CancelAll p)"
| shutdown_begin: "pool_step T p (snd (Shutdown_begin p))"
| shutdown_end: "pool_step T p (Shutdown_end rs p)"

inductive_cases pool_stepE: "pool_step T p p'"

definition pool_reachable :: "'i itself \<Rightarrow> PoolConfig \<Rightarrow> walletLedger \<Rightarrow> ('o, 'w) Pool \<Rightarrow> bool" where
  "pool_reachable T c L p \<longleftrightarrow> (pool_step T)\<^sup>*\<^sup>* (NewPoolWithConfig c L) p"

section \<open>Sequence numbers and records\<close>

fun run_seq :: "('o, 'w) worker \<Rightarrow> u64 list" where
  "run_seq (Running q) = [q_sequence q]"
| "run_seq _ = []"

fun sent_seq :: "('o, 'w) worker \<Rightarrow> u64 list" where
  "sent_seq (Sent q) = [q_sequence q]"
| "sent_seq _ = []"

text \<open>The submissions that are queued or running, and those whose result was sent.\<close>

definition inflight :: "('o, 'w) Pool \<Rightarrow> u64 multiset" where
  "inflight p = mset (map q_sequence (p_interactive p)) + mset (map q_sequence (p_background p)) +
     mset (concat (map run_seq (p_workers p)))"

definition finished :: "('o, 'w) Pool \<Rightarrow> u64 set" where
  "finished p = dr_sequence ` set (p_results p) \<union> set (concat (map sent_seq (p_workers p)))"

lemma length_run_seqs: "length (concat (map run_seq ws)) = length (filter (\<lambda>x. run_seq x \<noteq> []) ws)"
proof (induction ws)
  case (Cons x ws)
  then show ?case by (cases x) auto
qed simp

lemma mset_concat_update:
  "i < length ws \<Longrightarrow> mset (concat (map f (ws[i := x]))) + mset (f (ws ! i)) = mset (concat (map f ws)) + mset (f x)"
proof -
  assume i: "i < length ws"
  have "ws[i := x] = take i ws @ x # drop (Suc i) ws" using i by (rule upd_conv_take_nth_drop)
  moreover have "concat (map f ws) = concat (map f (take i ws @ ws ! i # drop (Suc i) ws))"
    using id_take_nth_drop [OF i] by simp
  ultimately show ?thesis by simp
qed

lemma inflight_set_worker:
  "i < length (p_workers p) \<Longrightarrow>
     inflight (set_worker i x p) + mset (run_seq (p_workers p ! i)) = inflight p + mset (run_seq x)"
  using mset_concat_update [of i "p_workers p" run_seq x] by (simp add: inflight_def set_worker_def)

lemma finished_set_worker:
  assumes "i < length (p_workers p)"
  shows "finished (set_worker i x p) \<subseteq> finished p \<union> set (sent_seq x)"
    "sent_seq (p_workers p ! i) = [] \<Longrightarrow> finished (set_worker i x p) = finished p \<union> set (sent_seq x)"
proof -
  have e: "set (concat (map sent_seq ((p_workers p)[i := x]))) \<union> set (sent_seq (p_workers p ! i)) =
      set (concat (map sent_seq (p_workers p))) \<union> set (sent_seq x)"
    using arg_cong [OF mset_concat_update [OF assms, of sent_seq x], of set_mset] by simp
  show "finished (set_worker i x p) \<subseteq> finished p \<union> set (sent_seq x)"
    using e by (auto simp: finished_def set_worker_def)
  show "sent_seq (p_workers p ! i) = [] \<Longrightarrow> finished (set_worker i x p) = finished p \<union> set (sent_seq x)"
    using e by (auto simp: finished_def set_worker_def)
qed

text \<open>The record counter counts what is queued or running, and the channels keep their capacity.\<close>

definition rec_inv :: "('o, 'w) Pool \<Rightarrow> bool" where
  "rec_inv p \<longleftrightarrow> p_pendingRecords p = int (size (inflight p)) \<and> p_pendingRecords p \<le> int (p_maxTotalRecords p) \<and>
     length (p_interactive p) \<le> p_maxWaitingInteractive p \<and> length (p_background p) \<le> p_maxWaitingInteractive p \<and>
     length (p_results p) \<le> p_maxTotalRecords p"

text \<open>What an operation does to the parts of the state that the invariants read.\<close>

lemma view_updates [simp]:
  "inflight (p\<lparr>p_ledger := L\<rparr>) = inflight p" "finished (p\<lparr>p_ledger := L\<rparr>) = finished p"
  "inflight (p\<lparr>p_tokens := ts\<rparr>) = inflight p" "finished (p\<lparr>p_tokens := ts\<rparr>) = finished p"
  "inflight (p\<lparr>p_active := a\<rparr>) = inflight p" "finished (p\<lparr>p_active := a\<rparr>) = finished p"
  "inflight (p\<lparr>p_jobReservations := b\<rparr>) = inflight p" "finished (p\<lparr>p_jobReservations := b\<rparr>) = finished p"
  "inflight (p\<lparr>p_pendingRecords := n\<rparr>) = inflight p" "finished (p\<lparr>p_pendingRecords := n\<rparr>) = finished p"
  "inflight (p\<lparr>p_nextSequence := k\<rparr>) = inflight p" "finished (p\<lparr>p_nextSequence := k\<rparr>) = finished p"
  "inflight (p\<lparr>p_pendingSequence := m\<rparr>) = inflight p" "finished (p\<lparr>p_pendingSequence := m\<rparr>) = finished p"
  "inflight (p\<lparr>p_drainedSequence := d\<rparr>) = inflight p" "finished (p\<lparr>p_drainedSequence := d\<rparr>) = finished p"
  "inflight (p\<lparr>p_ready := c\<rparr>) = inflight p" "finished (p\<lparr>p_ready := c\<rparr>) = finished p"
  "inflight (p\<lparr>p_drainedEarly := c\<rparr>) = inflight p" "finished (p\<lparr>p_drainedEarly := c\<rparr>) = finished p"
  "inflight (p\<lparr>p_frontierWake := x\<rparr>) = inflight p" "finished (p\<lparr>p_frontierWake := x\<rparr>) = finished p"
  "inflight (p\<lparr>p_paused := x\<rparr>) = inflight p" "finished (p\<lparr>p_paused := x\<rparr>) = finished p"
  "inflight (p\<lparr>p_closed := x\<rparr>) = inflight p" "finished (p\<lparr>p_closed := x\<rparr>) = finished p"
  "inflight (p\<lparr>p_shutdown := x\<rparr>) = inflight p" "finished (p\<lparr>p_shutdown := x\<rparr>) = finished p"
  "inflight (p\<lparr>p_reservationFaults := n\<rparr>) = inflight p" "finished (p\<lparr>p_reservationFaults := n\<rparr>) = finished p"
  "inflight (p\<lparr>p_admissionRefusals := n\<rparr>) = inflight p" "finished (p\<lparr>p_admissionRefusals := n\<rparr>) = finished p"
  "inflight (p\<lparr>p_results := rs\<rparr>) = inflight p"
  by (simp_all add: inflight_def finished_def)

section \<open>The frontier as an abstract machine\<close>

text \<open>
  What the frontier operations see of a pool: the open submissions, the sent ones, the last
  number and the pending map. The pool simulates the machine below: a submission is admitted or
  refused with a number taken, an open one is completed, and the pending entry of a sent one is
  marked ready or removed.
\<close>

type_synonym frontier = "u64 multiset \<times> u64 set \<times> u64 \<times> (u64 \<rightharpoonup> bool)"

definition frontier_of :: "('o, 'w) Pool \<Rightarrow> frontier" where
  "frontier_of p = (inflight p, finished p, p_nextSequence p, map_of (p_pendingSequence p))"

inductive frontier_step :: "frontier \<Rightarrow> frontier \<Rightarrow> bool" where
  stutter: "D' \<subseteq> D \<Longrightarrow> frontier_step (I, D, n, P) (I, D', n, P)"
| admit: "n + 1 \<noteq> 0 \<Longrightarrow> frontier_step (I, D, n, P) (add_mset (n + 1) I, D, n + 1, P(n + 1 \<mapsto> False))"
| refuse: "n + 1 \<noteq> 0 \<Longrightarrow> frontier_step (I, D, n, P) (I, D, n + 1, P(n + 1 \<mapsto> False))"
| complete: "D' \<subseteq> insert s D \<Longrightarrow> frontier_step (add_mset s I, D, n, P) (I, D', n, P)"
| mark: "s \<in> D \<Longrightarrow> D' \<subseteq> D \<Longrightarrow> r \<noteq> Some False \<Longrightarrow> frontier_step (I, D, n, P) (I, D', n, P(s := r))"

definition frontier_ok :: "frontier \<Rightarrow> bool" where
  "frontier_ok F = (case F of (I, D, n, P) \<Rightarrow>
     (\<forall>s. count I s \<le> 1) \<and> set_mset I \<inter> D = {} \<and> (\<forall>s \<in> set_mset I \<union> D. s \<le> n) \<and> (\<forall>s \<in># I. P s = Some False))"

definition frontier_orphan :: "u64 \<Rightarrow> frontier \<Rightarrow> bool" where
  "frontier_orphan s F = (case F of (I, D, n, P) \<Rightarrow> P s = Some False \<and> s \<notin># I \<and> s \<notin> D \<and> s \<le> n)"

lemma next_above: "n + 1 \<noteq> 0 \<Longrightarrow> s \<le> n \<Longrightarrow> s \<le> n + 1 \<and> s \<noteq> n + (1 :: u64)"
proof -
  assume n: "n + 1 \<noteq> 0" and s: "s \<le> n"
  have "unat (n + 1) = Suc (unat n)" using n unatSuc [of n] by (simp add: add.commute)
  then show ?thesis using s by (auto simp: word_le_nat_alt)
qed

lemma frontier_step_ok: "frontier_step F F' \<Longrightarrow> frontier_ok F \<Longrightarrow> frontier_ok F'"
proof (induction rule: frontier_step.induct)
  case (admit n I D P)
  have "n + 1 \<notin># I" "n + 1 \<notin> D" using admit next_above [of n "n + 1"] by (auto simp: frontier_ok_def)
  then show ?case using admit next_above [of n] by (auto simp: frontier_ok_def count_eq_zero_iff)
next
  case (refuse n I D P)
  then show ?case using next_above [of n] by (auto simp: frontier_ok_def)
next
  case (complete D' s D I n P)
  then have c: "\<forall>t. count (add_mset s I) t \<le> 1" by (simp only: frontier_ok_def prod.case simp_thms)
  have "s \<notin># I" using c [rule_format, of s] by (simp add: count_eq_zero_iff)
  moreover have "count I t \<le> 1" for t using c [rule_format, of t] by (cases "s = t") simp_all
  ultimately show ?case using complete by (auto simp: frontier_ok_def)
qed (auto simp: frontier_ok_def)

lemma frontier_step_orphan:
  "frontier_step F F' \<Longrightarrow> frontier_orphan s F \<Longrightarrow> frontier_orphan s F'"
proof (induction rule: frontier_step.induct)
  case (admit n I D P)
  then show ?case using next_above [of n s] by (auto simp: frontier_orphan_def)
next
  case (refuse n I D P)
  then show ?case using next_above [of n s] by (auto simp: frontier_orphan_def)
qed (auto simp: frontier_orphan_def)

section \<open>The simulation\<close>

lemma frontier_stutterI:
  "inflight p' = inflight p \<Longrightarrow> finished p' \<subseteq> finished p \<Longrightarrow> p_nextSequence p' = p_nextSequence p \<Longrightarrow>
   p_pendingSequence p' = p_pendingSequence p \<Longrightarrow> frontier_step (frontier_of p) (frontier_of p')"
  unfolding frontier_of_def by (simp add: frontier_step.stutter)

lemma set_worker_frontier [simp]:
  "p_nextSequence (set_worker i x p) = p_nextSequence p" "p_pendingSequence (set_worker i x p) = p_pendingSequence p"
  by (simp_all add: set_worker_def)

lemma inflight_take:
  "p_interactive p = q # qs \<Longrightarrow> inflight p = add_mset (q_sequence q) (inflight (p\<lparr>p_interactive := qs\<rparr>))"
  "p_background p = b # bs \<Longrightarrow> inflight p = add_mset (q_sequence b) (inflight (p\<lparr>p_background := bs\<rparr>))"
  "finished (p\<lparr>p_interactive := qs\<rparr>) = finished p" "finished (p\<lparr>p_background := bs\<rparr>) = finished p"
  by (simp_all add: inflight_def finished_def)

lemma take_frontier:
  assumes "i < length (p_workers p)" "run_seq (p_workers p ! i) = []"
  shows "p_interactive p = q # qs \<Longrightarrow>
      inflight (set_worker i (Running q) (p\<lparr>p_interactive := qs\<rparr>)) = inflight p \<and>
      finished (set_worker i (Running q) (p\<lparr>p_interactive := qs\<rparr>)) \<subseteq> finished p"
    "p_background p = q # qs \<Longrightarrow>
      inflight (set_worker i (Running q) (p\<lparr>p_background := qs\<rparr>)) = inflight p \<and>
      finished (set_worker i (Running q) (p\<lparr>p_background := qs\<rparr>)) \<subseteq> finished p"
  using assms inflight_set_worker [of i "p\<lparr>p_interactive := qs\<rparr>" "Running q"]
    inflight_set_worker [of i "p\<lparr>p_background := qs\<rparr>" "Running q"]
    finished_set_worker(1) [of i "p\<lparr>p_interactive := qs\<rparr>" "Running q"]
    finished_set_worker(1) [of i "p\<lparr>p_background := qs\<rparr>" "Running q"]
  by (simp_all add: inflight_take)

lemma move_frontier:
  assumes "i < length (p_workers p)" "run_seq (p_workers p ! i) = []" "run_seq x = []" "sent_seq x = []"
  shows "inflight (set_worker i x p) = inflight p" "finished (set_worker i x p) \<subseteq> finished p"
  using assms inflight_set_worker [of i p x] finished_set_worker(1) [of i p x] by simp_all

lemma stay_step [simp]: "frontier_step (frontier_of p) (frontier_of p)"
  by (intro frontier_stutterI) simp_all

lemma move_step:
  "i < length (p_workers p) \<Longrightarrow> run_seq (p_workers p ! i) = [] \<Longrightarrow> run_seq x = [] \<Longrightarrow> sent_seq x = [] \<Longrightarrow>
     frontier_step (frontier_of p) (frontier_of (set_worker i x p))"
  using move_frontier [of i p x] by (intro frontier_stutterI) simp_all

lemma take_step:
  "i < length (p_workers p) \<Longrightarrow> run_seq (p_workers p ! i) = [] \<Longrightarrow> p_interactive p = q # qs \<Longrightarrow>
     frontier_step (frontier_of p) (frontier_of (set_worker i (Running q) (p\<lparr>p_interactive := qs\<rparr>)))"
  "i < length (p_workers p) \<Longrightarrow> run_seq (p_workers p ! i) = [] \<Longrightarrow> p_background p = q # qs \<Longrightarrow>
     frontier_step (frontier_of p) (frontier_of (set_worker i (Running q) (p\<lparr>p_background := qs\<rparr>)))"
  using take_frontier [of i p] by (auto intro!: frontier_stutterI)

lemma worker_frontier:
  assumes "i < length (p_workers p)"
  shows "p_workers p ! i = Idle \<Longrightarrow> frontier_step (frontier_of p) (frontier_of (worker_gate i p))"
    "p_workers p ! i = Armed \<Longrightarrow> frontier_step (frontier_of p) (frontier_of (worker_prefer i p))"
    "p_workers p ! i = Waiting \<Longrightarrow> frontier_step (frontier_of p) (frontier_of (worker_wait c i p))"
  using assms
  by (auto simp: worker_gate_def worker_prefer_def worker_wait_def intro: move_step take_step
      split: list.split wait_case.split)

lemma exec_settle_frontier:
  assumes "exec_settle q out p = (res, p1)"
  shows "inflight p1 = inflight p" "finished p1 = finished p" "p_nextSequence p1 = p_nextSequence p"
    "p_pendingSequence p1 = p_pendingSequence p" "p_workers p1 = p_workers p" "p_results p1 = p_results p"
    "dr_sequence res = q_sequence q" "p_maxTotalRecords p1 = p_maxTotalRecords p"
    "p_maxWaitingInteractive p1 = p_maxWaitingInteractive p" "p_interactive p1 = p_interactive p"
    "p_background p1 = p_background p" "p_pendingRecords p1 = p_pendingRecords p - 1"
  using assms by (auto simp: exec_settle_def job_result_def Let_def split: outcome.splits if_splits)

lemma finish_frontier:
  assumes i: "i < length (p_workers p)" "p_workers p ! i = Running q"
  shows "frontier_step (frontier_of p) (frontier_of (exec_send i q out p))"
proof -
  obtain res p1 where e: "exec_settle q out p = (res, p1)" by (cases "exec_settle q out p")
  note f = exec_settle_frontier [OF e]
  have step: "frontier_step (frontier_of p) (frontier_of p')"
    if "inflight p = add_mset (q_sequence q) (inflight p')" "finished p' \<subseteq> insert (q_sequence q) (finished p)"
      "p_nextSequence p' = p_nextSequence p" "p_pendingSequence p' = p_pendingSequence p" for p' :: "('a, 'b) Pool"
    unfolding frontier_of_def that(1,3,4) by (rule frontier_step.complete [OF that(2)])
  show ?thesis
  proof (cases "length (p_results p1) < p_maxTotalRecords p1")
    case True
    let ?p = "p1\<lparr>p_results := p_results p1 @ [res]\<rparr>"
    have "finished ?p = insert (q_sequence q) (finished p)" using f by (auto simp: finished_def)
    then show ?thesis
      using True e f i inflight_set_worker [of i ?p "Sent q"] finished_set_worker(1) [of i ?p "Sent q"]
      by (intro step) (simp_all add: exec_send_def)
  next
    case False
    let ?p = "p1\<lparr>p_reservationFaults := p_reservationFaults p1 + 1,
      p_ledger := settle Acknowledge (dr_reservation res) (p_ledger p1)\<rparr>"
    show ?thesis
      using False e f i inflight_set_worker [of i ?p Idle] finished_set_worker(1) [of i ?p Idle]
      by (intro step) (auto simp: exec_send_def)
  qed
qed

lemma publish_frontier:
  assumes i: "i < length (p_workers p)" "p_workers p ! i = Sent q"
  shows "frontier_step (frontier_of p) (frontier_of (exec_publish i q p))"
proof -
  have s: "q_sequence q \<in> finished p" using i by (force simp: finished_def in_set_conv_nth)
  obtain p1 where p1: "exec_publish i q p = set_worker i Idle p1" "p_workers p1 = p_workers p" "inflight p1 = inflight p"
      "finished p1 = finished p" "p_nextSequence p1 = p_nextSequence p"
      "p_pendingSequence p1 = p_pendingSequence p \<or> p_pendingSequence p1 = AList.update (q_sequence q) True (p_pendingSequence p)"
    by (auto simp: exec_publish_def Let_def)
  note m = move_frontier [of i p1 Idle]
  show ?thesis
  proof (cases "p_pendingSequence p1 = p_pendingSequence p")
    case True
    then show ?thesis using p1 m i by (intro frontier_stutterI) simp_all
  next
    case False
    then have u: "map_of (p_pendingSequence p1) = (map_of (p_pendingSequence p))(q_sequence q := Some True)"
      using p1(6) by (simp add: update_conv')
    show ?thesis
      using frontier_step.mark [OF s, of "finished (exec_publish i q p)" "Some True" "inflight p" "p_nextSequence p"
          "map_of (p_pendingSequence p)"] m p1 i u
      by (simp add: frontier_of_def)
  qed
qed

lemma receive_frontier:
  assumes "p_results p = res # rest"
  shows "frontier_step (frontier_of p) (frontier_of (drain_receive res (p\<lparr>p_results := rest\<rparr>)))"
proof -
  let ?p = "drain_receive res (p\<lparr>p_results := rest\<rparr>)"
  have s: "dr_sequence res \<in> finished p" "finished (p\<lparr>p_results := rest\<rparr>) \<subseteq> finished p"
    using assms by (auto simp: finished_def)
  have v: "inflight ?p = inflight p" "finished ?p = finished (p\<lparr>p_results := rest\<rparr>)" "p_nextSequence ?p = p_nextSequence p"
    by (auto simp: drain_receive_def Let_def split: option.splits)
  show ?thesis
  proof (cases "map_of (p_pendingSequence p) (dr_sequence res)")
    case None
    then have "p_pendingSequence ?p = p_pendingSequence p" by (auto simp: drain_receive_def Let_def)
    then show ?thesis using v s by (intro frontier_stutterI) simp_all
  next
    case (Some b)
    then have "map_of (p_pendingSequence ?p) = (map_of (p_pendingSequence p))(dr_sequence res := None)"
      by (auto simp: drain_receive_def Let_def delete_conv')
    then show ?thesis
      using frontier_step.mark [OF s(1), of "finished ?p" None "inflight p" "p_nextSequence p" "map_of (p_pendingSequence p)"] v s
      by (simp add: frontier_of_def)
  qed
qed

text \<open>Submissions.\<close>

lemma replace_previous_keeps [simp]:
  "inflight (replace_previous j p) = inflight p" "finished (replace_previous j p) = finished p"
  "p_nextSequence (replace_previous j p) = p_nextSequence p"
  "p_pendingSequence (replace_previous j p) = p_pendingSequence p"
  "p_interactive (replace_previous j p) = p_interactive p" "p_background (replace_previous j p) = p_background p"
  "p_results (replace_previous j p) = p_results p" "p_pendingRecords (replace_previous j p) = p_pendingRecords p"
  "p_maxTotalRecords (replace_previous j p) = p_maxTotalRecords p"
  "p_maxWaitingInteractive (replace_previous j p) = p_maxWaitingInteractive p"
  by (auto simp: replace_previous_def Let_def split: option.split)

lemma register_job_keeps:
  assumes "register_job j r p = Some (tok, sq, p1)"
  shows "sq = p_nextSequence p + 1" "sq \<noteq> 0" "inflight p1 = inflight p" "finished p1 = finished p"
    "p_nextSequence p1 = sq" "p_pendingSequence p1 = AList.update sq False (p_pendingSequence p)"
    "p_interactive p1 = p_interactive p" "p_background p1 = p_background p" "p_results p1 = p_results p"
    "p_pendingRecords p1 = p_pendingRecords p" "p_maxTotalRecords p1 = p_maxTotalRecords p"
    "p_maxWaitingInteractive p1 = p_maxWaitingInteractive p"
  using assms by (auto simp: register_job_def Let_def split: if_splits)

lemma inflight_enqueue:
  "inflight (p\<lparr>p_interactive := p_interactive p @ [q]\<rparr>) = add_mset (q_sequence q) (inflight p)"
  "inflight (p\<lparr>p_background := p_background p @ [q]\<rparr>) = add_mset (q_sequence q) (inflight p)"
  by (simp_all add: inflight_def)

lemma decl_errors:
  "TotalBytes j = Inl err \<Longrightarrow> err = DeclOverflowInput \<or> err = DeclOverflowOutput"
  "Decl_Validate j = Some err \<Longrightarrow> err = DeclOverflowInput \<or> err = DeclOverflowOutput \<or> err = ZeroDecl"
  by (auto simp: TotalBytes_def Decl_Validate_def Let_def split: if_splits sum.splits)

text \<open>The three outcomes of a submission that does not panic: turned away early, refused by a full queue, queued.\<close>

lemma ScheduleGuarded_cases:
  assumes "ScheduleGuarded exporting job allowed onCommit p = Some (e, p')"
  obtains (early) L n where "e \<noteq> None" "e \<notin> {Some RefusedInteractive, Some RefusedBackground}"
      "p' = p\<lparr>p_ledger := L, p_admissionRefusals := n\<rparr>"
    | (late) n L0 L r tok sq p1 q where "p_pendingRecords p + 1 \<le> int (p_maxTotalRecords p)"
      "register_job (job_ID job) r (p\<lparr>p_ledger := L, p_pendingRecords := p_pendingRecords p + 1\<rparr>) = Some (tok, sq, p1)"
      "q_sequence q = sq" "q_jobID q = job_ID job" "q_reservation q = r" "q_priority q = job_Priority job"
      "try_enqueue q p1 = (e, p')" "TotalBytes (job_MemoryDecl job) = Inr n" "reserve_for n p = Inr (r, L0)"
      "publish_for r L0 = Inr L"
proof -
  have same: "p = p\<lparr>p_ledger := p_ledger p, p_admissionRefusals := p_admissionRefusals p\<rparr>" by simp
  note S = assms [unfolded ScheduleGuarded_def]
  from S have "\<not> exporting" by (simp split: if_splits)
  show thesis
  proof (cases "job_has_Work job")
    case False
    then show ?thesis using S \<open>\<not> exporting\<close> same by (intro early [where L = "p_ledger p" and n = "p_admissionRefusals p"]) auto
  next
    case w: True
    show ?thesis
    proof (cases "if p_requireDeclarations p then Decl_Validate (job_MemoryDecl job) else None")
      case (Some err)
      then have "e = Some err" "p' = refused p" "err = DeclOverflowInput \<or> err = DeclOverflowOutput \<or> err = ZeroDecl"
        using S w \<open>\<not> exporting\<close> decl_errors [of "job_MemoryDecl job"] by (auto split: if_splits)
      then show ?thesis by (intro early [where L = "p_ledger p"]) (auto simp: refused_def)
    next
      case v: None
      show ?thesis
      proof (cases "TotalBytes (job_MemoryDecl job)")
        case (Inl err)
        then have "e = Some err" "p' = refused p" "err = DeclOverflowInput \<or> err = DeclOverflowOutput"
          using S w v \<open>\<not> exporting\<close> decl_errors [of "job_MemoryDecl job"] by (auto split: if_splits)
        then show ?thesis by (intro early [where L = "p_ledger p"]) (auto simp: refused_def)
      next
        case n: (Inr n)
        show ?thesis
        proof (cases "reserve_for n p")
          case (Inl err)
          then show ?thesis using S w v n \<open>\<not> exporting\<close> same
            by (intro early [where L = "p_ledger p" and n = "p_admissionRefusals p"]) auto
        next
          case (Inr rL)
          then obtain r L where r: "reserve_for n p = Inr (r, L)" by (cases rL) auto
          note S' = S [unfolded v n r option.case sum.case prod.case]
          consider "p_closed p" | "\<not> p_closed p" "int (p_maxTotalRecords p) < p_pendingRecords p + 1"
            | "\<not> p_closed p" "p_pendingRecords p + 1 \<le> int (p_maxTotalRecords p)" by linarith
          then show ?thesis
          proof cases
            case 1
            then show ?thesis using S' w \<open>\<not> exporting\<close> by (intro early [where L = "settle Cancel r L" and n = "p_admissionRefusals p"]) auto
          next
            case 2
            then show ?thesis
              using S' w \<open>\<not> exporting\<close> by (intro early [where L = "settle Cancel r L"]) (auto simp: refused_def Let_def)
          next
            case 3
            show ?thesis
            proof (cases "publish_for r L")
              case (Inl err)
              then show ?thesis
                using 3 S' w \<open>\<not> exporting\<close> by (intro early [where L = "settle Cancel r L" and n = "p_admissionRefusals p"]) (auto simp: Let_def)
            next
              case (Inr L1)
              then obtain tok sq p1 where g: "register_job (job_ID job) r (p\<lparr>p_ledger := L1,
                  p_pendingRecords := p_pendingRecords p + 1\<rparr>) = Some (tok, sq, p1)"
                using 3 S' w \<open>\<not> exporting\<close> by (auto simp: Let_def split: option.splits)
              then show ?thesis
                using 3 Inr S' w \<open>\<not> exporting\<close> by (intro late [OF 3(2) g _ _ _ _ _ n r Inr]) (auto simp: Let_def)
            qed
          qed
        qed
      qed
    qed
  qed
qed

lemma undo_admission_keeps [simp]:
  "inflight (undo_admission q p) = inflight p" "finished (undo_admission q p) = finished p"
  "p_nextSequence (undo_admission q p) = p_nextSequence p" "p_pendingSequence (undo_admission q p) = p_pendingSequence p"
  by (simp_all add: undo_admission_def refused_def)

lemma try_enqueue_keeps:
  assumes "try_enqueue q p = (e, p')"
  shows "inflight p' = inflight p \<or> inflight p' = add_mset (q_sequence q) (inflight p)"
    "finished p' = finished p" "p_nextSequence p' = p_nextSequence p" "p_pendingSequence p' = p_pendingSequence p"
  using assms inflight_enqueue [of p q]
  by (auto simp: try_enqueue_def inflight_take(3,4) split: Priority.splits if_splits)

lemma submit_frontier:
  assumes "ScheduleGuarded exporting job allowed onCommit p = Some (e, p')"
  shows "frontier_step (frontier_of p) (frontier_of p')"
  using assms
proof (cases rule: ScheduleGuarded_cases)
  case (early L n)
  then show ?thesis by (intro frontier_stutterI) simp_all
next
  case (late n L0 L r tok sq p1 q)
  note k = register_job_keeps [OF late(2), simplified]
  have "inflight p' = inflight p \<or> inflight p' = add_mset sq (inflight p)"
    "finished p' = finished p" "p_nextSequence p' = sq" "p_pendingSequence p' = AList.update sq False (p_pendingSequence p)"
    using try_enqueue_keeps [OF late(7)] unfolding k late(3) by simp_all
  then show ?thesis
    using k(1,2) frontier_step.admit [of "p_nextSequence p" "inflight p" "finished p" "map_of (p_pendingSequence p)"]
      frontier_step.refuse [of "p_nextSequence p" "inflight p" "finished p" "map_of (p_pendingSequence p)"]
    by (auto simp: frontier_of_def update_conv')
qed

lemma control_frontier:
  "frontier_step (frontier_of p) (frontier_of (p\<lparr>p_ledger := L\<rparr>))" "frontier_step (frontier_of p) (frontier_of (Pause p))"
  "frontier_step (frontier_of p) (frontier_of (Pool_Resume p))" "frontier_step (frontier_of p) (frontier_of (CancelJob j p))"
  "frontier_step (frontier_of p) (frontier_of (CancelAll p))" "frontier_step (frontier_of p) (frontier_of (snd (Shutdown_begin p)))"
  "frontier_step (frontier_of p) (frontier_of (Shutdown_end rs p))"
  by (intro frontier_stutterI; auto simp: Pause_def Pool_Resume_def CancelJob_def CancelAll_def Shutdown_begin_def
      Shutdown_end_def Let_def finished_def split: option.split)+

lemma pool_simulates_frontier: "pool_step T p p' \<Longrightarrow> frontier_step (frontier_of p) (frontier_of p')"
  by (induction rule: pool_step.induct)
    (auto intro: submit_frontier worker_frontier finish_frontier publish_frontier receive_frontier control_frontier)

lemma frontier_start: "frontier_of (NewPoolWithConfig c L) = ({#}, {}, 0, Map.empty)"
  by (auto simp: frontier_of_def inflight_def finished_def NewPoolWithConfig_def Let_def map_replicate_const [symmetric]
      simp flip: map_replicate_const)

lemma inflight_start: "inflight (NewPoolWithConfig c L) = {#}"
  by (simp add: inflight_def NewPoolWithConfig_def Let_def)

lemma reachable_frontier_ok: "(pool_step T)\<^sup>*\<^sup>* p p' \<Longrightarrow> frontier_ok (frontier_of p) \<Longrightarrow> frontier_ok (frontier_of p')"
  by (induction rule: rtranclp_induct) (auto dest: pool_simulates_frontier frontier_step_ok)

lemma reachable_orphan: "(pool_step T)\<^sup>*\<^sup>* p p' \<Longrightarrow> frontier_orphan s (frontier_of p) \<Longrightarrow> frontier_orphan s (frontier_of p')"
  by (induction rule: rtranclp_induct) (auto dest: pool_simulates_frontier frontier_step_orphan)

section \<open>The record counter\<close>

lemma rec_invI:
  "rec_inv p \<Longrightarrow> inflight p' = inflight p \<Longrightarrow> p_pendingRecords p' = p_pendingRecords p \<Longrightarrow>
   p_maxTotalRecords p' = p_maxTotalRecords p \<Longrightarrow> p_maxWaitingInteractive p' = p_maxWaitingInteractive p \<Longrightarrow>
   length (p_interactive p') \<le> length (p_interactive p) \<Longrightarrow> length (p_background p') \<le> length (p_background p) \<Longrightarrow>
   length (p_results p') \<le> length (p_results p) \<Longrightarrow> rec_inv p'"
  by (simp add: rec_inv_def)

lemma submit_rec:
  assumes "ScheduleGuarded exporting job allowed onCommit p = Some (e, p')" and "rec_inv p"
  shows "rec_inv p'"
  using assms(1)
proof (cases rule: ScheduleGuarded_cases)
  case (early L n)
  then show ?thesis by (intro rec_invI [OF assms(2)]) simp_all
next
  case (late n L0 L r tok sq p1 q)
  note k = register_job_keeps [OF late(2), simplified]
  show ?thesis
    using late(1,3,7) k(3-12) inflight_enqueue [of p1 q] assms(2)
    by (auto simp: rec_inv_def try_enqueue_def undo_admission_def refused_def split: Priority.splits if_splits)
qed

lemma worker_rec:
  assumes "i < length (p_workers p)" "rec_inv p"
  shows "p_workers p ! i = Idle \<Longrightarrow> rec_inv (worker_gate i p)"
    "p_workers p ! i = Armed \<Longrightarrow> rec_inv (worker_prefer i p)"
    "p_workers p ! i = Waiting \<Longrightarrow> rec_inv (worker_wait c i p)"
    "p_workers p ! i = Sent q \<Longrightarrow> rec_inv (exec_publish i q p)"
proof -
  have keep: "rec_inv (set_worker i x p')" if "rec_inv p'" "i < length (p_workers p')" "run_seq (p_workers p' ! i) = run_seq x"
    for x and p' :: "('a, 'b) Pool"
    using that inflight_set_worker [of i p' x] by (auto simp: rec_inv_def set_worker_def)
  have take: "rec_inv (set_worker i (Running b) p')" if "p' = p\<lparr>p_interactive := bs\<rparr> \<and> p_interactive p = b # bs \<or>
      p' = p\<lparr>p_background := bs\<rparr> \<and> p_background p = b # bs" "run_seq (p_workers p ! i) = []" for b bs p'
    using that take_frontier [OF assms(1) that(2), of b bs] assms(2) by (auto simp: rec_inv_def set_worker_def)
  show "p_workers p ! i = Idle \<Longrightarrow> rec_inv (worker_gate i p)"
    using keep [OF assms(2,1)] assms(2) by (simp add: worker_gate_def)
  show "p_workers p ! i = Armed \<Longrightarrow> rec_inv (worker_prefer i p)"
    using keep [OF assms(2,1)] take by (auto simp: worker_prefer_def split: list.split)
  show "p_workers p ! i = Waiting \<Longrightarrow> rec_inv (worker_wait c i p)"
    using keep [OF assms(2,1)] take assms(2) by (auto simp: worker_wait_def split: list.split wait_case.split)
  show "p_workers p ! i = Sent q \<Longrightarrow> rec_inv (exec_publish i q p)"
    unfolding exec_publish_def Let_def
    using assms by (intro keep rec_invI [OF assms(2)]) auto
qed

lemma finish_rec:
  assumes "i < length (p_workers p)" "p_workers p ! i = Running q" "rec_inv p"
  shows "rec_inv (exec_send i q out p)"
proof -
  obtain res p1 where e: "exec_settle q out p = (res, p1)" by (cases "exec_settle q out p")
  note f = exec_settle_frontier [OF e]
  have d: "rec_inv (set_worker i x p')" if "run_seq x = []" "inflight p' = inflight p1" "p_workers p' = p_workers p1"
      "p_pendingRecords p' = p_pendingRecords p1" "p_maxTotalRecords p' = p_maxTotalRecords p1"
      "p_maxWaitingInteractive p' = p_maxWaitingInteractive p1" "p_interactive p' = p_interactive p1"
      "p_background p' = p_background p1" "length (p_results p') \<le> p_maxTotalRecords p1" for x and p' :: "('a, 'b) Pool"
  proof -
    have "inflight (set_worker i x p') + {#q_sequence q#} = inflight p"
      using inflight_set_worker [of i p' x] assms(1,2) f that by simp
    then have "size (inflight p) = Suc (size (inflight (set_worker i x p')))" by (metis size_add_mset add_mset_add_single)
    then show ?thesis using assms(3) f that by (simp add: rec_inv_def set_worker_def)
  qed
  have "length (p_results p1) \<le> p_maxTotalRecords p1" using assms(3) f by (simp add: rec_inv_def)
  then show ?thesis unfolding exec_send_def e prod.case by (auto intro!: d)
qed

lemma receive_rec:
  assumes "p_results p = res # rest" "rec_inv p"
  shows "rec_inv (drain_receive res (p\<lparr>p_results := rest\<rparr>))"
  using assms(1) by (intro rec_invI [OF assms(2)]) (auto simp: drain_receive_def Let_def split: option.splits)

lemma control_rec:
  assumes "rec_inv p"
  shows "rec_inv (p\<lparr>p_ledger := L\<rparr>)" "rec_inv (Pause p)" "rec_inv (Pool_Resume p)" "rec_inv (CancelJob j p)"
    "rec_inv (CancelAll p)" "rec_inv (snd (Shutdown_begin p))" "rec_inv (Shutdown_end rs p)"
  by (intro rec_invI [OF assms]; auto simp: Pause_def Pool_Resume_def CancelJob_def CancelAll_def Shutdown_begin_def
      Shutdown_end_def Let_def split: option.split)+

lemma pool_step_rec: "pool_step T p p' \<Longrightarrow> rec_inv p \<Longrightarrow> rec_inv p'"
  by (induction rule: pool_step.induct) (auto intro: submit_rec worker_rec finish_rec receive_rec control_rec)

lemma reachable_rec: "pool_reachable T c L p \<Longrightarrow> rec_inv p"
  unfolding pool_reachable_def
proof (induction rule: rtranclp_induct)
  case base
  show ?case by (simp add: rec_inv_def inflight_start) (simp add: NewPoolWithConfig_def Let_def)
qed (rule pool_step_rec)

lemma reachable_ok: "pool_reachable T c L p \<Longrightarrow> frontier_ok (frontier_of p)"
  unfolding pool_reachable_def using reachable_frontier_ok [of T "NewPoolWithConfig c L" p]
  by (simp add: frontier_start) (simp add: frontier_ok_def)

section \<open>Properties\<close>

definition sample_cfg :: PoolConfig where
  "sample_cfg = \<lparr>cfg_WorkerCount = 1, cfg_JobsWallet = Some 0, cfg_RequireDeclarations = True,
     cfg_MaxWaitingInteractive = 1, cfg_MaxTotalRecords = 4\<rparr>"

definition sample_job :: "u64 \<Rightarrow> (unit, nat, nat) Job" where
  "sample_job j = \<lparr>job_ID = j, job_Priority = PriorityInteractive, job_Snapshot = NewSnapshot () [], job_has_Work = True,
     job_MemoryDecl = \<lparr>MaxInputBytes = 1, MaxScratchBytes = 1, MaxOutputBytes = 1\<rparr>\<rparr>"

text \<open>A pool with one queued job, and the same after a second submission found the queue full.\<close>

definition sample_submit :: "u64 \<Rightarrow> (nat, nat) Pool \<Rightarrow> (job_error option \<times> (nat, nat) Pool) option" where
  "sample_submit j p = ScheduleGuarded False (sample_job j) None None p"

definition sample_pool :: "(nat, nat) Pool" where
  "sample_pool = snd (the (sample_submit 1 (NewPoolWithConfig sample_cfg demo_ledger)))"

definition sample_full :: "(nat, nat) Pool" where
  "sample_full = snd (the (sample_submit 2 sample_pool))"

lemma sample_evaluated:
  "fst (the (sample_submit 1 (NewPoolWithConfig sample_cfg demo_ledger))) = None"
  "fst (the (sample_submit 2 sample_pool)) = Some RefusedInteractive"
  "sample_submit 1 (NewPoolWithConfig sample_cfg demo_ledger) \<noteq> None \<and> sample_submit 2 sample_pool \<noteq> None"
  "ReadyThrough 0 (Some sample_pool)" "map q_sequence (p_interactive sample_pool) = [1]"
  "p_pendingRecords sample_pool = 1" "map_of (p_active sample_pool) 2 = None"
  "p_jobsWallet sample_pool = Some 0" "length (wallets (p_ledger sample_pool)) = 1"
  by code_simp+

lemma sample_pool_reachable: "pool_reachable TYPE(unit) sample_cfg demo_ledger sample_pool"
proof -
  have "ScheduleGuarded False (sample_job 1) None None (NewPoolWithConfig sample_cfg demo_ledger) = Some (None, sample_pool)"
    using sample_evaluated(1,3) by (auto simp: sample_pool_def sample_submit_def)
  from pool_step.submit [OF this, of "TYPE(unit)"] show ?thesis by (simp add: pool_reachable_def r_into_rtranclp)
qed

lemma sample_refused: "ScheduleGuarded False (sample_job 2) None None sample_pool = Some (Some RefusedInteractive, sample_full)"
  using sample_evaluated(2,3) by (auto simp: sample_full_def sample_submit_def)

text \<open>
  C16: The frontier never reports a job that is still to run. In every reachable pool, when
  \<open>ReadyThrough f\<close> holds, every job that is queued or running was submitted after \<open>f\<close>: the
  results of all earlier ones were sent or their submission was given up.
\<close>

theorem ReadyThrough_sound:
  assumes "pool_reachable T c L p" and "ReadyThrough f (Some p)"
  shows "(\<forall>q \<in> set (p_interactive p) \<union> set (p_background p). f < q_sequence q) \<and>
    (\<forall>q. Running q \<in> set (p_workers p) \<longrightarrow> f < q_sequence q)"
proof -
  have "f < s" if "s \<in># inflight p" for s
  proof -
    have "map_of (p_pendingSequence p) s = Some False"
      using reachable_ok [OF assms(1)] that by (simp add: frontier_ok_def frontier_of_def)
    then have "(s, False) \<in> set (p_pendingSequence p)" by (rule map_of_SomeD)
    then show ?thesis using assms(2) by (auto simp: ReadyThrough_def list_all_iff)
  qed
  moreover have "q_sequence q \<in># inflight p" if "Running q \<in> set (p_workers p)" for q
    using that by (force simp: inflight_def)
  ultimately show ?thesis by (auto simp: inflight_def)
qed

theorem ReadyThrough_sound_witness:
  "ReadyThrough 0 (Some sample_pool) \<and> 0 < q_sequence (hd (p_interactive sample_pool))"
proof -
  have "hd (p_interactive sample_pool) \<in> set (p_interactive sample_pool)"
    using sample_evaluated(5) by (cases "p_interactive sample_pool") auto
  then show ?thesis using ReadyThrough_sound [OF sample_pool_reachable sample_evaluated(4)] sample_evaluated(4) by blast
qed



text \<open>
  C19: A submission refused by a full queue stalls the frontier for good. The refused job took a
  sequence number and left it marked as not ready although no worker will ever send a result for
  it: from then on, whatever happens, \<open>ReadyThrough\<close> is false for the frontier of that moment
  and for every later one.
\<close>

theorem refused_submission_stalls_frontier:
  assumes "pool_reachable T c L p" and "ScheduleGuarded exporting job allowed onCommit p = Some (Some e, p1)"
    and "e = RefusedInteractive \<or> e = RefusedBackground" and "(pool_step T)\<^sup>*\<^sup>* p1 p2"
  shows "\<not> ReadyThrough (Frontier (Some p1)) (Some p2) \<and> (\<forall>f. Frontier (Some p1) \<le> f \<longrightarrow> \<not> ReadyThrough f (Some p2))"
  using assms(2)
proof (cases rule: ScheduleGuarded_cases)
  case (early L n)
  then show ?thesis using assms(3) by auto
next
  case (late n L0 L' r tok sq p' q)
  note k = register_job_keeps [OF late(2), simplified]
  have p1: "p1 = undo_admission q p'" using late(7) assms(3) by (auto simp: try_enqueue_def split: Priority.splits if_splits)
  have fresh: "sq \<notin># inflight p" "sq \<notin> finished p"
  proof -
    have "\<not> sq \<le> p_nextSequence p" using k(1,2) next_above [of "p_nextSequence p" sq] by auto
    then show "sq \<notin># inflight p" "sq \<notin> finished p"
      using reachable_ok [OF assms(1)] by (auto simp: frontier_ok_def frontier_of_def)
  qed
  have "frontier_orphan sq (frontier_of p1)"
    using fresh k(3-6) by (simp add: p1 undo_admission_def refused_def frontier_orphan_def frontier_of_def update_conv')
  from reachable_orphan [OF assms(4) this] have m: "(sq, False) \<in> set (p_pendingSequence p2)"
    by (auto simp: frontier_orphan_def frontier_of_def dest: map_of_SomeD)
  have "\<not> ReadyThrough f (Some p2)" if "sq \<le> f" for f
  proof
    assume "ReadyThrough f (Some p2)"
    then have "\<forall>x \<in> set (p_pendingSequence p2). case x of (s, ready) \<Rightarrow> \<not> (s \<le> f \<and> \<not> ready)"
      by (simp add: ReadyThrough_def list_all_iff)
    from bspec [OF this m] that show False by simp
  qed
  moreover have "Frontier (Some p1) = sq" using k(5) by (simp add: Frontier_def p1 undo_admission_def refused_def)
  ultimately show ?thesis by simp
qed

theorem refused_submission_stalls_frontier_witness:
  "\<not> ReadyThrough (Frontier (Some sample_full)) (Some sample_full) \<and> \<not> ReadyThrough 9 (Some (Pause sample_full))"
proof -
  have "Frontier (Some sample_full) \<le> 9" by code_simp
  then show ?thesis
    using refused_submission_stalls_frontier [OF sample_pool_reachable sample_refused _ rtranclp.rtrancl_refl]
      refused_submission_stalls_frontier [OF sample_pool_reachable sample_refused _ r_into_rtranclp, OF _ pool_step.pause]
    by simp
qed

text \<open>
  A submission refused by a full queue keeps its memory charged. The reservation was
  published before the queue was tried; the cancellation that should give the bytes back needs
  an unpublished reservation, fails, and its error is dropped. The wallet stays charged with the
  bytes of the refused job, under a token that the pool no longer holds.
\<close>

theorem refused_submission_keeps_charge:
  assumes "ledger_reachable capacity (p_ledger p)" and "p_jobsWallet p = Some w" and "w < length (wallets (p_ledger p))"
    and "TotalBytes (job_MemoryDecl job) = Inr n" and "0 < n" and "map_of (p_active p) (job_ID job) = None"
    and "ScheduleGuarded exporting job allowed onCommit p = Some (Some e, p1)"
    and "e = RefusedInteractive \<or> e = RefusedBackground"
  shows "used_bytes w (p_ledger p1) = used_bytes w (p_ledger p) + unat n \<and>
    map_of (p_jobReservations p1) (job_ID job) = None \<and>
    (\<exists>k. token_status w k (p_ledger p) = None \<and> token_status w k (p_ledger p1) = Some (allocationLive, n))"
  using assms(7)
proof (cases rule: ScheduleGuarded_cases)
  case (early L m)
  then show ?thesis using assms(8) by auto
next
  case (late m L0 L r tok sq p' q)
  have inv: "wallet_inv w (p_ledger p)" using ledger_reachable_wf [OF assms(1)] assms(3) by (simp add: wallet_inv_def)
  have "m = n" using late(8) assms(4) by simp
  then obtain r' where r: "r = Some r'" "Reserve (Some w) n (p_ledger p) = Inr (r', L0)"
    using late(9) assms(2,5) by (auto simp: reserve_for_def split: if_splits sum.splits)
  define k where "k = r_id r'"
  have tok: "r = token_of w k" "reserve_id w n (p_ledger p) = Inr (k, L0)"
    using r by (auto simp: k_def token_of_def reserve_id_def Reserve_def claimLocked_def Let_def split: if_splits sum.splits)
  note ad = budget.reserve_admits [OF inv tok(2)]
  have pub: "Publish (token_of w k) L0 = Inr L" using late(10) tok(1) by (simp add: publish_for_def token_of_def)
  have live: "used_bytes w L = used_bytes w L0" "token_status w k L = Some (allocationLive, n)"
    using budget.publish_moves [of w L0 k n] ad pub by auto
  obtain err where "Cancel (token_of w k) L = Inl err" using budget.published_not_cancelled [of w L0 k n L] ad pub by auto
  then have c: "settle Cancel r L = L" by (simp add: settle_def tok(1) token_of_def)
  have p1: "p1 = undo_admission q p'" using late(7) assms(8) by (auto simp: try_enqueue_def split: Priority.splits if_splits)
  have "p_ledger p' = L" using late(2) assms(6) by (auto simp: register_job_def replace_previous_def Let_def split: if_splits)
  then have "p_ledger p1 = L" "map_of (p_jobReservations p1) (job_ID job) = None"
    using c late(4,5) by (simp_all add: p1 undo_admission_def refused_def delete_conv')
  then show ?thesis using live ad by auto
qed

text \<open>An admitted job leaves a ledger that the wallet operations can reach.\<close>

lemma admitted_ledger_reachable:
  assumes "ledger_reachable capacity (p_ledger p)" and "\<And>w. p_jobsWallet p = Some w \<Longrightarrow> w < length (wallets (p_ledger p))"
    and "map_of (p_active p) (job_ID job) = None" and "ScheduleGuarded exporting job allowed onCommit p = Some (None, p')"
  shows "ledger_reachable capacity (p_ledger p')"
  using assms(4)
proof (cases rule: ScheduleGuarded_cases)
  case (late m L0 L r tok sq p1 q)
  have "ledger_reachable capacity L0"
    using late(9) assms(1,2) by (auto simp: reserve_for_def split: if_splits sum.splits
        intro: ledger_reachable.reach_step ledger_step.step_reserve)
  then have "ledger_reachable capacity L"
    using late(10) by (auto simp: publish_for_def split: if_splits intro: ledger_reachable.reach_step ledger_step.step_publish)
  moreover have "p_ledger p1 = L" using late(2) assms(3) by (auto simp: register_job_def replace_previous_def Let_def split: if_splits)
  moreover have "p_ledger p' = p_ledger p1" using late(7) by (auto simp: try_enqueue_def split: Priority.splits if_splits)
  ultimately show ?thesis by simp
qed simp

lemma sample_ledger_reachable: "ledger_reachable 10 (p_ledger sample_pool)"
proof (rule admitted_ledger_reachable)
  show "ScheduleGuarded False (sample_job 1) None None (NewPoolWithConfig sample_cfg demo_ledger) = Some (None, sample_pool)"
    using sample_evaluated(1,3) by (auto simp: sample_pool_def sample_submit_def)
qed (use demo_reachable(1) in \<open>auto simp: NewPoolWithConfig_def sample_cfg_def demo_ledger_def\<close>)

theorem refused_submission_keeps_charge_witness:
  "used_bytes 0 (p_ledger sample_full) = used_bytes 0 (p_ledger sample_pool) + 3 \<and>
     map_of (p_jobReservations sample_full) 2 = None"
proof -
  have t: "TotalBytes (job_MemoryDecl (sample_job 2)) = Inr 3" by code_simp
  show ?thesis
    using refused_submission_keeps_charge [OF sample_ledger_reachable sample_evaluated(8) _ t _ _ sample_refused]
      sample_evaluated(7,9)
    by (simp add: sample_job_def)
qed

lemma short_mset_eq: "mset xs = mset ys \<Longrightarrow> \<not> 1 < length xs \<Longrightarrow> xs = ys"
  by (metis One_nat_def Suc_lessI length_0_conv length_Suc_conv linorder_neqE_nat mset_single_iff_right size_mset
      mset_zero_iff_right mset.simps not_less_eq zero_less_iff_neq_zero)

lemma drain_receive_ledger [simp]: "p_ledger (drain_receive res p) = p_ledger p"
  by (auto simp: drain_receive_def Let_def split: option.split)

lemma fold_receive_ledger [simp]: "p_ledger (fold drain_receive rs p) = p_ledger p"
  by (induction rs arbitrary: p) simp_all

lemma commit_all_sequence: "commit_all rs w L = Some (rs', w', L') \<Longrightarrow> map dr_sequence rs' = map dr_sequence rs"
  by (induction rs arbitrary: w L rs' w' L') (auto simp: Result_Commit_def split: option.splits if_splits prod.splits)

text \<open>
  C17: An ordered drain does not depend on the order in which the workers finished. Two pools
  whose result channels hold the same results, with distinct submission numbers, drain to the
  same list of results, the same committed state and the same memory ledger; the results come
  in the order of submission, each once.
\<close>

theorem DrainOrdered_confluent:
  fixes p p' :: "('o, 'w) Pool"
  assumes "mset (p_results p) = mset (p_results p')" and "distinct (map dr_sequence (p_results p))"
    and "p_ledger p = p_ledger p'"
  shows "map_option (\<lambda>(rs, w', q). (rs, w', p_ledger q)) (DrainOrdered w p) =
      map_option (\<lambda>(rs, w', q). (rs, w', p_ledger q)) (DrainOrdered w p') \<and>
    (\<forall>rs w' q. DrainOrdered w p = Some (rs, w', q) \<longrightarrow>
       sorted_wrt (<) (map dr_sequence rs) \<and> mset (map dr_sequence rs) = mset (map dr_sequence (p_results p)) \<and> p_results q = [])"
proof (intro conjI allI impI)
  let ?order = "\<lambda>out. if 1 < length out then sort_key dr_sequence out else out"
  have d: "DrainOrdered w q = map_option (\<lambda>(rs, w', L). (rs, w', (snd (collect_results q))\<lparr>p_ledger := L\<rparr>))
      (commit_all (?order (p_results q)) w (p_ledger q))" for q :: "('o, 'w) Pool"
    by (simp add: DrainOrdered_def drain_def collect_results_def)
  have "?order (p_results p) = ?order (p_results p')"
    using sort_key_unique [OF assms(1,2)] short_mset_eq [OF assms(1)] mset_eq_length [OF assms(1)] by auto
  then show "map_option (\<lambda>(rs, w', q). (rs, w', p_ledger q)) (DrainOrdered w p) =
      map_option (\<lambda>(rs, w', q). (rs, w', p_ledger q)) (DrainOrdered w p')"
    unfolding d by (simp add: option.map_comp comp_def case_prod_unfold assms(3))
  fix rs w' q assume "DrainOrdered w p = Some (rs, w', q)"
  then obtain L where c: "commit_all (?order (p_results p)) w (p_ledger p) = Some (rs, w', L)"
    and q: "q = (snd (collect_results p))\<lparr>p_ledger := L\<rparr>" unfolding d by auto
  have m: "map dr_sequence rs = map dr_sequence (?order (p_results p))" using commit_all_sequence [OF c] .
  have o: "mset (?order (p_results p)) = mset (p_results p)" by simp
  have o2: "sorted (map dr_sequence (?order (p_results p)))" by (cases "p_results p" rule: remdups_adj.cases) (simp_all del: sort_key_simps)
  have "distinct (map dr_sequence rs)"
    unfolding m using o assms(2) mset_eq_imp_distinct_iff [of "map dr_sequence (?order (p_results p))" "map dr_sequence (p_results p)"]
    by simp
  then show "sorted_wrt (<) (map dr_sequence rs)" unfolding m using o2 by (simp add: strict_sorted_iff)
  show "mset (map dr_sequence rs) = mset (map dr_sequence (p_results p))" unfolding m using o by simp
  have "p_results (fold drain_receive xs p0) = p_results p0" for xs and p0 :: "('o, 'w) Pool"
    by (induction xs arbitrary: p0) (simp_all add: drain_receive_def Let_def split: option.split)
  then show "p_results q = []" by (simp add: q collect_results_def)
qed

definition sample_result :: "u64 \<Rightarrow> nat DrainedResult" where
  "sample_result sq = \<lparr>dr_jobID = sq, dr_sequence = sq, dr_cancelled = False, dr_err = None, dr_committed = False,
     dr_commitFn = Some (\<lambda>w. Some (True, 10 * w + unat sq)), dr_reservation = None\<rparr>"

theorem DrainOrdered_confluent_witness:
  "map_option (\<lambda>(rs, w, q). (map dr_sequence rs, w)) (DrainOrdered 0 (sample_pool\<lparr>p_results := [sample_result 2, sample_result 1]\<rparr>)) =
     Some ([1, 2], 12)"
proof -
  let ?p = "sample_pool\<lparr>p_results := [sample_result 2, sample_result 1]\<rparr>"
  let ?p' = "sample_pool\<lparr>p_results := [sample_result 1, sample_result 2]\<rparr>"
  have "map_option (\<lambda>(rs, w', q). (rs, w', p_ledger q)) (DrainOrdered 0 ?p) =
      map_option (\<lambda>(rs, w', q). (rs, w', p_ledger q)) (DrainOrdered 0 ?p')"
    using DrainOrdered_confluent [of ?p ?p' 0] by (simp add: sample_result_def)
  then have "map_option (\<lambda>(rs, w, q). (map dr_sequence rs, w)) (DrainOrdered 0 ?p) =
      map_option (\<lambda>(rs, w, q). (map dr_sequence rs, w)) (DrainOrdered 0 ?p')"
    by (cases "DrainOrdered 0 ?p"; cases "DrainOrdered 0 ?p'") auto
  also have "\<dots> = Some ([1, 2], 12)"
    by (simp add: DrainOrdered_def drain_def collect_results_def sample_result_def Result_Commit_def settle_def)
  finally show ?thesis .
qed

definition declared_bytes :: "JobMemoryDecl \<Rightarrow> nat" where
  "declared_bytes j = unat (MaxInputBytes j) + unat (MaxScratchBytes j) + unat (MaxOutputBytes j)"

text \<open>
  The declared memory of a job is added without overflow. \<open>TotalBytes\<close> gives the exact sum
  of the three parts when it fits in 64 bits and an error otherwise; \<open>Validate\<close> accepts exactly
  the declarations whose sum is positive and fits.
\<close>

theorem TotalBytes_exact:
  "(case TotalBytes j of Inr t \<Rightarrow> unat t = declared_bytes j | Inl _ \<Rightarrow> 2 ^ 64 \<le> declared_bytes j) \<and>
    (Decl_Validate j = None \<longleftrightarrow> 0 < declared_bytes j \<and> declared_bytes j < 2 ^ 64)"
proof (cases "unat (MaxInputBytes j) + unat (MaxScratchBytes j) < 2 ^ 64")
  case True
  then have s: "unat (MaxInputBytes j + MaxScratchBytes j) = unat (MaxInputBytes j) + unat (MaxScratchBytes j)"
    by (rule unat_add_no_wrap)
  have t: "TotalBytes j = (if declared_bytes j < 2 ^ 64 then Inr (MaxInputBytes j + MaxScratchBytes j + MaxOutputBytes j) else Inl DeclOverflowOutput)"
    using True by (simp add: TotalBytes_def add_check_iff Let_def s declared_bytes_def not_le add.commute not_less)
  have "declared_bytes j < 2 ^ 64 \<Longrightarrow> unat (MaxInputBytes j + MaxScratchBytes j + MaxOutputBytes j) = declared_bytes j"
    using unat_add_no_wrap [of "MaxInputBytes j + MaxScratchBytes j" "MaxOutputBytes j"] by (simp add: s declared_bytes_def)
  moreover have "declared_bytes j = 0 \<longleftrightarrow> MaxInputBytes j = 0 \<and> MaxScratchBytes j = 0 \<and> MaxOutputBytes j = 0"
    by (simp add: declared_bytes_def unat_eq_0)
  ultimately show ?thesis by (auto simp: t Decl_Validate_def)
next
  case False
  then have "TotalBytes j = Inl DeclOverflowInput" by (simp add: TotalBytes_def add_check_iff add.commute)
  then show ?thesis using False by (simp add: Decl_Validate_def declared_bytes_def)
qed

end
