(* ===== verification/Asset_Registry.thy ===== *)
theory Asset_Registry
  imports Signal Grants Bytes
begin

text \<open>
  Asset identifiers and the asset registry: \<^verbatim>\<open>src/assets/assets.go\<close>, \<^verbatim>\<open>registry.go\<close>, \<^verbatim>\<open>signals.go\<close>. An
  identifier is a list of 16 bytes. Entries are reached only through the registry's map, so the
  pointer to an entry is the map's value and writing through it updates the map. The arrays of
  three levels of detail are lists of length three. A decoded asset is an optional value, \<open>None\<close> for
  nil; emitting a signal appends the calls of the subscribers to the result.
\<close>

section \<open>Identifiers (assets.go)\<close>

type_synonym AssetID = "u8 list"
type_synonym TextureID = u64

definition zero_id :: AssetID where
  "zero_id = replicate 16 0"

definition AssetID_String :: "AssetID \<Rightarrow> string" where
  "AssetID_String a =
     EncodeToString (take 4 a) @ ''-'' @ EncodeToString (take 2 (drop 4 a)) @ ''-'' @ EncodeToString (take 2 (drop 6 a)) @
     ''-'' @ EncodeToString (take 2 (drop 8 a)) @ ''-'' @ EncodeToString (take 6 (drop 10 a))"

definition IsZero :: "AssetID \<Rightarrow> bool" where
  "IsZero a \<longleftrightarrow> a = zero_id"

datatype asset_id_error = InvalidAssetID string

definition ParseAssetID :: "string \<Rightarrow> asset_id_error + AssetID" where
  "ParseAssetID s =
     (let cleaned = filter (\<lambda>c. c \<noteq> CHR ''-'') (TrimSpace s) in
      if length cleaned \<noteq> 32 then Inl (InvalidAssetID s)
      else (case DecodeString cleaned of None \<Rightarrow> Inl (InvalidAssetID s) | Some raw \<Rightarrow> Inr raw))"

datatype AssetType = AssetTypeSVG | AssetTypeImage | AssetTypeFont | AssetTypeConfig

fun AssetType_String :: "AssetType \<Rightarrow> string" where
  "AssetType_String AssetTypeSVG = ''svg''"
| "AssetType_String AssetTypeImage = ''image''"
| "AssetType_String AssetTypeFont = ''font''"
| "AssetType_String AssetTypeConfig = ''config''"

section \<open>State (registry.go)\<close>

datatype AssetState = AssetStateAbsent | AssetStateLoading | AssetStateReady | AssetStateFailed

datatype asset_note = AssetReadySignal AssetID int | AssetInvalidatedSignal AssetID

record 'd RegistryEntry =
  re_ID :: AssetID
  re_Path :: string
  re_Type :: AssetType
  re_State :: AssetState
  LODHandles :: "'d option list"
  LODRefCounts :: "int list"
  LODInFlight :: "bool list"
  LODFailed :: "bool list"
  LODGPUReady :: "bool list"
  LODTextureIDs :: "TextureID list"
  LODGPUBytes :: "int list"
  SizeBytes :: "int list"
  HighestReadyLOD :: int
  EntryVersion :: u64
  re_Err :: "string option"
  LastUse :: int
  LoadTimeNs :: "int list"

text \<open>The wrapped callbacks of \<open>SubscribeAsset\<close> may be nil.\<close>

record 'h AssetSignalSet =
  Ready_sig :: "'h option signal"
  Invalidated_sig :: "'h option signal"

record ('d, 'h) AssetRegistryStore =
  r_entries :: "AssetID \<Rightarrow> 'd RegistryEntry option"
  r_signals :: "AssetID \<Rightarrow> 'h AssetSignalSet option"
  globalVersion :: u64

definition newAssetSignalSet :: "AssetID \<Rightarrow> 'h AssetSignalSet" where
  "newAssetSignalSet a =
     \<lparr>Ready_sig = NewSignal (''assets.ready:'' @ AssetID_String a), Invalidated_sig = NewSignal (''assets.invalidated:'' @ AssetID_String a)\<rparr>"

definition NewAssetRegistryStore :: "('d, 'h) AssetRegistryStore" where
  "NewAssetRegistryStore = \<lparr>r_entries = (\<lambda>_. None), r_signals = (\<lambda>_. None), globalVersion = 0\<rparr>"

definition GlobalVersion :: "('d, 'h) AssetRegistryStore \<Rightarrow> u64" where
  "GlobalVersion r = globalVersion r"

definition blank_registry_entry :: "AssetID \<Rightarrow> 'd RegistryEntry" where
  "blank_registry_entry a =
     \<lparr>re_ID = a, re_Path = '''', re_Type = AssetTypeSVG, re_State = AssetStateAbsent, LODHandles = replicate 3 None,
      LODRefCounts = replicate 3 0, LODInFlight = replicate 3 False, LODFailed = replicate 3 False,
      LODGPUReady = replicate 3 False, LODTextureIDs = replicate 3 0, LODGPUBytes = replicate 3 0, SizeBytes = replicate 3 0,
      HighestReadyLOD = - 1, EntryVersion = 0, re_Err = None, LastUse = 0, LoadTimeNs = replicate 3 0\<rparr>"

section \<open>Operations\<close>

definition put_entry :: "AssetID \<Rightarrow> 'd RegistryEntry \<Rightarrow> ('d, 'h) AssetRegistryStore \<Rightarrow> ('d, 'h) AssetRegistryStore" where
  "put_entry a e r = r\<lparr>r_entries := (r_entries r)(a \<mapsto> e)\<rparr>"

definition getOrCreateLocked :: "AssetID \<Rightarrow> ('d, 'h) AssetRegistryStore \<Rightarrow> 'd RegistryEntry \<times> ('d, 'h) AssetRegistryStore" where
  "getOrCreateLocked a r =
     (case r_entries r a of
        Some e \<Rightarrow> (e, r)
      | None \<Rightarrow> let e = blank_registry_entry a in (e, put_entry a e r))"

definition GetOrCreate :: "AssetID \<Rightarrow> ('d, 'h) AssetRegistryStore \<Rightarrow> 'd RegistryEntry \<times> ('d, 'h) AssetRegistryStore" where
  "GetOrCreate a r = getOrCreateLocked a r"

definition Get_entry :: "AssetID \<Rightarrow> ('d, 'h) AssetRegistryStore \<Rightarrow> 'd RegistryEntry option" where
  "Get_entry a r = r_entries r a"

definition signalSetLocked :: "AssetID \<Rightarrow> ('d, 'h) AssetRegistryStore \<Rightarrow> 'h AssetSignalSet option" where
  "signalSetLocked a r = r_signals r a"

definition valid_lod :: "int \<Rightarrow> bool" where
  "valid_lod lod \<longleftrightarrow> \<not> (lod < 0 \<or> lod \<ge> 3)"

fun recomputeHighestReadyLOD :: "'d option list \<Rightarrow> int" where
  "recomputeHighestReadyLOD handles = (case find_index (\<lambda>h. h \<noteq> None) handles of Some i \<Rightarrow> int i | None \<Rightarrow> - 1)"

declare recomputeHighestReadyLOD.simps [simp del]

text \<open>The calls an emission makes, in order; a nil callback is not called.\<close>

definition emit_calls :: "'h option signal \<Rightarrow> asset_note \<Rightarrow> ('h \<times> asset_note) list" where
  "emit_calls sg n = Emit (\<lambda>h v log. case h of None \<Rightarrow> log | Some f \<Rightarrow> log @ [(f, v)]) sg n []"

definition SetLODReady :: "AssetID \<Rightarrow> int \<Rightarrow> 'd option \<Rightarrow> int \<Rightarrow> ('d, 'h) AssetRegistryStore \<Rightarrow>
    ('d, 'h) AssetRegistryStore \<times> ('h \<times> asset_note) list" where
  "SetLODReady a lod handle loadNs r =
     (if \<not> valid_lod lod then (r, [])
      else let l = nat lod; (e, r1) = getOrCreateLocked a r;
               e' = e\<lparr>LODHandles := (LODHandles e)[l := handle], LODInFlight := (LODInFlight e)[l := False],
                      LODFailed := (LODFailed e)[l := False], LoadTimeNs := (LoadTimeNs e)[l := loadNs],
                      SizeBytes := (SizeBytes e)[l := 0], re_Err := None,
                      HighestReadyLOD := (if lod < HighestReadyLOD e \<or> HighestReadyLOD e = - 1 then lod else HighestReadyLOD e),
                      re_State := (if lod = 0 then AssetStateReady
                                   else if re_State e \<noteq> AssetStateReady then AssetStateLoading else re_State e),
                      EntryVersion := EntryVersion e + 1\<rparr>;
               r2 = (put_entry a e' r1)\<lparr>globalVersion := globalVersion r1 + 1\<rparr>
           in (r2, case signalSetLocked a r2 of None \<Rightarrow> [] | Some sg \<Rightarrow> emit_calls (Ready_sig sg) (AssetReadySignal a lod)))"

definition SetLODGPUReady :: "AssetID \<Rightarrow> int \<Rightarrow> TextureID \<Rightarrow> int \<Rightarrow> ('d, 'h) AssetRegistryStore \<Rightarrow> ('d, 'h) AssetRegistryStore" where
  "SetLODGPUReady a lod textureID gpuBytes r =
     (if \<not> valid_lod lod then r
      else case r_entries r a of
        None \<Rightarrow> r
      | Some e \<Rightarrow>
          let l = nat lod in
          if length (LODGPUReady e) \<le> l then r
          else (put_entry a (e\<lparr>LODGPUReady := (LODGPUReady e)[l := True], LODTextureIDs := (LODTextureIDs e)[l := textureID],
                              LODGPUBytes := (LODGPUBytes e)[l := gpuBytes], EntryVersion := EntryVersion e + 1\<rparr>) r)
               \<lparr>globalVersion := globalVersion r + 1\<rparr>)"

definition ClearLOD :: "AssetID \<Rightarrow> int \<Rightarrow> ('d, 'h) AssetRegistryStore \<Rightarrow> ('d, 'h) AssetRegistryStore" where
  "ClearLOD a lod r =
     (if \<not> valid_lod lod then r
      else case r_entries r a of
        None \<Rightarrow> r
      | Some e \<Rightarrow>
          let l = nat lod; handles = (LODHandles e)[l := None]; highest = recomputeHighestReadyLOD handles in
          (put_entry a (e\<lparr>LODHandles := handles, LODInFlight := (LODInFlight e)[l := False], LODFailed := (LODFailed e)[l := False],
             LODGPUReady := (LODGPUReady e)[l := False], LODTextureIDs := (LODTextureIDs e)[l := 0],
             LODGPUBytes := (LODGPUBytes e)[l := 0], LoadTimeNs := (LoadTimeNs e)[l := 0], SizeBytes := (SizeBytes e)[l := 0],
             re_Err := None, HighestReadyLOD := highest,
             re_State := (if highest = - 1 then AssetStateAbsent else if highest = 0 then AssetStateReady else AssetStateLoading),
             EntryVersion := EntryVersion e + 1\<rparr>) r)\<lparr>globalVersion := globalVersion r + 1\<rparr>)"

definition Invalidate_asset :: "AssetID \<Rightarrow> ('d, 'h) AssetRegistryStore \<Rightarrow> ('d, 'h) AssetRegistryStore \<times> ('h \<times> asset_note) list" where
  "Invalidate_asset a r =
     (let (e, r1) = getOrCreateLocked a r; n = length (LODHandles e);
          e' = e\<lparr>LODHandles := replicate n None, LODInFlight := replicate n False, LODFailed := replicate n False,
                 LODGPUReady := replicate n False, LODTextureIDs := replicate n 0, LODGPUBytes := replicate n 0,
                 LoadTimeNs := replicate n 0, SizeBytes := replicate n 0, HighestReadyLOD := - 1,
                 re_State := AssetStateAbsent, re_Err := None, EntryVersion := EntryVersion e + 1\<rparr>;
          r2 = (put_entry a e' r1)\<lparr>globalVersion := globalVersion r1 + 1\<rparr>
      in (r2, case signalSetLocked a r2 of None \<Rightarrow> [] | Some sg \<Rightarrow> emit_calls (Invalidated_sig sg) (AssetInvalidatedSignal a)))"

text \<open>The release function that \<open>SubscribeAsset\<close> returns, with its once-flag.\<close>

record asset_release =
  ar_id :: AssetID
  ar_readyID :: u64
  ar_invalidID :: u64
  ar_done :: bool

definition SubscribeAsset :: "AssetID \<Rightarrow> 'h option \<Rightarrow> 'h option \<Rightarrow> ('d, 'h) AssetRegistryStore \<Rightarrow>
    asset_release \<times> ('d, 'h) AssetRegistryStore" where
  "SubscribeAsset a onReady onInvalidated r =
     (let (e, r1) = getOrCreateLocked a r;
          r2 = put_entry a (e\<lparr>LODRefCounts := map (\<lambda>n. wrap_int32 (n + 1)) (LODRefCounts e)\<rparr>) r1;
          sg = (case signalSetLocked a r2 of Some sg \<Rightarrow> sg | None \<Rightarrow> newAssetSignalSet a);
          (readyID, ready) = Subscribe (Some onReady) (Ready_sig sg);
          (invalidID, invalid) = Subscribe (Some onInvalidated) (Invalidated_sig sg)
      in (\<lparr>ar_id = a, ar_readyID = readyID, ar_invalidID = invalidID, ar_done = False\<rparr>,
          r2\<lparr>r_signals := (r_signals r2)(a \<mapsto> \<lparr>Ready_sig = ready, Invalidated_sig = invalid\<rparr>)\<rparr>))"

definition release_asset :: "asset_release \<Rightarrow> ('d, 'h) AssetRegistryStore \<Rightarrow> asset_release \<times> ('d, 'h) AssetRegistryStore" where
  "release_asset t r =
     (if ar_done t then (t, r)
      else let r1 = (case r_entries r (ar_id t) of
                       None \<Rightarrow> r
                     | Some e \<Rightarrow> put_entry (ar_id t) (e\<lparr>LODRefCounts := map (\<lambda>n. if n > 0 then n - 1 else n) (LODRefCounts e)\<rparr>) r);
               r2 = (case r_signals r1 (ar_id t) of
                       None \<Rightarrow> r1
                     | Some sg \<Rightarrow> r1\<lparr>r_signals := (r_signals r1)(ar_id t \<mapsto>
                          \<lparr>Ready_sig = Unsubscribe (ar_readyID t) (Ready_sig sg), Invalidated_sig = Unsubscribe (ar_invalidID t) (Invalidated_sig sg)\<rparr>)\<rparr>)
           in (t\<lparr>ar_done := True\<rparr>, r2))"

section \<open>Identifiers round trip\<close>

lemma EncodeToString_append [simp]: "EncodeToString (x @ y) = EncodeToString x @ EncodeToString y"
  by (simp add: EncodeToString_def)

lemma length_EncodeToString [simp]: "length (EncodeToString x) = 2 * length x"
  by (induction x) (simp_all add: EncodeToString_def hex_byte_def)

lemma EncodeToString_chars: "set (EncodeToString x) \<subseteq> set hextable"
proof -
  have "set (hex_byte b) \<subseteq> set hextable" for b
  proof -
    have "unat b < 256" using unsigned_less [of b, where 'a = nat] by simp
    then have "unat b div 16 < length hextable" "unat b mod 16 < length hextable" by (auto simp: hextable_def)
    then show ?thesis by (simp add: hex_byte_def)
  qed
  then show ?thesis by (auto simp: EncodeToString_def)
qed

lemma filter_EncodeToString [simp]: "filter (\<lambda>c. c \<noteq> CHR ''-'') (EncodeToString x) = EncodeToString x"
  using EncodeToString_chars [of x] by (intro filter_True) (auto simp: hextable_def)

lemma slices_16:
  assumes "length a = 16"
  shows "take 4 a @ take 2 (drop 4 a) @ take 2 (drop 6 a) @ take 2 (drop 8 a) @ take 6 (drop 10 a) = a"
proof -
  have d: "drop (n + m) a = drop m (drop n a)" for n m by (simp add: add.commute)
  have s: "take m (drop n a) @ drop (n + m) a = drop n a" for n m unfolding d by (rule append_take_drop_id)
  have "take 6 (drop 10 a) = drop 10 a" using assms by simp
  then show ?thesis using s [of 2 8] s [of 2 6] s [of 2 4] append_take_drop_id [of 4 a] by simp
qed

lemma hex_no_space: "p \<in> set space_encodings \<Longrightarrow> hd p \<notin> set hextable \<and> last p \<notin> set hextable"
proof -
  have "list_all (\<lambda>p. hd p \<notin> set hextable \<and> last p \<notin> set hextable) space_encodings" by code_simp
  then show "p \<in> set space_encodings \<Longrightarrow> hd p \<notin> set hextable \<and> last p \<notin> set hextable" by (simp add: list_all_iff)
qed

lemma EncodeToString_Nil [simp]: "EncodeToString x = [] \<longleftrightarrow> x = []"
  using length_EncodeToString [of x] by (cases x) (auto simp: EncodeToString_def hex_byte_def)

lemma TrimSpace_id:
  assumes "length a = 16"
  shows "TrimSpace (AssetID_String a) = AssetID_String a"
proof (rule TrimSpace_word)
  let ?f = "EncodeToString (take 4 a)" and ?l = "EncodeToString (take 6 (drop 10 a))"
  have f: "?f \<noteq> []" and l: "?l \<noteq> []" using assms by auto
  show "AssetID_String a \<noteq> []" using f by (simp add: AssetID_String_def)
  have "hd (AssetID_String a) = hd ?f" "last (AssetID_String a) = last ?l"
    using f l by (simp_all add: AssetID_String_def hd_append)
  moreover have "hd ?f \<in> set hextable" "last ?l \<in> set hextable"
    using EncodeToString_chars hd_in_set [OF f] last_in_set [OF l] by blast+
  ultimately show "hd p \<noteq> hd (AssetID_String a) \<and> last p \<noteq> last (AssetID_String a)" if "p \<in> set space_encodings" for p
    using hex_no_space [OF that] by auto
qed

lemma ParseAssetID_String:
  assumes "length a = 16"
  shows "ParseAssetID (AssetID_String a) = Inr a"
proof -
  have "filter (\<lambda>c. c \<noteq> CHR ''-'') (AssetID_String a) = EncodeToString
    (take 4 a @ take 2 (drop 4 a) @ take 2 (drop 6 a) @ take 2 (drop 8 a) @ take 6 (drop 10 a))"
    by (simp add: AssetID_String_def)
  then have "filter (\<lambda>c. c \<noteq> CHR ''-'') (AssetID_String a) = EncodeToString a" by (simp only: slices_16 [OF assms])
  then show ?thesis using assms by (simp add: ParseAssetID_def TrimSpace_id)
qed

lemma AssetID_String_inj: "length a = 16 \<Longrightarrow> length b = 16 \<Longrightarrow> AssetID_String a = AssetID_String b \<longleftrightarrow> a = b"
  by (metis ParseAssetID_String sum.inject(2))

text \<open>
  An asset identifier can be printed and read back. Parsing the hyphenated rendering of any
  16 bytes gives the bytes.
\<close>

theorem AssetID_roundtrip:
  assumes "length a = 16"
  shows "ParseAssetID (AssetID_String a) = Inr a"
  using assms by (rule ParseAssetID_String)

definition sample_id :: "nat \<Rightarrow> AssetID" where
  "sample_id n = of_nat n # replicate 15 0"

lemma length_sample_id [simp]: "length (sample_id n) = 16"
  by (simp add: sample_id_def)

theorem AssetID_roundtrip_witness:
  "ParseAssetID (AssetID_String (sample_id 7)) = Inr (sample_id 7) \<and>
   AssetID_String (sample_id 7) = ''07000000-0000-0000-0000-000000000000''"
proof
  show "ParseAssetID (AssetID_String (sample_id 7)) = Inr (sample_id 7)" by (rule AssetID_roundtrip) simp
  show "AssetID_String (sample_id 7) = ''07000000-0000-0000-0000-000000000000''" by code_simp
qed

section \<open>Invariant\<close>

text \<open>A well-formed entry: its arrays have three places, its best level and its state tell what is loaded.\<close>

definition entry_ok :: "AssetID \<Rightarrow> 'd RegistryEntry \<Rightarrow> bool" where
  "entry_ok a e \<longleftrightarrow> re_ID e = a \<and> length (LODHandles e) = 3 \<and> length (LODRefCounts e) = 3 \<and> length (LODInFlight e) = 3 \<and>
     length (LODFailed e) = 3 \<and> length (LODGPUReady e) = 3 \<and> length (LODTextureIDs e) = 3 \<and> length (LODGPUBytes e) = 3 \<and>
     length (SizeBytes e) = 3 \<and> length (LoadTimeNs e) = 3 \<and>
     HighestReadyLOD e = recomputeHighestReadyLOD (LODHandles e) \<and> (re_State e = AssetStateReady \<longleftrightarrow> HighestReadyLOD e = 0)"

definition outstanding :: "AssetID \<Rightarrow> asset_release list \<Rightarrow> nat" where
  "outstanding a ts = length (filter (\<lambda>t. ar_id t = a \<and> \<not> ar_done t) ts)"

definition registry_ok :: "('d, 'h) AssetRegistryStore \<Rightarrow> asset_release list \<Rightarrow> bool" where
  "registry_ok r ts \<longleftrightarrow> (\<forall>a. case r_entries r a of
      None \<Rightarrow> outstanding a ts = 0
    | Some e \<Rightarrow> entry_ok a e \<and> LODRefCounts e = replicate 3 (int (outstanding a ts)))"

text \<open>Runs of the registry: the state is the registry and the release functions handed out.\<close>

inductive registry_step :: "('d, 'h) AssetRegistryStore \<times> asset_release list \<Rightarrow> ('d, 'h) AssetRegistryStore \<times> asset_release list \<Rightarrow> bool" where
  ready_step: "handle \<noteq> None \<Longrightarrow> registry_step (r, ts) (fst (SetLODReady a lod handle ns r), ts)"
| gpu_step: "registry_step (r, ts) (SetLODGPUReady a lod tex bytes r, ts)"
| clear_step: "registry_step (r, ts) (ClearLOD a lod r, ts)"
| invalidate_step: "registry_step (r, ts) (fst (Invalidate_asset a r), ts)"
| create_step: "registry_step (r, ts) (snd (GetOrCreate a r), ts)"
| subscribe_step: "outstanding a ts < 2 ^ 31 - 1 \<Longrightarrow> SubscribeAsset a f g r = (t, r') \<Longrightarrow> registry_step (r, ts) (r', ts @ [t])"
| release_step: "i < length ts \<Longrightarrow> release_asset (ts ! i) r = (t, r') \<Longrightarrow> registry_step (r, ts) (r', ts[i := t])"

lemma list_3: "length xs = 3 \<Longrightarrow> \<exists>x y z. xs = [x, y, z]"
  by (auto simp: numeral_3_eq_3 length_Suc_conv)

lemma valid_lod_cases: "valid_lod lod \<Longrightarrow> lod = 0 \<or> lod = 1 \<or> lod = 2"
  by (auto simp: valid_lod_def)

lemma highest_set:
  assumes "length hs = 3" "valid_lod lod" "handle \<noteq> None"
  shows "recomputeHighestReadyLOD (hs[nat lod := handle]) =
    (if lod < recomputeHighestReadyLOD hs \<or> recomputeHighestReadyLOD hs = - 1 then lod else recomputeHighestReadyLOD hs)"
  using list_3 [OF assms(1)] valid_lod_cases [OF assms(2)] assms(3)
  by (auto simp: recomputeHighestReadyLOD.simps split: if_splits)

lemma highest_range: "length hs = 3 \<Longrightarrow> recomputeHighestReadyLOD hs \<in> {- 1, 0, 1, 2}"
  by (drule list_3) (auto simp: recomputeHighestReadyLOD.simps split: if_splits)

lemma highest_none: "recomputeHighestReadyLOD (replicate n None) = - 1"
  by (induction n) (simp_all add: recomputeHighestReadyLOD.simps split: option.splits)

lemma blank_entry_ok: "entry_ok a (blank_registry_entry a)" "LODRefCounts (blank_registry_entry a) = replicate 3 0"
  by (simp_all add: entry_ok_def blank_registry_entry_def recomputeHighestReadyLOD.simps numeral_3_eq_3)

lemma put_entry_simps [simp]:
  "r_entries (put_entry a e r) = (r_entries r)(a \<mapsto> e)" "r_signals (put_entry a e r) = r_signals r"
  "globalVersion (put_entry a e r) = globalVersion r"
  by (simp_all add: put_entry_def)

lemma registry_ok_at: "registry_ok r ts \<Longrightarrow> r_entries r a = Some e \<Longrightarrow>
    entry_ok a e \<and> LODRefCounts e = replicate 3 (int (outstanding a ts))"
  unfolding registry_ok_def by (drule spec [of _ a]) simp

lemma registry_ok_none: "registry_ok r ts \<Longrightarrow> r_entries r a = None \<Longrightarrow> outstanding a ts = 0"
  unfolding registry_ok_def by (drule spec [of _ a]) simp

text \<open>One entry replaced; the number of outstanding releases may change for that asset only.\<close>

lemma registry_ok_replace:
  assumes "registry_ok r ts" "r_entries r' = (r_entries r)(a \<mapsto> e)" "entry_ok a e"
    "LODRefCounts e = replicate 3 (int (outstanding a ts'))" "\<And>b. b \<noteq> a \<Longrightarrow> outstanding b ts' = outstanding b ts"
  shows "registry_ok r' ts'"
  unfolding registry_ok_def
proof
  fix b
  show "case r_entries r' b of None \<Rightarrow> outstanding b ts' = 0
    | Some e \<Rightarrow> entry_ok b e \<and> LODRefCounts e = replicate 3 (int (outstanding b ts'))"
    using assms(1) [unfolded registry_ok_def, rule_format, of b] assms(2-5) by (cases "b = a") (simp_all split: option.splits)
qed

lemma registry_ok_put:
  assumes "registry_ok r ts" "entry_ok a e" "LODRefCounts e = replicate 3 (int (outstanding a ts))"
  shows "registry_ok ((put_entry a e r)\<lparr>globalVersion := v\<rparr>) ts"
  by (rule registry_ok_replace [OF assms(1), of _ a e]) (simp_all add: assms)

lemma registry_ok_same: "registry_ok r ts \<Longrightarrow> r_entries r' = r_entries r \<Longrightarrow> registry_ok r' ts"
  by (simp add: registry_ok_def)

lemma getOrCreate_ok:
  assumes "registry_ok r ts" "getOrCreateLocked a r = (e, r1)"
  shows "entry_ok a e \<and> LODRefCounts e = replicate 3 (int (outstanding a ts)) \<and> registry_ok r1 ts \<and> r_entries r1 = (r_entries r)(a \<mapsto> e)"
proof (cases "r_entries r a")
  case None
  then have "e = blank_registry_entry a" "r1 = put_entry a e r" using assms(2) by (auto simp: getOrCreateLocked_def Let_def)
  then show ?thesis
    using registry_ok_replace [OF assms(1), of r1 a e ts] registry_ok_none [OF assms(1) None] by (simp add: blank_entry_ok)
next
  case (Some e')
  then have "e = e'" "r1 = r" using assms(2) by (auto simp: getOrCreateLocked_def)
  then show ?thesis using registry_ok_at [OF assms(1) Some] assms(1) Some by auto
qed

lemma SetLODReady_ok:
  assumes "registry_ok r ts" "handle \<noteq> None"
  shows "registry_ok (fst (SetLODReady a lod handle ns r)) ts"
proof (cases "valid_lod lod")
  case True
  obtain e r1 where g: "getOrCreateLocked a r = (e, r1)" by fastforce
  note G = getOrCreate_ok [OF assms(1) g]
  let ?H = "HighestReadyLOD e" and ?new = "recomputeHighestReadyLOD ((LODHandles e)[nat lod := handle])"
  have h: "?new = (if lod < ?H \<or> ?H = - 1 then lod else ?H)"
    using highest_set [OF _ True assms(2)] G by (simp add: entry_ok_def)
  have "?H \<in> {- 1, 0, 1, 2}" using highest_range [of "LODHandles e"] G by (simp add: entry_ok_def)
  then have z: "?new = 0 \<longleftrightarrow> lod = 0 \<or> ?H = 0" using h valid_lod_cases [OF True] by auto
  show ?thesis
    unfolding SetLODReady_def Let_def g prod.case fst_conv
    by (rule registry_ok_replace [of r1 ts _ a]) (use True G h z in \<open>auto simp: entry_ok_def g\<close>)
qed (use assms in \<open>simp add: SetLODReady_def\<close>)

text \<open>Changes of GPU residency leave the well-formedness alone.\<close>

lemma entry_ok_cong:
  assumes "entry_ok a e" "re_ID e' = re_ID e" "LODHandles e' = LODHandles e" "length (LODRefCounts e') = 3" "length (LODInFlight e') = 3"
    "length (LODFailed e') = 3" "length (LODGPUReady e') = 3" "length (LODTextureIDs e') = 3" "length (LODGPUBytes e') = 3"
    "length (SizeBytes e') = 3" "length (LoadTimeNs e') = 3" "HighestReadyLOD e' = HighestReadyLOD e" "re_State e' = re_State e"
  shows "entry_ok a e'"
  using assms by (simp add: entry_ok_def)

lemma SetLODGPUReady_ok:
  assumes "registry_ok r ts"
  shows "registry_ok (SetLODGPUReady a lod tex bytes r) ts"
proof (cases "valid_lod lod \<and> r_entries r a \<noteq> None")
  case True
  then obtain e where e: "r_entries r a = Some e" by blast
  note E = registry_ok_at [OF assms e]
  show ?thesis
  proof (cases "length (LODGPUReady e) \<le> nat lod")
    case False
    show ?thesis
      by (rule registry_ok_replace [OF assms, of _ a "e\<lparr>LODGPUReady := (LODGPUReady e)[nat lod := True],
            LODTextureIDs := (LODTextureIDs e)[nat lod := tex], LODGPUBytes := (LODGPUBytes e)[nat lod := bytes],
            EntryVersion := EntryVersion e + 1\<rparr>"])
        (use True False E e in \<open>auto simp: SetLODGPUReady_def Let_def entry_ok_def\<close>)
  qed (use assms True e in \<open>simp add: SetLODGPUReady_def Let_def\<close>)
qed (use assms in \<open>auto simp: SetLODGPUReady_def\<close>)

lemma ClearLOD_ok:
  assumes "registry_ok r ts"
  shows "registry_ok (ClearLOD a lod r) ts"
proof (cases "valid_lod lod \<and> r_entries r a \<noteq> None")
  case True
  then obtain e where e: "r_entries r a = Some e" by blast
  note E = registry_ok_at [OF assms e]
  have v: "(\<not> valid_lod lod) = False" using True by simp
  show ?thesis
    unfolding ClearLOD_def e option.case Let_def v if_False
    by (rule registry_ok_put [OF assms]) (use E in \<open>auto simp: entry_ok_def\<close>)
qed (use assms in \<open>auto simp: ClearLOD_def\<close>)

lemma Invalidate_ok:
  assumes "registry_ok r ts"
  shows "registry_ok (fst (Invalidate_asset a r)) ts"
proof -
  obtain e r1 where g: "getOrCreateLocked a r = (e, r1)" by fastforce
  note G = getOrCreate_ok [OF assms g]
  have n: "length (LODHandles e) = 3" using G by (simp add: entry_ok_def)
  show ?thesis
    unfolding Invalidate_asset_def Let_def g prod.case fst_conv n
    by (rule registry_ok_put) (use G in \<open>auto simp: entry_ok_def highest_none\<close>)
qed

lemma outstanding_snoc: "outstanding b (ts @ [t]) = outstanding b ts + (if ar_id t = b \<and> \<not> ar_done t then 1 else 0)"
  by (simp add: outstanding_def)

lemma outstanding_done:
  assumes "i < length ts" "\<not> ar_done (ts ! i)"
  shows "outstanding b ts = outstanding b (ts[i := (ts ! i)\<lparr>ar_done := True\<rparr>]) + (if ar_id (ts ! i) = b then 1 else 0)"
proof -
  have "ts = take i ts @ ts ! i # drop (Suc i) ts" using assms(1) by (rule id_take_nth_drop)
  then have "outstanding b ts = outstanding b (take i ts @ ts ! i # drop (Suc i) ts)" by simp
  moreover have "ts[i := (ts ! i)\<lparr>ar_done := True\<rparr>] = take i ts @ (ts ! i)\<lparr>ar_done := True\<rparr> # drop (Suc i) ts"
    using assms(1) by (rule upd_conv_take_nth_drop)
  ultimately show ?thesis using assms(2) by (simp add: outstanding_def)
qed

lemma Subscribe_ok:
  assumes "registry_ok r ts" "SubscribeAsset a f g r = (t, r')" "outstanding a ts < 2 ^ 31 - 1"
  shows "registry_ok r' (ts @ [t])"
proof -
  obtain e r1 where c: "getOrCreateLocked a r = (e, r1)" by fastforce
  note G = getOrCreate_ok [OF assms(1) c]
  have t: "ar_id t = a" "\<not> ar_done t" and r': "r_entries r' = (r_entries r1)(a \<mapsto> e\<lparr>LODRefCounts := map (\<lambda>n. wrap_int32 (n + 1)) (LODRefCounts e)\<rparr>)"
    using assms(2) by (auto simp: SubscribeAsset_def c Let_def split: prod.splits)
  have "wrap_int32 (int (outstanding a ts) + 1) = int (outstanding a ts) + 1" using assms(3) by (intro wrap_int32_id) auto
  then show ?thesis
    by (intro registry_ok_replace [of r1 ts r' a]) (use G r' t in \<open>auto simp: outstanding_snoc entry_ok_def\<close>)
qed

lemma Release_ok:
  assumes "registry_ok r ts" "i < length ts" "release_asset (ts ! i) r = (t, r')"
  shows "registry_ok r' (ts[i := t])"
proof (cases "ar_done (ts ! i)")
  case True
  then have "t = ts ! i" "r' = r" using assms(3) by (simp_all add: release_asset_def)
  then show ?thesis using assms(1) by simp
next
  case False
  let ?a = "ar_id (ts ! i)"
  note O = outstanding_done [OF assms(2) False]
  have t: "t = (ts ! i)\<lparr>ar_done := True\<rparr>" using assms(3) False by (simp add: release_asset_def Let_def)
  have pos: "0 < outstanding ?a ts" using O [of ?a] by simp
  then obtain e where e: "r_entries r ?a = Some e" using registry_ok_none [OF assms(1), of ?a] by (cases "r_entries r ?a") auto
  note E = registry_ok_at [OF assms(1) e]
  have r': "r_entries r' = (r_entries r)(?a \<mapsto> e\<lparr>LODRefCounts := map (\<lambda>n. if n > 0 then n - 1 else n) (LODRefCounts e)\<rparr>)"
    using assms(3) False e by (auto simp: release_asset_def Let_def split: option.splits)
  show ?thesis
    by (rule registry_ok_replace [OF assms(1) r']) (use E O t pos in \<open>auto simp: entry_ok_def\<close>)
qed

lemma registry_step_ok:
  assumes "registry_step S S'" "registry_ok (fst S) (snd S)"
  shows "registry_ok (fst S') (snd S')"
  using assms
proof (induction rule: registry_step.induct)
  case (create_step r ts a)
  then show ?case using getOrCreate_ok [of r ts a] by (cases "getOrCreateLocked a r") (simp add: GetOrCreate_def)
qed (simp_all add: SetLODReady_ok SetLODGPUReady_ok ClearLOD_ok Invalidate_ok Subscribe_ok Release_ok)

lemma new_registry_ok: "registry_ok NewAssetRegistryStore []"
  by (simp add: registry_ok_def NewAssetRegistryStore_def outstanding_def)

lemma registry_run_ok: "registry_step\<^sup>*\<^sup>* S S' \<Longrightarrow> registry_ok (fst S) (snd S) \<Longrightarrow> registry_ok (fst S') (snd S')"
  by (induction rule: rtranclp_induct) (auto dest: registry_step_ok)


definition sample_registry :: "(nat, nat) AssetRegistryStore" where
  "sample_registry = fst (SetLODReady (sample_id 1) 2 (Some 20) 5 (snd (SubscribeAsset (sample_id 1) (Some 9) None NewAssetRegistryStore)))"

definition sample_release :: asset_release where
  "sample_release = fst (SubscribeAsset (sample_id 1) (Some 9) None (NewAssetRegistryStore :: (nat, nat) AssetRegistryStore))"


end
