(* ===== verification/Binary_Heap.thy ===== *)
theory Binary_Heap
  imports Prelude "HOL-Library.Multiset"
begin

text \<open>
  The functions of Go's \<^verbatim>\<open>container/heap\<close> that the asset cache calls, over any state that offers the
  three operations of \<^verbatim>\<open>sort.Interface\<close>. The locale \<open>heap_interface\<close> states what such a state promises
  (its elements have keys, \<open>Less\<close> compares keys, \<open>Swap\<close> exchanges two elements) and proves once that
  the functions keep the elements and restore the heap order.
\<close>

section \<open>Functions\<close>

text \<open>\<^verbatim>\<open>up(h, j)\<close>: at the root \<^verbatim>\<open>(j-1)/2\<close> is 0 in Go as well, and the loop stops.\<close>

function heap_up :: "(nat \<Rightarrow> nat \<Rightarrow> 's \<Rightarrow> bool) \<Rightarrow> (nat \<Rightarrow> nat \<Rightarrow> 's \<Rightarrow> 's) \<Rightarrow> nat \<Rightarrow> 's \<Rightarrow> 's" where
  "heap_up lt swap j s =
     (let i = (j - 1) div 2 in
      if i = j \<or> \<not> lt j i s then s else heap_up lt swap i (swap i j s))"
  by pat_completeness auto
termination by (relation "measure (\<lambda>(lt, swap, j, s). j)") auto

text \<open>\<^verbatim>\<open>down(h, i, n)\<close>, with the position where the element comes to rest.\<close>

function heap_down :: "(nat \<Rightarrow> nat \<Rightarrow> 's \<Rightarrow> bool) \<Rightarrow> (nat \<Rightarrow> nat \<Rightarrow> 's \<Rightarrow> 's) \<Rightarrow> nat \<Rightarrow> nat \<Rightarrow> 's \<Rightarrow> nat \<times> 's" where
  "heap_down lt swap i n s =
     (let j1 = 2 * i + 1; j2 = j1 + 1 in
      if n \<le> j1 then (i, s)
      else let j = (if j2 < n \<and> lt j2 j1 s then j2 else j1) in
           if \<not> lt j i s then (i, s) else heap_down lt swap j n (swap i j s))"
  by pat_completeness auto
termination by (relation "measure (\<lambda>(lt, swap, i, n, s). n - i)") (auto split: if_splits)

declare heap_up.simps [simp del] heap_down.simps [simp del]

definition heap_Push :: "(nat \<Rightarrow> nat \<Rightarrow> 's \<Rightarrow> bool) \<Rightarrow> (nat \<Rightarrow> nat \<Rightarrow> 's \<Rightarrow> 's) \<Rightarrow> ('s \<Rightarrow> nat) \<Rightarrow> ('s \<Rightarrow> 's) \<Rightarrow> 's \<Rightarrow> 's" where
  "heap_Push lt swap len push s = (let s1 = push s in heap_up lt swap (len s1 - 1) s1)"

text \<open>\<^verbatim>\<open>Pop(h)\<close> before its final \<^verbatim>\<open>h.Pop()\<close>.\<close>

definition heap_Pop :: "(nat \<Rightarrow> nat \<Rightarrow> 's \<Rightarrow> bool) \<Rightarrow> (nat \<Rightarrow> nat \<Rightarrow> 's \<Rightarrow> 's) \<Rightarrow> ('s \<Rightarrow> nat) \<Rightarrow> ('s \<Rightarrow> 'r) \<Rightarrow> 's \<Rightarrow> 'r" where
  "heap_Pop lt swap len pop s =
     (let n = len s - 1; s1 = swap 0 n s in pop (snd (heap_down lt swap 0 n s1)))"

definition heap_Fix :: "(nat \<Rightarrow> nat \<Rightarrow> 's \<Rightarrow> bool) \<Rightarrow> (nat \<Rightarrow> nat \<Rightarrow> 's \<Rightarrow> 's) \<Rightarrow> ('s \<Rightarrow> nat) \<Rightarrow> nat \<Rightarrow> 's \<Rightarrow> 's" where
  "heap_Fix lt swap len i s =
     (let r = heap_down lt swap i (len s) s in
      if i < fst r then snd r else heap_up lt swap i (snd r))"

text \<open>What no exchange changes, no function changes.\<close>

lemma heap_up_inv: "(\<And>i j s. f (swap i j s) = f s) \<Longrightarrow> f (heap_up lt swap j s) = f s"
proof (induction lt swap j s rule: heap_up.induct)
  case (1 lt swap j s)
  then show ?case by (subst heap_up.simps) (simp add: Let_def)
qed

lemma heap_down_inv: "(\<And>i j s. f (swap i j s) = f s) \<Longrightarrow> f (snd (heap_down lt swap i n s)) = f s"
proof (induction lt swap i n s rule: heap_down.induct)
  case (1 lt swap i n s)
  then show ?case by (subst heap_down.simps) (simp add: Let_def)
qed

section \<open>Heap order\<close>

definition edge_ok :: "('k :: linorder) list \<Rightarrow> nat \<Rightarrow> bool" where
  "edge_ok ks k \<longleftrightarrow> ks ! ((k - 1) div 2) \<le> ks ! k"

definition heap_ordered :: "('k :: linorder) list \<Rightarrow> nat \<Rightarrow> bool" where
  "heap_ordered ks n \<longleftrightarrow> (\<forall>k. 0 < k \<longrightarrow> k < n \<longrightarrow> edge_ok ks k)"

text \<open>What lies below a position may hang from the position's parent as well.\<close>

definition grand_ok :: "('k :: linorder) list \<Rightarrow> nat \<Rightarrow> nat \<Rightarrow> bool" where
  "grand_ok ks n i \<longleftrightarrow> (\<forall>k. 0 < k \<longrightarrow> k < n \<longrightarrow> (k - 1) div 2 = i \<longrightarrow> 0 < i \<longrightarrow> ks ! ((i - 1) div 2) \<le> ks ! k)"

definition swapped :: "nat \<Rightarrow> nat \<Rightarrow> 'a list \<Rightarrow> 'a list" where
  "swapped i j xs = xs[i := xs ! j, j := xs ! i]"

lemma length_swapped [simp]: "length (swapped i j xs) = length xs"
  by (simp add: swapped_def)

lemma nth_swapped:
  assumes "i < length xs" "j < length xs" "k < length xs"
  shows "swapped i j xs ! k = (if k = j then xs ! i else if k = i then xs ! j else xs ! k)"
  using assms by (auto simp: swapped_def nth_list_update_cases)

lemma mset_swapped [simp]: "i < length xs \<Longrightarrow> j < length xs \<Longrightarrow> mset (swapped i j xs) = mset xs"
  unfolding swapped_def by (rule mset_swap)

lemma parent_less: "0 < k \<Longrightarrow> (k - 1) div 2 < (k :: nat)"
  by linarith

lemma root_least:
  assumes "heap_ordered ks n" "k < n"
  shows "ks ! 0 \<le> ks ! k"
  using assms(2)
proof (induction k rule: less_induct)
  case (less k)
  show ?case
  proof (cases "k = 0")
    case False
    then have "ks ! 0 \<le> ks ! ((k - 1) div 2)" using less parent_less [of k] by simp
    also have "\<dots> \<le> ks ! k" using assms(1) False less.prems by (simp add: heap_ordered_def edge_ok_def)
    finally show ?thesis .
  qed simp
qed

lemma heap_ordered_take: "heap_ordered ks n \<Longrightarrow> n \<le> length ks \<Longrightarrow> heap_ordered (take n ks) n"
  by (auto simp: heap_ordered_def edge_ok_def parent_less)

lemma heap_ordered_cong:
  assumes "heap_ordered ks n" "\<And>k. k < n \<Longrightarrow> ks' ! k = ks ! k"
  shows "heap_ordered ks' n"
  using assms(1) unfolding heap_ordered_def edge_ok_def
proof (intro allI impI)
  fix k assume a: "\<forall>k. 0 < k \<longrightarrow> k < n \<longrightarrow> ks ! ((k - 1) div 2) \<le> ks ! k" and k: "0 < k" "k < n"
  then have "(k - 1) div 2 < n" using parent_less [of k] by simp
  then show "ks' ! ((k - 1) div 2) \<le> ks' ! k" using a k assms(2) by simp
qed

text \<open>After one key of a heap was changed, only the edges at that position may be wrong.\<close>

lemma changed_key:
  assumes "heap_ordered ks n" "i < n" "\<And>k. k < n \<Longrightarrow> k \<noteq> i \<Longrightarrow> ks' ! k = ks ! k"
  shows "grand_ok ks' n i" and "\<And>k. 0 < k \<Longrightarrow> k < n \<Longrightarrow> k \<noteq> i \<Longrightarrow> (k - 1) div 2 \<noteq> i \<Longrightarrow> edge_ok ks' k"
proof -
  have e: "ks ! ((k - 1) div 2) \<le> ks ! k" if "0 < k" "k < n" for k using assms(1) that by (simp add: heap_ordered_def edge_ok_def)
  show "grand_ok ks' n i"
    unfolding grand_ok_def
  proof (intro allI impI)
    fix k assume k: "0 < k" "k < n" "(k - 1) div 2 = i" "0 < i"
    have "(i - 1) div 2 < i" "i < k" using k(3) parent_less [OF k(1)] parent_less [OF k(4)] by simp_all
    moreover have "ks ! ((i - 1) div 2) \<le> ks ! k" using e [OF k(1,2)] e [OF k(4) assms(2)] k(3) by simp
    ultimately show "ks' ! ((i - 1) div 2) \<le> ks' ! k" using assms(2,3) k(2) by simp
  qed
  show "edge_ok ks' k" if "0 < k" "k < n" "k \<noteq> i" "(k - 1) div 2 \<noteq> i" for k
    using e [OF that(1,2)] that assms(3) parent_less [OF that(1)] by (simp add: edge_ok_def)
qed

section \<open>One exchange\<close>

lemma up_exchange:
  assumes "j < length ks" "n \<le> length ks" "j < n" "0 < j" "ks ! j < ks ! ((j - 1) div 2)"
    and e: "\<And>k. 0 < k \<Longrightarrow> k < n \<Longrightarrow> k \<noteq> j \<Longrightarrow> edge_ok ks k" and g: "grand_ok ks n j"
  defines "i \<equiv> (j - 1) div 2"
  defines "ks' \<equiv> swapped i j ks"
  shows "(\<forall>k. 0 < k \<longrightarrow> k < n \<longrightarrow> k \<noteq> i \<longrightarrow> edge_ok ks' k) \<and> grand_ok ks' n i"
proof -
  have ij: "i < j" "i < length ks" using assms(1,4) parent_less [of j] by (simp_all add: i_def)
  have at: "ks' ! k = (if k = j then ks ! i else if k = i then ks ! j else ks ! k)" if "k < n" for k
    unfolding ks'_def using nth_swapped [OF ij(2) assms(1)] that assms(2) by simp
  have lt: "ks ! j < ks ! i" using assms(5) by (simp add: i_def)
  have edge: "edge_ok ks' k" if k: "0 < k" "k < n" "k \<noteq> i" for k
  proof -
    let ?p = "(k - 1) div 2"
    have p: "?p < n" "?p < k" using k parent_less [of k] by simp_all
    consider "k = j" | "k \<noteq> j" "?p = j" | "k \<noteq> j" "?p = i" | "k \<noteq> j" "?p \<noteq> j" "?p \<noteq> i" by blast
    then show ?thesis
    proof cases
      case 1
      then have "?p = i" by (simp add: i_def)
      then show ?thesis using 1 at [of j] at [of i] k ij assms(3) lt by (simp add: edge_ok_def)
    next
      case 2
      then have "ks ! i \<le> ks ! k" using g k assms(4) by (simp add: grand_ok_def i_def)
      then show ?thesis using 2 at [of k] at [of j] k assms(3) by (simp add: edge_ok_def)
    next
      case 3
      then have "ks ! i \<le> ks ! k" using e [of k] k by (simp add: edge_ok_def)
      then show ?thesis using 3 at [of k] at [of i] k ij assms(3) lt by (simp add: edge_ok_def)
    next
      case 4
      then have "ks ! ?p \<le> ks ! k" using e [of k] k by (simp add: edge_ok_def)
      then show ?thesis using 4 at [of k] at [of ?p] k p by (simp add: edge_ok_def)
    qed
  qed
  have "grand_ok ks' n i"
    unfolding grand_ok_def
  proof (intro allI impI)
    fix k assume k: "0 < k" "k < n" "(k - 1) div 2 = i" "0 < i"
    let ?g = "(i - 1) div 2"
    have gl: "?g < i" using k(4) by (rule parent_less)
    have "ks ! ?g \<le> ks ! i" using e [of i] k ij assms(3) by (simp add: edge_ok_def)
    moreover have "ks ! i \<le> ks ! k" if "k \<noteq> j" using e [of k] that k by (simp add: edge_ok_def)
    moreover have "k \<noteq> i" using k by auto
    ultimately show "ks' ! ?g \<le> ks' ! k" using at [of k] at [of ?g] k gl ij assms(3) by auto
  qed
  then show ?thesis using edge by blast
qed

lemma down_exchange:
  assumes "n \<le> length ks" "i < j" "j < n" "(j - 1) div 2 = i" "ks ! j < ks ! i"
    and least: "\<And>k. 0 < k \<Longrightarrow> k < n \<Longrightarrow> (k - 1) div 2 = i \<Longrightarrow> ks ! j \<le> ks ! k"
    and e: "\<And>k. 0 < k \<Longrightarrow> k < n \<Longrightarrow> k \<noteq> i \<Longrightarrow> (k - 1) div 2 \<noteq> i \<Longrightarrow> edge_ok ks k" and g: "grand_ok ks n i"
  defines "ks' \<equiv> swapped i j ks"
  shows "(\<forall>k. 0 < k \<longrightarrow> k < n \<longrightarrow> (k - 1) div 2 \<noteq> j \<longrightarrow> edge_ok ks' k) \<and> grand_ok ks' n j"
proof -
  have l: "i < length ks" "j < length ks" using assms(1-3) by simp_all
  have at: "ks' ! k = (if k = j then ks ! i else if k = i then ks ! j else ks ! k)" if "k < n" for k
    unfolding ks'_def using nth_swapped [OF l] that assms(1) by simp
  have edge: "edge_ok ks' k" if k: "0 < k" "k < n" "(k - 1) div 2 \<noteq> j" for k
  proof -
    let ?p = "(k - 1) div 2"
    have p: "?p < n" "?p < k" using k parent_less [of k] by simp_all
    consider "k = i" | "k \<noteq> i" "?p = i" | "k \<noteq> i" "?p \<noteq> i" by blast
    then show ?thesis
    proof cases
      case 1
      have "ks ! ?p \<le> ks ! j" using g 1 k(1) assms(2-4) by (auto simp: grand_ok_def)
      then show ?thesis using 1 at [of k] at [of ?p] k p assms(2) by (simp add: edge_ok_def)
    next
      case 2
      then show ?thesis
        using at [of k] at [of i] k p assms(2,3,5) least [of k] by (auto simp: edge_ok_def)
    next
      case 3
      then have "k \<noteq> j" using assms(4) by auto
      then show ?thesis using 3 at [of k] at [of ?p] k p e [of k] by (simp add: edge_ok_def)
    qed
  qed
  have "grand_ok ks' n j"
    unfolding grand_ok_def
  proof (intro allI impI)
    fix k assume k: "0 < k" "k < n" "(k - 1) div 2 = j"
    then have "k \<noteq> i" "k \<noteq> j" using assms(2) parent_less [of k] by auto
    moreover have "ks ! j \<le> ks ! k" using e [of k] k calculation assms(2) by (simp add: edge_ok_def)
    ultimately show "ks' ! ((j - 1) div 2) \<le> ks' ! k" using at [of k] at [of i] k assms(2-4) by simp
  qed
  then show ?thesis using edge by blast
qed

section \<open>The interface\<close>

locale heap_interface =
  fixes Less :: "nat \<Rightarrow> nat \<Rightarrow> 's \<Rightarrow> bool" and Swap :: "nat \<Rightarrow> nat \<Rightarrow> 's \<Rightarrow> 's"
    and elems :: "'s \<Rightarrow> 'a list" and key :: "'s \<Rightarrow> 'a \<Rightarrow> ('k :: linorder)" and ok :: "'s \<Rightarrow> bool"
  assumes Less: "ok s \<Longrightarrow> i < length (elems s) \<Longrightarrow> j < length (elems s) \<Longrightarrow>
      Less i j s \<longleftrightarrow> key s (elems s ! i) < key s (elems s ! j)"
    and Swap_ok: "ok s \<Longrightarrow> i < length (elems s) \<Longrightarrow> j < length (elems s) \<Longrightarrow> ok (Swap i j s)"
    and Swap_elems: "ok s \<Longrightarrow> i < length (elems s) \<Longrightarrow> j < length (elems s) \<Longrightarrow> elems (Swap i j s) = swapped i j (elems s)"
    and Swap_key: "ok s \<Longrightarrow> i < length (elems s) \<Longrightarrow> j < length (elems s) \<Longrightarrow> key (Swap i j s) = key s"
begin

definition keys :: "'s \<Rightarrow> 'k list" where
  "keys s = map (key s) (elems s)"

text \<open>What every operation keeps: the invariant, the elements, the keys.\<close>

definition same_elems :: "'s \<Rightarrow> 's \<Rightarrow> bool" where
  "same_elems s t \<longleftrightarrow> ok t \<and> mset (elems t) = mset (elems s) \<and> key t = key s"

lemma length_keys [simp]: "length (keys s) = length (elems s)"
  by (simp add: keys_def)

lemma same_length: "same_elems s t \<Longrightarrow> length (elems t) = length (elems s)"
  by (metis same_elems_def size_mset)

lemma same_trans: "same_elems s t \<Longrightarrow> same_elems t u \<Longrightarrow> same_elems s u"
  by (simp add: same_elems_def)

lemma Swap_same:
  assumes "ok s" "i < length (elems s)" "j < length (elems s)"
  shows "same_elems s (Swap i j s)" "keys (Swap i j s) = swapped i j (keys s)"
  using Swap_ok [OF assms] Swap_elems [OF assms] Swap_key [OF assms] assms(2,3)
  by (simp_all add: same_elems_def keys_def) (simp add: swapped_def map_update)

lemma Less_keys: "ok s \<Longrightarrow> i < length (elems s) \<Longrightarrow> j < length (elems s) \<Longrightarrow> Less i j s \<longleftrightarrow> keys s ! i < keys s ! j"
  by (simp add: Less keys_def)

lemma heap_up_spec:
  assumes "ok s" "j < n" "n = length (elems s)" "\<And>k. 0 < k \<Longrightarrow> k < n \<Longrightarrow> k \<noteq> j \<Longrightarrow> edge_ok (keys s) k" "grand_ok (keys s) n j"
  shows "same_elems s (heap_up Less Swap j s) \<and> heap_ordered (keys (heap_up Less Swap j s)) n"
  using assms
proof (induction j arbitrary: s rule: less_induct)
  case (less j)
  let ?i = "(j - 1) div 2"
  have i: "?i < n" using less.prems(2) by linarith
  note L = Less_keys [OF less.prems(1), of j ?i]
  show ?case
  proof (cases "?i = j \<or> \<not> Less j ?i s")
    case True
    then have e: "heap_up Less Swap j s = s" by (subst heap_up.simps) (simp add: Let_def)
    have "edge_ok (keys s) j" if "0 < j"
      using True L i less.prems(2,3) parent_less [OF that] by (simp add: edge_ok_def)
    then have "heap_ordered (keys s) n" using less.prems(4) by (auto simp: heap_ordered_def)
    then show ?thesis using less.prems(1) by (simp add: e same_elems_def)
  next
    case False
    then have j: "0 < j" by (cases j) simp_all
    let ?s = "Swap ?i j s"
    have e: "heap_up Less Swap j s = heap_up Less Swap ?i ?s" using False by (subst heap_up.simps) (simp add: Let_def)
    note sw = Swap_same [OF less.prems(1), of ?i j]
    have lt: "keys s ! j < keys s ! ?i" using False L i less.prems(2,3) by simp
    have ex: "(\<forall>k. 0 < k \<longrightarrow> k < n \<longrightarrow> k \<noteq> ?i \<longrightarrow> edge_ok (keys ?s) k) \<and> grand_ok (keys ?s) n ?i"
      using up_exchange [of j "keys s" n, OF _ _ less.prems(2) j lt less.prems(4,5)] sw(2) i less.prems(2,3) by simp
    have len: "n = length (elems ?s)" using same_length [OF sw(1)] i less.prems(2,3) by simp
    have ok: "ok ?s" using sw(1) i less.prems(2,3) by (simp add: same_elems_def)
    have "same_elems ?s (heap_up Less Swap ?i ?s) \<and> heap_ordered (keys (heap_up Less Swap ?i ?s)) n"
      by (rule less.IH [OF parent_less [OF j] ok i len]) (use ex in auto)
    then show ?thesis using e same_trans [OF sw(1)] i less.prems(2,3) by simp
  qed
qed

lemma heap_down_spec:
  assumes "ok s" "i < length (elems s)" "n \<le> length (elems s)"
    and "\<And>k. 0 < k \<Longrightarrow> k < n \<Longrightarrow> k \<noteq> i \<Longrightarrow> (k - 1) div 2 \<noteq> i \<Longrightarrow> edge_ok (keys s) k" "grand_ok (keys s) n i"
    and "heap_down Less Swap i n s = (r, t)"
  shows "same_elems s t \<and> (\<forall>k. n \<le> k \<longrightarrow> k < length (elems s) \<longrightarrow> elems t ! k = elems s ! k) \<and>
    (\<forall>k. 0 < k \<longrightarrow> k < n \<longrightarrow> k \<noteq> i \<longrightarrow> edge_ok (keys t) k) \<and>
    (if i < r then 0 < i \<longrightarrow> edge_ok (keys t) i else r = i \<and> t = s)"
  using assms
proof (induction "n - i" arbitrary: s i rule: less_induct)
  case less
  let ?j1 = "2 * i + 1" and ?j2 = "2 * i + 2"
  let ?j = "if ?j2 < n \<and> Less ?j2 ?j1 s then ?j2 else ?j1"
  have par: "(?j - 1) div 2 = i" "i < ?j" by auto
  have child: "k = ?j1 \<or> k = ?j2" if "0 < k" "(k - 1) div 2 = i" for k using that by linarith
  show ?case
  proof (cases "n \<le> ?j1 \<or> \<not> Less ?j i s")
    case True
    then have e: "heap_down Less Swap i n s = (i, s)" by (subst heap_down.simps) (auto simp: Let_def)
    have "edge_ok (keys s) k" if k: "0 < k" "k < n" "(k - 1) div 2 = i" for k
    proof -
      have j1: "?j1 < n" using child [OF k(1,3)] k(2) by auto
      then have jn: "?j < n" by auto
      have "keys s ! i \<le> keys s ! ?j"
        using True j1 jn Less_keys [OF less.prems(1), of ?j i] less.prems(2,3) by (simp split: if_splits)
      also have "keys s ! ?j \<le> keys s ! k"
        using child [OF k(1,3)] k(2) j1 Less_keys [OF less.prems(1), of ?j2 ?j1] less.prems(3) by auto
      finally show ?thesis unfolding edge_ok_def k(3) .
    qed
    then show ?thesis using less.prems(1,4,6) e by (auto simp: same_elems_def)
  next
    case False
    define j where "j = ?j"
    have jn: "j < n" and LJ: "Less j i s" using False by (auto simp: j_def)
    have jc: "j = ?j1 \<or> j = ?j2" by (simp add: j_def)
    have par: "(j - 1) div 2 = i" "i < j" using jc by auto
    let ?s = "Swap i j s"
    have e: "heap_down Less Swap j n ?s = (r, t)"
      using False less.prems(6) unfolding j_def by (subst (asm) heap_down.simps) (auto simp: Let_def split: if_splits)
    have jl: "j < length (elems s)" using jn less.prems(3) by simp
    note sw = Swap_same [OF less.prems(1,2) jl]
    have lt: "keys s ! j < keys s ! i" using LJ Less_keys [OF less.prems(1) jl less.prems(2)] by simp
    have least: "keys s ! j \<le> keys s ! k" if "0 < k" "k < n" "(k - 1) div 2 = i" for k
      using child [OF that(1,3)] that(2) Less_keys [OF less.prems(1), of ?j2 ?j1] less.prems(3) by (auto simp: j_def)
    have ex: "(\<forall>k. 0 < k \<longrightarrow> k < n \<longrightarrow> (k - 1) div 2 \<noteq> j \<longrightarrow> edge_ok (keys ?s) k) \<and> grand_ok (keys ?s) n j"
      unfolding sw(2) by (rule down_exchange [OF _ par(2) jn par(1) lt least less.prems(4,5)]) (use less.prems(3) in auto)
    have len: "length (elems ?s) = length (elems s)" by (rule same_length [OF sw(1)])
    have down: "n - j < n - i" using par(2) jn by linarith
    have IH: "same_elems ?s t \<and> (\<forall>k. n \<le> k \<longrightarrow> k < length (elems ?s) \<longrightarrow> elems t ! k = elems ?s ! k) \<and>
      (\<forall>k. 0 < k \<longrightarrow> k < n \<longrightarrow> k \<noteq> j \<longrightarrow> edge_ok (keys t) k) \<and>
      (if j < r then 0 < j \<longrightarrow> edge_ok (keys t) j else r = j \<and> t = ?s)"
      by (rule less.hyps [OF down _ _ _ _ _ e]) (use sw(1) jl len less.prems(3) ex in \<open>auto simp: same_elems_def\<close>)
    have "edge_ok (keys t) j"
    proof (cases "j < r")
      case True
      then show ?thesis using IH par(2) by simp
    next
      case False
      then have "t = ?s" using IH by simp
      moreover have "edge_ok (keys ?s) j" using ex jn par by auto
      ultimately show ?thesis by simp
    qed
    then have edges: "edge_ok (keys t) k" if "0 < k" "k < n" for k using IH that by metis
    have same: "elems ?s ! k = elems s ! k" if "n \<le> k" "k < length (elems s)" for k
      using Swap_elems [OF less.prems(1,2) jl] that jn par(2) nth_swapped [OF less.prems(2) jl that(2)] by simp
    have "j \<le> r" using IH by (metis leI order_less_imp_le order_refl)
    then have "i < r" using par(2) by linarith
    moreover have "i < n" using par(2) jn by linarith
    ultimately show ?thesis using same_trans [OF sw(1)] IH edges same len by simp
  qed
qed

lemma heap_Push_spec:
  assumes "ok (push s)" "length (elems (push s)) = Suc n" "heap_ordered (keys (push s)) n"
  shows "same_elems (push s) (heap_Push Less Swap (\<lambda>s. length (elems s)) push s) \<and>
    heap_ordered (keys (heap_Push Less Swap (\<lambda>s. length (elems s)) push s)) (Suc n)"
proof -
  have e: "edge_ok (keys (push s)) k" if "0 < k" "k < Suc n" "k \<noteq> n" for k
    using assms(3) that by (simp add: heap_ordered_def)
  have "grand_ok (keys (push s)) (Suc n) n"
    unfolding grand_ok_def
  proof (intro allI impI)
    fix k assume "0 < k" "k < Suc n" "(k - 1) div 2 = n"
    then show "keys (push s) ! ((n - 1) div 2) \<le> keys (push s) ! k" using parent_less [of k] by simp
  qed
  then show ?thesis
    using heap_up_spec [OF assms(1) _ assms(2) [symmetric] e, of n] assms(2) by (simp add: heap_Push_def Let_def)
qed

lemma heap_Pop_spec:
  assumes "ok s" "length (elems s) = Suc n" "heap_ordered (keys s) (Suc n)"
  defines "t \<equiv> snd (heap_down Less Swap 0 n (Swap 0 n s))"
  shows "same_elems s t \<and> elems t ! n = elems s ! 0 \<and> heap_ordered (keys t) n"
proof -
  let ?s = "Swap 0 n s"
  have l: "0 < length (elems s)" "n < length (elems s)" using assms(2) by simp_all
  note sw = Swap_same [OF assms(1) l]
  have len: "length (elems ?s) = Suc n" using same_length [OF sw(1)] assms(2) by simp
  have n: "elems ?s ! n = elems s ! 0" using Swap_elems [OF assms(1) l] nth_swapped [OF l l(2)] by simp
  have e: "edge_ok (keys ?s) k" if k: "0 < k" "k < n" "k \<noteq> 0" "(k - 1) div 2 \<noteq> 0" for k
    using assms(2,3) k nth_swapped [of 0 "keys s" n] parent_less [of k] by (simp add: sw(2) heap_ordered_def edge_ok_def)
  obtain r t' where d: "heap_down Less Swap 0 n ?s = (r, t')" by fastforce
  have t: "t = t'" by (simp add: t_def d)
  have "same_elems ?s t \<and> (\<forall>k. n \<le> k \<longrightarrow> k < length (elems ?s) \<longrightarrow> elems t ! k = elems ?s ! k) \<and>
    (\<forall>k. 0 < k \<longrightarrow> k < n \<longrightarrow> k \<noteq> 0 \<longrightarrow> edge_ok (keys t) k) \<and> (if 0 < r then 0 < (0::nat) \<longrightarrow> edge_ok (keys t) 0 else r = 0 \<and> t = ?s)"
    unfolding t by (rule heap_down_spec [OF _ _ _ e _ d]) (use sw(1) len in \<open>auto simp: same_elems_def grand_ok_def\<close>)
  then show ?thesis using same_trans [OF sw(1)] n len by (simp add: heap_ordered_def)
qed

lemma heap_Fix_spec:
  assumes "ok s" "i < n" "n = length (elems s)" "grand_ok (keys s) n i"
    and e: "\<And>k. 0 < k \<Longrightarrow> k < n \<Longrightarrow> k \<noteq> i \<Longrightarrow> (k - 1) div 2 \<noteq> i \<Longrightarrow> edge_ok (keys s) k"
  defines "t \<equiv> heap_Fix Less Swap (\<lambda>s. length (elems s)) i s"
  shows "same_elems s t \<and> heap_ordered (keys t) n"
proof -
  obtain r u where d: "heap_down Less Swap i n s = (r, u)" by fastforce
  have D: "same_elems s u \<and> (\<forall>k. n \<le> k \<longrightarrow> k < length (elems s) \<longrightarrow> elems u ! k = elems s ! k) \<and>
    (\<forall>k. 0 < k \<longrightarrow> k < n \<longrightarrow> k \<noteq> i \<longrightarrow> edge_ok (keys u) k) \<and> (if i < r then 0 < i \<longrightarrow> edge_ok (keys u) i else r = i \<and> u = s)"
    by (rule heap_down_spec [OF assms(1) _ _ e assms(4) d]) (use assms(2,3) in auto)
  show ?thesis
  proof (cases "i < r")
    case True
    then have "t = u" using assms(3) d by (simp add: t_def heap_Fix_def)
    then show ?thesis using D True by (auto simp: heap_ordered_def)
  next
    case False
    then have u: "u = s" and t: "t = heap_up Less Swap i s" using D assms(3) d by (simp_all add: t_def heap_Fix_def)
    show ?thesis unfolding t by (rule heap_up_spec [OF assms(1-3) _ assms(4)]) (use D u in blast)
  qed
qed

end

end
