(* ===== verification/Asset_Cache.thy ===== *)
theory Asset_Cache
  imports Asset_Registry Binary_Heap "HOL-Library.Product_Lexorder"
begin

text \<open>
  The asset cache: \<^verbatim>\<open>src/assets/cache.go\<close>. Cache entries are objects named by address, because the
  eviction heap and the map share them; the heap is the slice of addresses. Signed 64-bit totals
  wrap around. Freed textures are logged in order in the backend. The order in which Go iterates
  over the map is an argument, and so is the rounding of a floating point share of a budget.
\<close>

section \<open>State\<close>

record lodCacheEntry =
  ce_assetID :: AssetID
  ce_lod :: int
  ce_lastUse :: int
  ce_sizeBytes :: int
  ce_gpuBytes :: int
  ce_textureID :: TextureID
  ce_index :: int

type_synonym assetLODKey = "AssetID \<times> int"

record ('d, 'h) assetCache =
  ac_registry :: "('d, 'h) AssetRegistryStore option"
  ac_backend :: "TextureID list option"
  ac_budgetBytes :: int
  ac_usedBytes :: int
  ac_gpuBudget :: int
  ac_gpuUsed :: int
  ac_deviceGeneration :: u64
  ac_lruHeap :: "nat list"
  ac_entries :: "assetLODKey \<Rightarrow> nat option"
  ac_evictionsThisFrame :: int
  ac_objects :: "lodCacheEntry list"

abbreviation obj :: "('d, 'h) assetCache \<Rightarrow> nat \<Rightarrow> lodCacheEntry" where
  "obj c a \<equiv> ac_objects c ! a"

definition lod_key :: "lodCacheEntry \<Rightarrow> assetLODKey" where
  "lod_key e = (ce_assetID e, ce_lod e)"

definition set_obj :: "nat \<Rightarrow> lodCacheEntry \<Rightarrow> ('d, 'h) assetCache \<Rightarrow> ('d, 'h) assetCache" where
  "set_obj a e c = c\<lparr>ac_objects := (ac_objects c)[a := e]\<rparr>"

definition set_index :: "nat \<Rightarrow> int \<Rightarrow> ('d, 'h) assetCache \<Rightarrow> ('d, 'h) assetCache" where
  "set_index a i c = set_obj a ((obj c a)\<lparr>ce_index := i\<rparr>) c"

definition newAssetCache :: "('d, 'h) AssetRegistryStore option \<Rightarrow> TextureID list option \<Rightarrow> int \<Rightarrow> int \<Rightarrow> ('d, 'h) assetCache" where
  "newAssetCache registry backend budgetBytes gpuBudget =
     \<lparr>ac_registry = registry, ac_backend = backend, ac_budgetBytes = budgetBytes, ac_usedBytes = 0, ac_gpuBudget = gpuBudget,
      ac_gpuUsed = 0, ac_deviceGeneration = 0, ac_lruHeap = [], ac_entries = (\<lambda>_. None), ac_evictionsThisFrame = 0, ac_objects = []\<rparr>"

section \<open>The eviction heap\<close>

definition lru_Len :: "('d, 'h) assetCache \<Rightarrow> nat" where
  "lru_Len c = length (ac_lruHeap c)"

definition lru_Less :: "nat \<Rightarrow> nat \<Rightarrow> ('d, 'h) assetCache \<Rightarrow> bool" where
  "lru_Less i j c =
     (let x = obj c (ac_lruHeap c ! i); y = obj c (ac_lruHeap c ! j) in
      if ce_lastUse x \<noteq> ce_lastUse y then ce_lastUse x < ce_lastUse y
      else if ce_assetID x \<noteq> ce_assetID y then AssetID_String (ce_assetID x) < AssetID_String (ce_assetID y)
      else ce_lod x < ce_lod y)"

definition lru_Swap :: "nat \<Rightarrow> nat \<Rightarrow> ('d, 'h) assetCache \<Rightarrow> ('d, 'h) assetCache" where
  "lru_Swap i j c =
     (let h = (ac_lruHeap c)[i := ac_lruHeap c ! j, j := ac_lruHeap c ! i];
          c1 = set_index (h ! i) (int i) (c\<lparr>ac_lruHeap := h\<rparr>)
      in set_index (h ! j) (int j) c1)"

definition lru_Push :: "nat \<Rightarrow> ('d, 'h) assetCache \<Rightarrow> ('d, 'h) assetCache" where
  "lru_Push a c =
     (let c1 = set_index a (int (length (ac_lruHeap c))) c
      in c1\<lparr>ac_lruHeap := ac_lruHeap c1 @ [a]\<rparr>)"

definition lru_Pop :: "('d, 'h) assetCache \<Rightarrow> nat \<times> ('d, 'h) assetCache" where
  "lru_Pop c =
     (let a = last (ac_lruHeap c); c1 = set_index a (- 1) c
      in (a, c1\<lparr>ac_lruHeap := butlast (ac_lruHeap c1)\<rparr>))"

definition push_entry_heap :: "nat \<Rightarrow> ('d, 'h) assetCache \<Rightarrow> ('d, 'h) assetCache" where
  "push_entry_heap a c = heap_Push lru_Less lru_Swap lru_Len (lru_Push a) c"

definition pop_entry_heap :: "('d, 'h) assetCache \<Rightarrow> nat \<times> ('d, 'h) assetCache" where
  "pop_entry_heap c = heap_Pop lru_Less lru_Swap lru_Len lru_Pop c"

text \<open>With a negative index both loops of \<^verbatim>\<open>heap.Fix\<close> stop at once.\<close>

definition fix_entry_heap :: "int \<Rightarrow> ('d, 'h) assetCache \<Rightarrow> ('d, 'h) assetCache" where
  "fix_entry_heap i c = (if i < 0 then c else heap_Fix lru_Less lru_Swap lru_Len (nat i) c)"

section \<open>Operations\<close>

text \<open>The registry's record of the size of a tracked level.\<close>

definition note_size :: "AssetID \<Rightarrow> int \<Rightarrow> int \<Rightarrow> int \<Rightarrow> ('d, 'h) assetCache \<Rightarrow> ('d, 'h) assetCache" where
  "note_size a lod sizeBytes lastUse c =
     (case ac_registry c of
        None \<Rightarrow> c
      | Some r \<Rightarrow>
          let (e, r1) = GetOrCreate a r in
          c\<lparr>ac_registry := Some (if 0 \<le> lod \<and> lod < int (length (SizeBytes e))
               then put_entry a (e\<lparr>SizeBytes := (SizeBytes e)[nat lod := sizeBytes], LastUse := lastUse\<rparr>) r1 else r1)\<rparr>)"

definition trackLOD :: "AssetID \<Rightarrow> int \<Rightarrow> int \<Rightarrow> int \<Rightarrow> TextureID \<Rightarrow> int \<Rightarrow> ('d, 'h) assetCache \<Rightarrow> ('d, 'h) assetCache" where
  "trackLOD a lod sizeBytes gpuBytes textureID lastUse c =
     (let c' = (case ac_entries c (a, lod) of
          Some x \<Rightarrow>
            let e = obj c x;
                c1 = c\<lparr>ac_usedBytes := wrap_int (wrap_int (ac_usedBytes c - ce_sizeBytes e) + sizeBytes),
                       ac_gpuUsed := wrap_int (wrap_int (ac_gpuUsed c - ce_gpuBytes e) + gpuBytes)\<rparr>;
                c2 = set_obj x (e\<lparr>ce_lastUse := lastUse, ce_sizeBytes := sizeBytes, ce_gpuBytes := gpuBytes, ce_textureID := textureID\<rparr>) c1
            in fix_entry_heap (ce_index e) c2
        | None \<Rightarrow>
            let x = length (ac_objects c);
                e = \<lparr>ce_assetID = a, ce_lod = lod, ce_lastUse = lastUse, ce_sizeBytes = sizeBytes, ce_gpuBytes = gpuBytes,
                     ce_textureID = textureID, ce_index = 0\<rparr>;
                c1 = c\<lparr>ac_objects := ac_objects c @ [e], ac_entries := (ac_entries c)((a, lod) \<mapsto> x),
                       ac_usedBytes := wrap_int (ac_usedBytes c + sizeBytes), ac_gpuUsed := wrap_int (ac_gpuUsed c + gpuBytes)\<rparr>
            in push_entry_heap x c1)
      in note_size a lod sizeBytes lastUse c')"

definition currentRefCount :: "nat \<Rightarrow> ('d, 'h) assetCache \<Rightarrow> int" where
  "currentRefCount x c =
     (case ac_registry c of
        None \<Rightarrow> 0
      | Some r \<Rightarrow>
          (case Get_entry (ce_assetID (obj c x)) r of
             None \<Rightarrow> 0
           | Some reg \<Rightarrow> if ce_lod (obj c x) < 0 \<or> ce_lod (obj c x) \<ge> int (length (LODRefCounts reg)) then 0
                         else LODRefCounts reg ! nat (ce_lod (obj c x))))"

lemma length_set_obj [simp]: "ac_lruHeap (set_obj a e c) = ac_lruHeap c" "length (ac_objects (set_obj a e c)) = length (ac_objects c)"
  by (simp_all add: set_obj_def)

lemma set_index_heap [simp]: "ac_lruHeap (set_index a i c) = ac_lruHeap c" "length (ac_objects (set_index a i c)) = length (ac_objects c)"
  by (simp_all add: set_index_def)

lemma lru_Swap_length [simp]: "length (ac_lruHeap (lru_Swap i j c)) = length (ac_lruHeap c)"
  by (simp add: lru_Swap_def Let_def)

lemma pop_heap_length:
  assumes "ac_lruHeap c \<noteq> []" "pop_entry_heap c = (a, c')"
  shows "Suc (length (ac_lruHeap c')) = length (ac_lruHeap c)"
proof -
  have "length (ac_lruHeap (snd (heap_down lru_Less lru_Swap i n d))) = length (ac_lruHeap d)" for i n and d :: "('a, 'b) assetCache"
    by (rule heap_down_inv) simp
  then show ?thesis using assms by (auto simp: pop_entry_heap_def heap_Pop_def lru_Pop_def Let_def)
qed

lemma push_heap_length [simp]: "length (ac_lruHeap (push_entry_heap a c)) = Suc (length (ac_lruHeap c))"
proof -
  have "length (ac_lruHeap (heap_up lru_Less lru_Swap i d)) = length (ac_lruHeap d)" for i and d :: "('a, 'b) assetCache"
    by (rule heap_up_inv) simp
  then show ?thesis by (simp add: push_entry_heap_def heap_Push_def lru_Push_def Let_def)
qed

text \<open>Pop until an entry without references is found; the others go back.\<close>

function pop_loop :: "nat list \<Rightarrow> ('d, 'h) assetCache \<Rightarrow> nat option \<times> ('d, 'h) assetCache" where
  "pop_loop skipped c =
     (if ac_lruHeap c = [] then (None, fold push_entry_heap skipped c)
      else let (a, c1) = pop_entry_heap c in
           if currentRefCount a c1 > 0 then pop_loop (skipped @ [a]) c1
           else (Some a, fold push_entry_heap skipped c1))"
  by pat_completeness auto
termination
  by (relation "measure (\<lambda>(skipped, c). length (ac_lruHeap c))") (simp_all, metis pop_heap_length lessI)

declare pop_loop.simps [simp del]

definition popMinEvictable :: "('d, 'h) assetCache \<Rightarrow> nat option \<times> ('d, 'h) assetCache" where
  "popMinEvictable c = pop_loop [] c"

definition FreeTexture :: "TextureID \<Rightarrow> ('d, 'h) assetCache \<Rightarrow> ('d, 'h) assetCache" where
  "FreeTexture t c = (case ac_backend c of Some freed \<Rightarrow> if t \<noteq> 0 then c\<lparr>ac_backend := Some (freed @ [t])\<rparr> else c | None \<Rightarrow> c)"

text \<open>What both eviction loops do with a victim.\<close>

definition evict_victim :: "nat \<Rightarrow> ('d, 'h) assetCache \<Rightarrow> ('d, 'h) assetCache" where
  "evict_victim x c =
     (let e = obj c x; c1 = FreeTexture (ce_textureID e) c in
      c1\<lparr>ac_usedBytes := wrap_int (ac_usedBytes c - ce_sizeBytes e), ac_gpuUsed := wrap_int (ac_gpuUsed c - ce_gpuBytes e),
         ac_entries := (ac_entries c)(lod_key e := None),
         ac_registry := map_option (ClearLOD (ce_assetID e) (ce_lod e)) (ac_registry c),
         ac_evictionsThisFrame := wrap_int (ac_evictionsThisFrame c + 1)\<rparr>)"

definition over_target :: "int \<Rightarrow> int \<Rightarrow> ('d, 'h) assetCache \<Rightarrow> bool" where
  "over_target targetBytes targetGPU c \<longleftrightarrow> ac_usedBytes c > targetBytes \<or> (ac_gpuBudget c > 0 \<and> ac_gpuUsed c > targetGPU)"

lemma pop_loop_length:
  "pop_loop skipped c = (r, c') \<Longrightarrow>
     length (ac_lruHeap c') = length (ac_lruHeap c) + length skipped - (case r of None \<Rightarrow> 0 | Some _ \<Rightarrow> 1) \<and>
     (r \<noteq> None \<longrightarrow> 0 < length (ac_lruHeap c))"
proof (induction skipped c arbitrary: r c' rule: pop_loop.induct)
  case (1 skipped c)
  have push: "length (ac_lruHeap (fold push_entry_heap xs d)) = length xs + length (ac_lruHeap d)" for xs and d :: "('a, 'b) assetCache"
    by (induction xs arbitrary: d) simp_all
  obtain a c1 where p: "pop_entry_heap c = (a, c1)" by fastforce
  show ?case
  proof (cases "ac_lruHeap c = []")
    case True
    then show ?thesis using 1(2) push by (subst (asm) pop_loop.simps) auto
  next
    case False
    note len = pop_heap_length [OF False p]
    show ?thesis
    proof (cases "currentRefCount a c1 > 0")
      case True
      then have "pop_loop (skipped @ [a]) c1 = (r, c')" using 1(2) False p by (subst (asm) pop_loop.simps) simp
      from 1(1) [OF False p [symmetric] refl True this] show ?thesis using len by auto
    next
      case F: False
      then show ?thesis using 1(2) False p push len by (subst (asm) pop_loop.simps) auto
    qed
  qed
qed

lemma evict_victim_heap [simp]: "ac_lruHeap (evict_victim x c) = ac_lruHeap c"
  by (simp add: evict_victim_def FreeTexture_def Let_def split: option.splits)

function evict_until :: "int \<Rightarrow> int \<Rightarrow> int \<Rightarrow> ('d, 'h) assetCache \<Rightarrow> int \<times> ('d, 'h) assetCache" where
  "evict_until targetBytes targetGPU cnt c =
     (if over_target targetBytes targetGPU c
      then (case popMinEvictable c of
              (None, c') \<Rightarrow> (cnt, c')
            | (Some x, c') \<Rightarrow> evict_until targetBytes targetGPU (cnt + 1) (evict_victim x c'))
      else (cnt, c))"
  by pat_completeness auto
termination
  by (relation "measure (\<lambda>(tb, tg, n, c). length (ac_lruHeap c))")
    (auto simp: popMinEvictable_def dest!: pop_loop_length [OF sym])

declare evict_until.simps [simp del]

definition evictIfNeeded :: "('d, 'h) assetCache \<Rightarrow> ('d, 'h) assetCache" where
  "evictIfNeeded c = snd (evict_until (ac_budgetBytes c) (ac_gpuBudget c) 0 c)"

text \<open>The share of a budget, \<^verbatim>\<open>int64(float64(budget) * fraction)\<close>, is the argument \<open>share\<close>.\<close>

definition EvictToWatermark :: "(int \<Rightarrow> int) \<Rightarrow> ('d, 'h) assetCache \<Rightarrow> int \<times> ('d, 'h) assetCache" where
  "EvictToWatermark share c =
     (if ac_budgetBytes c \<le> 0 then (0, c)
      else evict_until (share (ac_budgetBytes c)) (share (ac_gpuBudget c)) 0 c)"

text \<open>The registry forgets the GPU copy of a level and keeps its decoded data.\<close>

definition clear_gpu :: "AssetID \<Rightarrow> int \<Rightarrow> ('d, 'h) AssetRegistryStore \<Rightarrow> ('d, 'h) AssetRegistryStore" where
  "clear_gpu a lod r =
     (case Get_entry a r of
        None \<Rightarrow> r
      | Some e \<Rightarrow>
          if 0 \<le> lod \<and> lod < int (length (LODGPUReady e))
          then (put_entry a (e\<lparr>LODGPUReady := (LODGPUReady e)[nat lod := False], LODTextureIDs := (LODTextureIDs e)[nat lod := 0],
                              LODGPUBytes := (LODGPUBytes e)[nat lod := 0], EntryVersion := EntryVersion e + 1\<rparr>) r)
               \<lparr>globalVersion := globalVersion r + 1\<rparr>
          else r)"

definition gpu_resident :: "lodCacheEntry \<Rightarrow> bool" where
  "gpu_resident e \<longleftrightarrow> ce_textureID e \<noteq> 0 \<or> ce_gpuBytes e > 0"

definition drop_gpu :: "nat \<Rightarrow> ('d, 'h) assetCache \<Rightarrow> ('d, 'h) assetCache" where
  "drop_gpu x c =
     (let e = obj c x; c1 = FreeTexture (ce_textureID e) c;
          c2 = c1\<lparr>ac_gpuUsed := wrap_int (ac_gpuUsed c - ce_gpuBytes e)\<rparr>
      in set_obj x (e\<lparr>ce_gpuBytes := 0, ce_textureID := 0\<rparr>) c2)"

fun evict_gpu :: "int \<Rightarrow> nat list \<Rightarrow> int \<Rightarrow> ('d, 'h) assetCache \<Rightarrow> int \<times> ('d, 'h) assetCache" where
  "evict_gpu targetGPU [] cnt c = (cnt, c)"
| "evict_gpu targetGPU (x # xs) cnt c =
     (if ac_gpuUsed c \<le> targetGPU then (cnt, c)
      else if currentRefCount x c > 0 then evict_gpu targetGPU xs cnt c
      else let e = obj c x; c1 = drop_gpu x c in
           evict_gpu targetGPU xs (cnt + 1)
             (c1\<lparr>ac_registry := map_option (clear_gpu (ce_assetID e) (ce_lod e)) (ac_registry c1),
                 ac_evictionsThisFrame := wrap_int (ac_evictionsThisFrame c1 + 1)\<rparr>))"

text \<open>
  The candidates are gathered in the order of the map iteration, \<open>order\<close>, and sorted by last use;
  \<^verbatim>\<open>sort.Slice\<close> is not stable, but every outcome it may have is a stable sort of some order.
\<close>

definition EvictGPUToWatermark :: "(int \<Rightarrow> int) \<Rightarrow> assetLODKey list \<Rightarrow> ('d, 'h) assetCache \<Rightarrow> int \<times> ('d, 'h) assetCache" where
  "EvictGPUToWatermark share order c =
     (if ac_gpuBudget c \<le> 0 \<or> ac_gpuUsed c \<le> 0 then (0, c)
      else let targetGPU = share (ac_gpuBudget c) in
           if ac_gpuUsed c \<le> targetGPU then (0, c)
           else let candidates = filter (\<lambda>x. gpu_resident (obj c x)) (List.map_filter (ac_entries c) order)
                in evict_gpu targetGPU (sort_key (\<lambda>x. ce_lastUse (obj c x)) candidates) 0 c)"

text \<open>One round of the loop over the map; an entry with decoded data stays.\<close>

definition lose_device :: "assetLODKey \<Rightarrow> ('d, 'h) assetCache \<Rightarrow> ('d, 'h) assetCache" where
  "lose_device k c =
     (case ac_entries c k of
        None \<Rightarrow> c
      | Some x \<Rightarrow>
          let e = obj c x in
          if \<not> gpu_resident e then c
          else let c1 = drop_gpu x c;
                   c2 = (if ce_sizeBytes e > 0
                         then c1\<lparr>ac_registry := map_option (clear_gpu (ce_assetID e) (ce_lod e)) (ac_registry c1)\<rparr>
                         else c1\<lparr>ac_entries := (ac_entries c1)(k := None),
                                 ac_registry := map_option (ClearLOD (ce_assetID e) (ce_lod e)) (ac_registry c1)\<rparr>)
               in c2\<lparr>ac_evictionsThisFrame := wrap_int (ac_evictionsThisFrame c2 + 1)\<rparr>)"

definition CheckDeviceGeneration :: "u64 \<Rightarrow> assetLODKey list \<Rightarrow> ('d, 'h) assetCache \<Rightarrow> bool \<times> ('d, 'h) assetCache" where
  "CheckDeviceGeneration currentGen order c =
     (if ac_deviceGeneration c = currentGen then (False, c)
      else (True, fold lose_device order (c\<lparr>ac_deviceGeneration := currentGen\<rparr>)))"

text \<open>The share of the budget to keep, in hundredths.\<close>

definition TrimLevelFraction :: "int \<Rightarrow> int" where
  "TrimLevelFraction level =
     (if level \<ge> 80 then 0 else if level \<ge> 60 then 10 else if level \<ge> 40 then 25 else if level \<ge> 20 then 50
      else if level \<ge> 15 then 0 else if level \<ge> 10 then 25 else if level \<ge> 5 then 50 else 75)"

section \<open>The heap of a cache\<close>

text \<open>What the heap functions keep: everything but the order of the heap and the index fields.\<close>

definition cache_data :: "('d, 'h) assetCache \<Rightarrow> ('d, 'h) assetCache" where
  "cache_data c = c\<lparr>ac_lruHeap := [], ac_objects := map (\<lambda>e. e\<lparr>ce_index := 0\<rparr>) (ac_objects c)\<rparr>"

definition lru_key :: "('d, 'h) assetCache \<Rightarrow> nat \<Rightarrow> int \<times> string \<times> int" where
  "lru_key c x = (ce_lastUse (obj c x), AssetID_String (ce_assetID (obj c x)), ce_lod (obj c x))"

definition lru_ok :: "('d, 'h) assetCache \<Rightarrow> bool" where
  "lru_ok c \<longleftrightarrow> distinct (ac_lruHeap c) \<and>
     (\<forall>x \<in> set (ac_lruHeap c). x < length (ac_objects c) \<and> length (ce_assetID (obj c x)) = 16) \<and>
     (\<forall>i < length (ac_lruHeap c). ce_index (obj c (ac_lruHeap c ! i)) = int i)"

lemma obj_set_obj: "x < length (ac_objects c) \<Longrightarrow> obj (set_obj a e c) x = (if x = a then e else obj c x)"
  by (auto simp: set_obj_def nth_list_update_cases)

lemma obj_set_index: "obj (set_index a i c) x = (if x = a \<and> a < length (ac_objects c) then (obj c a)\<lparr>ce_index := i\<rparr> else obj c x)"
  by (cases "a < length (ac_objects c)") (auto simp: set_index_def set_obj_def list_update_beyond)

lemma set_index_data [simp]: "cache_data (set_index a i c) = cache_data c"
proof -
  have "map (\<lambda>e. e\<lparr>ce_index := 0\<rparr>) ((ac_objects c)[a := (obj c a)\<lparr>ce_index := i\<rparr>]) = map (\<lambda>e. e\<lparr>ce_index := 0\<rparr>) (ac_objects c)"
    by (rule nth_equalityI) (auto simp: nth_list_update_cases)
  then show ?thesis unfolding cache_data_def set_index_def set_obj_def by simp
qed

lemma set_index_key [simp]: "lru_key (set_index a i c) = lru_key c"
  by (rule ext) (simp add: lru_key_def obj_set_index)

lemma heap_update [simp]: "cache_data (c\<lparr>ac_lruHeap := h\<rparr>) = cache_data c" "lru_key (c\<lparr>ac_lruHeap := h\<rparr>) = lru_key c"
  by (simp_all add: cache_data_def lru_key_def fun_eq_iff)

lemma Swap_data [simp]: "cache_data (lru_Swap i j c) = cache_data c"
  by (simp add: lru_Swap_def Let_def)

lemma heap_up_data [simp]: "cache_data (heap_up lt lru_Swap j c) = cache_data c"
  by (rule heap_up_inv) simp

lemma heap_down_data [simp]: "cache_data (snd (heap_down lt lru_Swap i n c)) = cache_data c"
  by (rule heap_down_inv) simp

lemma Swap_heap: "ac_lruHeap (lru_Swap i j c) = swapped i j (ac_lruHeap c)"
  by (simp add: lru_Swap_def Let_def swapped_def)

lemma Swap_key: "lru_key (lru_Swap i j c) = lru_key c"
  by (simp add: lru_Swap_def Let_def)

lemma data_fields:
  assumes "cache_data c' = cache_data c"
  shows "length (ac_objects c') = length (ac_objects c)" "ac_registry c' = ac_registry c" "ac_backend c' = ac_backend c"
    "ac_budgetBytes c' = ac_budgetBytes c" "ac_usedBytes c' = ac_usedBytes c" "ac_gpuBudget c' = ac_gpuBudget c"
    "ac_gpuUsed c' = ac_gpuUsed c" "ac_entries c' = ac_entries c" "ac_deviceGeneration c' = ac_deviceGeneration c"
    "map (\<lambda>e. e\<lparr>ce_index := 0\<rparr>) (ac_objects c') = map (\<lambda>e. e\<lparr>ce_index := 0\<rparr>) (ac_objects c)"
proof -
  have "map (\<lambda>e. e\<lparr>ce_index := 0\<rparr>) (ac_objects c') = map (\<lambda>e. e\<lparr>ce_index := 0\<rparr>) (ac_objects c)"
    using arg_cong [OF assms, of ac_objects] by (simp add: cache_data_def)
  then show "length (ac_objects c') = length (ac_objects c)" by (metis length_map)
qed (use arg_cong [OF assms, of ac_registry] arg_cong [OF assms, of ac_backend] arg_cong [OF assms, of ac_budgetBytes]
    arg_cong [OF assms, of ac_usedBytes] arg_cong [OF assms, of ac_gpuBudget] arg_cong [OF assms, of ac_gpuUsed]
    arg_cong [OF assms, of ac_entries] arg_cong [OF assms, of ac_deviceGeneration] arg_cong [OF assms, of ac_objects]
    in \<open>simp_all add: cache_data_def\<close>)

text \<open>The objects without their index fields.\<close>

definition bare :: "('d, 'h) assetCache \<Rightarrow> lodCacheEntry list" where
  "bare c = map (\<lambda>e. e\<lparr>ce_index := 0\<rparr>) (ac_objects c)"

lemma data_bare: "cache_data c' = cache_data c \<Longrightarrow> bare c' = bare c"
  using data_fields(10) by (simp add: bare_def)

lemma bare_length: "bare c' = bare c \<Longrightarrow> length (ac_objects c') = length (ac_objects c)"
  by (metis bare_def length_map)

lemma bare_obj:
  assumes "bare c' = bare c" "x < length (ac_objects c)"
  shows "(obj c' x)\<lparr>ce_index := 0\<rparr> = (obj c x)\<lparr>ce_index := 0\<rparr>"
proof -
  have "bare c' ! x = bare c ! x" using assms(1) by simp
  then show ?thesis using assms(2) bare_length [OF assms(1)] by (simp add: bare_def)
qed

lemma lru_Less_key:
  assumes "lru_ok c" "i < length (ac_lruHeap c)" "j < length (ac_lruHeap c)"
  shows "lru_Less i j c \<longleftrightarrow> lru_key c (ac_lruHeap c ! i) < lru_key c (ac_lruHeap c ! j)"
proof -
  let ?x = "obj c (ac_lruHeap c ! i)" and ?y = "obj c (ac_lruHeap c ! j)"
  have "length (ce_assetID ?x) = 16" "length (ce_assetID ?y) = 16" using assms nth_mem by (auto simp: lru_ok_def)
  then have "ce_assetID ?x = ce_assetID ?y \<longleftrightarrow> AssetID_String (ce_assetID ?x) = AssetID_String (ce_assetID ?y)"
    by (simp add: AssetID_String_inj)
  then show ?thesis by (auto simp: lru_Less_def lru_key_def Let_def less_prod_def)
qed

lemma lru_ok_Swap:
  assumes "lru_ok c" "i < length (ac_lruHeap c)" "j < length (ac_lruHeap c)"
  shows "lru_ok (lru_Swap i j c)"
proof -
  let ?h = "swapped i j (ac_lruHeap c)" and ?c = "lru_Swap i j c"
  have h: "ac_lruHeap ?c = ?h" by (rule Swap_heap)
  have "mset ?h = mset (ac_lruHeap c)" using assms(2,3) by simp
  then have s: "set ?h = set (ac_lruHeap c)" and d: "distinct ?h" using assms(1)
    by (metis set_mset_mset, metis lru_ok_def mset_eq_imp_distinct_iff)
  have len: "length (ac_objects ?c) = length (ac_objects c)" by (simp add: lru_Swap_def Let_def)
  have in_h: "?h ! k < length (ac_objects c)" if "k < length (ac_lruHeap c)" for k
    using that s assms(1) nth_mem [of k ?h] by (auto simp: lru_ok_def)
  have o: "obj ?c x = (if x = ?h ! j then (obj c x)\<lparr>ce_index := int j\<rparr> else if x = ?h ! i then (obj c x)\<lparr>ce_index := int i\<rparr> else obj c x)" for x
    using in_h [OF assms(2)] in_h [OF assms(3)]
    by (simp add: lru_Swap_def Let_def swapped_def [symmetric] obj_set_index)
  have id: "ce_assetID (obj ?c x) = ce_assetID (obj c x)" for x by (simp add: o)
  have "ce_index (obj ?c (?h ! k)) = int k" if k: "k < length (ac_lruHeap c)" for k
  proof -
    have n: "?h ! k = ?h ! m \<longleftrightarrow> k = m" if "m < length (ac_lruHeap c)" for m using d that k by (simp add: nth_eq_iff_index_eq)
    have old: "ce_index (obj c (?h ! k)) = int k" if "k \<noteq> i" "k \<noteq> j"
      using assms that k by (simp add: nth_swapped lru_ok_def)
    show ?thesis using n [OF assms(2)] n [OF assms(3)] old by (auto simp: o)
  qed
  then show ?thesis using assms(1) d s len by (simp add: lru_ok_def h id)
qed

interpretation lru: heap_interface lru_Less lru_Swap ac_lruHeap lru_key lru_ok
  by unfold_locales (simp_all add: lru_Less_key lru_ok_Swap Swap_heap Swap_key)

lemma Len_fun: "lru_Len = (\<lambda>c. length (ac_lruHeap c))"
  by (rule ext) (simp add: lru_Len_def)

definition lru_heap :: "('d, 'h) assetCache \<Rightarrow> bool" where
  "lru_heap c \<longleftrightarrow> lru_ok c \<and> heap_ordered (map (lru_key c) (ac_lruHeap c)) (length (ac_lruHeap c))"

lemma lru_keys: "lru.keys c = map (lru_key c) (ac_lruHeap c)"
  by (simp add: lru.keys_def)

lemma same_setD: "lru.same_elems c c' \<Longrightarrow> set (ac_lruHeap c') = set (ac_lruHeap c)"
  by (metis lru.same_elems_def set_mset_mset)

lemma lru_ok_Push:
  assumes "lru_ok c" "x \<notin> set (ac_lruHeap c)" "x < length (ac_objects c)" "length (ce_assetID (obj c x)) = 16"
  shows "lru_ok (lru_Push x c)"
proof -
  have o: "obj (lru_Push x c) y = (if y = x then (obj c x)\<lparr>ce_index := int (length (ac_lruHeap c))\<rparr> else obj c y)" for y
    using assms(3) by (simp add: lru_Push_def obj_set_index)
  have h: "ac_lruHeap (lru_Push x c) = ac_lruHeap c @ [x]" "length (ac_objects (lru_Push x c)) = length (ac_objects c)"
    by (simp_all add: lru_Push_def)
  have "ce_index (obj (lru_Push x c) ((ac_lruHeap c @ [x]) ! i)) = int i" if "i < Suc (length (ac_lruHeap c))" for i
  proof (cases "i = length (ac_lruHeap c)")
    case False
    then have "(ac_lruHeap c @ [x]) ! i \<noteq> x" using that assms(2) nth_mem [of i "ac_lruHeap c"] by (auto simp: nth_append)
    then show ?thesis using False that assms(1) by (simp add: o nth_append lru_ok_def)
  qed (simp add: o)
  then show ?thesis using assms by (auto simp: lru_ok_def h o)
qed

lemma push_spec:
  assumes "lru_heap c" "x \<notin> set (ac_lruHeap c)" "x < length (ac_objects c)" "length (ce_assetID (obj c x)) = 16"
  shows "lru_heap (push_entry_heap x c) \<and> set (ac_lruHeap (push_entry_heap x c)) = insert x (set (ac_lruHeap c)) \<and>
    cache_data (push_entry_heap x c) = cache_data c"
proof -
  let ?n = "length (ac_lruHeap c)" and ?p = "push_entry_heap x c"
  have h: "ac_lruHeap (lru_Push x c) = ac_lruHeap c @ [x]" "lru_key (lru_Push x c) = lru_key c" "cache_data (lru_Push x c) = cache_data c"
    by (simp_all add: lru_Push_def)
  have ok: "lru_ok (lru_Push x c)" using assms by (simp add: lru_heap_def lru_ok_Push)
  have "heap_ordered (map (lru_key c) (ac_lruHeap c)) ?n" using assms(1) by (simp add: lru_heap_def)
  then have "heap_ordered (lru.keys (lru_Push x c)) ?n" by (rule heap_ordered_cong) (simp add: lru_keys h nth_append)
  from lru.heap_Push_spec [of "lru_Push x" c, OF ok _ this] have P: "lru.same_elems (lru_Push x c) ?p \<and> heap_ordered (lru.keys ?p) (Suc ?n)"
    by (simp add: h push_entry_heap_def Len_fun)
  then have "lru_heap ?p" unfolding lru_heap_def lru_keys [symmetric] by (simp add: lru.same_elems_def)
  moreover have "set (ac_lruHeap ?p) = insert x (set (ac_lruHeap c))" using same_setD [of "lru_Push x c" ?p] P h by simp
  moreover have "cache_data ?p = cache_data c"
    using h(3) by (simp add: push_entry_heap_def heap_Push_def Let_def)
  ultimately show ?thesis by blast
qed

lemma pop_spec:
  assumes "lru_heap c" "ac_lruHeap c \<noteq> []" "pop_entry_heap c = (x, c')"
  shows "lru_heap c' \<and> x \<in> set (ac_lruHeap c) \<and> set (ac_lruHeap c') = set (ac_lruHeap c) - {x} \<and> cache_data c' = cache_data c \<and>
    (\<forall>y \<in> set (ac_lruHeap c). lru_key c x \<le> lru_key c y)"
proof -
  obtain n where n: "length (ac_lruHeap c) = Suc n" using assms(2) by (cases "ac_lruHeap c") auto
  define t where "t = snd (heap_down lru_Less lru_Swap 0 n (lru_Swap 0 n c))"
  have ok: "lru_ok c" "heap_ordered (lru.keys c) (Suc n)" using assms(1) n by (simp_all add: lru_heap_def lru_keys)
  have T: "lru.same_elems c t \<and> ac_lruHeap t ! n = ac_lruHeap c ! 0 \<and> heap_ordered (lru.keys t) n"
    unfolding t_def by (rule lru.heap_Pop_spec [OF ok(1) n ok(2)])
  have len: "length (ac_lruHeap t) = Suc n" using lru.same_length [of c t] T n by simp
  then have ne: "ac_lruHeap t \<noteq> []" by auto
  have lst: "last (ac_lruHeap t) = ac_lruHeap t ! n" using len last_conv_nth [OF ne] by simp
  have ht: "ac_lruHeap t = butlast (ac_lruHeap t) @ [ac_lruHeap t ! n]" using append_butlast_last_id [OF ne] lst by simp
  have p: "x = ac_lruHeap t ! n" "c' = (set_index x (- 1) t)\<lparr>ac_lruHeap := butlast (ac_lruHeap t)\<rparr>"
    using assms(3) n lst by (auto simp: pop_entry_heap_def heap_Pop_def Let_def lru_Len_def lru_Pop_def t_def [symmetric])
  have okt: "lru_ok t" "lru_key t = lru_key c" using T by (simp_all add: lru.same_elems_def)
  have dist: "distinct (ac_lruHeap t)" using okt(1) by (simp add: lru_ok_def)
  have notin: "x \<notin> set (butlast (ac_lruHeap t))" using dist ht p(1) by (metis distinct.simps(2) distinct_append not_distinct_conv_prefix)
  have setc: "set (ac_lruHeap t) = insert x (set (butlast (ac_lruHeap t)))" using ht p(1) by (metis append.right_neutral list.simps(15) rotate1.simps(2) set_append set_rotate1)
  have st: "set (ac_lruHeap t) = set (ac_lruHeap c)" using same_setD T by blast
  have nth: "butlast (ac_lruHeap t) ! i = ac_lruHeap t ! i" if "i < n" for i using that len by (simp add: nth_butlast)
  have ne: "ac_lruHeap t ! i \<noteq> x" if "i < n" for i using that notin nth nth_mem [of i "butlast (ac_lruHeap t)"] len by auto
  have "ce_index (obj c' (ac_lruHeap c' ! i)) = int i" if "i < n" for i
    using that okt(1) len ne [OF that] by (simp add: p(2) obj_set_index nth lru_ok_def)
  moreover have "x < length (ac_objects t) \<and> length (ce_assetID (obj c' y)) = 16 \<and> y < length (ac_objects c')" if "y \<in> set (butlast (ac_lruHeap t))" for y
    using that okt(1) in_set_butlastD [OF that] setc by (auto simp: lru_ok_def p(2) obj_set_index)
  ultimately have "lru_ok c'" using dist len by (simp add: lru_ok_def p(2) distinct_butlast)
  moreover have "heap_ordered (map (lru_key c') (ac_lruHeap c')) (length (ac_lruHeap c'))"
  proof (rule heap_ordered_cong [of "lru.keys t"])
    have l: "length (ac_lruHeap c') = n" using len by (simp add: p(2))
    show "heap_ordered (lru.keys t) (length (ac_lruHeap c'))" using T l by simp
    show "map (lru_key c') (ac_lruHeap c') ! k = lru.keys t ! k" if "k < length (ac_lruHeap c')" for k
      using that l nth len by (simp add: p(2) lru_keys)
  qed
  ultimately have "lru_heap c'" by (simp add: lru_heap_def)
  moreover have "cache_data c' = cache_data c" by (simp add: p(2) t_def)
  moreover have "lru_key c x \<le> lru_key c y" if "y \<in> set (ac_lruHeap c)" for y
  proof -
    obtain k where k: "k < Suc n" "y = ac_lruHeap c ! k" using \<open>y \<in> _\<close> n by (auto simp: in_set_conv_nth)
    have "lru.keys c ! 0 \<le> lru.keys c ! k" by (rule root_least [OF ok(2) k(1)])
    then show ?thesis using k n T p(1) by (simp add: lru_keys)
  qed
  ultimately show ?thesis using notin setc st p by auto
qed

lemma fix_spec:
  assumes "lru_heap c" "x \<in> set (ac_lruHeap c)" "ce_index e = ce_index (obj c x)" "length (ce_assetID e) = 16"
  defines "c' \<equiv> fix_entry_heap (ce_index (obj c x)) (set_obj x e c)"
  shows "lru_heap c' \<and> set (ac_lruHeap c') = set (ac_lruHeap c) \<and> cache_data c' = cache_data (set_obj x e c)"
proof -
  let ?n = "length (ac_lruHeap c)" and ?d = "set_obj x e c"
  obtain i where i: "i < ?n" "ac_lruHeap c ! i = x" using assms(2) by (auto simp: in_set_conv_nth)
  have ok: "lru_ok c" using assms(1) by (simp add: lru_heap_def)
  have xl: "x < length (ac_objects c)" using ok assms(2) by (simp add: lru_ok_def)
  have idx: "ce_index (obj c x) = int i" using ok i by (auto simp: lru_ok_def)
  have inl: "y < length (ac_objects c)" if "y \<in> set (ac_lruHeap c)" for y using ok that by (simp add: lru_ok_def)
  have okd: "lru_ok ?d" using ok assms(3,4) inl by (auto simp: lru_ok_def obj_set_obj)
  have keys: "lru.keys ?d ! k = map (lru_key c) (ac_lruHeap c) ! k" if "k < ?n" "k \<noteq> i" for k
  proof -
    have "ac_lruHeap c ! k \<noteq> x" using that i ok by (auto simp: lru_ok_def nth_eq_iff_index_eq)
    then show ?thesis using that inl by (simp add: lru_keys lru_key_def obj_set_obj)
  qed
  have h: "heap_ordered (map (lru_key c) (ac_lruHeap c)) ?n" using assms(1) by (simp add: lru_heap_def)
  note ck = changed_key [OF h i(1) keys]
  let ?f = "heap_Fix lru_Less lru_Swap (\<lambda>c. length (ac_lruHeap c)) i ?d"
  have F: "lru.same_elems ?d ?f \<and> heap_ordered (lru.keys ?f) ?n"
    by (rule lru.heap_Fix_spec [OF okd i(1) _ ck]) simp_all
  have c': "c' = ?f" by (simp add: c'_def fix_entry_heap_def idx Len_fun)
  have len: "length (ac_lruHeap ?f) = ?n" using lru.same_length [of ?d ?f] F by simp
  have "lru_heap c'" unfolding lru_heap_def lru_keys [symmetric] c' using F len by (simp add: lru.same_elems_def)
  moreover have "set (ac_lruHeap c') = set (ac_lruHeap c)" using same_setD [of ?d ?f] F by (simp add: c')
  moreover have "cache_data c' = cache_data ?d" by (simp add: c' heap_Fix_def Let_def)
  ultimately show ?thesis by blast
qed

section \<open>Choosing a victim\<close>

lemma bare_obj_field:
  assumes "\<And>e. f (e\<lparr>ce_index := 0\<rparr>) = f e" "bare c' = bare c" "x < length (ac_objects c)"
  shows "f (obj c' x) = f (obj c x)"
  using arg_cong [OF bare_obj [OF assms(2,3)], of f] unfolding assms(1) .

lemma bare_obj_fields:
  assumes "bare c' = bare c" "x < length (ac_objects c)"
  shows "ce_assetID (obj c' x) = ce_assetID (obj c x)" "ce_lod (obj c' x) = ce_lod (obj c x)" "ce_sizeBytes (obj c' x) = ce_sizeBytes (obj c x)"
    "ce_gpuBytes (obj c' x) = ce_gpuBytes (obj c x)" "ce_textureID (obj c' x) = ce_textureID (obj c x)" "lru_key c' x = lru_key c x"
    "lod_key (obj c' x) = lod_key (obj c x)" "ce_lastUse (obj c' x) = ce_lastUse (obj c x)"
proof -
  note f = bare_obj_field [OF _ assms]
  show a: "ce_assetID (obj c' x) = ce_assetID (obj c x)" "ce_lod (obj c' x) = ce_lod (obj c x)" "ce_lastUse (obj c' x) = ce_lastUse (obj c x)"
    by (rule f, simp)+
  show "ce_sizeBytes (obj c' x) = ce_sizeBytes (obj c x)" "ce_gpuBytes (obj c' x) = ce_gpuBytes (obj c x)"
    "ce_textureID (obj c' x) = ce_textureID (obj c x)"
    by (rule f, simp)+
  show "lru_key c' x = lru_key c x" "lod_key (obj c' x) = lod_key (obj c x)" unfolding lru_key_def lod_key_def a by (rule refl)+
qed

lemmas data_obj_fields = bare_obj_fields [OF data_bare]

text \<open>The reference counts an asset has in the registry, if any.\<close>

definition refs_of :: "('d, 'h) AssetRegistryStore option \<Rightarrow> AssetID \<Rightarrow> int list option" where
  "refs_of reg a = Option.bind reg (\<lambda>r. map_option LODRefCounts (r_entries r a))"

lemma currentRefCount_refs:
  "currentRefCount x c = (case refs_of (ac_registry c) (ce_assetID (obj c x)) of None \<Rightarrow> 0
     | Some rc \<Rightarrow> if ce_lod (obj c x) < 0 \<or> ce_lod (obj c x) \<ge> int (length rc) then 0 else rc ! nat (ce_lod (obj c x)))"
  by (simp add: currentRefCount_def refs_of_def Get_entry_def split: option.splits)

lemma bare_refCount:
  assumes "bare c' = bare c" "refs_of (ac_registry c') = refs_of (ac_registry c)" "x < length (ac_objects c)"
  shows "currentRefCount x c' = currentRefCount x c"
  unfolding currentRefCount_refs bare_obj_fields(1,2) [OF assms(1,3)] assms(2) by (rule refl)

lemma data_refCount:
  assumes "cache_data c' = cache_data c" "x < length (ac_objects c)"
  shows "currentRefCount x c' = currentRefCount x c"
  by (rule bare_refCount [OF data_bare [OF assms(1)] _ assms(2)]) (simp add: data_fields(2) [OF assms(1)])

definition pinned :: "('d, 'h) assetCache \<Rightarrow> nat \<Rightarrow> bool" where
  "pinned c x \<longleftrightarrow> currentRefCount x c > 0"

lemma heap_bound: "lru_heap c \<Longrightarrow> x \<in> set (ac_lruHeap c) \<Longrightarrow> x < length (ac_objects c) \<and> length (ce_assetID (obj c x)) = 16"
  by (simp add: lru_heap_def lru_ok_def)

lemma fold_push_spec:
  assumes "lru_heap c" "distinct xs" "set xs \<inter> set (ac_lruHeap c) = {}"
    "\<And>x. x \<in> set xs \<Longrightarrow> x < length (ac_objects c) \<and> length (ce_assetID (obj c x)) = 16"
  shows "lru_heap (fold push_entry_heap xs c) \<and> set (ac_lruHeap (fold push_entry_heap xs c)) = set xs \<union> set (ac_lruHeap c) \<and>
    cache_data (fold push_entry_heap xs c) = cache_data c"
  using assms
proof (induction xs arbitrary: c)
  case (Cons x xs)
  have P: "lru_heap (push_entry_heap x c) \<and> set (ac_lruHeap (push_entry_heap x c)) = insert x (set (ac_lruHeap c)) \<and>
    cache_data (push_entry_heap x c) = cache_data c"
    using Cons.prems(3) Cons.prems(4) [of x] by (intro push_spec [OF Cons.prems(1)]) auto
  have "y < length (ac_objects (push_entry_heap x c)) \<and> length (ce_assetID (obj (push_entry_heap x c) y)) = 16" if "y \<in> set xs" for y
    using P Cons.prems(4) [of y] that data_fields(1) [of "push_entry_heap x c" c] data_obj_fields(1) [of "push_entry_heap x c" c y] by simp
  then have "lru_heap (fold push_entry_heap xs (push_entry_heap x c)) \<and>
    set (ac_lruHeap (fold push_entry_heap xs (push_entry_heap x c))) = set xs \<union> set (ac_lruHeap (push_entry_heap x c)) \<and>
    cache_data (fold push_entry_heap xs (push_entry_heap x c)) = cache_data (push_entry_heap x c)"
    using P Cons.prems(2,3) by (intro Cons.IH) auto
  then show ?case using P by auto
qed simp

lemma pop_loop_spec:
  assumes "lru_heap c" "distinct skipped" "set skipped \<inter> set (ac_lruHeap c) = {}"
    "\<And>x. x \<in> set skipped \<Longrightarrow> x < length (ac_objects c) \<and> length (ce_assetID (obj c x)) = 16"
    "pop_loop skipped c = (r, c')"
  shows "lru_heap c' \<and> cache_data c' = cache_data c \<and>
    (case r of
       None \<Rightarrow> set (ac_lruHeap c') = set skipped \<union> set (ac_lruHeap c) \<and> (\<forall>y \<in> set (ac_lruHeap c). pinned c y)
     | Some x \<Rightarrow> x \<in> set (ac_lruHeap c) \<and> \<not> pinned c x \<and> set (ac_lruHeap c') = set skipped \<union> (set (ac_lruHeap c) - {x}) \<and>
         (\<forall>y \<in> set (ac_lruHeap c). \<not> pinned c y \<longrightarrow> lru_key c x \<le> lru_key c y))"
  using assms
proof (induction skipped c rule: pop_loop.induct)
  case (1 skipped c)
  obtain a c1 where p: "pop_entry_heap c = (a, c1)" by fastforce
  show ?case
  proof (cases "ac_lruHeap c = []")
    case True
    then have "r = None" "c' = fold push_entry_heap skipped c" using 1(6) by (subst (asm) pop_loop.simps, simp)+
    then show ?thesis using fold_push_spec [OF 1(2-5)] True by simp
  next
    case False
    note P = pop_spec [OF 1(2) False p]
    have d: "cache_data c1 = cache_data c" using P by simp
    have ab: "a < length (ac_objects c)" "length (ce_assetID (obj c a)) = 16" using heap_bound [OF 1(2)] P by auto
    have rc: "currentRefCount a c1 > 0 \<longleftrightarrow> pinned c a" using data_refCount [OF d ab(1)] by (simp add: pinned_def)
    have valid: "x < length (ac_objects c1) \<and> length (ce_assetID (obj c1 x)) = 16" if "x \<in> set (skipped @ [a])" for x
      using that 1(5) [of x] ab data_fields(1) [OF d] data_obj_fields(1) [OF d, of x] by auto
    show ?thesis
    proof (cases "pinned c a")
      case True
      then have rec: "pop_loop (skipped @ [a]) c1 = (r, c')" using 1(6) False p rc by (subst (asm) pop_loop.simps) simp
      have IH: "lru_heap c' \<and> cache_data c' = cache_data c1 \<and>
        (case r of
           None \<Rightarrow> set (ac_lruHeap c') = set (skipped @ [a]) \<union> set (ac_lruHeap c1) \<and> (\<forall>y \<in> set (ac_lruHeap c1). pinned c1 y)
         | Some x \<Rightarrow> x \<in> set (ac_lruHeap c1) \<and> \<not> pinned c1 x \<and> set (ac_lruHeap c') = set (skipped @ [a]) \<union> (set (ac_lruHeap c1) - {x}) \<and>
             (\<forall>y \<in> set (ac_lruHeap c1). \<not> pinned c1 y \<longrightarrow> lru_key c1 x \<le> lru_key c1 y))"
        by (rule 1(1) [OF False p [symmetric] refl _ _ _ _ valid rec]) (use True rc P 1(3,4) in auto)
      have eq: "pinned c1 y = pinned c y" "lru_key c1 y = lru_key c y" if "y \<in> set (ac_lruHeap c)" for y
        using data_refCount [OF d] data_obj_fields(6) [OF d] heap_bound [OF 1(2) that] by (simp_all add: pinned_def)
      have s: "set (ac_lruHeap c) = insert a (set (ac_lruHeap c1))" using P by auto
      show ?thesis
      proof (cases r)
        case None
        then show ?thesis using IH d s eq True by auto
      next
        case (Some x)
        have na: "a \<notin> set (ac_lruHeap c1)" using P by simp
        show ?thesis using IH Some d s na eq True by auto
      qed
    next
      case F: False
      then have r: "r = Some a" "c' = fold push_entry_heap skipped c1" using 1(6) False p rc by (subst (asm) pop_loop.simps, simp)+
      have "lru_heap c' \<and> set (ac_lruHeap c') = set skipped \<union> set (ac_lruHeap c1) \<and> cache_data c' = cache_data c1"
        unfolding r(2) by (rule fold_push_spec) (use P 1(3,4) valid in auto)
      then show ?thesis using r P F d by auto
    qed
  qed
qed

section \<open>Accounting\<close>

text \<open>The map and the heap hold the same entries, each under its key, and the totals are their sums.\<close>

definition cache_ok :: "('d, 'h) assetCache \<Rightarrow> bool" where
  "cache_ok c \<longleftrightarrow> lru_heap c \<and> (\<forall>x \<in> set (ac_lruHeap c). ac_entries c (lod_key (obj c x)) = Some x) \<and>
     (\<forall>k x. ac_entries c k = Some x \<longrightarrow> x \<in> set (ac_lruHeap c) \<and> lod_key (obj c x) = k) \<and>
     ac_usedBytes c = wrap_int (\<Sum>x \<in> set (ac_lruHeap c). ce_sizeBytes (obj c x)) \<and>
     ac_gpuUsed c = wrap_int (\<Sum>x \<in> set (ac_lruHeap c). ce_gpuBytes (obj c x))"

lemma cache_okD:
  assumes "cache_ok c"
  shows "lru_heap c" "x \<in> set (ac_lruHeap c) \<Longrightarrow> ac_entries c (lod_key (obj c x)) = Some x"
    "ac_entries c k = Some x \<Longrightarrow> x \<in> set (ac_lruHeap c)" "ac_entries c k = Some x \<Longrightarrow> lod_key (obj c x) = k"
    "ac_usedBytes c = wrap_int (\<Sum>x \<in> set (ac_lruHeap c). ce_sizeBytes (obj c x))"
    "ac_gpuUsed c = wrap_int (\<Sum>x \<in> set (ac_lruHeap c). ce_gpuBytes (obj c x))"
    "x \<in> set (ac_lruHeap c) \<Longrightarrow> x < length (ac_objects c)"
proof -
  show "x \<in> set (ac_lruHeap c) \<Longrightarrow> x < length (ac_objects c)" using assms heap_bound [of c x] unfolding cache_ok_def by blast
qed (use assms in \<open>unfold cache_ok_def, blast+\<close>)

lemma cache_ok_ran: "cache_ok c \<Longrightarrow> ran (ac_entries c) = set (ac_lruHeap c)"
  unfolding ran_def cache_ok_def by blast

text \<open>A state that differs only in the order of the heap, or in what does not matter here.\<close>

lemma cache_ok_cong:
  assumes "cache_ok c" "lru_heap c'" "bare c' = bare c" "set (ac_lruHeap c') = set (ac_lruHeap c)" "ac_entries c' = ac_entries c"
    "ac_usedBytes c' = ac_usedBytes c" "ac_gpuUsed c' = ac_gpuUsed c"
  shows "cache_ok c'"
proof -
  have f: "lod_key (obj c' x) = lod_key (obj c x)" "ce_sizeBytes (obj c' x) = ce_sizeBytes (obj c x)" "ce_gpuBytes (obj c' x) = ce_gpuBytes (obj c x)"
    if "x \<in> set (ac_lruHeap c)" for x
    using bare_obj_fields [OF assms(3)] cache_okD(7) [OF assms(1) that] by simp_all
  show ?thesis
    unfolding cache_ok_def assms(4-7)
    using assms(1,2) f cache_okD [OF assms(1)] by (auto simp: cong: sum.cong)
qed

lemma ClearLOD_refs: "map_option LODRefCounts (r_entries (ClearLOD a l r) b) = map_option LODRefCounts (r_entries r b)"
  by (simp add: ClearLOD_def Let_def split: option.splits)

lemma evict_victim_fields [simp]:
  "bare (evict_victim x c) = bare c" "ac_objects (evict_victim x c) = ac_objects c" "ac_gpuBudget (evict_victim x c) = ac_gpuBudget c"
  "ac_entries (evict_victim x c) = (ac_entries c)(lod_key (obj c x) := None)"
  "ac_usedBytes (evict_victim x c) = wrap_int (ac_usedBytes c - ce_sizeBytes (obj c x))"
  "ac_gpuUsed (evict_victim x c) = wrap_int (ac_gpuUsed c - ce_gpuBytes (obj c x))"
  "refs_of (ac_registry (evict_victim x c)) = refs_of (ac_registry c)"
  by (auto simp: evict_victim_def FreeTexture_def bare_def Let_def refs_of_def fun_eq_iff ClearLOD_refs split: option.splits bind_splits)

lemma evict_victim_lru: "lru_heap (evict_victim x c) = lru_heap c"
proof -
  have "lru_key (evict_victim x c) = lru_key c" by (rule ext) (simp add: lru_key_def)
  then show ?thesis by (simp add: lru_heap_def lru_ok_def)
qed

lemma evict_step:
  assumes "cache_ok c" "popMinEvictable c = (Some x, c1)"
  defines "d \<equiv> evict_victim x c1"
  shows "cache_ok d" "bare d = bare c" "set (ac_lruHeap d) = set (ac_lruHeap c) - {x}" "refs_of (ac_registry d) = refs_of (ac_registry c)"
    "x \<in> set (ac_lruHeap c)" "\<not> pinned c x" "y \<in> set (ac_lruHeap c) \<Longrightarrow> \<not> pinned c y \<Longrightarrow> lru_key c x \<le> lru_key c y"
    "ac_gpuBudget d = ac_gpuBudget c"
proof -
  have P: "lru_heap c1 \<and> cache_data c1 = cache_data c \<and>
    (case Some x of
       None \<Rightarrow> set (ac_lruHeap c1) = set [] \<union> set (ac_lruHeap c) \<and> (\<forall>y \<in> set (ac_lruHeap c). pinned c y)
     | Some x \<Rightarrow> x \<in> set (ac_lruHeap c) \<and> \<not> pinned c x \<and> set (ac_lruHeap c1) = set [] \<union> (set (ac_lruHeap c) - {x}) \<and>
         (\<forall>y \<in> set (ac_lruHeap c). \<not> pinned c y \<longrightarrow> lru_key c x \<le> lru_key c y))"
    by (rule pop_loop_spec) (use cache_okD(1) [OF assms(1)] assms(2) in \<open>auto simp: popMinEvictable_def\<close>)
  then show x: "x \<in> set (ac_lruHeap c)" "\<not> pinned c x" and "y \<in> set (ac_lruHeap c) \<Longrightarrow> \<not> pinned c y \<Longrightarrow> lru_key c x \<le> lru_key c y" by auto
  have dat: "cache_data c1 = cache_data c" using P by simp
  note df = data_fields [OF dat]
  show b: "bare d = bare c" using data_bare [OF dat] by (simp add: d_def)
  show h: "set (ac_lruHeap d) = set (ac_lruHeap c) - {x}" using P by (simp add: d_def)
  show "refs_of (ac_registry d) = refs_of (ac_registry c)" "ac_gpuBudget d = ac_gpuBudget c" using df by (simp_all add: d_def)
  have f: "lod_key (obj d z) = lod_key (obj c z)" "ce_sizeBytes (obj d z) = ce_sizeBytes (obj c z)" "ce_gpuBytes (obj d z) = ce_gpuBytes (obj c z)"
    if "z \<in> set (ac_lruHeap c)" for z
    using bare_obj_fields [OF b] cache_okD(7) [OF assms(1) that] by simp_all
  have fx: "lod_key (obj c1 x) = lod_key (obj c x)" "ce_sizeBytes (obj c1 x) = ce_sizeBytes (obj c x)" "ce_gpuBytes (obj c1 x) = ce_gpuBytes (obj c x)"
    using f [OF x(1)] by (simp_all add: d_def)
  have sums: "wrap_int (\<Sum>z \<in> set (ac_lruHeap d). g (obj d z)) = wrap_int ((\<Sum>z \<in> set (ac_lruHeap c). g (obj c z)) - g (obj c x))"
    if "\<And>z. z \<in> set (ac_lruHeap c) \<Longrightarrow> g (obj d z) = g (obj c z)" for g
  proof -
    have "(\<Sum>z \<in> set (ac_lruHeap d). g (obj d z)) = (\<Sum>z \<in> set (ac_lruHeap c) - {x}. g (obj c z))"
      unfolding h by (rule sum.cong) (use that in auto)
    then show ?thesis using x(1) by (simp add: sum_diff1)
  qed
  have lh: "lru_heap d" using P by (simp add: d_def evict_victim_lru)
  have ent: "ac_entries d = (ac_entries c)(lod_key (obj c x) := None)" using df(8) fx by (simp add: d_def)
  have used: "ac_usedBytes d = wrap_int (\<Sum>z \<in> set (ac_lruHeap d). ce_sizeBytes (obj d z))"
    using sums [of ce_sizeBytes] f(2) df(5) fx cache_okD(5) [OF assms(1)] by (simp add: d_def)
  have gpu: "ac_gpuUsed d = wrap_int (\<Sum>z \<in> set (ac_lruHeap d). ce_gpuBytes (obj d z))"
    using sums [of ce_gpuBytes] f(3) df(7) fx cache_okD(6) [OF assms(1)] by (simp add: d_def)
  have other: "lod_key (obj c z) \<noteq> lod_key (obj c x)" if "z \<in> set (ac_lruHeap c)" "z \<noteq> x" for z
    using that cache_okD(2) [OF assms(1)] x(1) by (metis option.inject)
  show "cache_ok d"
    unfolding cache_ok_def ent
    using lh used gpu h f other cache_okD(2-4) [OF assms(1)] by auto
qed

lemma pop_none:
  assumes "cache_ok c" "popMinEvictable c = (None, c1)"
  shows "cache_ok c1" "bare c1 = bare c" "set (ac_lruHeap c1) = set (ac_lruHeap c)" "y \<in> set (ac_lruHeap c) \<Longrightarrow> pinned c y"
    "refs_of (ac_registry c1) = refs_of (ac_registry c)"
proof -
  have P: "lru_heap c1 \<and> cache_data c1 = cache_data c \<and>
    (case None of
       None \<Rightarrow> set (ac_lruHeap c1) = set [] \<union> set (ac_lruHeap c) \<and> (\<forall>y \<in> set (ac_lruHeap c). pinned c y)
     | Some x \<Rightarrow> x \<in> set (ac_lruHeap c) \<and> \<not> pinned c x \<and> set (ac_lruHeap c1) = set [] \<union> (set (ac_lruHeap c) - {x}) \<and>
         (\<forall>y \<in> set (ac_lruHeap c). \<not> pinned c y \<longrightarrow> lru_key c x \<le> lru_key c y))"
    by (rule pop_loop_spec) (use cache_okD(1) [OF assms(1)] assms(2) in \<open>auto simp: popMinEvictable_def\<close>)
  then have dat: "cache_data c1 = cache_data c" by simp
  note df = data_fields [OF dat]
  show "bare c1 = bare c" by (rule data_bare [OF dat])
  show "set (ac_lruHeap c1) = set (ac_lruHeap c)" "y \<in> set (ac_lruHeap c) \<Longrightarrow> pinned c y" using P by simp_all
  show "refs_of (ac_registry c1) = refs_of (ac_registry c)" using df(2) by simp
  show "cache_ok c1" by (rule cache_ok_cong [OF assms(1)]) (use P df data_bare [OF dat] in simp_all)
qed

text \<open>The eviction loop: what it removes, what it keeps, and when it stops.\<close>

definition evicted :: "('d, 'h) assetCache \<Rightarrow> ('d, 'h) assetCache \<Rightarrow> nat set" where
  "evicted c c' = set (ac_lruHeap c) - set (ac_lruHeap c')"

lemma evict_until_spec:
  assumes "cache_ok c" "evict_until tb tg n c = (m, c')"
  shows "cache_ok c' \<and> bare c' = bare c \<and> refs_of (ac_registry c') = refs_of (ac_registry c) \<and> set (ac_lruHeap c') \<subseteq> set (ac_lruHeap c) \<and>
    m = n + int (card (evicted c c')) \<and> (\<forall>x \<in> evicted c c'. \<not> pinned c x) \<and>
    (\<forall>x \<in> evicted c c'. \<forall>y \<in> set (ac_lruHeap c'). \<not> pinned c y \<longrightarrow> lru_key c x \<le> lru_key c y) \<and>
    (over_target tb tg c' \<longrightarrow> (\<forall>y \<in> set (ac_lruHeap c'). pinned c y))"
  using assms
proof (induction tb tg n c rule: evict_until.induct)
  case (1 tb tg n c)
  show ?case
  proof (cases "over_target tb tg c")
    case False
    then have "m = n" "c' = c" using 1(3) by (subst (asm) evict_until.simps, simp)+
    then show ?thesis using 1(2) False by (simp add: evicted_def)
  next
    case over: True
    obtain r c1 where p: "popMinEvictable c = (r, c1)" by fastforce
    show ?thesis
    proof (cases r)
      case None
      then have e: "m = n" "c' = c1" using 1(3) over p by (subst (asm) evict_until.simps, simp)+
      show ?thesis using pop_none [OF 1(2) p [unfolded None]] by (simp add: e evicted_def)
    next
      case (Some x)
      let ?d = "evict_victim x c1"
      note E = evict_step [OF 1(2) p [unfolded Some]]
      have rec: "evict_until tb tg (n + 1) ?d = (m, c')" using 1(3) over p Some by (subst (asm) evict_until.simps) simp
      note IH = 1(1) [OF over p [symmetric] Some E(1) rec]
      have sub: "set (ac_lruHeap c') \<subseteq> set (ac_lruHeap c) - {x}" using IH E(3) by auto
      have ev: "evicted c c' = insert x (evicted ?d c')" using sub E(3,5) by (auto simp: evicted_def)
      have nx: "x \<notin> evicted ?d c'" using E(3) by (simp add: evicted_def)
      have in_c: "y \<in> set (ac_lruHeap c)" if "y \<in> evicted ?d c' \<or> y \<in> set (ac_lruHeap c')" for y using that E(3) sub by (auto simp: evicted_def)
      have pin: "pinned ?d y = pinned c y" if "y \<in> set (ac_lruHeap c)" for y
        using bare_refCount [OF E(2,4) cache_okD(7) [OF 1(2) that]] by (simp add: pinned_def)
      have key: "lru_key ?d y = lru_key c y" if "y \<in> set (ac_lruHeap c)" for y
        by (rule bare_obj_fields(6) [OF E(2) cache_okD(7) [OF 1(2) that]])
      have card: "card (evicted c c') = Suc (card (evicted ?d c'))"
        unfolding ev using nx by (subst card_insert_disjoint) (simp_all add: evicted_def)
      show ?thesis
        using IH E(2,4) sub card ev pin key in_c E(6,7) by (auto simp: subset_iff)
    qed
  qed
qed

section \<open>Every operation keeps the accounts\<close>

lemma lru_heap_cong:
  assumes "lru_heap c" "ac_lruHeap c' = ac_lruHeap c" "length (ac_objects c) \<le> length (ac_objects c')" "\<And>x. x \<in> set (ac_lruHeap c) \<Longrightarrow>
    ce_index (obj c' x) = ce_index (obj c x) \<and> ce_assetID (obj c' x) = ce_assetID (obj c x) \<and> lru_key c' x = lru_key c x"
  shows "lru_heap c'"
proof -
  have k: "map (lru_key c') (ac_lruHeap c) = map (lru_key c) (ac_lruHeap c)" using assms(4) by simp
  show ?thesis using assms(1,3,4) unfolding lru_heap_def lru_ok_def assms(2) k by (auto intro: order.strict_trans2)
qed

lemma cache_ok_registry: "cache_ok c \<Longrightarrow> cache_ok (c\<lparr>ac_registry := r\<rparr>)"
  by (rule cache_ok_cong) (auto simp: bare_def intro: lru_heap_cong cache_okD(1) simp: lru_key_def)

lemma cache_ok_trackLOD_new:
  assumes "cache_ok c" "length a = 16" "ac_entries c (a, lod) = None"
  shows "cache_ok (trackLOD a lod sz gb tex lu c)"
proof -
  let ?x = "length (ac_objects c)" and ?H = "set (ac_lruHeap c)"
  let ?e = "\<lparr>ce_assetID = a, ce_lod = lod, ce_lastUse = lu, ce_sizeBytes = sz, ce_gpuBytes = gb, ce_textureID = tex, ce_index = 0\<rparr>"
  define c1 where "c1 = c\<lparr>ac_objects := ac_objects c @ [?e], ac_entries := (ac_entries c)((a, lod) \<mapsto> ?x),
     ac_usedBytes := wrap_int (ac_usedBytes c + sz), ac_gpuUsed := wrap_int (ac_gpuUsed c + gb)\<rparr>"
  have o: "obj c1 y = (if y = ?x then ?e else obj c y)" if "y \<le> ?x" for y using that by (auto simp: c1_def nth_append)
  have lt: "y < ?x" if "y \<in> ?H" for y using cache_okD(7) [OF assms(1) that] .
  have h1: "lru_heap c1"
    by (rule lru_heap_cong [OF cache_okD(1) [OF assms(1)]]) (use lt o in \<open>auto simp: c1_def lru_key_def nth_append\<close>)
  let ?p = "push_entry_heap ?x c1"
  have P: "lru_heap ?p \<and> set (ac_lruHeap ?p) = insert ?x (set (ac_lruHeap c1)) \<and> cache_data ?p = cache_data c1"
    by (rule push_spec [OF h1]) (use lt assms(2) o [of ?x] in \<open>auto simp: c1_def\<close>)
  have dat: "cache_data ?p = cache_data c1" using P by simp
  have H: "set (ac_lruHeap ?p) = insert ?x ?H" using P by (simp add: c1_def)
  have xn: "?x \<notin> ?H" using lt by auto
  have f: "lod_key (obj ?p y) = (if y = ?x then (a, lod) else lod_key (obj c y))" "ce_sizeBytes (obj ?p y) = (if y = ?x then sz else ce_sizeBytes (obj c y))"
    "ce_gpuBytes (obj ?p y) = (if y = ?x then gb else ce_gpuBytes (obj c y))" if "y \<in> insert ?x ?H" for y
  proof -
    have y: "y \<le> ?x" using that lt by (auto simp: less_imp_le)
    then have "y < length (ac_objects c1)" by (simp add: c1_def)
    from data_obj_fields [OF dat this] show
      "lod_key (obj ?p y) = (if y = ?x then (a, lod) else lod_key (obj c y))" "ce_sizeBytes (obj ?p y) = (if y = ?x then sz else ce_sizeBytes (obj c y))"
      "ce_gpuBytes (obj ?p y) = (if y = ?x then gb else ce_gpuBytes (obj c y))" by (simp_all add: o [OF y] lod_key_def)
  qed
  have sums: "(\<Sum>y \<in> insert ?x ?H. g (obj ?p y)) = (\<Sum>y \<in> ?H. g (obj c y)) + v"
    if "\<And>y. y \<in> insert ?x ?H \<Longrightarrow> g (obj ?p y) = (if y = ?x then v else g (obj c y))" for g and v :: int
  proof -
    have "(\<Sum>y \<in> insert ?x ?H. g (obj ?p y)) = g (obj ?p ?x) + (\<Sum>y \<in> ?H. g (obj ?p y))" using xn by (subst sum.insert) auto
    also have "(\<Sum>y \<in> ?H. g (obj ?p y)) = (\<Sum>y \<in> ?H. g (obj c y))" by (rule sum.cong) (use that xn in auto)
    finally show ?thesis using that by simp
  qed
  have nk: "lod_key (obj c y) \<noteq> (a, lod)" if "y \<in> ?H" for y using cache_okD(2) [OF assms(1) that] assms(3) by auto
  have ent: "ac_entries ?p = (ac_entries c)((a, lod) \<mapsto> ?x)" using data_fields(8) [OF dat] by (simp add: c1_def)
  have tot: "ac_usedBytes ?p = wrap_int (ac_usedBytes c + sz)" "ac_gpuUsed ?p = wrap_int (ac_gpuUsed c + gb)"
    using data_fields(5,7) [OF dat] by (simp_all add: c1_def)
  have "cache_ok ?p"
    unfolding cache_ok_def ent H
  proof (intro conjI)
    show "ac_usedBytes ?p = wrap_int (\<Sum>y \<in> insert ?x ?H. ce_sizeBytes (obj ?p y))"
      using sums [of ce_sizeBytes sz, OF f(2)] by (simp add: tot cache_okD(5) [OF assms(1)])
    show "ac_gpuUsed ?p = wrap_int (\<Sum>y \<in> insert ?x ?H. ce_gpuBytes (obj ?p y))"
      using sums [of ce_gpuBytes gb, OF f(3)] by (simp add: tot cache_okD(6) [OF assms(1)])
    show "\<forall>k y. ((ac_entries c)((a, lod) \<mapsto> ?x)) k = Some y \<longrightarrow> y \<in> insert ?x ?H \<and> lod_key (obj ?p y) = k"
      using f(1) cache_okD(3,4) [OF assms(1)] xn by (auto split: if_splits)
    show "\<forall>y \<in> insert ?x ?H. ((ac_entries c)((a, lod) \<mapsto> ?x)) (lod_key (obj ?p y)) = Some y"
      using f(1) cache_okD(2) [OF assms(1)] xn nk by auto
  qed (use P in simp)
  then have "cache_ok (note_size a lod sz lu ?p)"
    by (auto simp: note_size_def Let_def cache_ok_registry split: option.splits prod.splits)
  then show ?thesis using assms(3) by (simp add: trackLOD_def Let_def c1_def)
qed

lemma cache_ok_trackLOD_old:
  assumes "cache_ok c" "length a = 16" "ac_entries c (a, lod) = Some x"
  shows "cache_ok (trackLOD a lod sz gb tex lu c)"
proof -
  let ?H = "set (ac_lruHeap c)" and ?o = "obj c x"
  let ?e = "?o\<lparr>ce_lastUse := lu, ce_sizeBytes := sz, ce_gpuBytes := gb, ce_textureID := tex\<rparr>"
  define c1 where "c1 = c\<lparr>ac_usedBytes := wrap_int (wrap_int (ac_usedBytes c - ce_sizeBytes ?o) + sz),
     ac_gpuUsed := wrap_int (wrap_int (ac_gpuUsed c - ce_gpuBytes ?o) + gb)\<rparr>"
  have x: "x \<in> ?H" "lod_key ?o = (a, lod)" using cache_okD(3,4) [OF assms(1) assms(3)] by auto
  have xl: "x < length (ac_objects c)" by (rule cache_okD(7) [OF assms(1) x(1)])
  have h1: "lru_heap c1" by (rule lru_heap_cong [OF cache_okD(1) [OF assms(1)]]) (auto simp: c1_def lru_key_def)
  let ?d = "set_obj x ?e c1"
  let ?p = "fix_entry_heap (ce_index ?o) ?d"
  have "lru_heap ?p \<and> set (ac_lruHeap ?p) = set (ac_lruHeap c1) \<and> cache_data ?p = cache_data ?d"
    using fix_spec [OF h1, of x ?e] x assms(2) by (simp add: c1_def lod_key_def)
  then have lh: "lru_heap ?p" and H: "set (ac_lruHeap ?p) = ?H" and dat: "cache_data ?p = cache_data ?d" by (simp_all add: c1_def)
  have f: "lod_key (obj ?p y) = lod_key (obj c y)" "ce_sizeBytes (obj ?p y) = (if y = x then sz else ce_sizeBytes (obj c y))"
    "ce_gpuBytes (obj ?p y) = (if y = x then gb else ce_gpuBytes (obj c y))" if "y \<in> ?H" for y
  proof -
    have y: "y < length (ac_objects c1)" using cache_okD(7) [OF assms(1) that] by (simp add: c1_def)
    then have "y < length (ac_objects ?d)" by simp
    from data_obj_fields [OF dat this] show "lod_key (obj ?p y) = lod_key (obj c y)"
      "ce_sizeBytes (obj ?p y) = (if y = x then sz else ce_sizeBytes (obj c y))" "ce_gpuBytes (obj ?p y) = (if y = x then gb else ce_gpuBytes (obj c y))"
      by (simp_all add: obj_set_obj [OF y] lod_key_def) (simp_all add: c1_def)
  qed
  have sums: "(\<Sum>y \<in> ?H. g (obj ?p y)) = (\<Sum>y \<in> ?H. g (obj c y)) - g ?o + v"
    if "\<And>y. y \<in> ?H \<Longrightarrow> g (obj ?p y) = (if y = x then v else g (obj c y))" for g and v :: int
  proof -
    have "(\<Sum>y \<in> ?H. g (obj ?p y)) = g (obj ?p x) + (\<Sum>y \<in> ?H - {x}. g (obj ?p y))" using x(1) by (intro sum.remove) auto
    also have "(\<Sum>y \<in> ?H - {x}. g (obj ?p y)) = (\<Sum>y \<in> ?H - {x}. g (obj c y))" by (rule sum.cong) (use that in auto)
    finally show ?thesis using that x(1) by (simp add: sum_diff1)
  qed
  have ent: "ac_entries ?p = ac_entries c" using data_fields(8) [OF dat] by (simp add: set_obj_def c1_def)
  have tot: "ac_usedBytes ?p = wrap_int (wrap_int (ac_usedBytes c - ce_sizeBytes ?o) + sz)" "ac_gpuUsed ?p = wrap_int (wrap_int (ac_gpuUsed c - ce_gpuBytes ?o) + gb)"
    using data_fields(5,7) [OF dat] by (simp_all add: set_obj_def c1_def)
  have "cache_ok ?p"
    unfolding cache_ok_def ent H
  proof (intro conjI)
    show "ac_usedBytes ?p = wrap_int (\<Sum>y \<in> ?H. ce_sizeBytes (obj ?p y))"
      using sums [of ce_sizeBytes sz, OF f(2)] by (simp add: tot cache_okD(5) [OF assms(1)])
    show "ac_gpuUsed ?p = wrap_int (\<Sum>y \<in> ?H. ce_gpuBytes (obj ?p y))"
      using sums [of ce_gpuBytes gb, OF f(3)] by (simp add: tot cache_okD(6) [OF assms(1)])
    show "\<forall>k y. ac_entries c k = Some y \<longrightarrow> y \<in> ?H \<and> lod_key (obj ?p y) = k"
      using f(1) cache_okD(3,4) [OF assms(1)] by auto
    show "\<forall>y \<in> ?H. ac_entries c (lod_key (obj ?p y)) = Some y" using f(1) cache_okD(2) [OF assms(1)] by auto
  qed (rule lh)
  then have "cache_ok (note_size a lod sz lu ?p)"
    by (auto simp: note_size_def Let_def cache_ok_registry split: option.splits prod.splits)
  then show ?thesis using assms(3) by (simp add: trackLOD_def Let_def c1_def)
qed

lemma FreeTexture_fields [simp]:
  "ac_lruHeap (FreeTexture t c) = ac_lruHeap c" "ac_objects (FreeTexture t c) = ac_objects c" "ac_entries (FreeTexture t c) = ac_entries c"
  "ac_usedBytes (FreeTexture t c) = ac_usedBytes c" "ac_gpuUsed (FreeTexture t c) = ac_gpuUsed c"
  by (simp_all add: FreeTexture_def split: option.splits)

lemma cache_ok_other:
  assumes "cache_ok c" "ac_lruHeap c' = ac_lruHeap c" "ac_objects c' = ac_objects c" "ac_entries c' = ac_entries c"
    "ac_usedBytes c' = ac_usedBytes c" "ac_gpuUsed c' = ac_gpuUsed c"
  shows "cache_ok c'"
  by (rule cache_ok_cong [OF assms(1) lru_heap_cong [OF cache_okD(1) [OF assms(1)] assms(2)]])
    (simp_all add: assms bare_def lru_key_def)

lemma drop_gpu_obj:
  assumes "x < length (ac_objects c)"
  shows "obj (drop_gpu x c) y = (if y = x then (obj c x)\<lparr>ce_gpuBytes := 0, ce_textureID := 0\<rparr> else obj c y)"
  using assms by (simp add: drop_gpu_def Let_def set_obj_def nth_list_update)

lemma drop_gpu_fields [simp]:
  "ac_lruHeap (drop_gpu x c) = ac_lruHeap c" "length (ac_objects (drop_gpu x c)) = length (ac_objects c)" "ac_entries (drop_gpu x c) = ac_entries c"
  "ac_usedBytes (drop_gpu x c) = ac_usedBytes c" "ac_gpuUsed (drop_gpu x c) = wrap_int (ac_gpuUsed c - ce_gpuBytes (obj c x))"
  by (simp_all add: drop_gpu_def Let_def set_obj_def)

lemma cache_ok_drop_gpu:
  assumes "cache_ok c" "x \<in> set (ac_lruHeap c)"
  shows "cache_ok (drop_gpu x c)"
proof -
  let ?H = "set (ac_lruHeap c)" and ?d = "drop_gpu x c"
  note o = drop_gpu_obj [OF cache_okD(7) [OF assms]]
  have k: "lod_key (obj ?d y) = lod_key (obj c y)" "ce_sizeBytes (obj ?d y) = ce_sizeBytes (obj c y)" for y by (simp_all add: o lod_key_def)
  have lh: "lru_heap ?d" by (rule lru_heap_cong [OF cache_okD(1) [OF assms(1)]]) (auto simp: o lru_key_def)
  have "(\<Sum>y \<in> ?H. ce_gpuBytes (obj ?d y)) = (\<Sum>y \<in> ?H - {x}. ce_gpuBytes (obj ?d y))"
    using sum.remove [OF _ assms(2), of "\<lambda>y. ce_gpuBytes (obj ?d y)"] by (simp add: o)
  also have "\<dots> = (\<Sum>y \<in> ?H - {x}. ce_gpuBytes (obj c y))" by (rule sum.cong) (auto simp: o)
  finally have g: "(\<Sum>y \<in> ?H. ce_gpuBytes (obj ?d y)) = (\<Sum>y \<in> ?H. ce_gpuBytes (obj c y)) - ce_gpuBytes (obj c x)"
    using assms(2) by (simp add: sum_diff1)
  show ?thesis
    unfolding cache_ok_def drop_gpu_fields k g
    using assms(1) lh by (simp add: cache_ok_def)
qed

lemma cache_ok_evict_gpu:
  assumes "cache_ok c" "set xs \<subseteq> set (ac_lruHeap c)" "evict_gpu tg xs n c = (m, c')"
  shows "cache_ok c'"
  using assms
proof (induction tg xs n c arbitrary: m c' rule: evict_gpu.induct)
  case (2 tg x xs n c)
  let ?d = "drop_gpu x c"
  let ?c = "?d\<lparr>ac_registry := map_option (clear_gpu (ce_assetID (obj c x)) (ce_lod (obj c x))) (ac_registry ?d),
               ac_evictionsThisFrame := wrap_int (ac_evictionsThisFrame ?d + 1)\<rparr>"
  have "cache_ok ?c" by (rule cache_ok_other [OF cache_ok_drop_gpu [OF 2(3)], of x]) (use 2(4) in auto)
  then show ?case using 2 by (auto simp: Let_def split: if_splits)
qed simp

lemma set_map_filter: "set (List.map_filter f xs) = {y. \<exists>x \<in> set xs. f x = Some y}"
  by (induction xs) (auto simp: List.map_filter_def)

lemma cache_ok_EvictGPU:
  assumes "cache_ok c" "EvictGPUToWatermark share order c = (m, c')"
  shows "cache_ok c'"
proof -
  have sub: "set (sort_key (\<lambda>x. ce_lastUse (obj c x)) (filter (\<lambda>x. gpu_resident (obj c x)) (List.map_filter (ac_entries c) order))) \<subseteq> set (ac_lruHeap c)"
    using cache_okD(3) [OF assms(1)] by (auto simp: set_map_filter)
  show ?thesis
    using assms cache_ok_evict_gpu [OF assms(1) sub] by (auto simp: EvictGPUToWatermark_def Let_def split: if_splits)
qed

text \<open>Every level on the GPU has its decoded data counted as well.\<close>

definition no_gpu_only :: "('d, 'h) assetCache \<Rightarrow> bool" where
  "no_gpu_only c \<longleftrightarrow> (\<forall>x \<in> set (ac_lruHeap c). gpu_resident (obj c x) \<longrightarrow> ce_sizeBytes (obj c x) > 0)"

lemma lose_device_ok:
  assumes "cache_ok c" "no_gpu_only c"
  shows "cache_ok (lose_device k c) \<and> no_gpu_only (lose_device k c)"
proof (cases "ac_entries c k")
  case (Some x)
  let ?d = "drop_gpu x c"
  have x: "x \<in> set (ac_lruHeap c)" by (rule cache_okD(3) [OF assms(1) Some])
  note o = drop_gpu_obj [OF cache_okD(7) [OF assms(1) x]]
  show ?thesis
  proof (cases "gpu_resident (obj c x)")
    case True
    let ?c = "?d\<lparr>ac_registry := map_option (clear_gpu (ce_assetID (obj c x)) (ce_lod (obj c x))) (ac_registry ?d),
               ac_evictionsThisFrame := wrap_int (ac_evictionsThisFrame ?d + 1)\<rparr>"
    have l: "lose_device k c = ?c" using True Some assms(2) x by (simp add: lose_device_def Let_def no_gpu_only_def)
    have "cache_ok ?c" by (rule cache_ok_other [OF cache_ok_drop_gpu [OF assms(1) x]]) auto
    moreover have "no_gpu_only ?c" using assms(2) by (auto simp: no_gpu_only_def o gpu_resident_def)
    ultimately show ?thesis unfolding l by blast
  qed (use assms Some in \<open>simp add: lose_device_def Let_def\<close>)
qed (use assms in \<open>simp add: lose_device_def\<close>)

lemma cache_ok_CheckDevice:
  assumes "cache_ok c" "no_gpu_only c" "CheckDeviceGeneration g order c = (b, c')"
  shows "cache_ok c'"
proof -
  have F: "cache_ok d \<Longrightarrow> no_gpu_only d \<Longrightarrow> cache_ok (fold lose_device order d) \<and> no_gpu_only (fold lose_device order d)" for d :: "('a, 'b) assetCache"
    by (induction order arbitrary: d) (simp_all add: lose_device_ok)
  have "cache_ok (c\<lparr>ac_deviceGeneration := g\<rparr>)" by (rule cache_ok_other [OF assms(1)]) auto
  moreover have "no_gpu_only (c\<lparr>ac_deviceGeneration := g\<rparr>)" using assms(2) by (simp add: no_gpu_only_def)
  ultimately show ?thesis using F assms by (auto simp: CheckDeviceGeneration_def split: if_splits)
qed

lemma cache_ok_new: "cache_ok (newAssetCache r b budget gpu)"
  by (simp add: cache_ok_def newAssetCache_def lru_heap_def lru_ok_def heap_ordered_def wrap_int_def)

text \<open>
  Runs of a cache. The registry and the backend belong to others and may change in between; a
  device loss comes when every level on the GPU has decoded data.
\<close>

inductive cache_step :: "('d, 'h) assetCache \<Rightarrow> ('d, 'h) assetCache \<Rightarrow> bool" where
  track_step: "length a = 16 \<Longrightarrow> cache_step c (trackLOD a lod sz gb tex lu c)"
| evict_step: "cache_step c (evictIfNeeded c)"
| watermark_step: "EvictToWatermark share c = (m, c') \<Longrightarrow> cache_step c c'"
| gpu_watermark_step: "EvictGPUToWatermark share order c = (m, c') \<Longrightarrow> cache_step c c'"
| device_step: "no_gpu_only c \<Longrightarrow> CheckDeviceGeneration g order c = (b, c') \<Longrightarrow> cache_step c c'"
| outside_step: "cache_step c (c\<lparr>ac_registry := r, ac_backend := bk\<rparr>)"

lemma cache_step_ok: "cache_step c c' \<Longrightarrow> cache_ok c \<Longrightarrow> cache_ok c'"
proof (induction rule: cache_step.induct)
  case (track_step a c lod sz gb tex lu)
  then show ?case by (cases "ac_entries c (a, lod)") (simp_all add: cache_ok_trackLOD_new cache_ok_trackLOD_old)
next
  case (evict_step c)
  obtain m c' where "evict_until (ac_budgetBytes c) (ac_gpuBudget c) 0 c = (m, c')" by fastforce
  then show ?case using evict_until_spec [OF evict_step] by (simp add: evictIfNeeded_def)
next
  case (watermark_step share c m c')
  then show ?case using evict_until_spec [OF watermark_step(2)] by (auto simp: EvictToWatermark_def split: if_splits)
next
  case (gpu_watermark_step share order c m c')
  then show ?case using cache_ok_EvictGPU by blast
next
  case (device_step c g order b c')
  then show ?case using cache_ok_CheckDevice by blast
next
  case (outside_step c r bk)
  show ?case by (rule cache_ok_other [OF outside_step]) auto
qed

lemma cache_run_ok: "cache_step\<^sup>*\<^sup>* c c' \<Longrightarrow> cache_ok c \<Longrightarrow> cache_ok c'"
  by (induction rule: rtranclp_induct) (auto dest: cache_step_ok)

section \<open>Properties\<close>

definition sample_cache :: "(nat, nat) assetCache" where
  "sample_cache = newAssetCache (Some sample_registry) (Some []) 100 0"

text \<open>Three levels of 40 bytes each under a budget of 100; the first asset has a subscriber.\<close>

definition sample_full :: "(nat, nat) assetCache" where
  "sample_full = trackLOD (sample_id 3) 0 40 0 3 30 (trackLOD (sample_id 2) 0 40 0 2 20 (trackLOD (sample_id 1) 0 40 0 1 10 sample_cache))"

lemma track_run: "cache_step\<^sup>*\<^sup>* c d \<Longrightarrow> length a = 16 \<Longrightarrow> cache_step\<^sup>*\<^sup>* c (trackLOD a lod sz gb tex lu d)"
  by (rule rtranclp.rtrancl_into_rtrancl) (auto intro: cache_step.track_step)

lemma sample_full_run: "cache_step\<^sup>*\<^sup>* sample_cache sample_full"
  unfolding sample_full_def by (intro track_run rtranclp.rtrancl_refl) simp_all

text \<open>
  C21: The cache's accounts are right in every run. The eviction heap holds exactly the entries of
  the map, each once and under its key, and the byte totals are the sums of the entries' sizes
  (in 64-bit arithmetic), whatever is tracked, retracked and evicted and in whatever order the
  map is iterated, provided a device is lost only while every level on the GPU has decoded data.
\<close>

theorem cache_accounts_right:
  assumes "cache_step\<^sup>*\<^sup>* (newAssetCache r b budget gpu) c"
  shows "distinct (ac_lruHeap c) \<and> set (ac_lruHeap c) = ran (ac_entries c) \<and>
    (\<forall>k x. ac_entries c k = Some x \<longrightarrow> lod_key (obj c x) = k) \<and>
    ac_usedBytes c = wrap_int (\<Sum>x \<in> ran (ac_entries c). ce_sizeBytes (obj c x)) \<and>
    ac_gpuUsed c = wrap_int (\<Sum>x \<in> ran (ac_entries c). ce_gpuBytes (obj c x))"
proof -
  have ok: "cache_ok c" by (rule cache_run_ok [OF assms cache_ok_new])
  have "distinct (ac_lruHeap c)" using cache_okD(1) [OF ok] by (simp add: lru_heap_def lru_ok_def)
  then show ?thesis unfolding cache_ok_ran [OF ok] using cache_okD(4,5,6) [OF ok] by blast
qed

theorem cache_accounts_right_witness:
  "ac_usedBytes sample_full = 120 \<and> ac_lruHeap sample_full = [0, 1, 2] \<and> {0, 1, 2} = ran (ac_entries sample_full)"
proof -
  have "ac_usedBytes sample_full = 120" "ac_lruHeap sample_full = [0, 1, 2]" by code_simp+
  then show ?thesis
    using cache_accounts_right [OF sample_full_run [unfolded sample_cache_def]] by auto
qed



definition sample_lost :: "(nat, nat) assetCache" where
  "sample_lost = snd (CheckDeviceGeneration 2 [(sample_id 2, 0)] (trackLOD (sample_id 2) 0 0 200 30 1 sample_cache))"

definition sample_again :: "(nat, nat) assetCache" where
  "sample_again = trackLOD (sample_id 3) 0 60 0 31 3 (trackLOD (sample_id 2) 0 60 0 32 5 sample_lost)"

text \<open>
  After a device loss the cache can evict the wrong level and lose count. An entry without
  decoded bytes is dropped from the map by \<open>CheckDeviceGeneration\<close> but stays in the eviction heap.
  When its level is tracked again and another level puts the cache over its budget, the stale
  entry is chosen first: the new entry of that level, the most recently used one, leaves the map
  and its data leaves the registry, no byte is given back, and the bytes of the vanished entry
  stay in the total although the map is empty.
\<close>

theorem device_loss_corrupts_eviction:
  "ac_lruHeap sample_lost = [0] \<and> ac_entries sample_lost (sample_id 2, 0) = None \<and>
   ac_usedBytes sample_again = 120 \<and> ac_entries sample_again (sample_id 2, 0) = Some 1 \<and>
   ac_entries (evictIfNeeded sample_again) (sample_id 2, 0) = None \<and> ac_entries (evictIfNeeded sample_again) (sample_id 3, 0) = None \<and>
   ac_usedBytes (evictIfNeeded sample_again) = 60 \<and> ac_backend (evictIfNeeded sample_again) = Some [30, 31]"
proof (intro conjI)
  show "ac_lruHeap sample_lost = [0]" by code_simp
  show "ac_entries sample_lost (sample_id 2, 0) = None" by code_simp
  show "ac_usedBytes sample_again = 120" by code_simp
  show "ac_entries sample_again (sample_id 2, 0) = Some 1" by code_simp
  show "ac_entries (evictIfNeeded sample_again) (sample_id 2, 0) = None" by code_simp
  show "ac_entries (evictIfNeeded sample_again) (sample_id 3, 0) = None" by code_simp
  show "ac_usedBytes (evictIfNeeded sample_again) = 60" by code_simp
  show "ac_backend (evictIfNeeded sample_again) = Some [30, 31]" by code_simp
qed

end
