(* ===== verification/Asset_Manager.thy ===== *)
theory Asset_Manager
  imports Asset_Cache Membudget
begin

text \<open>
  The asset manager: the runtime-thread part of \<^verbatim>\<open>src/assets/job.go\<close>, with \<^verbatim>\<open>deps.go\<close>, \<^verbatim>\<open>policy.go\<close> and the
  requests of \<^verbatim>\<open>upload.go\<close>. The registry is shared by the manager and its cache, so a cache operation
  runs on the manager's registry and writes it back. Jobs accepted by the scheduler are listed in
  order; whether it accepts one is an argument, as are the decoding that happens in the jobs and
  the answers of the upload queue.
\<close>

section \<open>Data\<close>

datatype ResidencyMode = ResidencyCPUOnly | ResidencyGPUResident | ResidencyAuto

datatype Residency = ResidencyCPU | ResidencyGPU

datatype 'i DecodedAsset =
    DecodedSVGLOD0 "u8 list"
  | DecodedSVGLOD1 'i
  | DecodedSVGLOD2 "32 word"
  | DecodedImageLOD "u8 list" int int
  | DecodedFontLOD "u8 list"
  | DecodedConfigLOD "u8 list"

record 'i AssetLoadJob =
  j_ID :: AssetID
  j_Path :: string
  j_Type :: AssetType
  j_LOD :: int
  j_EntryVersion :: u64
  j_Result :: "'i DecodedAsset option"
  j_Err :: "string option"
  j_ElapsedNs :: int

record ConfigNode =
  cn_ID :: AssetID
  cn_Path :: string
  cn_Deps :: "AssetID list"

record TextureUploadRequest =
  up_AssetID :: AssetID
  up_LOD :: int
  up_Pixels :: "u8 list"
  up_Width :: int
  up_Height :: int
  up_MipLevels :: int
  up_Format :: "32 word"

record TextureUploadResult =
  ur_AssetID :: AssetID
  ur_LOD :: int
  ur_TextureID :: TextureID
  ur_GPUBytes :: int
  ur_OK :: bool

record uploader =
  u_Budget :: int
  u_TargetFormat :: "32 word"
  u_requests :: "TextureUploadRequest list"

record ('i, 'h) ManagerImpl =
  m_registry :: "('i DecodedAsset, 'h) AssetRegistryStore"
  m_idReg :: "string \<Rightarrow> AssetID"
  m_residency :: ResidencyMode
  m_uploader :: "uploader option"
  m_scheduled :: "'i AssetLoadJob list"
  m_cache :: "('i DecodedAsset, 'h) assetCache option"
  m_depTree :: "(AssetID \<Rightarrow> ConfigNode option) option"
  m_wallet :: "nat option"
  m_ledger :: walletLedger
  m_reservations :: "AssetID \<Rightarrow> Reservation list"
  m_waiting :: "AssetID \<Rightarrow> AssetID list"
  m_uploadsThisFrame :: int

section \<open>Policy (policy.go)\<close>

definition GPUUploadEligible :: "AssetType \<Rightarrow> bool" where
  "GPUUploadEligible t \<longleftrightarrow> t = AssetTypeImage \<or> t = AssetTypeFont"

definition AssetResidency :: "AssetType \<Rightarrow> ResidencyMode \<Rightarrow> bool \<Rightarrow> Residency" where
  "AssetResidency t mode gpuCapable =
     (if \<not> gpuCapable \<or> \<not> GPUUploadEligible t then ResidencyCPU
      else if mode = ResidencyCPUOnly then ResidencyCPU else ResidencyGPU)"

fun maxLODForType :: "AssetType \<Rightarrow> int" where
  "maxLODForType AssetTypeSVG = 2"
| "maxLODForType AssetTypeImage = 2"
| "maxLODForType AssetTypeFont = 1"
| "maxLODForType AssetTypeConfig = 0"

fun estimateDecodedSize :: "AssetType \<Rightarrow> int" where
  "estimateDecodedSize AssetTypeImage = 4 * 1024 * 1024"
| "estimateDecodedSize AssetTypeSVG = 10 * 1024 * 1024"
| "estimateDecodedSize AssetTypeFont = 1 * 1024 * 1024"
| "estimateDecodedSize AssetTypeConfig = 64 * 1024"

section \<open>Scheduling\<close>

definition scheduleLOD :: "('i AssetLoadJob \<Rightarrow> bool) \<Rightarrow> AssetID \<Rightarrow> string \<Rightarrow> AssetType \<Rightarrow> int \<Rightarrow>
    ('i, 'h) ManagerImpl \<Rightarrow> ('i, 'h) ManagerImpl" where
  "scheduleLOD accept a path typ lod m =
     (let (e, r) = GetOrCreate a (m_registry m); m1 = m\<lparr>m_registry := r\<rparr> in
      if lod < 0 \<or> lod \<ge> int (length (LODHandles e)) then m1
      else if LODHandles e ! nat lod \<noteq> None \<or> LODInFlight e ! nat lod then m1
      else let e' = e\<lparr>LODInFlight := (LODInFlight e)[nat lod := True], re_Path := path, re_Type := typ,
                     re_State := (if re_State e = AssetStateAbsent then AssetStateLoading else re_State e)\<rparr>;
               j = \<lparr>j_ID = a, j_Path = path, j_Type = typ, j_LOD = lod, j_EntryVersion = EntryVersion e',
                    j_Result = None, j_Err = None, j_ElapsedNs = 0\<rparr>
           in m1\<lparr>m_registry := put_entry a e' r, m_scheduled := (if accept j then m_scheduled m1 @ [j] else m_scheduled m1)\<rparr>)"

definition lods_down :: "int \<Rightarrow> int list" where
  "lods_down n = rev [0 .. n]"

definition scheduleAllLODs :: "('i AssetLoadJob \<Rightarrow> bool) \<Rightarrow> AssetID \<Rightarrow> string \<Rightarrow> AssetType \<Rightarrow> ('i, 'h) ManagerImpl \<Rightarrow> ('i, 'h) ManagerImpl" where
  "scheduleAllLODs accept a path typ m = fold (scheduleLOD accept a path typ) (lods_down (maxLODForType typ)) m"

definition loadByPath :: "('i AssetLoadJob \<Rightarrow> bool) \<Rightarrow> string \<Rightarrow> AssetType \<Rightarrow> ('i, 'h) ManagerImpl \<Rightarrow> AssetID option \<times> ('i, 'h) ManagerImpl" where
  "loadByPath accept path typ m =
     (let a = m_idReg m path in
      if a = zero_id then (None, m) else (Some a, scheduleAllLODs accept a path typ m))"

definition enqueueWaiting :: "AssetID \<Rightarrow> AssetID \<Rightarrow> ('i, 'h) ManagerImpl \<Rightarrow> ('i, 'h) ManagerImpl" where
  "enqueueWaiting depID configID m =
     (if configID \<in> set (m_waiting m depID) then m
      else m\<lparr>m_waiting := (m_waiting m)(depID := m_waiting m depID @ [configID])\<rparr>)"

definition dep_missing :: "('i, 'h) ManagerImpl \<Rightarrow> AssetID \<Rightarrow> bool" where
  "dep_missing m dep = (case Get_entry dep (m_registry m) of None \<Rightarrow> True | Some e \<Rightarrow> LODHandles e ! 0 = None)"

definition scheduleConfig :: "('i AssetLoadJob \<Rightarrow> bool) \<Rightarrow> AssetID \<Rightarrow> string \<Rightarrow> ('i, 'h) ManagerImpl \<Rightarrow> ('i, 'h) ManagerImpl" where
  "scheduleConfig accept a path m =
     (case m_depTree m of
        None \<Rightarrow> m
      | Some tree \<Rightarrow>
          (case tree a of
             None \<Rightarrow> m
           | Some node \<Rightarrow>
               (case find (dep_missing m) (cn_Deps node) of
                  Some dep \<Rightarrow> enqueueWaiting dep a m
                | None \<Rightarrow> scheduleLOD accept a (if path = '''' then cn_Path node else path) AssetTypeConfig 0 m)))"

definition drainWaitingForLeaf :: "('i AssetLoadJob \<Rightarrow> bool) \<Rightarrow> AssetID \<Rightarrow> ('i, 'h) ManagerImpl \<Rightarrow> ('i, 'h) ManagerImpl" where
  "drainWaitingForLeaf accept ready m =
     (case m_depTree m of
        None \<Rightarrow> m
      | Some tree \<Rightarrow>
          let pending = m_waiting m ready; m1 = m\<lparr>m_waiting := (m_waiting m)(ready := [])\<rparr>
          in fold (\<lambda>c m. case tree c of None \<Rightarrow> m | Some node \<Rightarrow> scheduleConfig accept c (cn_Path node) m) pending m1)"

section \<open>Committing\<close>

fun image_data :: "'i DecodedAsset option \<Rightarrow> (u8 list \<times> int \<times> int) option" where
  "image_data (Some (DecodedImageLOD d w h)) = (if d \<noteq> [] then Some (d, w, h) else None)"
| "image_data _ = None"

definition gpu_capable :: "('i, 'h) ManagerImpl \<Rightarrow> bool" where
  "gpu_capable m \<longleftrightarrow> (case m_uploader m of None \<Rightarrow> False | Some u \<Rightarrow> u_Budget u > 0)"

definition upload_request :: "AssetID \<Rightarrow> int \<Rightarrow> u8 list \<times> int \<times> int \<Rightarrow> uploader \<Rightarrow> TextureUploadRequest" where
  "upload_request a lod img u =
     \<lparr>up_AssetID = a, up_LOD = lod, up_Pixels = fst img, up_Width = fst (snd img), up_Height = snd (snd img), up_MipLevels = 1,
      up_Format = u_TargetFormat u\<rparr>"

text \<open>Handing a request to the upload queue, which may refuse it.\<close>

definition enqueue_request :: "(TextureUploadRequest \<Rightarrow> bool) \<Rightarrow> TextureUploadRequest \<Rightarrow> uploader \<Rightarrow> ('i, 'h) ManagerImpl \<Rightarrow>
    bool \<times> ('i, 'h) ManagerImpl" where
  "enqueue_request admit req u m =
     (if admit req then (True, m\<lparr>m_uploader := Some (u\<lparr>u_requests := u_requests u @ [req]\<rparr>)\<rparr>) else (False, m))"

definition enqueueUpload :: "(TextureUploadRequest \<Rightarrow> bool) \<Rightarrow> 'i AssetLoadJob \<Rightarrow> ('i, 'h) ManagerImpl \<Rightarrow> ('i, 'h) ManagerImpl" where
  "enqueueUpload admit j m =
     (if \<not> gpu_capable m \<or> AssetResidency (j_Type j) (m_residency m) True \<noteq> ResidencyGPU then m
      else (case (image_data (j_Result j), m_uploader m) of
              (Some img, Some u) \<Rightarrow> snd (enqueue_request admit (upload_request (j_ID j) (j_LOD j) img u) u m)
            | _ \<Rightarrow> m))"

definition RequestUpload :: "(TextureUploadRequest \<Rightarrow> bool) \<Rightarrow> AssetID \<Rightarrow> int \<Rightarrow> ('i, 'h) ManagerImpl \<Rightarrow> bool \<times> ('i, 'h) ManagerImpl" where
  "RequestUpload admit a lod m =
     (if \<not> gpu_capable m then (False, m)
      else (case Get_entry a (m_registry m) of
              None \<Rightarrow> (False, m)
            | Some e \<Rightarrow>
                if AssetResidency (re_Type e) (m_residency m) True \<noteq> ResidencyGPU \<or> lod < 0 \<or> lod \<ge> int (length (LODHandles e)) \<or>
                   LODGPUReady e ! nat lod then (False, m)
                else (case (image_data (LODHandles e ! nat lod), m_uploader m) of
                        (Some img, Some u) \<Rightarrow> enqueue_request admit (upload_request a lod img u) u m
                      | _ \<Rightarrow> (False, m))))"

fun decoded_size :: "AssetType \<Rightarrow> 'i DecodedAsset option \<Rightarrow> int" where
  "decoded_size t None = 0"
| "decoded_size t (Some (DecodedImageLOD d w h)) = int (length d)"
| "decoded_size t (Some (DecodedFontLOD d)) = int (length d)"
| "decoded_size t (Some _) = estimateDecodedSize t"

definition charge_decoded :: "AssetID \<Rightarrow> int \<Rightarrow> ('i, 'h) ManagerImpl \<Rightarrow> ('i, 'h) ManagerImpl" where
  "charge_decoded a decodedSize m =
     (if m_wallet m \<noteq> None \<and> decodedSize > 0
      then (case Reserve (m_wallet m) (of_int decodedSize) (m_ledger m) of
              Inl _ \<Rightarrow> m
            | Inr (t, L) \<Rightarrow> m\<lparr>m_ledger := L, m_reservations := (m_reservations m)(a := m_reservations m a @ [t])\<rparr>)
      else m)"

text \<open>A failed job: the level is marked, and the asset when all levels of its type have failed.\<close>

definition fail_lod :: "'i AssetLoadJob \<Rightarrow> 'i DecodedAsset RegistryEntry \<Rightarrow> 'i DecodedAsset RegistryEntry \<times> bool" where
  "fail_lod j e =
     (let e1 = e\<lparr>LODFailed := (LODFailed e)[nat (j_LOD j) := True]\<rparr>;
          allFailed = list_all (\<lambda>i. \<not> (int i \<le> maxLODForType (re_Type e) \<and> \<not> LODFailed e1 ! i)) [0 ..< length (LODFailed e1)]
      in if allFailed then (e1\<lparr>re_State := AssetStateFailed, re_Err := j_Err j, EntryVersion := EntryVersion e + 1\<rparr>, True) else (e1, False))"

definition commitJob :: "('i AssetLoadJob \<Rightarrow> bool) \<Rightarrow> (TextureUploadRequest \<Rightarrow> bool) \<Rightarrow> 'i AssetLoadJob \<Rightarrow>
    ('i, 'h) ManagerImpl \<Rightarrow> ('i, 'h) ManagerImpl \<times> ('h \<times> asset_note) list" where
  "commitJob accept admit j m =
     (case Get_entry (j_ID j) (m_registry m) of
        None \<Rightarrow> (m, [])
      | Some e \<Rightarrow>
          let e1 = e\<lparr>LODInFlight := (LODInFlight e)[nat (j_LOD j) := False]\<rparr>;
              m1 = m\<lparr>m_registry := put_entry (j_ID j) e1 (m_registry m)\<rparr>
          in if EntryVersion e \<noteq> j_EntryVersion j then (m1, [])
             else if j_Err j \<noteq> None
             then (let (e2, failed) = fail_lod j e1; r = put_entry (j_ID j) e2 (m_registry m1)
                   in (m1\<lparr>m_registry := (if failed then r\<lparr>globalVersion := globalVersion r + 1\<rparr> else r)\<rparr>, []))
             else (let m2 = charge_decoded (j_ID j) (decoded_size (j_Type j) (j_Result j)) m1;
                       (r, calls) = SetLODReady (j_ID j) (j_LOD j) (j_Result j) (j_ElapsedNs j) (m_registry m2);
                       m3 = drainWaitingForLeaf accept (j_ID j) (m2\<lparr>m_registry := r\<rparr>)
                   in (enqueueUpload admit j m3, calls)))"

definition DrainCompleted :: "('i AssetLoadJob \<Rightarrow> bool) \<Rightarrow> (TextureUploadRequest \<Rightarrow> bool) \<Rightarrow> 'i AssetLoadJob list \<Rightarrow>
    ('i, 'h) ManagerImpl \<Rightarrow> int \<times> ('i, 'h) ManagerImpl" where
  "DrainCompleted accept admit js m = (int (length js), fold (\<lambda>j m. fst (commitJob accept admit j m)) js m)"

section \<open>Invalidation, uploads and pressure\<close>

text \<open>The error of a release is ignored.\<close>

definition release_token :: "Reservation \<Rightarrow> walletLedger \<Rightarrow> walletLedger" where
  "release_token t L = (case Release_res (Some t) L of Inl _ \<Rightarrow> L | Inr L' \<Rightarrow> L')"

definition releaseAssetReservations :: "AssetID \<Rightarrow> ('i, 'h) ManagerImpl \<Rightarrow> ('i, 'h) ManagerImpl" where
  "releaseAssetReservations a m =
     (if m_wallet m = None then m
      else m\<lparr>m_reservations := (m_reservations m)(a := []), m_ledger := fold release_token (m_reservations m a) (m_ledger m)\<rparr>)"

definition Manager_Invalidate :: "string \<Rightarrow> ('i, 'h) ManagerImpl \<Rightarrow> ('i, 'h) ManagerImpl \<times> ('h \<times> asset_note) list" where
  "Manager_Invalidate path m =
     (let a = m_idReg m path in
      if a = zero_id then (m, [])
      else let m1 = releaseAssetReservations a m; (r, calls) = Invalidate_asset a (m_registry m1)
           in (m1\<lparr>m_registry := r\<rparr>, calls))"

text \<open>A cache operation on the shared registry.\<close>

definition with_cache :: "(('i DecodedAsset, 'h) assetCache \<Rightarrow> 'r \<times> ('i DecodedAsset, 'h) assetCache) \<Rightarrow> 'r \<Rightarrow>
    ('i, 'h) ManagerImpl \<Rightarrow> 'r \<times> ('i, 'h) ManagerImpl" where
  "with_cache f none m =
     (case m_cache m of
        None \<Rightarrow> (none, m)
      | Some c \<Rightarrow>
          let (x, c') = f (c\<lparr>ac_registry := Some (m_registry m)\<rparr>)
          in (x, m\<lparr>m_cache := Some c', m_registry := (case ac_registry c' of Some r \<Rightarrow> r | None \<Rightarrow> m_registry m)\<rparr>))"

definition commit_upload :: "TextureUploadResult \<Rightarrow> ('i, 'h) ManagerImpl \<Rightarrow> int \<times> ('i, 'h) ManagerImpl" where
  "commit_upload u m =
     (if \<not> ur_OK u \<or> ur_TextureID u = 0 then (0, m)
      else let cpuBytes = (case Get_entry (ur_AssetID u) (m_registry m) of
                             None \<Rightarrow> 0
                           | Some e \<Rightarrow> if ur_LOD u \<ge> 0 \<and> ur_LOD u < int (length (SizeBytes e)) then SizeBytes e ! nat (ur_LOD u) else 0);
               m1 = snd (with_cache (\<lambda>c. ((), trackLOD (ur_AssetID u) (ur_LOD u) cpuBytes (ur_GPUBytes u) (ur_TextureID u) 0 c)) () m)
           in (1, m1\<lparr>m_registry := SetLODGPUReady (ur_AssetID u) (ur_LOD u) (ur_TextureID u) (ur_GPUBytes u) (m_registry m1)\<rparr>))"

definition DrainUploadResults :: "TextureUploadResult list \<Rightarrow> ('i, 'h) ManagerImpl \<Rightarrow> int \<times> ('i, 'h) ManagerImpl" where
  "DrainUploadResults us m =
     (if m_uploader m = None then (0, m)
      else let (n, m1) = fold (\<lambda>u (n, m). let (k, m') = commit_upload u m in (n + k, m')) us (0, m\<lparr>m_uploadsThisFrame := 0\<rparr>)
           in (n, m1\<lparr>m_uploadsThisFrame := n\<rparr>))"

definition TrimMemory :: "(int \<Rightarrow> int \<Rightarrow> int) \<Rightarrow> assetLODKey list \<Rightarrow> int \<Rightarrow> ('i, 'h) ManagerImpl \<Rightarrow> int \<times> ('i, 'h) ManagerImpl" where
  "TrimMemory share order level m =
     with_cache (\<lambda>c. let (g, c1) = EvictGPUToWatermark (share (TrimLevelFraction level)) order c;
                        (n, c2) = EvictToWatermark (share (TrimLevelFraction level)) c1 in (g + n, c2)) 0 m"

definition Manager_CheckDeviceGeneration :: "u64 \<Rightarrow> assetLODKey list \<Rightarrow> ('i, 'h) ManagerImpl \<Rightarrow> bool \<times> ('i, 'h) ManagerImpl" where
  "Manager_CheckDeviceGeneration g order m = with_cache (CheckDeviceGeneration g order) False m"

section \<open>What scheduling leaves alone\<close>

definition keeps_loaded :: "('i, 'h) ManagerImpl \<Rightarrow> ('i, 'h) ManagerImpl \<Rightarrow> bool" where
  "keeps_loaded m m' \<longleftrightarrow> (\<forall>b e. r_entries (m_registry m) b = Some e \<longrightarrow>
     (\<exists>e'. r_entries (m_registry m') b = Some e' \<and> EntryVersion e' = EntryVersion e \<and> LODHandles e' = LODHandles e \<and>
       length (LODInFlight e') = length (LODInFlight e)))"

lemma keeps_loaded_refl: "m_registry m' = m_registry m \<Longrightarrow> keeps_loaded m m'"
  by (simp add: keeps_loaded_def)

lemma keeps_loaded_trans: "keeps_loaded m m1 \<Longrightarrow> keeps_loaded m1 m2 \<Longrightarrow> keeps_loaded m m2"
  unfolding keeps_loaded_def by metis

lemma scheduleLOD_keeps: "keeps_loaded m (scheduleLOD accept a path typ lod m)"
  by (auto simp: keeps_loaded_def scheduleLOD_def GetOrCreate_def getOrCreateLocked_def Let_def split: option.splits)

lemma scheduleConfig_keeps: "keeps_loaded m (scheduleConfig accept a path m)"
  by (auto simp: scheduleConfig_def scheduleLOD_keeps enqueueWaiting_def intro: keeps_loaded_refl split: option.splits)

lemma fold_keeps: "(\<And>x m. keeps_loaded m (f x m)) \<Longrightarrow> keeps_loaded m (fold f xs m)"
  by (induction xs arbitrary: m) (auto intro: keeps_loaded_refl keeps_loaded_trans)

lemma drainWaiting_keeps: "keeps_loaded m (drainWaitingForLeaf accept a m)"
proof (cases "m_depTree m")
  case (Some tree)
  let ?f = "\<lambda>c m. case tree c of None \<Rightarrow> m | Some node \<Rightarrow> scheduleConfig accept c (cn_Path node) m"
  let ?m = "m\<lparr>m_waiting := (m_waiting m)(a := [])\<rparr>"
  have "keeps_loaded ?m (fold ?f (m_waiting m a) ?m)"
    by (rule fold_keeps) (auto simp: scheduleConfig_keeps intro: keeps_loaded_refl split: option.splits)
  moreover have "keeps_loaded m ?m" by (simp add: keeps_loaded_refl)
  ultimately show ?thesis using Some by (simp add: drainWaitingForLeaf_def Let_def keeps_loaded_trans)
qed (simp add: drainWaitingForLeaf_def keeps_loaded_refl)

lemma enqueueUpload_registry [simp]: "m_registry (enqueueUpload admit j m) = m_registry m"
  by (auto simp: enqueueUpload_def enqueue_request_def split: option.splits)

lemma charge_decoded_registry [simp]: "m_registry (charge_decoded a n m) = m_registry m"
  by (auto simp: charge_decoded_def split: sum.splits)

text \<open>A successful commit stores the level and gives the entry a new version.\<close>

lemma commit_ready:
  assumes "r_entries (m_registry m) (j_ID j) = Some e" "entry_ok (j_ID j) e" "j_EntryVersion j = EntryVersion e" "j_Err j = None" "valid_lod (j_LOD j)"
  shows "\<exists>e'. r_entries (m_registry (fst (commitJob accept admit j m))) (j_ID j) = Some e' \<and> EntryVersion e' = EntryVersion e + 1 \<and>
    LODHandles e' = (LODHandles e)[nat (j_LOD j) := j_Result j] \<and> length (LODInFlight e') = 3"
proof -
  let ?a = "j_ID j" and ?l = "nat (j_LOD j)"
  let ?e1 = "e\<lparr>LODInFlight := (LODInFlight e)[?l := False]\<rparr>"
  let ?m1 = "m\<lparr>m_registry := put_entry ?a ?e1 (m_registry m)\<rparr>"
  let ?m2 = "charge_decoded ?a (decoded_size (j_Type j) (j_Result j)) ?m1"
  obtain r calls where S: "SetLODReady ?a (j_LOD j) (j_Result j) (j_ElapsedNs j) (m_registry ?m2) = (r, calls)" by fastforce
  let ?m3 = "drainWaitingForLeaf accept ?a (?m2\<lparr>m_registry := r\<rparr>)"
  have c: "fst (commitJob accept admit j m) = enqueueUpload admit j ?m3"
    using assms(1,3,4) S by (simp add: commitJob_def Get_entry_def)
  obtain e2 where e2: "r_entries r ?a = Some e2" "EntryVersion e2 = EntryVersion e + 1" "LODHandles e2 = (LODHandles e)[?l := j_Result j]"
    "length (LODInFlight e2) = 3"
    using S assms(2,5) by (auto simp: SetLODReady_def getOrCreateLocked_def Let_def entry_ok_def)
  have "keeps_loaded (?m2\<lparr>m_registry := r\<rparr>) ?m3" by (rule drainWaiting_keeps)
  then obtain e3 where "r_entries (m_registry ?m3) ?a = Some e3" "EntryVersion e3 = EntryVersion e2" "LODHandles e3 = LODHandles e2"
    "length (LODInFlight e3) = length (LODInFlight e2)"
    using e2(1) by (auto simp: keeps_loaded_def)
  then show ?thesis using e2 c by simp
qed

section \<open>Properties of loading\<close>

text \<open>
  C23: Of the levels of one asset that are loaded together only the first to finish is kept. All
  jobs of a load carry the version the entry had when they were scheduled, and committing one of
  them gives the entry a new version; so the commit of any other level is discarded as stale:
  its data is dropped, nobody is notified, and the level is neither loaded nor in flight.
\<close>

theorem progressive_levels_dropped:
  assumes "r_entries (m_registry m) a = Some e" and "entry_ok a e"
    and "j_ID j1 = a" "j_EntryVersion j1 = EntryVersion e" "j_Err j1 = None" "valid_lod (j_LOD j1)"
    and "j_ID j2 = a" "j_EntryVersion j2 = EntryVersion e" "valid_lod (j_LOD j2)" "j_LOD j2 \<noteq> j_LOD j1"
  shows "\<exists>e'. commitJob accept admit j2 (fst (commitJob accept admit j1 m)) =
      ((fst (commitJob accept admit j1 m))\<lparr>m_registry := put_entry a e' (m_registry (fst (commitJob accept admit j1 m)))\<rparr>, []) \<and>
    LODHandles e' = (LODHandles e)[nat (j_LOD j1) := j_Result j1] \<and> \<not> LODInFlight e' ! nat (j_LOD j2)"
proof -
  let ?m1 = "fst (commitJob accept admit j1 m)"
  obtain e1 where e1: "r_entries (m_registry ?m1) a = Some e1" "EntryVersion e1 = EntryVersion e + 1"
    "LODHandles e1 = (LODHandles e)[nat (j_LOD j1) := j_Result j1]" "length (LODInFlight e1) = 3"
    using commit_ready [of m j1 e accept admit] assms by auto
  have v: "EntryVersion e1 \<noteq> j_EntryVersion j2" using e1(2) assms(8) by simp
  let ?e' = "e1\<lparr>LODInFlight := (LODInFlight e1)[nat (j_LOD j2) := False]\<rparr>"
  have "commitJob accept admit j2 ?m1 = (?m1\<lparr>m_registry := put_entry a ?e' (m_registry ?m1)\<rparr>, [])"
    using e1(1) v assms(7) by (simp add: commitJob_def Get_entry_def)
  moreover have "\<not> LODInFlight ?e' ! nat (j_LOD j2)" using e1(4) assms(9) by (simp add: valid_lod_def nat_less_iff)
  ultimately show ?thesis using e1(3) by (intro exI [of _ ?e']) simp
qed

definition sample_manager :: "(nat, nat) ManagerImpl" where
  "sample_manager = \<lparr>m_registry = NewAssetRegistryStore, m_idReg = (\<lambda>p. sample_id (length p)), m_residency = ResidencyAuto,
     m_uploader = Some \<lparr>u_Budget = 4, u_TargetFormat = 0, u_requests = []\<rparr>, m_scheduled = [],
     m_cache = Some (newAssetCache None (Some []) 1000 500), m_depTree = None, m_wallet = None,
     m_ledger = \<lparr>wallets = [], wl_nextID = 0, allocations = Map.empty\<rparr>, m_reservations = (\<lambda>_. []), m_waiting = (\<lambda>_. []), m_uploadsThisFrame = 0\<rparr>"

definition sample_loading :: "(nat, nat) ManagerImpl" where
  "sample_loading = snd (loadByPath (\<lambda>_. True) ''ab'' AssetTypeImage sample_manager)"

definition finished_job :: "u8 list \<Rightarrow> nat AssetLoadJob \<Rightarrow> nat AssetLoadJob" where
  "finished_job d j = j\<lparr>j_Result := Some (DecodedImageLOD d 1 1), j_ElapsedNs := 1\<rparr>"

definition loaded_handles :: "AssetID \<Rightarrow> (nat, nat) ManagerImpl \<Rightarrow> nat DecodedAsset option list" where
  "loaded_handles a m = (case r_entries (m_registry m) a of None \<Rightarrow> [] | Some e \<Rightarrow> LODHandles e)"

text \<open>An image: the levels 2, 1 and 0 are scheduled; once level 2 is in, level 0 is refused.\<close>

theorem progressive_levels_dropped_witness:
  "map j_LOD (m_scheduled sample_loading) = [2, 1, 0] \<and>
   loaded_handles (sample_id 2) (snd (DrainCompleted (\<lambda>_. True) (\<lambda>_. True) [finished_job [7] (m_scheduled sample_loading ! 0),
      finished_job [8, 8] (m_scheduled sample_loading ! 2)] sample_loading)) = [None, None, Some (DecodedImageLOD [7] 1 1)]"
proof -
  let ?j1 = "finished_job [7] (m_scheduled sample_loading ! 0)" and ?j2 = "finished_job [8, 8] (m_scheduled sample_loading ! 2)"
  have s: "map j_LOD (m_scheduled sample_loading) = [2, 1, 0]" by code_simp
  have n: "r_entries (m_registry sample_loading) (sample_id 2) \<noteq> None" by code_simp
  then obtain e where e: "r_entries (m_registry sample_loading) (sample_id 2) = Some e" by blast
  have "(case r_entries (m_registry sample_loading) (sample_id 2) of None \<Rightarrow> False | Some e \<Rightarrow> entry_ok (sample_id 2) e \<and>
     LODHandles e = [None, None, None] \<and> EntryVersion e = 0)" by code_simp
  then have ok: "entry_ok (sample_id 2) e" "LODHandles e = [None, None, None]" "EntryVersion e = 0" using e by simp_all
  have j1: "j_ID ?j1 = sample_id 2" "j_EntryVersion ?j1 = 0" "j_Err ?j1 = None" "j_LOD ?j1 = 2" "j_Result ?j1 = Some (DecodedImageLOD [7] 1 1)" by code_simp+
  have j2: "j_ID ?j2 = sample_id 2" "j_EntryVersion ?j2 = 0" "j_LOD ?j2 = 0" by code_simp+
  show ?thesis
    using progressive_levels_dropped [OF e ok(1) j1(1) _ j1(3) _ j2(1), of "\<lambda>_. True" "\<lambda>_. True"] ok j1 j2 s
    by (auto simp: DrainCompleted_def loaded_handles_def valid_lod_def)
qed

text \<open>
  A level whose job the scheduler refuses is lost. \<open>scheduleLOD\<close> marks the level in flight before
  it submits the job and ignores the scheduler's error; no job was queued, so none will ever
  commit, and every later request for the level does nothing.
\<close>

theorem refused_level_stuck:
  assumes "r_entries (m_registry m) a = Some e" and "entry_ok a e" and "valid_lod lod"
    and "LODHandles e ! nat lod = None" and "\<not> LODInFlight e ! nat lod"
  shows "m_scheduled (scheduleLOD (\<lambda>_. False) a path typ lod m) = m_scheduled m \<and>
    scheduleLOD accept a path' typ' lod (scheduleLOD (\<lambda>_. False) a path typ lod m) = scheduleLOD (\<lambda>_. False) a path typ lod m"
proof -
  have l: "nat lod < 3" "0 \<le> lod" "lod < 3" using assms(3) by (auto simp: valid_lod_def)
  then show ?thesis
    using assms by (simp add: scheduleLOD_def GetOrCreate_def getOrCreateLocked_def Let_def entry_ok_def put_entry_def)
qed

definition sample_created :: "(nat, nat) ManagerImpl" where
  "sample_created = sample_manager\<lparr>m_registry := snd (GetOrCreate (sample_id 2) NewAssetRegistryStore)\<rparr>"

theorem refused_level_stuck_witness:
  "m_scheduled (scheduleLOD (\<lambda>_. True) (sample_id 2) ''ab'' AssetTypeFont 0 (scheduleLOD (\<lambda>_. False) (sample_id 2) ''ab'' AssetTypeFont 0 sample_created)) = []"
proof -
  have e: "r_entries (m_registry sample_created) (sample_id 2) = Some (blank_registry_entry (sample_id 2))"
    by (simp add: sample_created_def GetOrCreate_def getOrCreateLocked_def NewAssetRegistryStore_def Let_def)
  have s: "m_scheduled sample_created = []" by (simp add: sample_created_def sample_manager_def)
  show ?thesis
    using refused_level_stuck [OF e blank_entry_ok(1), of 0 "''ab''" AssetTypeFont "\<lambda>_. True" "''ab''" AssetTypeFont] s
    by (simp add: valid_lod_def blank_registry_entry_def)
qed

section \<open>Runs\<close>

text \<open>
  The calls of the runtime thread in any order. Other users of the budget may change the ledger,
  but not the allocations whose tokens the manager holds.
\<close>

inductive manager_step :: "('i, 'h) ManagerImpl \<Rightarrow> ('i, 'h) ManagerImpl \<Rightarrow> bool" where
  load_step: "manager_step m (snd (loadByPath accept path typ m))"
| config_step: "manager_step m (scheduleConfig accept a path m)"
| commit_step: "manager_step m (fst (commitJob accept admit j m))"
| invalidate_step: "manager_step m (fst (Manager_Invalidate path m))"
| upload_step: "manager_step m (snd (commit_upload u m))"
| request_step: "manager_step m (snd (RequestUpload admit a lod m))"
| trim_step: "manager_step m (snd (TrimMemory share order level m))"
| device_step: "manager_step m (snd (Manager_CheckDeviceGeneration g order m))"
| budget_step: "(\<And>a t. t \<in> set (m_reservations m a) \<Longrightarrow> allocations L (r_id t) = allocations (m_ledger m) (r_id t)) \<Longrightarrow>
    manager_step m (m\<lparr>m_ledger := L\<rparr>)"

section \<open>Charges\<close>

text \<open>Every token the manager holds names an allocation that was never published.\<close>

definition tokens_reserved :: "('i, 'h) ManagerImpl \<Rightarrow> bool" where
  "tokens_reserved m \<longleftrightarrow> (\<forall>a. \<forall>t \<in> set (m_reservations m a). \<exists>al. allocations (m_ledger m) (r_id t) = Some al \<and> a_state al = allocationReserved)"

lemma tokens_reserved_cong:
  "tokens_reserved m \<Longrightarrow> m_ledger m' = m_ledger m \<Longrightarrow> m_reservations m' = m_reservations m \<Longrightarrow> tokens_reserved m'"
  by (simp add: tokens_reserved_def)

lemma Reserve_allocations:
  assumes "Reserve w b L = Inr (t, L')"
  shows "\<exists>al. a_state al = allocationReserved \<and> allocations L' = (allocations L)(r_id t \<mapsto> al)"
proof -
  obtain a where "w = Some a" "claimLocked a b L = (t, L')" using assms by (auto simp: Reserve_def split: option.splits sum.splits if_splits)
  then show ?thesis
    by (intro exI [of _ "\<lparr>a_owner = a, a_bytes = b, a_state = allocationReserved\<rparr>"]) (auto simp: claimLocked_def addChargeLocked_def Let_def)
qed

lemma charge_tokens:
  assumes "tokens_reserved m"
  shows "tokens_reserved (charge_decoded a n m)"
proof (cases "m_wallet m \<noteq> None \<and> n > 0 \<and> (\<exists>t L. Reserve (m_wallet m) (of_int n) (m_ledger m) = Inr (t, L))")
  case True
  then obtain t L where R: "Reserve (m_wallet m) (of_int n) (m_ledger m) = Inr (t, L)" by blast
  obtain al where al: "a_state al = allocationReserved" "allocations L = (allocations (m_ledger m))(r_id t \<mapsto> al)"
    using Reserve_allocations [OF R] by blast
  have "charge_decoded a n m = m\<lparr>m_ledger := L, m_reservations := (m_reservations m)(a := m_reservations m a @ [t])\<rparr>"
    using True R by (simp add: charge_decoded_def)
  then show ?thesis using assms al by (auto simp: tokens_reserved_def)
next
  case False
  then have "charge_decoded a n m = m" by (auto simp: charge_decoded_def split: sum.splits)
  then show ?thesis using assms by simp
qed

lemma release_unpublished:
  assumes "\<And>t. t \<in> set ts \<Longrightarrow> \<exists>al. allocations L (r_id t) = Some al \<and> a_state al = allocationReserved"
  shows "fold release_token ts L = L"
  using assms
proof (induction ts)
  case (Cons t ts)
  obtain al where "allocations L (r_id t) = Some al" "a_state al = allocationReserved" using Cons.prems [of t] by auto
  then have "release_token t L = L"
    by (auto simp: release_token_def Release_res_def finish_def token_wallet_def Reservation_ID_def split: option.splits)
  then show ?case using Cons by simp
qed simp

lemma release_charges:
  assumes "tokens_reserved m"
  shows "m_ledger (releaseAssetReservations a m) = m_ledger m" "tokens_reserved (releaseAssetReservations a m)"
proof -
  have "fold release_token (m_reservations m a) (m_ledger m) = m_ledger m"
    by (rule release_unpublished) (use assms in \<open>auto simp: tokens_reserved_def\<close>)
  then show "m_ledger (releaseAssetReservations a m) = m_ledger m" "tokens_reserved (releaseAssetReservations a m)"
    using assms by (auto simp: releaseAssetReservations_def tokens_reserved_def)
qed

text \<open>What an operation that has nothing to do with the budget leaves alone.\<close>

definition same_charges :: "('i, 'h) ManagerImpl \<Rightarrow> ('i, 'h) ManagerImpl \<Rightarrow> bool" where
  "same_charges m m' \<longleftrightarrow> m_ledger m' = m_ledger m \<and> m_reservations m' = m_reservations m"

lemma same_charges_trans: "same_charges m m1 \<Longrightarrow> same_charges m1 m2 \<Longrightarrow> same_charges m m2"
  by (simp add: same_charges_def)

lemma fold_charges: "(\<And>x m. same_charges m (f x m)) \<Longrightarrow> same_charges m (fold f xs m)"
  by (induction xs arbitrary: m) (auto simp: same_charges_def)

lemma scheduleLOD_charges: "same_charges m (scheduleLOD accept a path typ lod m)"
  by (simp add: same_charges_def scheduleLOD_def Let_def split: prod.splits)

lemma scheduleConfig_charges: "same_charges m (scheduleConfig accept a path m)"
  by (auto simp: scheduleConfig_def scheduleLOD_charges enqueueWaiting_def same_charges_def [of m "m\<lparr>m_waiting := _\<rparr>"] same_charges_def [of m m]
      split: option.splits)

lemma drainWaiting_charges: "same_charges m (drainWaitingForLeaf accept a m)"
proof (cases "m_depTree m")
  case (Some tree)
  let ?f = "\<lambda>c m. case tree c of None \<Rightarrow> m | Some node \<Rightarrow> scheduleConfig accept c (cn_Path node) m"
  let ?m = "m\<lparr>m_waiting := (m_waiting m)(a := [])\<rparr>"
  have "same_charges ?m (fold ?f (m_waiting m a) ?m)"
    by (rule fold_charges) (auto simp: scheduleConfig_charges same_charges_def [of m m for m] split: option.splits)
  then show ?thesis using Some by (simp add: drainWaitingForLeaf_def Let_def same_charges_def)
qed (simp add: drainWaitingForLeaf_def same_charges_def)

lemma same_charges_tokens: "same_charges m m' \<Longrightarrow> tokens_reserved m \<Longrightarrow> tokens_reserved m'"
  by (auto simp: same_charges_def intro: tokens_reserved_cong)

lemma with_cache_charges: "same_charges m (snd (with_cache f n m))"
  by (auto simp: same_charges_def with_cache_def Let_def split: option.splits prod.splits)

lemma other_charges:
  "same_charges m (snd (loadByPath accept path typ m))" "same_charges m (enqueueUpload admit j m)"
  "same_charges m (snd (RequestUpload admit a lod m))" "same_charges m (snd (commit_upload u m))"
proof -
  have "same_charges m (fold (scheduleLOD accept (m_idReg m path) path typ) xs m)" for xs
    by (rule fold_charges) (rule scheduleLOD_charges)
  then show "same_charges m (snd (loadByPath accept path typ m))"
    by (simp add: loadByPath_def scheduleAllLODs_def Let_def) (simp add: same_charges_def)
  show "same_charges m (enqueueUpload admit j m)" "same_charges m (snd (RequestUpload admit a lod m))"
    by (auto simp: same_charges_def enqueueUpload_def RequestUpload_def enqueue_request_def split: option.splits)
  have "same_charges m (snd (with_cache (\<lambda>c. ((), trackLOD a l n g t 0 c)) () m))" for a l n g t by (rule with_cache_charges)
  then show "same_charges m (snd (commit_upload u m))" by (simp add: commit_upload_def Let_def same_charges_def)
qed

lemma commit_tokens:
  assumes "tokens_reserved m"
  shows "tokens_reserved (fst (commitJob accept admit j m))"
proof (cases "Get_entry (j_ID j) (m_registry m)")
  case (Some e)
  let ?m1 = "m\<lparr>m_registry := put_entry (j_ID j) (e\<lparr>LODInFlight := (LODInFlight e)[nat (j_LOD j) := False]\<rparr>) (m_registry m)\<rparr>"
  let ?m2 = "charge_decoded (j_ID j) (decoded_size (j_Type j) (j_Result j)) ?m1"
  have "tokens_reserved ?m1" by (rule tokens_reserved_cong [OF assms]) simp_all
  then have t2: "tokens_reserved ?m2" by (rule charge_tokens)
  show ?thesis
  proof (cases "EntryVersion e = j_EntryVersion j \<and> j_Err j = None")
    case True
    obtain r calls where S: "SetLODReady (j_ID j) (j_LOD j) (j_Result j) (j_ElapsedNs j) (m_registry ?m2) = (r, calls)" by fastforce
    let ?m3 = "drainWaitingForLeaf accept (j_ID j) (?m2\<lparr>m_registry := r\<rparr>)"
    have "same_charges (?m2\<lparr>m_registry := r\<rparr>) (enqueueUpload admit j ?m3)"
      by (rule same_charges_trans [OF drainWaiting_charges other_charges(2)])
    then have "m_ledger (enqueueUpload admit j ?m3) = m_ledger ?m2" "m_reservations (enqueueUpload admit j ?m3) = m_reservations ?m2"
      by (simp_all add: same_charges_def)
    then show ?thesis using tokens_reserved_cong [OF t2] True Some S by (simp add: commitJob_def)
  next
    case False
    then have "m_ledger (fst (commitJob accept admit j m)) = m_ledger m \<and> m_reservations (fst (commitJob accept admit j m)) = m_reservations m"
      using Some by (auto simp: commitJob_def Let_def split: prod.splits)
    then show ?thesis by (auto intro: tokens_reserved_cong [OF assms])
  qed
qed (use assms in \<open>simp add: commitJob_def\<close>)

lemma manager_step_tokens: "manager_step m m' \<Longrightarrow> tokens_reserved m \<Longrightarrow> tokens_reserved m'"
proof (induction rule: manager_step.induct)
  case (invalidate_step m path)
  then show ?case
    using release_charges(2) [OF invalidate_step, of "m_idReg m path"]
    by (simp add: Manager_Invalidate_def Let_def tokens_reserved_def split: prod.splits)
next
  case (budget_step m L)
  then show ?case by (auto simp: tokens_reserved_def)
next
  case (commit_step m accept admit j)
  then show ?case by (rule commit_tokens)
qed (simp_all only: TrimMemory_def Manager_CheckDeviceGeneration_def
  same_charges_tokens [OF other_charges(1)] same_charges_tokens [OF scheduleConfig_charges] same_charges_tokens [OF other_charges(3)]
  same_charges_tokens [OF other_charges(4)] same_charges_tokens [OF with_cache_charges])

lemma manager_run_tokens: "manager_step\<^sup>*\<^sup>* m m' \<Longrightarrow> tokens_reserved m \<Longrightarrow> tokens_reserved m'"
  by (induction rule: rtranclp_induct) (auto dest: manager_step_tokens)

text \<open>
  C24: Invalidating an asset gives no byte back to the budget. The manager reserves the decoded size
  when a level is committed and never publishes the reservation, while \<open>Release\<close> accepts published
  ones only; so in every run the releases of \<open>Invalidate\<close> fail, their errors are ignored, the ledger
  stays as it was, and the tokens that could have been cancelled are forgotten.
\<close>

theorem invalidate_returns_no_charge:
  assumes "manager_step\<^sup>*\<^sup>* m0 m" and "m_reservations m0 = (\<lambda>_. [])"
  shows "m_ledger (fst (Manager_Invalidate path m)) = m_ledger m \<and>
    (m_wallet m \<noteq> None \<and> m_idReg m path \<noteq> zero_id \<longrightarrow> m_reservations (fst (Manager_Invalidate path m)) (m_idReg m path) = [])"
proof -
  have "tokens_reserved m0" using assms(2) by (simp add: tokens_reserved_def)
  then have t: "tokens_reserved m" by (rule manager_run_tokens [OF assms(1)])
  show ?thesis
    using release_charges(1) [OF t, of "m_idReg m path"]
    by (auto simp: Manager_Invalidate_def Let_def releaseAssetReservations_def split: prod.splits if_splits)
qed

definition sample_budgeted :: "(nat, nat) ManagerImpl" where
  "sample_budgeted = sample_manager\<lparr>m_wallet := Some 0, m_ledger := projr (NewWallet 100)\<rparr>"

definition sample_charged :: "(nat, nat) ManagerImpl" where
  "sample_charged = (let m = snd (loadByPath (\<lambda>_. True) ''ab'' AssetTypeImage sample_budgeted)
     in fst (commitJob (\<lambda>_. True) (\<lambda>_. True) (finished_job [1, 2, 3] (m_scheduled m ! 0)) m))"

theorem invalidate_returns_no_charge_witness:
  "Wallet_Snapshot (Some 0) (m_ledger sample_charged) = Wallet_Snapshot (Some 0) (m_ledger (fst (Manager_Invalidate ''ab'' sample_charged))) \<and>
   w_reserved (wallets (m_ledger (fst (Manager_Invalidate ''ab'' sample_charged))) ! 0) = 3"
proof -
  have "manager_step\<^sup>*\<^sup>* sample_budgeted sample_charged"
    unfolding sample_charged_def Let_def
    by (rule converse_rtranclp_into_rtranclp [OF manager_step.load_step r_into_rtranclp [of manager_step]]) (rule manager_step.commit_step)
  moreover have "m_reservations sample_budgeted = (\<lambda>_. [])" by (simp add: sample_budgeted_def sample_manager_def)
  moreover have "w_reserved (wallets (m_ledger sample_charged) ! 0) = 3" by code_simp
  ultimately show ?thesis using invalidate_returns_no_charge [of sample_budgeted sample_charged "''ab''"] by simp
qed

end
