(* ===== verification/Asset_Device.thy ===== *)
theory Asset_Device
  imports Asset_Manager
begin

text \<open>
  Decoded sizes and device loss: in every run of the asset manager the sizes recorded in registry
  and cache stay zero, and what that means for decoded data when the graphics device is lost
  (\<^verbatim>\<open>src/assets/cache.go\<close>, \<^verbatim>\<open>src/assets/job.go\<close>).
\<close>

section \<open>Sizes\<close>

text \<open>No code writes the decoded size of a level into the registry, so the cache sees only zeros.\<close>

definition entry_sizes :: "'d RegistryEntry \<Rightarrow> bool" where
  "entry_sizes e \<longleftrightarrow> list_all (\<lambda>n. n = 0) (SizeBytes e) \<and> length (LODHandles e) = 3"

definition registry_sizes :: "('d, 'h) AssetRegistryStore \<Rightarrow> bool" where
  "registry_sizes r \<longleftrightarrow> (\<forall>a e. r_entries r a = Some e \<longrightarrow> entry_sizes e)"

definition cache_sizes :: "('d, 'h) assetCache \<Rightarrow> bool" where
  "cache_sizes c \<longleftrightarrow> (\<forall>e \<in> set (bare c). ce_sizeBytes e = 0) \<and>
     (\<forall>k x. ac_entries c k = Some x \<longrightarrow> x < length (bare c) \<and> lod_key (bare c ! x) = k) \<and>
     (case ac_registry c of None \<Rightarrow> True | Some r \<Rightarrow> registry_sizes r)"

lemma registry_sizes_put: "registry_sizes r \<Longrightarrow> entry_sizes e \<Longrightarrow> r_entries r' = (r_entries r)(a \<mapsto> e) \<Longrightarrow> registry_sizes r'"
  by (simp add: registry_sizes_def)

lemma list_all_update: "list_all P xs \<Longrightarrow> P x \<Longrightarrow> list_all P (xs[i := x])"
  using set_update_subset_insert [of xs i x] by (auto simp: list_all_iff)

lemma list_all_replicate: "P x \<Longrightarrow> list_all P (replicate n x)"
  by (simp add: list_all_iff)

lemma blank_sizes: "entry_sizes (blank_registry_entry a)"
  by (simp add: entry_sizes_def blank_registry_entry_def list_all_iff)

lemma getOrCreate_sizes:
  assumes "registry_sizes r" "getOrCreateLocked a r = (e, r1)"
  shows "registry_sizes r1 \<and> entry_sizes e \<and> r_entries r1 = (r_entries r)(a \<mapsto> e)"
proof (cases "r_entries r a")
  case None
  then have "e = blank_registry_entry a" "r1 = put_entry a e r" using assms(2) by (auto simp: getOrCreateLocked_def Let_def)
  then show ?thesis using assms(1) by (simp add: registry_sizes_def blank_sizes)
next
  case (Some x)
  then have "e = x" "r1 = r" using assms(2) by (auto simp: getOrCreateLocked_def)
  then show ?thesis using assms(1) Some by (auto simp: registry_sizes_def)
qed

lemma registry_sizes_ops:
  assumes "registry_sizes r"
  shows "registry_sizes (ClearLOD a l r)" "registry_sizes (clear_gpu a l r)" "registry_sizes (SetLODGPUReady a l t g r)"
    "registry_sizes (fst (SetLODReady a l h ns r))" "registry_sizes (fst (Invalidate_asset a r))"
proof -
  have e: "entry_sizes e" if "r_entries r a = Some e" for e using assms that by (simp add: registry_sizes_def)
  show "registry_sizes (ClearLOD a l r)"
    using assms e by (auto simp: ClearLOD_def Let_def registry_sizes_def entry_sizes_def [of "LODHandles_update _ _"] entry_sizes_def list_all_update
        split: option.splits)
  show "registry_sizes (clear_gpu a l r)" "registry_sizes (SetLODGPUReady a l t g r)"
    using assms e by (auto simp: clear_gpu_def SetLODGPUReady_def Get_entry_def Let_def registry_sizes_def entry_sizes_def split: option.splits)
  obtain y r1 where g: "getOrCreateLocked a r = (y, r1)" by fastforce
  note G = getOrCreate_sizes [OF assms g]
  show "registry_sizes (fst (SetLODReady a l h ns r))"
    using G assms by (auto simp: SetLODReady_def g Let_def registry_sizes_def entry_sizes_def list_all_update)
  show "registry_sizes (fst (Invalidate_asset a r))"
    using G assms by (auto simp: Invalidate_asset_def g Let_def registry_sizes_def entry_sizes_def list_all_replicate)
qed

text \<open>The heap functions leave the data alone, whatever the state of the heap.\<close>

lemma push_data [simp]: "cache_data (push_entry_heap x c) = cache_data c"
  by (simp add: push_entry_heap_def heap_Push_def lru_Push_def Let_def)

lemma fix_data [simp]: "cache_data (fix_entry_heap i c) = cache_data c"
  by (simp add: fix_entry_heap_def heap_Fix_def Let_def)

lemma pop_data: "pop_entry_heap c = (x, c') \<Longrightarrow> cache_data c' = cache_data c"
  by (auto simp: pop_entry_heap_def heap_Pop_def lru_Pop_def Let_def)

lemma fold_push_data: "cache_data (fold push_entry_heap xs c) = cache_data c"
  by (induction xs arbitrary: c) simp_all

lemma pop_loop_data: "pop_loop skipped c = (r, c') \<Longrightarrow> cache_data c' = cache_data c"
proof (induction skipped c rule: pop_loop.induct)
  case (1 skipped c)
  obtain a c1 where p: "pop_entry_heap c = (a, c1)" by fastforce
  then show ?case
    using 1 pop_data [OF p] by (subst (asm) (2) pop_loop.simps) (auto simp: fold_push_data split: if_splits)
qed

lemma cache_sizes_cong:
  assumes "cache_sizes c" "bare c' = bare c" "ac_entries c' = ac_entries c" "ac_registry c' = ac_registry c"
  shows "cache_sizes c'"
  using assms by (simp add: cache_sizes_def)

lemma cache_sizes_data:
  assumes "cache_sizes c" "cache_data c' = cache_data c"
  shows "cache_sizes c'"
  by (rule cache_sizes_cong [OF assms(1) data_bare [OF assms(2)] data_fields(8) [OF assms(2)] data_fields(2) [OF assms(2)]])

lemma evict_victim_sizes:
  assumes "cache_sizes c"
  shows "cache_sizes (evict_victim x c)"
proof -
  have r: "ac_registry (evict_victim x c) = map_option (ClearLOD (ce_assetID (obj c x)) (ce_lod (obj c x))) (ac_registry c)"
    by (simp add: evict_victim_def Let_def)
  show ?thesis
    using assms registry_sizes_ops(1) unfolding cache_sizes_def evict_victim_fields r by (auto split: option.splits if_splits)
qed

lemma evict_until_sizes: "evict_until tb tg n c = (m, c') \<Longrightarrow> cache_sizes c \<Longrightarrow> cache_sizes c'"
proof (induction tb tg n c rule: evict_until.induct)
  case (1 tb tg n c)
  obtain r c1 where p: "popMinEvictable c = (r, c1)" by fastforce
  have s: "cache_sizes c1" using cache_sizes_data [OF 1(3) pop_loop_data] p by (simp add: popMinEvictable_def)
  show ?case
    using 1 p s evict_victim_sizes [OF s] by (subst (asm) (2) evict_until.simps) (auto split: option.splits if_splits)
qed

lemma bare_updates [simp]:
  "bare (c\<lparr>ac_registry := r\<rparr>) = bare c" "bare (c\<lparr>ac_entries := en\<rparr>) = bare c" "bare (c\<lparr>ac_evictionsThisFrame := i\<rparr>) = bare c"
  "bare (c\<lparr>ac_usedBytes := i\<rparr>) = bare c" "bare (c\<lparr>ac_gpuUsed := i\<rparr>) = bare c" "bare (FreeTexture t c) = bare c"
  by (simp_all add: bare_def)

lemma bare_set_obj: "bare (set_obj x e c) = (bare c)[x := e\<lparr>ce_index := 0\<rparr>]"
  by (simp add: bare_def set_obj_def map_update)

lemma bare_nth: "x < length (bare c) \<Longrightarrow> bare c ! x = (obj c x)\<lparr>ce_index := 0\<rparr>"
  by (simp add: bare_def)

lemma lod_key_index [simp]: "lod_key (e\<lparr>ce_index := i\<rparr>) = lod_key e"
  by (simp add: lod_key_def)

lemma cache_sizes_set_obj:
  assumes "cache_sizes c" "x < length (bare c) \<Longrightarrow> ce_sizeBytes e = 0 \<and> lod_key e = lod_key (obj c x)"
  shows "cache_sizes (set_obj x e c)"
proof (cases "x < length (bare c)")
  case True
  have "ce_sizeBytes y = 0" if "y \<in> set ((bare c)[x := e\<lparr>ce_index := 0\<rparr>])" for y
    using that set_update_subset_insert [of "bare c" x "e\<lparr>ce_index := 0\<rparr>"] assms True by (auto simp: cache_sizes_def)
  moreover have "lod_key ((bare c)[x := e\<lparr>ce_index := 0\<rparr>] ! y) = lod_key (bare c ! y)" if "y < length (bare c)" for y
    using that assms(2) True bare_nth [OF True] by (auto simp: nth_list_update_cases)
  ultimately show ?thesis using assms(1) unfolding cache_sizes_def bare_set_obj by (simp add: set_obj_def)
next
  case False
  then have "bare (set_obj x e c) = bare c" by (simp add: bare_set_obj list_update_beyond)
  then show ?thesis by (rule cache_sizes_cong [OF assms(1)]) (simp_all add: set_obj_def)
qed

lemma cache_sizes_registry:
  "cache_sizes c \<Longrightarrow> registry_sizes r \<Longrightarrow> cache_sizes (c\<lparr>ac_registry := Some r\<rparr>)"
  by (simp add: cache_sizes_def)

lemma map_registry_sizes:
  "cache_sizes c \<Longrightarrow> (\<And>r. registry_sizes r \<Longrightarrow> registry_sizes (f r)) \<Longrightarrow> cache_sizes (c\<lparr>ac_registry := map_option f (ac_registry c)\<rparr>)"
  by (auto simp: cache_sizes_def split: option.splits)

lemma drop_gpu_sizes:
  assumes "cache_sizes c"
  shows "cache_sizes (drop_gpu x c)"
proof -
  have s: "ce_sizeBytes (obj c x) = 0" if "x < length (bare c)"
    using assms nth_mem [OF that] bare_nth [OF that] by (auto simp: cache_sizes_def)
  let ?c = "(FreeTexture (ce_textureID (obj c x)) c)\<lparr>ac_gpuUsed := wrap_int (ac_gpuUsed c - ce_gpuBytes (obj c x))\<rparr>"
  have r: "ac_registry ?c = ac_registry c" by (simp add: FreeTexture_def split: option.splits)
  have "cache_sizes ?c" by (rule cache_sizes_cong [OF assms]) (simp_all add: r)
  moreover have "bare ?c = bare c" "obj ?c x = obj c x" by simp_all
  ultimately have "cache_sizes (set_obj x ((obj c x)\<lparr>ce_gpuBytes := 0, ce_textureID := 0\<rparr>) ?c)"
    by (intro cache_sizes_set_obj) (use s in \<open>simp_all add: lod_key_def\<close>)
  then show ?thesis by (simp add: drop_gpu_def Let_def)
qed

lemma evict_gpu_sizes: "evict_gpu tg xs n c = (m, c') \<Longrightarrow> cache_sizes c \<Longrightarrow> cache_sizes c'"
proof (induction tg xs n c arbitrary: m c' rule: evict_gpu.induct)
  case (2 tg x xs n c)
  let ?f = "clear_gpu (ce_assetID (obj c x)) (ce_lod (obj c x))"
  let ?d = "(drop_gpu x c)\<lparr>ac_registry := map_option ?f (ac_registry (drop_gpu x c))\<rparr>"
  have "cache_sizes ?d" by (rule map_registry_sizes [OF drop_gpu_sizes [OF 2(4)] registry_sizes_ops(2)])
  then have "cache_sizes (?d\<lparr>ac_evictionsThisFrame := i\<rparr>)" for i by (rule cache_sizes_cong) simp_all
  then show ?case using 2 by (auto simp: Let_def split: if_splits)
qed simp

lemma EvictGPU_sizes: "EvictGPUToWatermark share order c = (m, c') \<Longrightarrow> cache_sizes c \<Longrightarrow> cache_sizes c'"
  by (auto simp: EvictGPUToWatermark_def Let_def evict_gpu_sizes split: if_splits)

lemma Evict_sizes: "EvictToWatermark share c = (m, c') \<Longrightarrow> cache_sizes c \<Longrightarrow> cache_sizes c'"
  by (auto simp: EvictToWatermark_def evict_until_sizes split: if_splits)

lemma lose_device_sizes:
  assumes "cache_sizes c"
  shows "cache_sizes (lose_device k c)"
proof (cases "ac_entries c k")
  case (Some x)
  let ?d = "drop_gpu x c" and ?a = "ce_assetID (obj c x)" and ?l = "ce_lod (obj c x)"
  have d: "cache_sizes ?d" by (rule drop_gpu_sizes [OF assms])
  have 1: "cache_sizes (?d\<lparr>ac_registry := map_option (clear_gpu ?a ?l) (ac_registry ?d)\<rparr>)"
    by (rule map_registry_sizes [OF d registry_sizes_ops(2)])
  have 2: "cache_sizes (?d\<lparr>ac_registry := map_option (ClearLOD ?a ?l) (ac_registry ?d)\<rparr>)"
    by (rule map_registry_sizes [OF d registry_sizes_ops(1)])
  then have 3: "cache_sizes (?d\<lparr>ac_entries := (ac_entries ?d)(k := None), ac_registry := map_option (ClearLOD ?a ?l) (ac_registry ?d)\<rparr>)"
    by (auto simp: cache_sizes_def split: if_splits)
  have ev: "cache_sizes c \<Longrightarrow> cache_sizes (c\<lparr>ac_evictionsThisFrame := i\<rparr>)" for c :: "('a, 'b) assetCache" and i
    by (rule cache_sizes_cong) simp_all
  show ?thesis using Some assms ev [OF 1] ev [OF 3] by (simp add: lose_device_def Let_def)
qed (simp add: lose_device_def assms)

lemma trackLOD_sizes:
  assumes "cache_sizes c"
  shows "cache_sizes (trackLOD a lod 0 g t lu c)"
proof -
  have note_s: "cache_sizes (note_size a lod 0 lu d)" if "cache_sizes d" for d :: "('a, 'b) assetCache"
  proof (cases "ac_registry d")
    case (Some r)
    obtain e r1 where g: "getOrCreateLocked a r = (e, r1)" by fastforce
    have r: "registry_sizes r" using that Some by (simp add: cache_sizes_def)
    note G = getOrCreate_sizes [OF r g]
    have "registry_sizes (put_entry a (e\<lparr>SizeBytes := (SizeBytes e)[nat lod := 0], LastUse := lu\<rparr>) r1)"
      by (rule registry_sizes_put [of r1 _ _ a]) (use G in \<open>auto simp: entry_sizes_def list_all_update\<close>)
    then show ?thesis using that Some G by (simp add: note_size_def GetOrCreate_def g cache_sizes_registry)
  qed (use that in \<open>simp add: note_size_def\<close>)
  show ?thesis
  proof (cases "ac_entries c (a, lod)")
    case None
    let ?e = "\<lparr>ce_assetID = a, ce_lod = lod, ce_lastUse = lu, ce_sizeBytes = 0, ce_gpuBytes = g, ce_textureID = t, ce_index = 0\<rparr>"
    let ?c1 = "c\<lparr>ac_objects := ac_objects c @ [?e], ac_entries := (ac_entries c)((a, lod) \<mapsto> length (ac_objects c)),
       ac_usedBytes := wrap_int (ac_usedBytes c + 0), ac_gpuUsed := wrap_int (ac_gpuUsed c + g)\<rparr>"
    have b: "bare ?c1 = bare c @ [?e]" "length (bare c) = length (ac_objects c)" by (simp_all add: bare_def)
    have "cache_sizes ?c1"
      using assms unfolding cache_sizes_def b(1) by (auto simp: b(2) nth_append lod_key_def less_Suc_eq split: if_splits)
    then have "cache_sizes (push_entry_heap (length (ac_objects c)) ?c1)" by (rule cache_sizes_data) simp
    then show ?thesis using None note_s by (simp add: trackLOD_def Let_def)
  next
    case (Some x)
    let ?o = "obj c x"
    let ?c1 = "c\<lparr>ac_usedBytes := wrap_int (wrap_int (ac_usedBytes c - ce_sizeBytes ?o) + 0), ac_gpuUsed := wrap_int (wrap_int (ac_gpuUsed c - ce_gpuBytes ?o) + g)\<rparr>"
    let ?e = "?o\<lparr>ce_lastUse := lu, ce_sizeBytes := 0, ce_gpuBytes := g, ce_textureID := t\<rparr>"
    have "cache_sizes ?c1" by (rule cache_sizes_cong [OF assms]) simp_all
    then have "cache_sizes (set_obj x ?e ?c1)" by (rule cache_sizes_set_obj) (simp add: lod_key_def)
    then have "cache_sizes (fix_entry_heap (ce_index ?o) (set_obj x ?e ?c1))" by (rule cache_sizes_data) simp
    then show ?thesis using Some note_s by (simp add: trackLOD_def Let_def)
  qed
qed

definition manager_sizes :: "('i, 'h) ManagerImpl \<Rightarrow> bool" where
  "manager_sizes m \<longleftrightarrow> registry_sizes (m_registry m) \<and>
     (case m_cache m of None \<Rightarrow> True | Some c \<Rightarrow> cache_sizes (c\<lparr>ac_registry := None\<rparr>))"

lemma cache_sizes_alone: "cache_sizes c \<Longrightarrow> cache_sizes (c\<lparr>ac_registry := None\<rparr>)"
  by (simp add: cache_sizes_def)

lemma cache_sizes_shared: "cache_sizes (c\<lparr>ac_registry := None\<rparr>) \<Longrightarrow> registry_sizes r \<Longrightarrow> cache_sizes (c\<lparr>ac_registry := Some r\<rparr>)"
  by (simp add: cache_sizes_def)

lemma with_cache_sizes:
  assumes "manager_sizes m" "\<And>c. cache_sizes c \<Longrightarrow> cache_sizes (snd (f c))"
  shows "manager_sizes (snd (with_cache f n m))"
proof (cases "m_cache m")
  case (Some c)
  let ?c = "c\<lparr>ac_registry := Some (m_registry m)\<rparr>"
  obtain x c' where f: "f ?c = (x, c')" by fastforce
  have "cache_sizes ?c" using assms(1) Some by (simp add: manager_sizes_def cache_sizes_shared)
  then have c': "cache_sizes c'" using assms(2) [of ?c] f by simp
  then have "registry_sizes (case ac_registry c' of Some r \<Rightarrow> r | None \<Rightarrow> m_registry m)"
    using assms(1) by (auto simp: cache_sizes_def manager_sizes_def split: option.splits)
  then show ?thesis using Some f cache_sizes_alone [OF c'] by (simp add: with_cache_def manager_sizes_def)
qed (use assms in \<open>simp add: with_cache_def\<close>)

lemma manager_sizes_registry:
  "manager_sizes m \<Longrightarrow> registry_sizes (m_registry m') \<Longrightarrow> m_cache m' = m_cache m \<Longrightarrow> manager_sizes m'"
  by (simp add: manager_sizes_def)

lemma scheduleLOD_sizes: "manager_sizes m \<Longrightarrow> manager_sizes (scheduleLOD accept a path typ lod m)"
proof -
  assume m: "manager_sizes m"
  obtain e r where g: "getOrCreateLocked a (m_registry m) = (e, r)" by fastforce
  have r: "registry_sizes (m_registry m)" using m by (simp add: manager_sizes_def)
  note G = getOrCreate_sizes [OF r g]
  have "registry_sizes (m_registry (scheduleLOD accept a path typ lod m))"
    using G r by (auto simp: scheduleLOD_def GetOrCreate_def g Let_def registry_sizes_def entry_sizes_def)
  moreover have "m_cache (scheduleLOD accept a path typ lod m) = m_cache m" by (simp add: scheduleLOD_def Let_def split: prod.splits)
  ultimately show ?thesis using manager_sizes_registry [OF m] by blast
qed

lemma enqueueWaiting_sizes: "manager_sizes (enqueueWaiting d a m) = manager_sizes m"
  by (simp add: manager_sizes_def enqueueWaiting_def)

lemma scheduleConfig_sizes: "manager_sizes m \<Longrightarrow> manager_sizes (scheduleConfig accept a path m)"
  by (auto simp: scheduleConfig_def scheduleLOD_sizes enqueueWaiting_sizes split: option.splits)

lemma fold_sizes: "(\<And>x m. manager_sizes m \<Longrightarrow> manager_sizes (f x m)) \<Longrightarrow> manager_sizes m \<Longrightarrow> manager_sizes (fold f xs m)"
  by (induction xs arbitrary: m) auto

lemma drainWaiting_sizes:
  assumes "manager_sizes m"
  shows "manager_sizes (drainWaitingForLeaf accept a m)"
proof (cases "m_depTree m")
  case (Some tree)
  let ?m = "m\<lparr>m_waiting := (m_waiting m)(a := [])\<rparr>"
  have "manager_sizes ?m" using assms by (simp add: manager_sizes_def)
  then have "manager_sizes (fold (\<lambda>c m. case tree c of None \<Rightarrow> m | Some node \<Rightarrow> scheduleConfig accept c (cn_Path node) m) (m_waiting m a) ?m)"
    by (rule fold_sizes [rotated]) (auto simp: scheduleConfig_sizes split: option.splits)
  then show ?thesis using Some by (simp add: drainWaitingForLeaf_def Let_def)
qed (use assms in \<open>simp add: drainWaitingForLeaf_def\<close>)

lemma small_sizes:
  "manager_sizes (charge_decoded a n m) = manager_sizes m" "manager_sizes (enqueueUpload admit j m) = manager_sizes m"
  "manager_sizes (snd (RequestUpload admit a lod m)) = manager_sizes m" "manager_sizes (releaseAssetReservations a m) = manager_sizes m"
  by (auto simp: manager_sizes_def charge_decoded_def enqueueUpload_def RequestUpload_def enqueue_request_def releaseAssetReservations_def
      split: sum.splits option.splits)

lemma commitJob_sizes:
  assumes "manager_sizes m"
  shows "manager_sizes (fst (commitJob accept admit j m))"
proof (cases "Get_entry (j_ID j) (m_registry m)")
  case (Some e)
  let ?e1 = "e\<lparr>LODInFlight := (LODInFlight e)[nat (j_LOD j) := False]\<rparr>"
  let ?m1 = "m\<lparr>m_registry := put_entry (j_ID j) ?e1 (m_registry m)\<rparr>"
  let ?m2 = "charge_decoded (j_ID j) (decoded_size (j_Type j) (j_Result j)) ?m1"
  have r: "registry_sizes (m_registry m)" and e: "entry_sizes e"
    using assms Some by (auto simp: manager_sizes_def registry_sizes_def Get_entry_def)
  have r1: "registry_sizes (put_entry (j_ID j) ?e1 (m_registry m))"
    by (rule registry_sizes_put [OF r, of ?e1]) (use e in \<open>simp_all add: entry_sizes_def\<close>)
  have m1: "manager_sizes ?m1" by (rule manager_sizes_registry [OF assms]) (use r1 in simp_all)
  obtain r2 calls where S: "SetLODReady (j_ID j) (j_LOD j) (j_Result j) (j_ElapsedNs j) (m_registry ?m2) = (r2, calls)" by fastforce
  have "registry_sizes (m_registry ?m2)" using r1 by simp
  from registry_sizes_ops(4) [OF this] S have "registry_sizes r2" by (metis fst_conv)
  then have m2: "manager_sizes (?m2\<lparr>m_registry := r2\<rparr>)"
    using m1 small_sizes(1) [of "j_ID j" _ ?m1] by (simp add: manager_sizes_def)
  obtain e2 failed where F: "fail_lod j ?e1 = (e2, failed)" by fastforce
  have "entry_sizes e2" using F e by (auto simp: fail_lod_def Let_def entry_sizes_def split: if_splits)
  then have rf: "registry_sizes (put_entry (j_ID j) e2 (m_registry ?m1))" by (rule registry_sizes_put [OF r1, where a = "j_ID j"]) simp
  then have mf: "manager_sizes (m\<lparr>m_registry := put_entry (j_ID j) e2 (m_registry ?m1)\<rparr>)"
    "manager_sizes (m\<lparr>m_registry := (put_entry (j_ID j) e2 (m_registry ?m1))\<lparr>globalVersion := v\<rparr>\<rparr>)" for v
    using assms by (simp_all add: manager_sizes_def registry_sizes_def)
  have ok: "manager_sizes (enqueueUpload admit j (drainWaitingForLeaf accept (j_ID j) (?m2\<lparr>m_registry := r2\<rparr>)))"
    unfolding small_sizes(2) by (rule drainWaiting_sizes [OF m2])
  show ?thesis
    using Some m1 mf ok F S by (simp add: commitJob_def Let_def)
qed (use assms in \<open>simp add: commitJob_def\<close>)

lemma commit_upload_sizes:
  assumes "manager_sizes m"
  shows "manager_sizes (snd (commit_upload u m))"
proof (cases "\<not> ur_OK u \<or> ur_TextureID u = 0")
  case False
  define b where "b = (case Get_entry (ur_AssetID u) (m_registry m) of None \<Rightarrow> 0
     | Some e \<Rightarrow> if ur_LOD u \<ge> 0 \<and> ur_LOD u < int (length (SizeBytes e)) then SizeBytes e ! nat (ur_LOD u) else 0)"
  have "b = 0"
    using assms by (auto simp: b_def manager_sizes_def registry_sizes_def entry_sizes_def Get_entry_def list_all_length split: option.splits)
  let ?m1 = "snd (with_cache (\<lambda>c. ((), trackLOD (ur_AssetID u) (ur_LOD u) b (ur_GPUBytes u) (ur_TextureID u) 0 c)) () m)"
  have m1: "manager_sizes ?m1" unfolding \<open>b = 0\<close> by (rule with_cache_sizes [OF assms]) (simp add: trackLOD_sizes)
  then have "registry_sizes (m_registry ?m1)" by (simp add: manager_sizes_def)
  then have "manager_sizes (?m1\<lparr>m_registry := SetLODGPUReady (ur_AssetID u) (ur_LOD u) (ur_TextureID u) (ur_GPUBytes u) (m_registry ?m1)\<rparr>)"
    by (intro manager_sizes_registry [OF m1]) (simp_all add: registry_sizes_ops(3))
  then show ?thesis using False by (simp add: commit_upload_def Let_def b_def)
qed (use assms in \<open>auto simp: commit_upload_def\<close>)

lemma TrimMemory_sizes: "manager_sizes m \<Longrightarrow> manager_sizes (snd (TrimMemory share order level m))"
  unfolding TrimMemory_def by (erule with_cache_sizes) (auto simp: EvictGPU_sizes Evict_sizes split: prod.split)

lemma fold_lose_sizes: "cache_sizes c \<Longrightarrow> cache_sizes (fold lose_device ks c)"
  by (induction ks arbitrary: c) (auto simp: lose_device_sizes)

lemma CheckDeviceGeneration_sizes: "cache_sizes c \<Longrightarrow> cache_sizes (snd (CheckDeviceGeneration g order c))"
proof -
  assume c: "cache_sizes c"
  then have "cache_sizes (c\<lparr>ac_deviceGeneration := g\<rparr>)" by (rule cache_sizes_cong) (simp_all add: bare_def)
  then show ?thesis using c by (simp add: CheckDeviceGeneration_def fold_lose_sizes)
qed

lemma CheckDevice_sizes: "manager_sizes m \<Longrightarrow> manager_sizes (snd (Manager_CheckDeviceGeneration g order m))"
  unfolding Manager_CheckDeviceGeneration_def by (erule with_cache_sizes) (rule CheckDeviceGeneration_sizes)

lemma Invalidate_sizes: "manager_sizes m \<Longrightarrow> manager_sizes (fst (Manager_Invalidate path m))"
proof -
  assume m: "manager_sizes m"
  let ?m1 = "releaseAssetReservations (m_idReg m path) m"
  have m1: "manager_sizes ?m1" using m small_sizes(4) by blast
  then have "registry_sizes (fst (Invalidate_asset (m_idReg m path) (m_registry ?m1)))" by (simp add: manager_sizes_def registry_sizes_ops(5))
  then show ?thesis using m m1 by (auto simp: Manager_Invalidate_def Let_def manager_sizes_def split: prod.splits)
qed

lemma loadByPath_sizes: "manager_sizes m \<Longrightarrow> manager_sizes (snd (loadByPath accept path typ m))"
  by (simp add: loadByPath_def scheduleAllLODs_def Let_def fold_sizes scheduleLOD_sizes)

lemma manager_step_sizes: "manager_step m m' \<Longrightarrow> manager_sizes m \<Longrightarrow> manager_sizes m'"
proof (induction rule: manager_step.induct)
  case (budget_step m L)
  then show ?case by (simp add: manager_sizes_def)
qed (simp_all only: loadByPath_sizes scheduleConfig_sizes commitJob_sizes Invalidate_sizes commit_upload_sizes small_sizes(3) TrimMemory_sizes CheckDevice_sizes)

lemma manager_run_sizes: "manager_step\<^sup>*\<^sup>* m m' \<Longrightarrow> manager_sizes m \<Longrightarrow> manager_sizes m'"
  by (induction rule: rtranclp_induct) (auto dest: manager_step_sizes)

section \<open>Losing the device\<close>

definition level_dropped :: "AssetID \<Rightarrow> int \<Rightarrow> ('d, 'h) AssetRegistryStore \<Rightarrow> bool" where
  "level_dropped a l r \<longleftrightarrow> (case r_entries r a of None \<Rightarrow> False | Some e \<Rightarrow> LODHandles e ! nat l = None)"

definition on_gpu :: "assetLODKey \<Rightarrow> ('d, 'h) assetCache \<Rightarrow> bool" where
  "on_gpu k c \<longleftrightarrow> (case ac_entries c k of None \<Rightarrow> False | Some x \<Rightarrow> gpu_resident (obj c x)) \<and>
     (case ac_registry c of None \<Rightarrow> False | Some r \<Rightarrow> r_entries r (fst k) \<noteq> None)"

lemma clear_keeps_entry:
  "r_entries r a \<noteq> None \<Longrightarrow> r_entries (ClearLOD b l r) a \<noteq> None" "r_entries r a \<noteq> None \<Longrightarrow> r_entries (clear_gpu b l r) a \<noteq> None"
  by (auto simp: ClearLOD_def clear_gpu_def Let_def Get_entry_def split: option.splits)

lemma list_update_None: "xs ! i = None \<Longrightarrow> xs[j := None] ! i = None"
  by (metis nth_list_update_eq nth_list_update_neq list_update_beyond linorder_not_less)

lemma clear_keeps_dropped:
  "level_dropped a l r \<Longrightarrow> level_dropped a l (ClearLOD b k r)" "level_dropped a l r \<Longrightarrow> level_dropped a l (clear_gpu b k r)"
  by (auto simp: level_dropped_def ClearLOD_def clear_gpu_def Let_def Get_entry_def list_update_None split: option.splits)

lemma ClearLOD_drops:
  "r_entries r a = Some e \<Longrightarrow> entry_sizes e \<Longrightarrow> valid_lod l \<Longrightarrow> level_dropped a l (ClearLOD a l r)"
  by (auto simp: level_dropped_def ClearLOD_def Let_def entry_sizes_def valid_lod_def)

lemma lose_registry:
  "ac_registry (lose_device k c) =
     (case ac_entries c k of
        None \<Rightarrow> ac_registry c
      | Some x \<Rightarrow> if \<not> gpu_resident (obj c x) then ac_registry c
                  else map_option ((if ce_sizeBytes (obj c x) > 0 then clear_gpu else ClearLOD) (ce_assetID (obj c x)) (ce_lod (obj c x))) (ac_registry c))"
  by (simp add: lose_device_def drop_gpu_def set_obj_def FreeTexture_def Let_def split: option.splits)

lemma lose_keeps_dropped:
  "ac_registry c = Some r \<Longrightarrow> level_dropped a l r \<Longrightarrow> \<exists>r'. ac_registry (lose_device k c) = Some r' \<and> level_dropped a l r'"
  by (auto simp: lose_registry clear_keeps_dropped split: option.splits)

lemma tracked_fields:
  assumes "cache_sizes c" "ac_entries c k = Some x"
  shows "x < length (ac_objects c)" "ce_assetID (obj c x) = fst k" "ce_lod (obj c x) = snd k" "ce_sizeBytes (obj c x) = 0"
proof -
  have x: "x < length (bare c)" "lod_key (bare c ! x) = k" using assms unfolding cache_sizes_def by blast+
  moreover have "ce_sizeBytes (bare c ! x) = 0" using assms(1) nth_mem [OF x(1)] by (simp add: cache_sizes_def)
  ultimately show "x < length (ac_objects c)" "ce_assetID (obj c x) = fst k" "ce_lod (obj c x) = snd k" "ce_sizeBytes (obj c x) = 0"
    using bare_nth [OF x(1)] by (auto simp: lod_key_def bare_def)
qed

lemma lose_hit:
  assumes "cache_sizes c" "on_gpu (a, l) c" "valid_lod l"
  shows "\<exists>r'. ac_registry (lose_device (a, l) c) = Some r' \<and> level_dropped a l r'"
proof -
  obtain x r e where *: "ac_entries c (a, l) = Some x" "gpu_resident (obj c x)" "ac_registry c = Some r" "r_entries r a = Some e"
    using assms(2) by (auto simp: on_gpu_def split: option.splits)
  have "entry_sizes e" using assms(1) * by (simp add: cache_sizes_def registry_sizes_def)
  then show ?thesis
    using * tracked_fields [OF assms(1) *(1)] ClearLOD_drops [OF *(4) _ assms(3)] by (simp add: lose_registry)
qed

lemma lose_other:
  assumes "cache_sizes c" "on_gpu k c" "k' \<noteq> k"
  shows "on_gpu k (lose_device k' c)"
proof -
  obtain x r where *: "ac_entries c k = Some x" "gpu_resident (obj c x)" "ac_registry c = Some r" "r_entries r (fst k) \<noteq> None"
    using assms(2) by (auto simp: on_gpu_def split: option.splits)
  have e: "ac_entries (lose_device k' c) k = Some x"
    using * assms(3) by (auto simp: lose_device_def drop_gpu_def set_obj_def FreeTexture_def Let_def split: option.splits)
  have o: "obj (lose_device k' c) x = obj c x"
  proof (cases "ac_entries c k'")
    case (Some y)
    have "y \<noteq> x" using tracked_fields(2,3) [OF assms(1) Some] tracked_fields(2,3) [OF assms(1) *(1)] assms(3) by (auto simp: prod_eq_iff)
    then show ?thesis using Some by (simp add: lose_device_def drop_gpu_def set_obj_def FreeTexture_def Let_def split: option.splits)
  qed (simp add: lose_device_def)
  have "\<exists>r'. ac_registry (lose_device k' c) = Some r' \<and> r_entries r' (fst k) \<noteq> None"
    using *(3,4) clear_keeps_entry [OF *(4)] by (auto simp: lose_registry split: option.split)
  then show ?thesis using * e o by (auto simp: on_gpu_def)
qed

lemma fold_lose_keeps_dropped:
  "ac_registry c = Some r \<Longrightarrow> level_dropped a l r \<Longrightarrow> \<exists>r'. ac_registry (fold lose_device ks c) = Some r' \<and> level_dropped a l r'"
proof (induction ks arbitrary: c r)
  case (Cons k ks)
  then show ?case using lose_keeps_dropped [OF Cons(2,3), of k] by auto
qed simp

lemma fold_lose_drops:
  "cache_sizes c \<Longrightarrow> on_gpu (a, l) c \<Longrightarrow> valid_lod l \<Longrightarrow> (a, l) \<in> set ks \<Longrightarrow>
   \<exists>r'. ac_registry (fold lose_device ks c) = Some r' \<and> level_dropped a l r'"
proof (induction ks arbitrary: c)
  case (Cons k ks)
  show ?case
  proof (cases "k = (a, l)")
    case True
    then show ?thesis using lose_hit [OF Cons(2-4)] fold_lose_keeps_dropped by fastforce
  next
    case False
    have "(a, l) \<in> set ks" using Cons(5) False by auto
    from Cons(1) [OF lose_device_sizes [OF Cons(2)] lose_other [OF Cons(2,3) False] Cons(4) this] show ?thesis by simp
  qed
qed simp

lemma note_size_registry:
  assumes "ac_registry c = Some r"
  shows "\<exists>r'. ac_registry (note_size a lod s lu c) = Some r' \<and> r_entries r' a \<noteq> None"
proof -
  obtain e r1 where "getOrCreateLocked a r = (e, r1)" by fastforce
  then show ?thesis using assms by (auto simp: note_size_def GetOrCreate_def getOrCreateLocked_def Let_def split: option.splits if_splits)
qed

lemma trackLOD_on_gpu:
  assumes "cache_sizes c" "ac_registry c = Some r" "t \<noteq> 0"
  shows "on_gpu (a, lod) (trackLOD a lod s g t lu c)"
proof -
  have bare_gpu: "gpu_resident (obj d x)" if "x < length (bare d)" "ce_textureID (bare d ! x) \<noteq> 0" for d :: "('a, 'b) assetCache" and x
    using that bare_nth [OF that(1)] by (simp add: gpu_resident_def)
  have *: "on_gpu (a, lod) (note_size a lod s lu d)"
    if "ac_registry d = Some r" "ac_entries d (a, lod) = Some x" "gpu_resident (obj d x)" for d :: "('a, 'b) assetCache" and x
  proof -
    have "ac_entries (note_size a lod s lu d) = ac_entries d" "ac_objects (note_size a lod s lu d) = ac_objects d"
      by (simp_all add: note_size_def split: option.splits prod.splits if_splits)
    then show ?thesis using that note_size_registry [OF that(1), of a lod s lu] by (auto simp: on_gpu_def)
  qed
  show ?thesis
  proof (cases "ac_entries c (a, lod)")
    case None
    let ?e = "\<lparr>ce_assetID = a, ce_lod = lod, ce_lastUse = lu, ce_sizeBytes = s, ce_gpuBytes = g, ce_textureID = t, ce_index = 0\<rparr>"
    let ?x = "length (ac_objects c)"
    let ?c1 = "c\<lparr>ac_objects := ac_objects c @ [?e], ac_entries := (ac_entries c)((a, lod) \<mapsto> ?x),
       ac_usedBytes := wrap_int (ac_usedBytes c + s), ac_gpuUsed := wrap_int (ac_gpuUsed c + g)\<rparr>"
    let ?d = "push_entry_heap ?x ?c1"
    have d: "cache_data ?d = cache_data ?c1" by simp
    have "bare ?d = bare c @ [?e]" "length (bare c) = ?x" using data_bare [OF d] by (simp_all add: bare_def)
    then have "gpu_resident (obj ?d ?x)" using assms(3) by (intro bare_gpu) (simp_all add: nth_append)
    moreover have "ac_registry ?d = Some r" "ac_entries ?d (a, lod) = Some ?x"
      using assms(2) data_fields(2) [OF d] data_fields(8) [OF d] by simp_all
    ultimately show ?thesis using * [of ?d ?x] None by (simp add: trackLOD_def Let_def)
  next
    case (Some x)
    let ?o = "obj c x"
    let ?c1 = "c\<lparr>ac_usedBytes := wrap_int (wrap_int (ac_usedBytes c - ce_sizeBytes ?o) + s), ac_gpuUsed := wrap_int (wrap_int (ac_gpuUsed c - ce_gpuBytes ?o) + g)\<rparr>"
    let ?e = "?o\<lparr>ce_lastUse := lu, ce_sizeBytes := s, ce_gpuBytes := g, ce_textureID := t\<rparr>"
    let ?d = "fix_entry_heap (ce_index ?o) (set_obj x ?e ?c1)"
    have d: "cache_data ?d = cache_data (set_obj x ?e ?c1)" by simp
    have x: "x < length (bare c)" using tracked_fields(1) [OF assms(1) Some] by (simp add: bare_def)
    have "bare ?d = (bare c)[x := ?e\<lparr>ce_index := 0\<rparr>]" using data_bare [OF d] by (simp add: bare_set_obj)
    then have "gpu_resident (obj ?d x)" using assms(3) x by (intro bare_gpu) simp_all
    moreover have "ac_registry ?d = Some r" "ac_entries ?d (a, lod) = Some x"
      using assms(2) Some data_fields(2) [OF d] data_fields(8) [OF d] by (simp_all add: set_obj_def)
    ultimately show ?thesis using * [of ?d x] Some by (simp add: trackLOD_def Let_def)
  qed
qed

lemma SetLODGPUReady_keeps: "r_entries r a \<noteq> None \<Longrightarrow> r_entries (SetLODGPUReady b l t g r) a \<noteq> None"
  by (auto simp: SetLODGPUReady_def Get_entry_def Let_def split: option.splits)

lemma fresh_sizes:
  "m_registry m = NewAssetRegistryStore \<Longrightarrow> m_cache m = Some (newAssetCache reg backend b g) \<Longrightarrow> manager_sizes m"
  by (simp add: manager_sizes_def registry_sizes_def cache_sizes_def NewAssetRegistryStore_def newAssetCache_def bare_def)

text \<open>After an upload has been committed its level is on the device, in a cache that shares the registry.\<close>

lemma commit_upload_on_gpu:
  assumes "manager_sizes m" "ur_OK u" "ur_TextureID u \<noteq> 0" "m_cache (snd (commit_upload u m)) = Some c"
  shows "on_gpu (ur_AssetID u, ur_LOD u) (c\<lparr>ac_registry := Some (m_registry (snd (commit_upload u m)))\<rparr>)"
proof -
  let ?a = "ur_AssetID u" and ?l = "ur_LOD u" and ?r = "m_registry m"
  define b where "b = (case Get_entry ?a ?r of None \<Rightarrow> 0 | Some e \<Rightarrow> if ?l \<ge> 0 \<and> ?l < int (length (SizeBytes e)) then SizeBytes e ! nat ?l else 0)"
  have "m_cache m \<noteq> None" using assms(2-4) by (auto simp: commit_upload_def with_cache_def Let_def split: option.splits)
  then obtain c0 where c0: "m_cache m = Some c0" by blast
  let ?c0 = "c0\<lparr>ac_registry := Some ?r\<rparr>"
  have s: "cache_sizes ?c0" using assms(1) c0 by (simp add: manager_sizes_def cache_sizes_shared)
  let ?t = "trackLOD ?a ?l b (ur_GPUBytes u) (ur_TextureID u) 0 ?c0"
  have "on_gpu (?a, ?l) ?t" by (rule trackLOD_on_gpu [OF s _ assms(3)]) simp
  then obtain x r where t: "ac_entries ?t (?a, ?l) = Some x" "gpu_resident (obj ?t x)" "ac_registry ?t = Some r" "r_entries r ?a \<noteq> None"
    by (auto simp: on_gpu_def split: option.splits)
  have "snd (commit_upload u m) = m\<lparr>m_cache := Some ?t, m_registry := SetLODGPUReady ?a ?l (ur_TextureID u) (ur_GPUBytes u) r\<rparr>"
    using assms(2,3) c0 t(3) by (simp add: commit_upload_def with_cache_def Let_def b_def)
  then show ?thesis using assms(4) t SetLODGPUReady_keeps [OF t(4)] by (auto simp: on_gpu_def)
qed

text \<open>
  A lost device takes the decoded data with it. The size of the decoded data is not written to
  the registry, so every entry of the cache has size zero and counts as \<open>GPU-only\<close>; in every run
  of the manager, a level whose upload has just been committed has lost its decoded data after the
  device generation has changed, although the data did not depend on the device.
\<close>

theorem device_loss_drops_decoded:
  assumes "manager_step\<^sup>*\<^sup>* m0 m" and "m_registry m0 = NewAssetRegistryStore" and "m_cache m0 = Some (newAssetCache reg backend b gb)"
    and "ur_OK u" and "ur_TextureID u \<noteq> 0" and "valid_lod (ur_LOD u)"
    and "m_cache (snd (commit_upload u m)) = Some c" and "ac_deviceGeneration c \<noteq> g" and "(ur_AssetID u, ur_LOD u) \<in> set order"
  shows "\<exists>e. r_entries (m_registry (snd (Manager_CheckDeviceGeneration g order (snd (commit_upload u m))))) (ur_AssetID u) = Some e \<and>
    LODHandles e ! nat (ur_LOD u) = None"
proof -
  let ?m = "snd (commit_upload u m)"
  let ?c = "c\<lparr>ac_registry := Some (m_registry ?m)\<rparr>"
  have m: "manager_sizes m" by (rule manager_run_sizes [OF assms(1) fresh_sizes [OF assms(2,3)]])
  have "manager_sizes ?m" by (rule commit_upload_sizes [OF m])
  then have c: "cache_sizes ?c" using assms(7) by (simp add: manager_sizes_def cache_sizes_shared)
  have g: "on_gpu (ur_AssetID u, ur_LOD u) ?c" by (rule commit_upload_on_gpu [OF m assms(4,5,7)])
  let ?g = "?c\<lparr>ac_deviceGeneration := g\<rparr>"
  have "cache_sizes ?g" by (rule cache_sizes_cong [OF c]) (simp_all add: bare_def)
  moreover have "on_gpu (ur_AssetID u, ur_LOD u) ?g" using g by (simp add: on_gpu_def split: option.splits)
  ultimately obtain r where "ac_registry (fold lose_device order ?g) = Some r" "level_dropped (ur_AssetID u) (ur_LOD u) r"
    using fold_lose_drops [OF _ _ assms(6,9)] by blast
  then show ?thesis
    using assms(7,8) by (auto simp: Manager_CheckDeviceGeneration_def with_cache_def CheckDeviceGeneration_def level_dropped_def split: option.splits)
qed

definition sample_upload :: TextureUploadResult where
  "sample_upload = \<lparr>ur_AssetID = sample_id 2, ur_LOD = 0, ur_TextureID = 9, ur_GPUBytes = 16, ur_OK = True\<rparr>"

definition sample_shown :: "(nat, nat) ManagerImpl" where
  "sample_shown = fst (commitJob (\<lambda>_. True) (\<lambda>_. True) (finished_job [7] (m_scheduled sample_loading ! 2)) sample_loading)"

definition cache_generation :: "(nat, nat) ManagerImpl \<Rightarrow> u64" where
  "cache_generation m = (case m_cache m of None \<Rightarrow> 0 | Some c \<Rightarrow> ac_deviceGeneration c)"

text \<open>The level 0 of an image is decoded and uploaded, then the device is lost.\<close>

theorem device_loss_drops_decoded_witness:
  "loaded_handles (sample_id 2) (snd (commit_upload sample_upload sample_shown)) = [Some (DecodedImageLOD [7] 1 1), None, None] \<and>
   hd (loaded_handles (sample_id 2) (snd (Manager_CheckDeviceGeneration 3 [(sample_id 2, 0)] (snd (commit_upload sample_upload sample_shown))))) = None"
proof -
  have 1: "loaded_handles (sample_id 2) (snd (commit_upload sample_upload sample_shown)) = [Some (DecodedImageLOD [7] 1 1), None, None]"
    by code_simp
  have r: "manager_step\<^sup>*\<^sup>* sample_manager sample_shown"
    unfolding sample_shown_def sample_loading_def by (meson r_into_rtranclp rtranclp.rtrancl_into_rtrancl load_step commit_step)
  have n: "m_cache (snd (commit_upload sample_upload sample_shown)) \<noteq> None" "cache_generation (snd (commit_upload sample_upload sample_shown)) = 0"
    by code_simp+
  then obtain c where c: "m_cache (snd (commit_upload sample_upload sample_shown)) = Some c" "ac_deviceGeneration c = 0"
    by (auto simp: cache_generation_def)
  have "\<exists>e. r_entries (m_registry (snd (Manager_CheckDeviceGeneration 3 [(sample_id 2, 0)] (snd (commit_upload sample_upload sample_shown))))) (sample_id 2) = Some e \<and>
    LODHandles e ! 0 = None"
    using device_loss_drops_decoded [OF r, of None "Some []" 1000 500 sample_upload c 3 "[(sample_id 2, 0)]"] c
    by (simp add: sample_manager_def sample_upload_def valid_lod_def)
  moreover have "length (loaded_handles (sample_id 2) (snd (Manager_CheckDeviceGeneration 3 [(sample_id 2, 0)] (snd (commit_upload sample_upload sample_shown))))) = 3"
    by code_simp
  ultimately show ?thesis using 1 by (auto simp: loaded_handles_def length_Suc_conv numeral_3_eq_3)
qed

end
