(* ===== verification/Facet_Tree.thy ===== *)
theory Facet_Tree
  imports Prelude "HOL-Library.Multiset"
begin

text \<open>
  Facets and their lifecycle: the tree and state of \<^verbatim>\<open>src/facet/facet.go\<close>, the transitions of
  \<^verbatim>\<open>src/facet/transition.go\<close>, author identities (\<^verbatim>\<open>src/facet/testid.go\<close>, \<^verbatim>\<open>src/runtime/testids.go\<close>) and the
  states and flags of \<^verbatim>\<open>src/facet/lifecycle.go\<close>. A facet is an address in the heap; its concrete
  implementation is named by the same address. Lifecycle hooks, role callbacks and the callbacks
  of the attach context are calls that are logged; the hooks of an implementation are an argument
  that may change the world and may panic. A loop that does not end has no result (\<^term>\<open>None\<close>).
\<close>

unbundle bit_operations_syntax

section \<open>Data\<close>

type_synonym FacetID = u64

datatype LifecycleState = StateCreated | StateAttached | StateActive | StateInactive | StateDisposed

fun LifecycleState_String :: "LifecycleState \<Rightarrow> string" where
  "LifecycleState_String StateCreated = ''StateCreated''"
| "LifecycleState_String StateAttached = ''StateAttached''"
| "LifecycleState_String StateActive = ''StateActive''"
| "LifecycleState_String StateInactive = ''StateInactive''"
| "LifecycleState_String StateDisposed = ''StateDisposed''"

type_synonym DirtyFlags = u8

definition DirtyLayout :: DirtyFlags where "DirtyLayout = 1"
definition DirtyProjection :: DirtyFlags where "DirtyProjection = 2"
definition DirtyHit :: DirtyFlags where "DirtyHit = 4"
definition DirtyAll :: DirtyFlags where "DirtyAll = DirtyLayout OR DirtyProjection OR DirtyHit"

record Facet =
  fb_id :: FacetID
  fb_state :: LifecycleState
  fb_testID :: string
  fb_registry :: bool
  fb_parent :: "nat option"
  fb_children :: "nat list"
  fb_roles :: "nat list"
  fb_onDisposed :: bool
  fb_onInvalidated :: bool
  fb_dirtyLayout :: bool
  fb_dirtyProjection :: bool
  fb_dirtyHit :: bool
  fb_lastInvalidatedBy :: string

datatype facet_event =
    RoleAttached nat nat
  | OnAttach nat string
  | RoleActivated nat nat
  | OnActivate nat
  | RoleDeactivated nat nat
  | OnDeactivate nat
  | RoleDisposed nat nat
  | OnDetach nat
  | ResourcesReleased nat
  | FacetDisposed FacetID
  | FacetTreeAttached nat
  | FacetInvalidated FacetID DirtyFlags string

record facet_world =
  fw_heap :: "Facet list"
  fw_idSource :: FacetID
  fw_liveTestIDs :: "string \<Rightarrow> (FacetID \<times> string) option"
  fw_log :: "facet_event list"

datatype facet_panic =
    AfterAttach
  | OwnChild
  | WouldCycle
  | HasParent
  | ParentDisposed
  | ChildNotCreated
  | NotAChild
  | AfterDispose
  | DuplicateRole
  | DuplicateTestID string FacetID FacetID
  | InvalidTransition LifecycleState LifecycleState
  | HookPanic

datatype facet_outcome = Returned | Panicked facet_panic

type_synonym facet_hooks = "facet_event \<Rightarrow> facet_world \<Rightarrow> bool \<times> facet_world"

abbreviation fac :: "facet_world \<Rightarrow> nat \<Rightarrow> Facet" where
  "fac w a \<equiv> fw_heap w ! a"

definition upd_fac :: "nat \<Rightarrow> (Facet \<Rightarrow> Facet) \<Rightarrow> facet_world \<Rightarrow> facet_world" where
  "upd_fac a f w = w\<lparr>fw_heap := (fw_heap w)[a := f (fac w a)]\<rparr>"

definition log_event :: "facet_event \<Rightarrow> facet_world \<Rightarrow> facet_world" where
  "log_event ev w = w\<lparr>fw_log := fw_log w @ [ev]\<rparr>"

definition call_hook :: "facet_hooks \<Rightarrow> facet_event \<Rightarrow> facet_world \<Rightarrow> bool \<times> facet_world" where
  "call_hook hk ev w = hk ev (log_event ev w)"

text \<open>A flag set with no known flag has no name: the code indexes an empty list.\<close>

definition DirtyFlags_String :: "DirtyFlags \<Rightarrow> string option" where
  "DirtyFlags_String d =
     (if d = 0 then Some ''0''
      else let parts = (if d AND DirtyLayout \<noteq> 0 then [''DirtyLayout''] else []) @
                 (if d AND DirtyProjection \<noteq> 0 then [''DirtyProjection''] else []) @
                 (if d AND DirtyHit \<noteq> 0 then [''DirtyHit''] else [])
           in (case parts of
                 [] \<Rightarrow> None
               | [p] \<Rightarrow> Some p
               | p # ps \<Rightarrow> Some (fold (\<lambda>q out. out @ ''|'' @ q) ps p)))"

section \<open>Building the tree\<close>

definition NewFacet :: "facet_world \<Rightarrow> nat \<times> facet_world" where
  "NewFacet w =
     (let i = fw_idSource w + 1;
          f = \<lparr>fb_id = i, fb_state = StateCreated, fb_testID = '''', fb_registry = False, fb_parent = None, fb_children = [], fb_roles = [],
               fb_onDisposed = False, fb_onInvalidated = False, fb_dirtyLayout = False, fb_dirtyProjection = False, fb_dirtyHit = False,
               fb_lastInvalidatedBy = ''''\<rparr>
      in (length (fw_heap w), w\<lparr>fw_heap := fw_heap w @ [f], fw_idSource := i\<rparr>))"

text \<open>The walk up the parents: does some facet from here to the root satisfy the test?\<close>

partial_function (option) climb :: "Facet list \<Rightarrow> (nat \<Rightarrow> bool) \<Rightarrow> nat option \<Rightarrow> bool option" where
  "climb H P p = (case p of None \<Rightarrow> Some False | Some a \<Rightarrow> if P a then Some True else climb H P (fb_parent (H ! a)))"

declare climb.simps [code]

definition adopt :: "nat \<Rightarrow> nat \<Rightarrow> facet_world \<Rightarrow> facet_world" where
  "adopt f child w = upd_fac f (\<lambda>x. x\<lparr>fb_children := fb_children x @ [child]\<rparr>) (upd_fac child (\<lambda>x. x\<lparr>fb_parent := Some f\<rparr>) w)"

definition AddChild :: "nat \<Rightarrow> nat \<Rightarrow> facet_world \<Rightarrow> (facet_outcome \<times> facet_world) option" where
  "AddChild f child w =
     (if fb_state (fac w f) \<noteq> StateCreated then Some (Panicked AfterAttach, w)
      else if child = f then Some (Panicked OwnChild, w)
      else (case climb (fw_heap w) (\<lambda>p. p = child) (Some f) of
              None \<Rightarrow> None
            | Some True \<Rightarrow> Some (Panicked WouldCycle, w)
            | Some False \<Rightarrow>
                if fb_parent (fac w child) \<noteq> None then Some (Panicked HasParent, w)
                else Some (Returned, adopt f child w)))"

definition AddChildRuntime :: "nat \<Rightarrow> nat \<Rightarrow> facet_world \<Rightarrow> (facet_outcome \<times> facet_world) option" where
  "AddChildRuntime f child w =
     (if fb_state (fac w f) = StateDisposed then Some (Panicked ParentDisposed, w)
      else if child = f then Some (Panicked OwnChild, w)
      else (case climb (fw_heap w) (\<lambda>p. p = child) (Some f) of
              None \<Rightarrow> None
            | Some True \<Rightarrow> Some (Panicked WouldCycle, w)
            | Some False \<Rightarrow>
                if fb_parent (fac w child) \<noteq> None then Some (Panicked HasParent, w)
                else if fb_state (fac w child) \<noteq> StateCreated then Some (Panicked ChildNotCreated, w)
                else Some (Returned, adopt f child w)))"

definition AddRole :: "nat \<Rightarrow> nat \<Rightarrow> facet_world \<Rightarrow> facet_outcome \<times> facet_world" where
  "AddRole f r w =
     (if fb_state (fac w f) \<noteq> StateCreated then (Panicked AfterAttach, w)
      else if r \<in> set (fb_roles (fac w f)) then (Panicked DuplicateRole, w)
      else (Returned, upd_fac f (\<lambda>x. x\<lparr>fb_roles := fb_roles x @ [r]\<rparr>) w))"

definition SetTestID :: "nat \<Rightarrow> string \<Rightarrow> facet_world \<Rightarrow> facet_outcome \<times> facet_world" where
  "SetTestID f t w =
     (if fb_state (fac w f) \<noteq> StateCreated then (Panicked AfterAttach, w)
      else (Returned, upd_fac f (\<lambda>x. x\<lparr>fb_testID := t\<rparr>) w))"

section \<open>Dirty flags\<close>

definition DirtyFlags_of :: "Facet \<Rightarrow> DirtyFlags" where
  "DirtyFlags_of x =
     (if fb_dirtyLayout x then DirtyLayout else 0) OR (if fb_dirtyProjection x then DirtyProjection else 0) OR
     (if fb_dirtyHit x then DirtyHit else 0)"

definition has_flag :: "DirtyFlags \<Rightarrow> DirtyFlags \<Rightarrow> bool" where
  "has_flag flags d \<longleftrightarrow> flags AND d \<noteq> 0"

definition InvalidateWithSource :: "nat \<Rightarrow> DirtyFlags \<Rightarrow> string \<Rightarrow> facet_world \<Rightarrow> facet_outcome \<times> facet_world" where
  "InvalidateWithSource f flags source w =
     (if fb_state (fac w f) = StateDisposed then (Panicked AfterDispose, w)
      else let w1 = upd_fac f (\<lambda>x. x\<lparr>fb_dirtyLayout := fb_dirtyLayout x \<or> has_flag flags DirtyLayout,
                       fb_dirtyProjection := fb_dirtyProjection x \<or> has_flag flags DirtyProjection,
                       fb_dirtyHit := fb_dirtyHit x \<or> has_flag flags DirtyHit,
                       fb_lastInvalidatedBy := (if source \<noteq> '''' then source else fb_lastInvalidatedBy x)\<rparr>) w
           in (Returned, if fb_onInvalidated (fac w1 f) \<and> flags \<noteq> 0 then log_event (FacetInvalidated (fb_id (fac w1 f)) flags source) w1 else w1))"

definition Invalidate_facet :: "nat \<Rightarrow> DirtyFlags \<Rightarrow> facet_world \<Rightarrow> facet_outcome \<times> facet_world" where
  "Invalidate_facet f flags w = InvalidateWithSource f flags '''' w"

definition ClearDirty :: "nat \<Rightarrow> DirtyFlags \<Rightarrow> facet_world \<Rightarrow> facet_outcome \<times> facet_world" where
  "ClearDirty f flags w =
     (if fb_state (fac w f) = StateDisposed then (Panicked AfterDispose, w)
      else (Returned, upd_fac f (\<lambda>x.
              let l = fb_dirtyLayout x \<and> \<not> has_flag flags DirtyLayout; p = fb_dirtyProjection x \<and> \<not> has_flag flags DirtyProjection;
                  h = fb_dirtyHit x \<and> \<not> has_flag flags DirtyHit
              in x\<lparr>fb_dirtyLayout := l, fb_dirtyProjection := p, fb_dirtyHit := h,
                   fb_lastInvalidatedBy := (if \<not> l \<and> \<not> p \<and> \<not> h then '''' else fb_lastInvalidatedBy x)\<rparr>) w))"

section \<open>Author identities\<close>

definition registerTestID :: "nat \<Rightarrow> string \<Rightarrow> facet_world \<Rightarrow> facet_outcome \<times> facet_world" where
  "registerTestID f ctx w =
     (let t = fb_testID (fac w f); i = fb_id (fac w f) in
      if t = '''' \<or> \<not> fb_registry (fac w f) then (Returned, w)
      else (case fw_liveTestIDs w t of
              Some (j, _) \<Rightarrow> (Panicked (DuplicateTestID t j i), w)
            | None \<Rightarrow> (Returned, w\<lparr>fw_liveTestIDs := (fw_liveTestIDs w)(t \<mapsto> (i, ctx))\<rparr>)))"

definition Release_testID :: "string \<Rightarrow> FacetID \<Rightarrow> facet_world \<Rightarrow> facet_world" where
  "Release_testID t i w =
     (case fw_liveTestIDs w t of
        Some (j, _) \<Rightarrow> if j = i then w\<lparr>fw_liveTestIDs := (fw_liveTestIDs w)(t := None)\<rparr> else w
      | None \<Rightarrow> w)"

definition releaseTestID :: "nat \<Rightarrow> facet_world \<Rightarrow> facet_world" where
  "releaseTestID f w =
     (if fb_testID (fac w f) = '''' \<or> \<not> fb_registry (fac w f) then w
      else Release_testID (fb_testID (fac w f)) (fb_id (fac w f)) w)"

definition FacetIDForTestID :: "string \<Rightarrow> facet_world \<Rightarrow> FacetID" where
  "FacetIDForTestID t w = (case fw_liveTestIDs w t of Some (i, _) \<Rightarrow> i | None \<Rightarrow> 0)"

section \<open>Transitions\<close>

definition log_roles :: "(nat \<Rightarrow> nat \<Rightarrow> facet_event) \<Rightarrow> nat \<Rightarrow> facet_world \<Rightarrow> facet_world" where
  "log_roles ev f w = fold (\<lambda>r. log_event (ev r f)) (fb_roles (fac w f)) w"

definition set_state :: "LifecycleState \<Rightarrow> nat \<Rightarrow> facet_world \<Rightarrow> facet_world" where
  "set_state s f w = upd_fac f (\<lambda>x. x\<lparr>fb_state := s\<rparr>) w"

text \<open>The identity of a facet in the context of its parent.\<close>

definition attach_context :: "string \<Rightarrow> Facet \<Rightarrow> string" where
  "attach_context ctx x =
     ctx @ ''/'' @ (if fb_testID x = '''' then ''facet#'' @ FormatUint (unat (fb_id x)) else fb_testID x)"

text \<open>One round of the loop of \<^verbatim>\<open>Attach\<close>; the facet is already hooked when its transition fails.\<close>

definition attach_one :: "facet_hooks \<Rightarrow> nat \<Rightarrow> string \<Rightarrow> facet_world \<Rightarrow> facet_outcome \<times> facet_world" where
  "attach_one hk f ctx w =
     (let w1 = log_roles RoleAttached f (upd_fac f (\<lambda>x. x\<lparr>fb_onDisposed := True, fb_onInvalidated := True, fb_registry := True\<rparr>) w);
          c = attach_context ctx (fac w1 f); (ok, w2) = call_hook hk (OnAttach f c) w1
      in if \<not> ok then (Panicked HookPanic, w2)
         else (case registerTestID f c w2 of
                 (Panicked e, w3) \<Rightarrow> (Panicked e, w3)
               | (Returned, w3) \<Rightarrow> (Returned, set_state StateAttached f w3)))"

partial_function (option) attach_loop :: "facet_hooks \<Rightarrow> (nat \<times> string) list \<Rightarrow> nat list \<Rightarrow> nat list \<Rightarrow> facet_world \<Rightarrow>
    (facet_outcome \<times> nat list \<times> nat list \<times> facet_world) option" where
  "attach_loop hk stack hooked attached w =
     (case stack of
        [] \<Rightarrow> Some (Returned, hooked, attached, w)
      | (f, ctx) # rest \<Rightarrow>
          if fb_state (fac w f) \<noteq> StateCreated
          then Some (Panicked (InvalidTransition (fb_state (fac w f)) StateAttached), hooked, attached, w)
          else if fst (attach_one hk f ctx w) \<noteq> Returned
          then Some (fst (attach_one hk f ctx w), hooked @ [f], attached, snd (attach_one hk f ctx w))
          else attach_loop hk
                 (map (\<lambda>c. (c, attach_context ctx (fac w f))) (fb_children (fac (snd (attach_one hk f ctx w)) f)) @ rest)
                 (hooked @ [f]) (attached @ [f]) (snd (attach_one hk f ctx w)))"

declare attach_loop.simps [code]

text \<open>What a panicking \<^verbatim>\<open>Attach\<close> takes back.\<close>

definition unhook :: "nat \<Rightarrow> facet_world \<Rightarrow> facet_world" where
  "unhook f w = upd_fac f (\<lambda>x. x\<lparr>fb_onDisposed := False, fb_onInvalidated := False\<rparr>) w"

definition unregister :: "nat \<Rightarrow> facet_world \<Rightarrow> facet_world" where
  "unregister f w = upd_fac f (\<lambda>x. x\<lparr>fb_registry := False\<rparr>) (releaseTestID f w)"

definition rollback :: "nat list \<Rightarrow> nat list \<Rightarrow> facet_world \<Rightarrow> facet_world" where
  "rollback hooked attached w = fold unregister (rev attached) (fold unhook (rev hooked) w)"

definition Attach_facet :: "facet_hooks \<Rightarrow> nat \<Rightarrow> string \<Rightarrow> facet_world \<Rightarrow> (facet_outcome \<times> facet_world) option" where
  "Attach_facet hk f identity w =
     (case attach_loop hk [(f, if identity = '''' then ''runtime'' else identity)] [] [] w of
        None \<Rightarrow> None
      | Some (Panicked e, hooked, attached, w1) \<Rightarrow> Some (Panicked e, rollback hooked attached w1)
      | Some (Returned, hooked, attached, w1) \<Rightarrow>
          (let (ok, w2) = call_hook hk (FacetTreeAttached f) w1
           in Some (if ok then (Returned, w2) else (Panicked HookPanic, rollback hooked attached w2))))"

definition activate_one :: "facet_hooks \<Rightarrow> nat \<Rightarrow> facet_world \<Rightarrow> bool \<times> facet_world" where
  "activate_one hk f w =
     (let (ok, w1) = call_hook hk (OnActivate f) (log_roles RoleActivated f w)
      in if ok then (True, set_state StateActive f w1) else (False, w1))"

partial_function (option) activate_loop :: "facet_hooks \<Rightarrow> nat list \<Rightarrow> facet_world \<Rightarrow> (facet_outcome \<times> facet_world) option" where
  "activate_loop hk stack w =
     (case stack of
        [] \<Rightarrow> Some (Returned, w)
      | f # rest \<Rightarrow>
          if fb_state (fac w f) \<noteq> StateAttached \<and> fb_state (fac w f) \<noteq> StateInactive
          then Some (Panicked (InvalidTransition (fb_state (fac w f)) StateActive), w)
          else if \<not> fst (activate_one hk f w) then Some (Panicked HookPanic, snd (activate_one hk f w))
          else activate_loop hk (fb_children (fac (snd (activate_one hk f w)) f) @ rest) (snd (activate_one hk f w)))"

declare activate_loop.simps [code]

definition Activate :: "facet_hooks \<Rightarrow> nat \<Rightarrow> facet_world \<Rightarrow> (facet_outcome \<times> facet_world) option" where
  "Activate hk f w = activate_loop hk [f] w"

definition deactivate_one :: "facet_hooks \<Rightarrow> nat \<Rightarrow> facet_world \<Rightarrow> bool \<times> facet_world" where
  "deactivate_one hk f w =
     (let (ok, w1) = call_hook hk (OnDeactivate f) (log_roles RoleDeactivated f w)
      in if ok then (True, set_state StateInactive f w1) else (False, w1))"

partial_function (option) deactivate_loop :: "facet_hooks \<Rightarrow> nat list \<Rightarrow> facet_world \<Rightarrow> (facet_outcome \<times> facet_world) option" where
  "deactivate_loop hk stack w =
     (case stack of
        [] \<Rightarrow> Some (Returned, w)
      | f # rest \<Rightarrow>
          if fb_state (fac w f) \<noteq> StateActive
          then Some (Panicked (InvalidTransition (fb_state (fac w f)) StateInactive), w)
          else if \<not> fst (deactivate_one hk f w) then Some (Panicked HookPanic, snd (deactivate_one hk f w))
          else deactivate_loop hk (fb_children (fac (snd (deactivate_one hk f w)) f) @ rest) (snd (deactivate_one hk f w)))"

declare deactivate_loop.simps [code]

definition Deactivate :: "facet_hooks \<Rightarrow> nat \<Rightarrow> facet_world \<Rightarrow> (facet_outcome \<times> facet_world) option" where
  "Deactivate hk f w = deactivate_loop hk [f] w"

text \<open>The second visit to a facet, after its children.\<close>

definition dispose_one :: "facet_hooks \<Rightarrow> nat \<Rightarrow> facet_world \<Rightarrow> bool \<times> facet_world" where
  "dispose_one hk f w =
     (let (ok, w1) = call_hook hk (OnDetach f) (log_roles RoleDisposed f w) in
      if \<not> ok then (False, w1)
      else let w2 = log_event (ResourcesReleased f) (upd_fac f (\<lambda>x. x\<lparr>fb_onInvalidated := False\<rparr>) w1);
               w3 = set_state StateDisposed f (releaseTestID f w2); told = fb_onDisposed (fac w3 f);
               w4 = upd_fac f (\<lambda>x. x\<lparr>fb_onDisposed := False\<rparr>) w3
           in if told then call_hook hk (FacetDisposed (fb_id (fac w4 f))) w4 else (True, w4))"

partial_function (option) dispose_loop :: "facet_hooks \<Rightarrow> (nat \<times> bool) list \<Rightarrow> facet_world \<Rightarrow> (facet_outcome \<times> facet_world) option" where
  "dispose_loop hk stack w =
     (case stack of
        [] \<Rightarrow> Some (Returned, w)
      | (f, entered) # rest \<Rightarrow>
          if \<not> entered
          then (if fb_state (fac w f) = StateDisposed then Some (Panicked (InvalidTransition StateDisposed StateDisposed), w)
                else dispose_loop hk (map (\<lambda>c. (c, False)) (fb_children (fac w f)) @ (f, True) # rest) w)
          else if \<not> fst (dispose_one hk f w) then Some (Panicked HookPanic, snd (dispose_one hk f w))
          else dispose_loop hk rest (snd (dispose_one hk f w)))"

declare dispose_loop.simps [code]

definition Dispose :: "facet_hooks \<Rightarrow> nat \<Rightarrow> facet_world \<Rightarrow> (facet_outcome \<times> facet_world) option" where
  "Dispose hk f w = dispose_loop hk [(f, False)] w"

definition RemoveChild :: "facet_hooks \<Rightarrow> nat \<Rightarrow> nat \<Rightarrow> facet_world \<Rightarrow> (facet_outcome \<times> facet_world) option" where
  "RemoveChild hk f child w =
     (case find_index (\<lambda>c. c = child) (fb_children (fac w f)) of
        None \<Rightarrow> Some (Panicked NotAChild, w)
      | Some i \<Rightarrow>
          let w1 = upd_fac child (\<lambda>x. x\<lparr>fb_parent := None\<rparr>) (upd_fac f (\<lambda>x. x\<lparr>fb_children := remove_at i (fb_children x)\<rparr>) w)
          in if fb_state (fac w1 child) \<noteq> StateDisposed then Dispose hk child w1 else Some (Returned, w1))"

section \<open>The shape of the tree\<close>

text \<open>Hooks that leave the world alone, and hooks that also return.\<close>

definition inert :: "facet_hooks \<Rightarrow> bool" where
  "inert hk \<longleftrightarrow> (\<forall>ev w. snd (hk ev w) = w)"

definition quiet :: "facet_hooks \<Rightarrow> bool" where
  "quiet hk \<longleftrightarrow> (\<forall>ev w. hk ev w = (True, w))"

lemma quiet_inert: "quiet hk \<Longrightarrow> inert hk"
  by (simp add: quiet_def inert_def)

definition shape :: "facet_world \<Rightarrow> FacetID \<times> (FacetID \<times> nat option \<times> nat list) list" where
  "shape w = (fw_idSource w, map (\<lambda>x. (fb_id x, fb_parent x, fb_children x)) (fw_heap w))"

lemma shape_length: "shape w' = shape w \<Longrightarrow> length (fw_heap w') = length (fw_heap w)"
  unfolding shape_def by (drule arg_cong [where f = "\<lambda>s. length (snd s)"]) simp

lemma shape_idSource: "shape w' = shape w \<Longrightarrow> fw_idSource w' = fw_idSource w"
  by (simp add: shape_def)

lemma shape_nth:
  assumes "shape w' = shape w" "a < length (fw_heap w)"
  shows "fb_id (fac w' a) = fb_id (fac w a)" "fb_parent (fac w' a) = fb_parent (fac w a)" "fb_children (fac w' a) = fb_children (fac w a)"
proof -
  have "a < length (fw_heap w')" using assms(2) shape_length [OF assms(1)] by simp
  then have "snd (shape w') ! a = (fb_id (fac w' a), fb_parent (fac w' a), fb_children (fac w' a))" by (simp add: shape_def)
  moreover have "snd (shape w) ! a = (fb_id (fac w a), fb_parent (fac w a), fb_children (fac w a))" using assms(2) by (simp add: shape_def)
  ultimately show "fb_id (fac w' a) = fb_id (fac w a)" "fb_parent (fac w' a) = fb_parent (fac w a)" "fb_children (fac w' a) = fb_children (fac w a)"
    using assms(1) by simp_all
qed

lemma upd_fac_shape:
  "(\<And>x. fb_id (g x) = fb_id x \<and> fb_parent (g x) = fb_parent x \<and> fb_children (g x) = fb_children x) \<Longrightarrow> shape (upd_fac a g w) = shape w"
  by (cases "a < length (fw_heap w)") (simp_all add: shape_def upd_fac_def map_update list_update_same_conv list_update_beyond)

lemma log_event_simps [simp]:
  "fw_heap (log_event ev w) = fw_heap w" "fw_liveTestIDs (log_event ev w) = fw_liveTestIDs w" "fw_log (log_event ev w) = fw_log w @ [ev]"
  "shape (log_event ev w) = shape w" "fw_idSource (log_event ev w) = fw_idSource w"
  by (simp_all add: log_event_def shape_def)

lemma upd_fac_simps [simp]:
  "length (fw_heap (upd_fac a g w)) = length (fw_heap w)" "fw_liveTestIDs (upd_fac a g w) = fw_liveTestIDs w"
  "fw_log (upd_fac a g w) = fw_log w" "fw_idSource (upd_fac a g w) = fw_idSource w"
  by (simp_all add: upd_fac_def)

lemma fac_upd [simp]: "a < length (fw_heap w) \<Longrightarrow> fac (upd_fac a g w) a = g (fac w a)"
  by (simp add: upd_fac_def)

lemma fac_upd_other [simp]: "b \<noteq> a \<Longrightarrow> fac (upd_fac a g w) b = fac w b"
  by (simp add: upd_fac_def)

lemma log_roles_simps [simp]:
  "fw_heap (log_roles ev f w) = fw_heap w" "fw_liveTestIDs (log_roles ev f w) = fw_liveTestIDs w" "fw_idSource (log_roles ev f w) = fw_idSource w"
  "shape (log_roles ev f w) = shape w" "fw_log (log_roles ev f w) = fw_log w @ map (\<lambda>r. ev r f) (fb_roles (fac w f))"
proof -
  have "fw_heap (fold (\<lambda>r. log_event (ev r f)) rs v) = fw_heap v \<and> fw_liveTestIDs (fold (\<lambda>r. log_event (ev r f)) rs v) = fw_liveTestIDs v \<and>
    fw_idSource (fold (\<lambda>r. log_event (ev r f)) rs v) = fw_idSource v \<and>
    fw_log (fold (\<lambda>r. log_event (ev r f)) rs v) = fw_log v @ map (\<lambda>r. ev r f) rs" for rs v
    by (induction rs arbitrary: v) auto
  then show "fw_heap (log_roles ev f w) = fw_heap w" "fw_liveTestIDs (log_roles ev f w) = fw_liveTestIDs w" "fw_idSource (log_roles ev f w) = fw_idSource w"
    "shape (log_roles ev f w) = shape w" "fw_log (log_roles ev f w) = fw_log w @ map (\<lambda>r. ev r f) (fb_roles (fac w f))"
    by (simp_all add: log_roles_def shape_def)
qed

lemma call_inert: "inert hk \<Longrightarrow> snd (call_hook hk ev w) = log_event ev w"
  by (simp add: inert_def call_hook_def)

lemma set_state_shape [simp]: "shape (set_state s f w) = shape w"
  by (simp add: set_state_def upd_fac_shape)

lemma registerTestID_fields [simp]:
  "shape (snd (registerTestID f c w)) = shape w" "fw_heap (snd (registerTestID f c w)) = fw_heap w" "fw_idSource (snd (registerTestID f c w)) = fw_idSource w"
  "fw_log (snd (registerTestID f c w)) = fw_log w"
  by (simp_all add: registerTestID_def Let_def shape_def split: option.splits prod.splits)

lemma releaseTestID_fields [simp]:
  "shape (releaseTestID f w) = shape w" "fw_heap (releaseTestID f w) = fw_heap w" "fw_idSource (releaseTestID f w) = fw_idSource w"
  "fw_log (releaseTestID f w) = fw_log w"
  by (simp_all add: releaseTestID_def Release_testID_def shape_def split: option.splits prod.splits)

lemma attach_one_shape:
  assumes "inert hk"
  shows "shape (snd (attach_one hk f c w)) = shape w"
proof -
  let ?w1 = "log_roles RoleAttached f (upd_fac f (\<lambda>x. x\<lparr>fb_onDisposed := True, fb_onInvalidated := True, fb_registry := True\<rparr>) w)"
  let ?c = "attach_context c (fac ?w1 f)"
  have 1: "shape ?w1 = shape w" by (simp add: upd_fac_shape)
  obtain ok w2 where h: "call_hook hk (OnAttach f ?c) ?w1 = (ok, w2)" by fastforce
  have "w2 = log_event (OnAttach f ?c) ?w1" using call_inert [OF assms, of "OnAttach f ?c" ?w1] h by simp
  then have 2: "shape w2 = shape w" using 1 by simp
  obtain r w3 where t: "registerTestID f ?c w2 = (r, w3)" by fastforce
  have "shape w3 = shape w2" by (metis registerTestID_fields(1) t snd_conv)
  then show ?thesis using 2 h t by (simp add: attach_one_def Let_def split: facet_outcome.split)
qed

lemma activate_one_shape: "inert hk \<Longrightarrow> shape (snd (activate_one hk f w)) = shape w"
  using call_inert [of hk "OnActivate f" "log_roles RoleActivated f w"] by (auto simp: activate_one_def Let_def split: prod.splits)

lemma deactivate_one_shape: "inert hk \<Longrightarrow> shape (snd (deactivate_one hk f w)) = shape w"
  using call_inert [of hk "OnDeactivate f" "log_roles RoleDeactivated f w"] by (auto simp: deactivate_one_def Let_def split: prod.splits)

lemma dispose_one_shape:
  assumes "inert hk"
  shows "shape (snd (dispose_one hk f w)) = shape w"
proof -
  obtain ok w1 where h: "call_hook hk (OnDetach f) (log_roles RoleDisposed f w) = (ok, w1)" by fastforce
  have 1: "shape w1 = shape w" using call_inert [OF assms, of "OnDetach f" "log_roles RoleDisposed f w"] h by simp
  have "shape (snd (call_hook hk ev v)) = shape v" for ev v using call_inert [OF assms] by simp
  then show ?thesis using 1 h by (simp add: dispose_one_def Let_def upd_fac_shape)
qed

lemma attach_loop_shape:
  assumes "attach_loop hk st ho at w = Some y" "inert hk"
  shows "shape (snd (snd (snd y))) = shape w"
proof -
  have "inert hk \<longrightarrow> shape (snd (snd (snd y))) = shape w"
    by (rule attach_loop.raw_induct [of "\<lambda>hk st ho at w y. inert hk \<longrightarrow> shape (snd (snd (snd y))) = shape w", OF _ assms(1)])
      (auto simp: attach_one_shape split: list.splits if_splits)
  then show ?thesis using assms(2) by blast
qed

lemma activate_loop_shape:
  assumes "activate_loop hk st w = Some y" "inert hk"
  shows "shape (snd y) = shape w"
proof -
  have "inert hk \<longrightarrow> shape (snd y) = shape w"
    by (rule activate_loop.raw_induct [of "\<lambda>hk st w y. inert hk \<longrightarrow> shape (snd y) = shape w", OF _ assms(1)])
      (auto simp: activate_one_shape split: list.splits if_splits)
  then show ?thesis using assms(2) by blast
qed

lemma deactivate_loop_shape:
  assumes "deactivate_loop hk st w = Some y" "inert hk"
  shows "shape (snd y) = shape w"
proof -
  have "inert hk \<longrightarrow> shape (snd y) = shape w"
    by (rule deactivate_loop.raw_induct [of "\<lambda>hk st w y. inert hk \<longrightarrow> shape (snd y) = shape w", OF _ assms(1)])
      (auto simp: deactivate_one_shape split: list.splits if_splits)
  then show ?thesis using assms(2) by blast
qed

lemma dispose_loop_shape:
  assumes "dispose_loop hk st w = Some y" "inert hk"
  shows "shape (snd y) = shape w"
proof -
  have "inert hk \<longrightarrow> shape (snd y) = shape w"
    by (rule dispose_loop.raw_induct [of "\<lambda>hk st w y. inert hk \<longrightarrow> shape (snd y) = shape w", OF _ assms(1)])
      (auto simp: dispose_one_shape split: list.splits if_splits)
  then show ?thesis using assms(2) by blast
qed

lemma rollback_shape [simp]: "shape (rollback ho at w) = shape w"
proof -
  have "shape (fold unhook xs w) = shape w" for xs and w
    by (induction xs arbitrary: w) (simp_all add: unhook_def upd_fac_shape)
  moreover have "shape (fold unregister xs w) = shape w" for xs and w
    by (induction xs arbitrary: w) (simp_all add: unregister_def upd_fac_shape)
  ultimately show ?thesis by (simp add: rollback_def)
qed

lemma Attach_shape:
  assumes "Attach_facet hk f i w = Some (r, w')" "inert hk"
  shows "shape w' = shape w"
proof -
  let ?st = "[(f, if i = '''' then ''runtime'' else i)]"
  obtain y where y: "attach_loop hk ?st [] [] w = Some y" using assms(1) by (auto simp: Attach_facet_def split: option.splits)
  note s = attach_loop_shape [OF y assms(2)]
  show ?thesis
    using assms(1) y s call_inert [OF assms(2), of "FacetTreeAttached f" "snd (snd (snd y))"]
    by (cases y) (auto simp: Attach_facet_def Let_def split: facet_outcome.splits prod.splits if_splits)
qed

section \<open>Forests\<close>

definition edges :: "Facet list \<Rightarrow> (nat \<times> nat) set" where
  "edges H = {(p, a). a < length H \<and> fb_parent (H ! a) = Some p}"

text \<open>Parents and children agree, nobody is its own ancestor, and identifiers are unique.\<close>

definition forest :: "facet_world \<Rightarrow> bool" where
  "forest w \<longleftrightarrow>
     (\<forall>a < length (fw_heap w). \<forall>p. fb_parent (fac w a) = Some p \<longrightarrow> p < length (fw_heap w) \<and> a \<in> set (fb_children (fac w p))) \<and>
     (\<forall>p < length (fw_heap w). \<forall>c \<in> set (fb_children (fac w p)). c < length (fw_heap w) \<and> fb_parent (fac w c) = Some p) \<and>
     (\<forall>p < length (fw_heap w). distinct (fb_children (fac w p))) \<and>
     acyclic (edges (fw_heap w)) \<and>
     distinct (map fb_id (fw_heap w)) \<and> (\<forall>x \<in> set (fw_heap w). fb_id x \<noteq> 0 \<and> unat (fb_id x) \<le> unat (fw_idSource w))"

lemma forestD:
  assumes "forest w"
  shows "a < length (fw_heap w) \<Longrightarrow> fb_parent (fac w a) = Some p \<Longrightarrow> p < length (fw_heap w) \<and> a \<in> set (fb_children (fac w p))"
    "p < length (fw_heap w) \<Longrightarrow> c \<in> set (fb_children (fac w p)) \<Longrightarrow> c < length (fw_heap w) \<and> fb_parent (fac w c) = Some p"
    "p < length (fw_heap w) \<Longrightarrow> distinct (fb_children (fac w p))"
    "acyclic (edges (fw_heap w))" "distinct (map fb_id (fw_heap w))"
    "x \<in> set (fw_heap w) \<Longrightarrow> fb_id x \<noteq> 0 \<and> unat (fb_id x) \<le> unat (fw_idSource w)"
  using assms unfolding forest_def by blast+

lemma forestI:
  assumes "\<And>a p. a < length (fw_heap w) \<Longrightarrow> fb_parent (fac w a) = Some p \<Longrightarrow> p < length (fw_heap w) \<and> a \<in> set (fb_children (fac w p))"
    "\<And>p c. p < length (fw_heap w) \<Longrightarrow> c \<in> set (fb_children (fac w p)) \<Longrightarrow> c < length (fw_heap w) \<and> fb_parent (fac w c) = Some p"
    "\<And>p. p < length (fw_heap w) \<Longrightarrow> distinct (fb_children (fac w p))"
    "acyclic (edges (fw_heap w))" "distinct (map fb_id (fw_heap w))"
    "\<And>x. x \<in> set (fw_heap w) \<Longrightarrow> fb_id x \<noteq> 0 \<and> unat (fb_id x) \<le> unat (fw_idSource w)"
  shows "forest w"
  unfolding forest_def by (intro conjI allI impI ballI) (blast intro: assms dest: assms(1,2,6))+

lemma forest_ids:
  assumes "forest w" "fb_id ` set (fw_heap w') = fb_id ` set (fw_heap w)" "fw_idSource w' = fw_idSource w" "x \<in> set (fw_heap w')"
  shows "fb_id x \<noteq> 0 \<and> unat (fb_id x) \<le> unat (fw_idSource w')"
proof -
  obtain y where "y \<in> set (fw_heap w)" "fb_id y = fb_id x" using assms(2,4) by (metis imageE imageI)
  then show ?thesis using forestD(6) [OF assms(1)] assms(3) by metis
qed

lemma edges_finite: "finite (edges H)"
proof -
  have "edges H \<subseteq> (\<lambda>a. (the (fb_parent (H ! a)), a)) ` {..< length H}" by (force simp: edges_def image_iff)
  then show ?thesis by (rule finite_subset) simp
qed

lemma edges_shape: "shape w' = shape w \<Longrightarrow> edges (fw_heap w') = edges (fw_heap w)"
  using shape_nth [of w' w] shape_length [of w' w] by (auto simp: edges_def)

lemma forest_shape:
  assumes "forest w" "shape w' = shape w"
  shows "forest w'"
proof -
  have "map fb_id (fw_heap w') = map fst (snd (shape w'))" "map fb_id (fw_heap w) = map fst (snd (shape w))" by (simp_all add: shape_def o_def)
  then have i: "map fb_id (fw_heap w') = map fb_id (fw_heap w)" using assms(2) by simp
  then have "fb_id ` set (fw_heap w') = fb_id ` set (fw_heap w)" by (metis set_map)
  note id' = forest_ids [OF assms(1) this shape_idSource [OF assms(2)]]
  note S = shape_nth [OF assms(2)] shape_length [OF assms(2)]
  note W = forestD [OF assms(1)]
  show ?thesis
  proof (rule forestI)
    show "p < length (fw_heap w') \<and> a \<in> set (fb_children (fac w' p))" if "a < length (fw_heap w')" "fb_parent (fac w' a) = Some p" for a p
      using W(1) [of a p] that S by simp
    show "c < length (fw_heap w') \<and> fb_parent (fac w' c) = Some p" if "p < length (fw_heap w')" "c \<in> set (fb_children (fac w' p))" for p c
      using W(2) [of p c] that S by simp
    show "distinct (fb_children (fac w' p))" if "p < length (fw_heap w')" for p using W(3) [of p] that S by simp
    show "acyclic (edges (fw_heap w'))" using W(4) edges_shape [OF assms(2)] by simp
    show "distinct (map fb_id (fw_heap w'))" using W(5) i by simp
    show "fb_id x \<noteq> 0 \<and> unat (fb_id x) \<le> unat (fw_idSource w')" if "x \<in> set (fw_heap w')" for x by (rule id' [OF that])
  qed
qed

lemma climb_ends:
  assumes "acyclic (edges H)" "\<forall>a < length H. \<forall>p. fb_parent (H ! a) = Some p \<longrightarrow> p < length H" "a < length H"
  shows "climb H P (Some a) = Some (\<exists>b. (b, a) \<in> (edges H)\<^sup>* \<and> P b)"
proof -
  have "wf (edges H)" using edges_finite assms(1) by (rule finite_acyclic_wf)
  then show ?thesis using assms(3)
  proof (induction a rule: wf_induct_rule)
    case (less a)
    show ?case
    proof (cases "P a")
      case True
      then show ?thesis by (subst climb.simps) auto
    next
      case False
      show ?thesis
      proof (cases "fb_parent (H ! a)")
        case None
        then have "b = a" if "(b, a) \<in> (edges H)\<^sup>*" for b using that by (auto elim: rtranclE simp: edges_def)
        then show ?thesis using False None by (subst climb.simps, simp, subst climb.simps) auto
      next
        case (Some p)
        then have e: "(p, a) \<in> edges H" "p < length H" using assms(2) less(2) by (auto simp: edges_def)
        have "(b, a) \<in> (edges H)\<^sup>* \<longleftrightarrow> b = a \<or> (b, p) \<in> (edges H)\<^sup>*" for b
        proof
          assume "(b, a) \<in> (edges H)\<^sup>*"
          then show "b = a \<or> (b, p) \<in> (edges H)\<^sup>*" using Some by cases (auto simp: edges_def)
        qed (use e(1) in \<open>auto intro: rtrancl_into_rtrancl\<close>)
        then show ?thesis using less(1) [OF e] False Some by (subst climb.simps) auto
      qed
    qed
  qed
qed

lemma forest_climb:
  assumes "forest w" "a < length (fw_heap w)"
  shows "climb (fw_heap w) P (Some a) = Some (\<exists>b. (b, a) \<in> (edges (fw_heap w))\<^sup>* \<and> P b)"
  by (rule climb_ends [OF forestD(4) [OF assms(1)] _ assms(2)]) (use forestD(1) [OF assms(1)] in blast)

lemma adopt_fields:
  assumes "f < length (fw_heap w)" "child < length (fw_heap w)" "f \<noteq> child" "a < length (fw_heap w)"
  shows "fb_parent (fac (adopt f child w) a) = (if a = child then Some f else fb_parent (fac w a))"
    "fb_children (fac (adopt f child w) a) = (if a = f then fb_children (fac w f) @ [child] else fb_children (fac w a))"
    "fb_id (fac (adopt f child w) a) = fb_id (fac w a)" "length (fw_heap (adopt f child w)) = length (fw_heap w)"
    "fw_idSource (adopt f child w) = fw_idSource w" "fb_state (fac (adopt f child w) a) = fb_state (fac w a)"
  using assms by (auto simp: adopt_def upd_fac_def nth_list_update)

lemma adopt_forest:
  assumes w: "forest w" and f: "f < length (fw_heap w)" and c: "child < length (fw_heap w)" and n: "child \<noteq> f"
    and p: "fb_parent (fac w child) = None" and a: "(child, f) \<notin> (edges (fw_heap w))\<^sup>*"
  shows "forest (adopt f child w)"
proof -
  let ?w = "adopt f child w" and ?n = "length (fw_heap w)"
  note F = adopt_fields [OF f c n [symmetric]]
  have len: "length (fw_heap ?w) = ?n" using F(4) [OF f] .
  have ids: "map fb_id (fw_heap ?w) = map fb_id (fw_heap w)" by (rule nth_equalityI) (use F(3) len in simp_all)
  then have "fb_id ` set (fw_heap ?w) = fb_id ` set (fw_heap w)" by (metis set_map)
  note id' = forest_ids [OF w this F(5) [OF f]]
  have "edges (fw_heap ?w) = insert (f, child) (edges (fw_heap w))"
    using F(1) len c p by (auto simp: edges_def split: if_splits)
  moreover have "acyclic (insert (f, child) (edges (fw_heap w)))" using forestD(4) [OF w] a by simp
  ultimately have ac: "acyclic (edges (fw_heap ?w))" by simp
  have nc: "child \<notin> set (fb_children (fac w q))" if "q < ?n" for q using forestD(2) [OF w that, of child] p by auto
  show ?thesis
  proof (rule forestI)
    show "q < length (fw_heap ?w) \<and> x \<in> set (fb_children (fac ?w q))" if "x < length (fw_heap ?w)" "fb_parent (fac ?w x) = Some q" for x q
      using forestD(1) [OF w, of x q] F(1) [of x] F(2) [of q] that len f by (auto split: if_splits)
    show "x < length (fw_heap ?w) \<and> fb_parent (fac ?w x) = Some q" if "q < length (fw_heap ?w)" "x \<in> set (fb_children (fac ?w q))" for x q
      using forestD(2) [OF w, of q x] F(1) [of x] F(2) [of q] that len f c nc [of q] by (auto split: if_splits)
    show "distinct (fb_children (fac ?w q))" if "q < length (fw_heap ?w)" for q
      using forestD(3) [OF w, of q] F(2) [of q] that len nc [of f] f by auto
    show "acyclic (edges (fw_heap ?w))" by (rule ac)
    show "distinct (map fb_id (fw_heap ?w))" using forestD(5) [OF w] ids by simp
    show "fb_id x \<noteq> 0 \<and> unat (fb_id x) \<le> unat (fw_idSource ?w)" if "x \<in> set (fw_heap ?w)" for x by (rule id' [OF that])
  qed
qed

lemma NewFacet_forest:
  assumes "forest w" "fw_idSource w \<noteq> - 1"
  shows "forest (snd (NewFacet w))"
proof -
  let ?w = "snd (NewFacet w)" and ?n = "length (fw_heap w)"
  have "unat (fw_idSource w + 1) = unat (fw_idSource w) + 1" using assms(2) unatSuc [of "fw_idSource w"] by (simp add: add.commute add_eq_0_iff)
  then have i: "unat (fw_idSource ?w) = Suc (unat (fw_idSource w))" by (simp add: NewFacet_def Let_def)
  have H: "fw_heap ?w = fw_heap w @ [last (fw_heap ?w)]" "fb_parent (last (fw_heap ?w)) = None" "fb_children (last (fw_heap ?w)) = []"
    "fb_id (last (fw_heap ?w)) = fw_idSource ?w"
    by (simp_all add: NewFacet_def Let_def)
  have nth: "fac ?w a = fac w a" if "a < ?n" for a using H(1) that by (metis nth_append)
  have lst: "fac ?w ?n = last (fw_heap ?w)" using H(1) by (metis nth_append_length)
  have len: "length (fw_heap ?w) = Suc ?n" using H(1) by (metis length_append_singleton)
  have e: "edges (fw_heap ?w) = edges (fw_heap w)"
    using nth lst len H(2) by (auto simp: edges_def less_Suc_eq)
  have old: "\<forall>x \<in> set (fw_heap w). fb_id x \<noteq> 0 \<and> unat (fb_id x) \<le> unat (fw_idSource w)" using forestD(6) [OF assms(1)] by blast
  have "fb_id x \<noteq> fw_idSource ?w" if "x \<in> set (fw_heap w)" for x using old that i by fastforce
  then have "fw_idSource ?w \<notin> fb_id ` set (fw_heap w)" by (metis imageE)
  then have ds: "distinct (map fb_id (fw_heap ?w))" using forestD(5) [OF assms(1)] H(4) by (subst H(1)) auto
  have ids: "\<forall>x \<in> set (fw_heap ?w). fb_id x \<noteq> 0 \<and> unat (fb_id x) \<le> unat (fw_idSource ?w)"
    using old i H(4) by (subst H(1)) (auto simp: unat_eq_zero [symmetric] intro: le_SucI)
  note W = forestD [OF assms(1)]
  show ?thesis
  proof (rule forestI)
    show "acyclic (edges (fw_heap ?w))" unfolding e by (rule W(4))
    show "distinct (map fb_id (fw_heap ?w))" by (rule ds)
    show "fb_id x \<noteq> 0 \<and> unat (fb_id x) \<le> unat (fw_idSource ?w)" if "x \<in> set (fw_heap ?w)" for x using ids that by blast
    show "p < length (fw_heap ?w) \<and> a \<in> set (fb_children (fac ?w p))" if "a < length (fw_heap ?w)" "fb_parent (fac ?w a) = Some p" for a p
      using W(1) [of a p] that nth lst len H(2) by (cases "a = ?n") (auto simp: less_Suc_eq)
    show "c < length (fw_heap ?w) \<and> fb_parent (fac ?w c) = Some p" if "p < length (fw_heap ?w)" "c \<in> set (fb_children (fac ?w p))" for p c
      using W(2) [of p c] that nth lst len H(3) by (cases "p = ?n") (auto simp: less_Suc_eq)
    show "distinct (fb_children (fac ?w p))" if "p < length (fw_heap ?w)" for p
      using W(3) [of p] that nth lst len H(3) by (cases "p = ?n") (auto simp: less_Suc_eq)
  qed
qed

lemma cut_forest:
  assumes w: "forest w" and f: "f < length (fw_heap w)" and i: "find_index (\<lambda>c. c = child) (fb_children (fac w f)) = Some i"
  shows "forest (upd_fac child (\<lambda>x. x\<lparr>fb_parent := None\<rparr>) (upd_fac f (\<lambda>x. x\<lparr>fb_children := remove_at i (fb_children x)\<rparr>) w))"
    (is "forest ?w")
proof -
  let ?n = "length (fw_heap w)"
  have i': "i < length (fb_children (fac w f))" "fb_children (fac w f) ! i = child" using i by (simp_all add: find_index_Some)
  have c: "child < ?n" "fb_parent (fac w child) = Some f"
    using forestD(2) [OF w f, of child] i'(2) nth_mem [OF i'(1)] by simp_all
  have r: "set (remove_at i (fb_children (fac w f))) = set (fb_children (fac w f)) - {child}"
    using set_remove_at_distinct [OF forestD(3) [OF w f] i'(1)] i'(2) by simp
  have F: "fb_parent (fac ?w a) = (if a = child then None else fb_parent (fac w a))"
    "fb_children (fac ?w a) = (if a = f then remove_at i (fb_children (fac w f)) else fb_children (fac w a))"
    "fb_id (fac ?w a) = fb_id (fac w a)" if "a < ?n" for a
    using that f c(1) by (auto simp: upd_fac_def nth_list_update)
  have len: "length (fw_heap ?w) = ?n" by simp
  have ids: "map fb_id (fw_heap ?w) = map fb_id (fw_heap w)" by (rule nth_equalityI) (use F(3) in simp_all)
  have "fb_id ` set (fw_heap ?w) = fb_id ` set (fw_heap w)" using arg_cong [OF ids, of set] by (simp only: set_map)
  note id' = forest_ids [OF w this]
  have e: "edges (fw_heap ?w) \<subseteq> edges (fw_heap w)" using F(1) len by (auto simp: edges_def split: if_splits)
  show ?thesis
  proof (rule forestI)
    show "q < length (fw_heap ?w) \<and> x \<in> set (fb_children (fac ?w q))" if "x < length (fw_heap ?w)" "fb_parent (fac ?w x) = Some q" for x q
      using forestD(1) [OF w, of x q] F(1) [of x] F(2) [of q] that r by (auto split: if_splits)
    show "x < length (fw_heap ?w) \<and> fb_parent (fac ?w x) = Some q" if "q < length (fw_heap ?w)" "x \<in> set (fb_children (fac ?w q))" for x q
      using forestD(2) [OF w, of q x] F(1) [of x] F(2) [of q] that r c by (auto split: if_splits)
    show "distinct (fb_children (fac ?w q))" if "q < length (fw_heap ?w)" for q
      using forestD(3) [OF w, of q] F(2) [of q] that by (auto intro: distinct_remove_at)
    show "acyclic (edges (fw_heap ?w))" using e forestD(4) [OF w] by (rule acyclic_subset [rotated])
    show "distinct (map fb_id (fw_heap ?w))" unfolding ids by (rule forestD(5) [OF w])
    show "fb_id x \<noteq> 0 \<and> unat (fb_id x) \<le> unat (fw_idSource ?w)" if "x \<in> set (fw_heap ?w)" for x by (rule id' [OF _ that]) simp
  qed
qed

section \<open>Runs\<close>

text \<open>The steps of an application whose hooks leave the tree alone; they may panic.\<close>

inductive facet_step :: "facet_world \<Rightarrow> facet_world \<Rightarrow> bool" where
  new_facet: "fw_idSource w \<noteq> - 1 \<Longrightarrow> facet_step w (snd (NewFacet w))"
| add_child: "f < length (fw_heap w) \<Longrightarrow> c < length (fw_heap w) \<Longrightarrow> AddChild f c w = Some (r, w') \<Longrightarrow> facet_step w w'"
| add_runtime: "f < length (fw_heap w) \<Longrightarrow> c < length (fw_heap w) \<Longrightarrow> AddChildRuntime f c w = Some (r, w') \<Longrightarrow> facet_step w w'"
| remove_child: "f < length (fw_heap w) \<Longrightarrow> inert hk \<Longrightarrow> RemoveChild hk f c w = Some (r, w') \<Longrightarrow> facet_step w w'"
| add_role: "facet_step w (snd (AddRole f role w))"
| set_testID: "facet_step w (snd (SetTestID f t w))"
| invalidate: "facet_step w (snd (InvalidateWithSource f flags src w))"
| clear_dirty: "facet_step w (snd (ClearDirty f flags w))"
| attach: "inert hk \<Longrightarrow> Attach_facet hk f identity w = Some (r, w') \<Longrightarrow> facet_step w w'"
| activate: "inert hk \<Longrightarrow> Activate hk f w = Some (r, w') \<Longrightarrow> facet_step w w'"
| deactivate: "inert hk \<Longrightarrow> Deactivate hk f w = Some (r, w') \<Longrightarrow> facet_step w w'"
| dispose: "inert hk \<Longrightarrow> Dispose hk f w = Some (r, w') \<Longrightarrow> facet_step w w'"

lemma facet_step_forest: "facet_step w w' \<Longrightarrow> forest w \<Longrightarrow> forest w'"
proof (induction rule: facet_step.induct)
  case (new_facet w)
  then show ?case by (simp add: NewFacet_forest)
next
  case (add_child f w c r w')
  then show ?case
    using forest_climb [OF add_child(4,1), of "\<lambda>p. p = c"] by (auto simp: AddChild_def adopt_forest split: if_splits bool.splits)
next
  case (add_runtime f w c r w')
  then show ?case
    using forest_climb [OF add_runtime(4,1), of "\<lambda>p. p = c"] by (auto simp: AddChildRuntime_def adopt_forest split: if_splits bool.splits)
next
  case (remove_child f w hk c r w')
  show ?case
  proof (cases "find_index (\<lambda>x. x = c) (fb_children (fac w f))")
    case None
    then show ?thesis using remove_child by (simp add: RemoveChild_def)
  next
    case (Some i)
    let ?w1 = "upd_fac c (\<lambda>x. x\<lparr>fb_parent := None\<rparr>) (upd_fac f (\<lambda>x. x\<lparr>fb_children := remove_at i (fb_children x)\<rparr>) w)"
    have 1: "forest ?w1" by (rule cut_forest [OF remove_child(4,1) Some])
    show ?thesis
    proof (cases "fb_state (fac ?w1 c) = StateDisposed")
      case True
      then show ?thesis using remove_child Some 1 by (simp add: RemoveChild_def)
    next
      case False
      then have d: "dispose_loop hk [(c, False)] ?w1 = Some (r, w')" using remove_child Some by (simp add: RemoveChild_def Dispose_def)
      show ?thesis
        using forest_shape [OF 1] dispose_loop_shape [OF d remove_child(2)] by simp
    qed
  qed
next
  case (add_role w f role)
  have "shape (snd (AddRole f role w)) = shape w" by (simp add: AddRole_def upd_fac_shape)
  then show ?case by (rule forest_shape [OF add_role])
next
  case (set_testID w f t)
  have "shape (snd (SetTestID f t w)) = shape w" by (simp add: SetTestID_def upd_fac_shape)
  then show ?case by (rule forest_shape [OF set_testID])
next
  case (invalidate w f flags src)
  have "shape (snd (InvalidateWithSource f flags src w)) = shape w" by (simp add: InvalidateWithSource_def Let_def upd_fac_shape)
  then show ?case by (rule forest_shape [OF invalidate])
next
  case (clear_dirty w f flags)
  have "shape (snd (ClearDirty f flags w)) = shape w" by (simp add: ClearDirty_def Let_def upd_fac_shape)
  then show ?case by (rule forest_shape [OF clear_dirty])
next
  case (attach hk f identity w r w')
  then show ?case using forest_shape [OF attach(3) Attach_shape [OF attach(2,1)]] by blast
next
  case (activate hk f w r w')
  then show ?case using forest_shape [OF activate(3)] activate_loop_shape [of hk "[f]" w "(r, w')"] by (simp add: Activate_def)
next
  case (deactivate hk f w r w')
  then show ?case using forest_shape [OF deactivate(3)] deactivate_loop_shape [of hk "[f]" w "(r, w')"] by (simp add: Deactivate_def)
next
  case (dispose hk f w r w')
  then show ?case using forest_shape [OF dispose(3)] dispose_loop_shape [of hk "[(f, False)]" w "(r, w')"] by (simp add: Dispose_def)
qed

section \<open>Walks\<close>

text \<open>The facets below one, in the order they are met and in the order they are left.\<close>

inductive walk :: "(nat \<Rightarrow> nat list) \<Rightarrow> nat \<Rightarrow> nat list \<Rightarrow> nat list \<Rightarrow> bool"
  and walks :: "(nat \<Rightarrow> nat list) \<Rightarrow> nat list \<Rightarrow> nat list \<Rightarrow> nat list \<Rightarrow> bool" for K where
  walk_node: "walks K (K a) pre post \<Longrightarrow> walk K a (a # pre) (post @ [a])"
| walks_nil: "walks K [] [] []"
| walks_cons: "walk K c pre post \<Longrightarrow> walks K cs pre' post' \<Longrightarrow> walks K (c # cs) (pre @ pre') (post @ post')"

abbreviation kids :: "facet_world \<Rightarrow> nat \<Rightarrow> nat list" where
  "kids w a \<equiv> fb_children (fac w a)"

definition below :: "facet_world \<Rightarrow> nat \<Rightarrow> nat set" where
  "below w a = {b. (a, b) \<in> (edges (fw_heap w))\<^sup>*}"

lemma walk_sets: "walk K a pre post \<Longrightarrow> mset post = mset pre" "walks K cs pre post \<Longrightarrow> mset post = mset pre"
  by (induction rule: walk_walks.inducts) auto

lemma walk_set_eq: "walk K a pre post \<Longrightarrow> set post = set pre" "walks K cs pre post \<Longrightarrow> set post = set pre"
  using walk_sets by (metis set_mset_mset)+

lemma forest_edge: "forest w \<Longrightarrow> p < length (fw_heap w) \<Longrightarrow> (p, c) \<in> edges (fw_heap w) \<longleftrightarrow> c \<in> set (kids w p)"
  using forestD(1) [of w c p] forestD(2) [of w p c] by (auto simp: edges_def)

lemma walks_exist: "(\<And>c. c \<in> set cs \<Longrightarrow> \<exists>pre post. walk K c pre post) \<Longrightarrow> \<exists>pre post. walks K cs pre post"
proof (induction cs)
  case Nil
  then show ?case using walks_nil by blast
next
  case (Cons c cs)
  then obtain p q p' q' where "walk K c p q" "walks K cs p' q'" by (metis list.set_intros)
  then show ?case using walks_cons by blast
qed

lemma walk_exists:
  assumes "forest w"
  shows "a < length (fw_heap w) \<Longrightarrow> \<exists>pre post. walk (kids w) a pre post"
proof (induction a rule: wf_induct_rule [OF finite_acyclic_wf_converse [OF edges_finite forestD(4) [OF assms]]])
  case (1 a)
  have "\<exists>pre post. walk (kids w) c pre post" if "c \<in> set (kids w a)" for c
    using 1 forestD(2) [OF assms 1(2) that] forest_edge [OF assms 1(2), of c] that by simp
  then obtain pre post where "walks (kids w) (kids w a) pre post" using walks_exist by blast
  then show ?case using walk_node by blast
qed

lemma below_node:
  assumes "forest w" "a < length (fw_heap w)"
  shows "below w a = insert a (\<Union>c \<in> set (kids w a). below w c)"
proof -
  have "(a, b) \<in> (edges (fw_heap w))\<^sup>* \<longleftrightarrow> b = a \<or> (\<exists>c. (a, c) \<in> edges (fw_heap w) \<and> (c, b) \<in> (edges (fw_heap w))\<^sup>*)" for b
    by (metis converse_rtranclE converse_rtrancl_into_rtrancl rtrancl.rtrancl_refl)
  then show ?thesis using forest_edge [OF assms] by (auto simp: below_def)
qed

lemma walk_below:
  assumes "forest w"
  shows "walk (kids w) a pre post \<Longrightarrow> a < length (fw_heap w) \<Longrightarrow> set pre = below w a"
    "walks (kids w) cs pre post \<Longrightarrow> (\<forall>c \<in> set cs. c < length (fw_heap w)) \<Longrightarrow> set pre = (\<Union>c \<in> set cs. below w c)"
proof (induction rule: walk_walks.inducts)
  case (walk_node a pre post)
  then show ?case using below_node [OF assms walk_node(3)] forestD(2) [OF assms walk_node(3)] by auto
qed auto

lemma below_less: "forest w \<Longrightarrow> a < length (fw_heap w) \<Longrightarrow> b \<in> below w a \<Longrightarrow> b < length (fw_heap w)"
  unfolding below_def by (auto elim: rtranclE simp: edges_def)

text \<open>Two facets with a common descendant are related.\<close>

lemma below_linear:
  assumes "b \<in> below w c" "b \<in> below w d"
  shows "d \<in> below w c \<or> c \<in> below w d"
proof -
  have 1: "(c, b) \<in> (edges (fw_heap w))\<^sup>*" and 2: "(d, b) \<in> (edges (fw_heap w))\<^sup>*" using assms by (simp_all add: below_def)
  from 1 2 show ?thesis
  proof (induction rule: rtrancl_induct)
    case base
    then show ?case by (simp add: below_def)
  next
    case (step y z)
    from step(4) show ?case
    proof (cases rule: rtranclE)
      case base
      then show ?thesis using step(1,2) by (auto simp: below_def)
    next
      case (step y')
      have "y' = y" using step(2) \<open>(y, z) \<in> edges (fw_heap w)\<close> by (simp add: edges_def)
      then show ?thesis using step(1) \<open>(d, y) \<in> (edges (fw_heap w))\<^sup>* \<Longrightarrow> _\<close> by blast
    qed
  qed
qed

lemma siblings_apart:
  assumes "forest w" "p < length (fw_heap w)" "c \<in> set (kids w p)" "d \<in> set (kids w p)" "c \<noteq> d"
  shows "below w c \<inter> below w d = {}"
proof -
  have no: "y \<notin> below w x" if "x \<in> set (kids w p)" "y \<in> set (kids w p)" "x \<noteq> y" for x y
  proof
    assume "y \<in> below w x"
    then obtain z where z: "(x, z) \<in> (edges (fw_heap w))\<^sup>*" "(z, y) \<in> edges (fw_heap w)"
      using \<open>x \<noteq> y\<close> by (auto simp: below_def elim: rtranclE)
    have "z = p" using z(2) forestD(2) [OF assms(1,2) that(2)] by (simp add: edges_def)
    then have "(p, p) \<in> (edges (fw_heap w))\<^sup>+"
      using z(1) forest_edge [OF assms(1,2), of x] that(1) by (metis rtrancl_into_trancl2)
    then show False using forestD(4) [OF assms(1)] by (simp add: acyclic_def)
  qed
  show ?thesis using below_linear [of _ w c d] no [OF assms(3,4,5)] no [OF assms(4,3)] assms(5) by blast
qed

lemma not_below_child:
  assumes "forest w" "p < length (fw_heap w)" "c \<in> set (kids w p)"
  shows "p \<notin> below w c"
proof
  assume "p \<in> below w c"
  then have "(p, p) \<in> (edges (fw_heap w))\<^sup>+"
    using forest_edge [OF assms(1,2), of c] assms(3) unfolding below_def by (metis mem_Collect_eq rtrancl_into_trancl2)
  then show False using forestD(4) [OF assms(1)] by (simp add: acyclic_def)
qed

lemma walk_distinct:
  assumes "forest w"
  shows "walk (kids w) a pre post \<Longrightarrow> a < length (fw_heap w) \<Longrightarrow> distinct pre"
    "walks (kids w) cs pre post \<Longrightarrow> (\<exists>p < length (fw_heap w). set cs \<subseteq> set (kids w p)) \<Longrightarrow> distinct cs \<Longrightarrow> distinct pre"
proof (induction rule: walk_walks.inducts)
  case (walk_node a pre post)
  have k: "c < length (fw_heap w)" if "c \<in> set (kids w a)" for c using forestD(2) [OF assms walk_node(3) that] by simp
  have "set pre = (\<Union>c \<in> set (kids w a). below w c)" using walk_below(2) [OF assms walk_node(1)] k by blast
  then have "a \<notin> set pre" using not_below_child [OF assms walk_node(3)] by blast
  moreover have "distinct pre" using walk_node(2,3) forestD(3) [OF assms walk_node(3)] by blast
  ultimately show ?case by simp
next
  case (walks_cons c pre post cs pre' post')
  then obtain p where p: "p < length (fw_heap w)" "c \<in> set (kids w p)" "set cs \<subseteq> set (kids w p)" by auto
  have k: "x < length (fw_heap w)" if "x \<in> set (kids w p)" for x using forestD(2) [OF assms p(1) that] by simp
  have 1: "set pre = below w c" using walk_below(1) [OF assms walks_cons(1)] k [OF p(2)] by blast
  have 2: "set pre' = (\<Union>x \<in> set cs. below w x)" using walk_below(2) [OF assms walks_cons(3)] k p(3) by blast
  have "below w c \<inter> below w x = {}" if "x \<in> set cs" for x
    using siblings_apart [OF assms p(1,2), of x] p(3) that walks_cons(6) by auto
  then have "set pre \<inter> set pre' = {}" unfolding 1 2 by blast
  then show ?case using walks_cons(2) [OF k [OF p(2)]] walks_cons(4) p(1,3) walks_cons(6) by auto
qed simp

definition earlier :: "nat list \<Rightarrow> nat \<Rightarrow> nat \<Rightarrow> bool" where
  "earlier xs c p \<longleftrightarrow> (\<exists>ys zs. xs = ys @ zs \<and> c \<in> set ys \<and> p \<in> set zs)"

lemma earlier_append: "earlier xs c p \<Longrightarrow> earlier (us @ xs @ vs) c p"
proof -
  assume "earlier xs c p"
  then obtain ys zs where "xs = ys @ zs" "c \<in> set ys" "p \<in> set zs" by (auto simp: earlier_def)
  then show ?thesis unfolding earlier_def by (intro exI [of _ "us @ ys"] exI [of _ "zs @ vs"]) simp
qed

lemma walk_heads: "walk K a pre post \<Longrightarrow> a \<in> set pre" "walks K cs pre post \<Longrightarrow> set cs \<subseteq> set pre"
  by (induction rule: walk_walks.inducts) auto

text \<open>Children are met after their parent and left before it.\<close>

lemma walk_orders:
  "walk K a pre post \<Longrightarrow> p \<in> set pre \<Longrightarrow> c \<in> set (K p) \<Longrightarrow> earlier pre p c \<and> earlier post c p"
  "walks K cs pre post \<Longrightarrow> p \<in> set pre \<Longrightarrow> c \<in> set (K p) \<Longrightarrow> earlier pre p c \<and> earlier post c p"
proof (induction rule: walk_walks.inducts)
  case (walk_node a pre post)
  show ?case
  proof (cases "p = a")
    case True
    have c: "c \<in> set pre" "c \<in> set post" using walk_heads(2) [OF walk_node(1)] walk_node(4) True walk_set_eq(2) [OF walk_node(1)] by auto
    have "earlier (a # pre) a c" unfolding earlier_def using c(1) by (intro exI [of _ "[a]"] exI [of _ pre]) simp
    moreover have "earlier (post @ [a]) c a" unfolding earlier_def using c(2) by (intro exI [of _ post] exI [of _ "[a]"]) simp
    ultimately show ?thesis using True by simp
  next
    case False
    then have "earlier pre p c \<and> earlier post c p" using walk_node by simp
    then show ?thesis using earlier_append [of pre p c "[a]" "[]"] earlier_append [of post c p "[]" "[a]"] by simp
  qed
next
  case (walks_cons d pre post cs pre' post')
  then show ?case
    using earlier_append [of pre p c "[]" pre'] earlier_append [of pre' p c pre "[]"] earlier_append [of post c p "[]" post']
      earlier_append [of post' c p post "[]"] by auto
qed simp

end
