(* ===== verification/Facet_Lifecycle.thy ===== *)
theory Facet_Lifecycle
  imports Facet_Tree
begin

text \<open>
  What disposing does to a tree of facets (\<^verbatim>\<open>Dispose\<close> of \<^verbatim>\<open>src/facet/transition.go\<close>): the order in
  which facets are disposed, the well-formedness of the tree in every run, and what a disposed
  child does to its parent.
\<close>

section \<open>Disposing\<close>

lemma call_quiet [simp]: "quiet hk \<Longrightarrow> call_hook hk ev w = (True, log_event ev w)"
  by (simp add: quiet_def call_hook_def)

definition disposed_facet :: "Facet \<Rightarrow> Facet" where
  "disposed_facet x = x\<lparr>fb_onInvalidated := False, fb_state := StateDisposed, fb_onDisposed := False\<rparr>"

definition dispose_events :: "nat \<Rightarrow> Facet \<Rightarrow> facet_event list" where
  "dispose_events a x = map (\<lambda>r. RoleDisposed r a) (fb_roles x) @ [OnDetach a, ResourcesReleased a] @ (if fb_onDisposed x then [FacetDisposed (fb_id x)] else [])"

lemma dispose_one_quiet:
  assumes "quiet hk" "a < length (fw_heap w)"
  shows "fst (dispose_one hk a w)" "fw_heap (snd (dispose_one hk a w)) = (fw_heap w)[a := disposed_facet (fac w a)]"
    "fw_log (snd (dispose_one hk a w)) = fw_log w @ dispose_events a (fac w a)"
proof -
  have r: "fw_heap (releaseTestID a v) = fw_heap v" "fw_log (releaseTestID a v) = fw_log v" for v by simp_all
  show "fst (dispose_one hk a w)" using assms by (simp add: dispose_one_def Let_def)
  show "fw_heap (snd (dispose_one hk a w)) = (fw_heap w)[a := disposed_facet (fac w a)]"
    using assms by (simp add: dispose_one_def Let_def set_state_def upd_fac_def disposed_facet_def r)
  show "fw_log (snd (dispose_one hk a w)) = fw_log w @ dispose_events a (fac w a)"
    using assms by (simp add: dispose_one_def Let_def set_state_def upd_fac_def dispose_events_def r)
qed

abbreviation dispose_all :: "facet_hooks \<Rightarrow> nat list \<Rightarrow> facet_world \<Rightarrow> facet_world" where
  "dispose_all hk xs w \<equiv> fold (\<lambda>a w. snd (dispose_one hk a w)) xs w"

lemma dispose_all_effect:
  assumes "quiet hk"
  shows "distinct xs \<Longrightarrow> set xs \<subseteq> {..< length (fw_heap w)} \<Longrightarrow>
    length (fw_heap (dispose_all hk xs w)) = length (fw_heap w) \<and>
    (\<forall>b. fac (dispose_all hk xs w) b = (if b \<in> set xs then disposed_facet (fac w b) else fac w b)) \<and>
    fw_log (dispose_all hk xs w) = fw_log w @ concat (map (\<lambda>a. dispose_events a (fac w a)) xs)"
proof (induction xs arbitrary: w)
  case (Cons a xs)
  let ?w = "snd (dispose_one hk a w)"
  have a: "a < length (fw_heap w)" using Cons(3) by simp
  note D = dispose_one_quiet(2,3) [OF assms a]
  have f: "fac ?w b = (if b = a then disposed_facet (fac w a) else fac w b)" for b using D(1) a by (simp add: nth_list_update)
  have "set xs \<subseteq> {..< length (fw_heap ?w)}" using Cons(3) D(1) by simp
  note I = Cons.IH [OF _ this]
  have m: "map (\<lambda>b. dispose_events b (fac ?w b)) xs = map (\<lambda>b. dispose_events b (fac w b)) xs"
    using f Cons(2) by (intro map_cong) auto
  have l: "fw_log (dispose_all hk xs ?w) = fw_log w @ dispose_events a (fac w a) @ concat (map (\<lambda>a. dispose_events a (fac w a)) xs)"
    using I Cons(2) D(2) unfolding m by simp
  have h: "\<forall>b. fac (dispose_all hk xs ?w) b = (if b \<in> set xs then disposed_facet (fac ?w b) else fac ?w b)" "length (fw_heap (dispose_all hk xs ?w)) = length (fw_heap w)"
    using I Cons(2) D(1) by simp_all
  have "\<forall>b. fac (dispose_all hk xs ?w) b = (if b \<in> set (a # xs) then disposed_facet (fac w b) else fac w b)"
    using h(1) f Cons(2) by auto
  then show ?case using l h(2) by simp
qed simp

text \<open>Facets that are there, have the children of the walk, and are not disposed.\<close>

definition ready :: "(nat \<Rightarrow> nat list) \<Rightarrow> nat list \<Rightarrow> facet_world \<Rightarrow> bool" where
  "ready K pre w \<longleftrightarrow> (\<forall>a \<in> set pre. a < length (fw_heap w) \<and> kids w a = K a \<and> fb_state (fac w a) \<noteq> StateDisposed)"

lemma disposed_facet_simps [simp]:
  "fb_state (disposed_facet x) = StateDisposed" "fb_children (disposed_facet x) = fb_children x" "fb_parent (disposed_facet x) = fb_parent x"
  "fb_id (disposed_facet x) = fb_id x" "fb_testID (disposed_facet x) = fb_testID x"
  by (simp_all add: disposed_facet_def)

lemma ready_after:
  assumes "quiet hk" "ready K (pre @ pre') w" "distinct (pre @ pre')" "set post = set pre" "distinct post"
  shows "ready K pre' (dispose_all hk post w)"
proof -
  have "set post \<subseteq> {..< length (fw_heap w)}" using assms(2,4) by (auto simp: ready_def)
  from dispose_all_effect [OF assms(1,5) this] show ?thesis using assms(2-4) unfolding ready_def by auto
qed

lemma dispose_loop_enter:
  "fb_state (fac w a) \<noteq> StateDisposed \<Longrightarrow>
   dispose_loop hk ((a, False) # rest) w = dispose_loop hk (map (\<lambda>c. (c, False)) (kids w a) @ (a, True) # rest) w"
  by (subst dispose_loop.simps) simp

lemma dispose_loop_leave:
  "fst (dispose_one hk a w) \<Longrightarrow> dispose_loop hk ((a, True) # rest) w = dispose_loop hk rest (snd (dispose_one hk a w))"
  by (subst dispose_loop.simps) simp

lemma dispose_walk:
  assumes "quiet hk"
  shows "walk K a pre post \<Longrightarrow> ready K pre w \<Longrightarrow> distinct pre \<Longrightarrow>
      dispose_loop hk ((a, False) # rest) w = dispose_loop hk rest (dispose_all hk post w)"
    "walks K cs pre post \<Longrightarrow> ready K pre w \<Longrightarrow> distinct pre \<Longrightarrow>
      dispose_loop hk (map (\<lambda>c. (c, False)) cs @ rest) w = dispose_loop hk rest (dispose_all hk post w)"
proof (induction arbitrary: w rest and w rest rule: walk_walks.inducts)
  case (walk_node a pre post)
  have a: "a < length (fw_heap w)" "kids w a = K a" "fb_state (fac w a) \<noteq> StateDisposed" using walk_node(3) by (simp_all add: ready_def)
  have r: "ready K pre w" using walk_node(3) by (simp add: ready_def)
  have s: "set post = set pre" "distinct post"
    using walk_sets(2) [OF walk_node(1)] walk_node(4) by (metis set_mset_mset, metis distinct.simps(2) mset_eq_imp_distinct_iff)
  have "a < length (fw_heap (dispose_all hk post w))"
    using dispose_all_effect [OF assms s(2), of w] s(1) r a(1) by (force simp: ready_def)
  then have l: "fst (dispose_one hk a (dispose_all hk post w))" using dispose_one_quiet(1) [OF assms] by blast
  have "dispose_loop hk ((a, False) # rest) w = dispose_loop hk (map (\<lambda>c. (c, False)) (K a) @ (a, True) # rest) w"
    using dispose_loop_enter [OF a(3)] a(2) by simp
  also have "\<dots> = dispose_loop hk ((a, True) # rest) (dispose_all hk post w)" using walk_node(2) [OF r] walk_node(4) by simp
  also have "\<dots> = dispose_loop hk rest (dispose_all hk (post @ [a]) w)" using dispose_loop_leave [OF l] by simp
  finally show ?case .
next
  case (walks_cons c pre post cs pre' post')
  have s: "set post = set pre" "distinct post"
    using walk_sets(1) [OF walks_cons(1)] walks_cons(6) by (metis set_mset_mset, metis distinct_append mset_eq_imp_distinct_iff)
  have r: "ready K pre w" using walks_cons(5) by (auto simp: ready_def)
  have r': "ready K pre' (dispose_all hk post w)" by (rule ready_after [OF assms walks_cons(5,6) s])
  show ?case using walks_cons(2) [OF r] walks_cons(4) [OF r'] walks_cons(6) by simp
qed simp

definition is_detach :: "facet_event \<Rightarrow> bool" where
  "is_detach ev \<longleftrightarrow> (case ev of OnDetach _ \<Rightarrow> True | _ \<Rightarrow> False)"

lemma detach_events: "filter is_detach (concat (map (\<lambda>a. dispose_events a (fac w a)) xs)) = map OnDetach xs"
  by (induction xs) (auto simp: dispose_events_def is_detach_def filter_empty_conv)

text \<open>Every run has a forest, and every facet in it a walk.\<close>

definition no_facets :: facet_world where
  "no_facets = \<lparr>fw_heap = [], fw_idSource = 0, fw_liveTestIDs = (\<lambda>_. None), fw_log = []\<rparr>"

lemma facet_run_forest: "facet_step\<^sup>*\<^sup>* no_facets w \<Longrightarrow> forest w"
proof (induction rule: rtranclp_induct)
  case base
  show ?case by (rule forestI) (simp_all add: no_facets_def edges_def acyclic_def)
qed (rule facet_step_forest)

lemma forest_walk:
  assumes "forest w" "f < length (fw_heap w)"
  obtains pre post where "walk (kids w) f pre post" "set pre = below w f" "distinct pre" "set post = below w f" "distinct post"
    "\<And>p c. p \<in> below w f \<Longrightarrow> c \<in> set (kids w p) \<Longrightarrow> earlier pre p c \<and> earlier post c p"
proof -
  obtain pre post where w: "walk (kids w) f pre post" using walk_exists [OF assms] by blast
  have s: "set pre = below w f" "distinct pre" using walk_below(1) [OF assms(1) w assms(2)] walk_distinct(1) [OF assms(1) w assms(2)] by simp_all
  moreover have "set post = below w f" "distinct post"
    using walk_set_eq(1) [OF w] walk_sets(1) [OF w] s by (simp, metis mset_eq_imp_distinct_iff)
  ultimately show ?thesis using that w walk_orders(1) [OF w] by auto
qed

text \<open>
  C26: In every run, disposing a facet under hooks that return disposes exactly the facets below
  it: each is detached once, children before their parent, and no other facet changes.
\<close>

theorem Dispose_children_first:
  assumes "facet_step\<^sup>*\<^sup>* no_facets w" and "f < length (fw_heap w)" and "quiet hk"
    and "\<forall>a \<in> below w f. fb_state (fac w a) \<noteq> StateDisposed"
  shows "\<exists>w' order. Dispose hk f w = Some (Returned, w') \<and> distinct order \<and> set order = below w f \<and>
    filter is_detach (fw_log w') = filter is_detach (fw_log w) @ map OnDetach order \<and>
    (\<forall>p c. p \<in> below w f \<and> c \<in> set (kids w p) \<longrightarrow> earlier order c p) \<and>
    (\<forall>a. fb_state (fac w' a) = (if a \<in> below w f then StateDisposed else fb_state (fac w a)))"
proof -
  have ok: "forest w" by (rule facet_run_forest [OF assms(1)])
  obtain pre post where W: "walk (kids w) f pre post" "set pre = below w f" "distinct pre" "set post = below w f" "distinct post"
    "\<And>p c. p \<in> below w f \<Longrightarrow> c \<in> set (kids w p) \<Longrightarrow> earlier pre p c \<and> earlier post c p"
    using forest_walk [OF ok assms(2)] by metis
  have less: "a < length (fw_heap w)" if "a \<in> below w f" for a using below_less [OF ok assms(2) that] .
  have "ready (kids w) pre w" using assms(4) less W(2) by (simp add: ready_def)
  then have d: "Dispose hk f w = Some (Returned, dispose_all hk post w)"
    using dispose_walk(1) [OF assms(3) W(1) _ W(3), of w "[]"] by (simp add: Dispose_def dispose_loop.simps [of hk "[]"])
  have "set post \<subseteq> {..< length (fw_heap w)}" using less W(4) by auto
  note E = dispose_all_effect [OF assms(3) W(5) this]
  have "\<forall>p c. p \<in> below w f \<and> c \<in> set (kids w p) \<longrightarrow> earlier post c p" using W(6) by blast
  then show ?thesis
    using d E W(4,5) by (intro exI [of _ "dispose_all hk post w"] exI [of _ post]) (simp add: detach_events)
qed

text \<open>A small tree: a root with two children, the first of which has one child of its own.\<close>

definition returned :: "(facet_outcome \<times> facet_world) option \<Rightarrow> facet_world" where
  "returned r = snd (the r)"

definition sample_facets :: facet_world where
  "sample_facets = snd (NewFacet (snd (NewFacet (snd (NewFacet (snd (NewFacet no_facets)))))))"

definition sample_tree :: facet_world where
  "sample_tree = returned (AddChild 1 3 (returned (AddChild 0 2 (returned (AddChild 0 1 sample_facets)))))"

definition quiet_hooks :: facet_hooks where
  "quiet_hooks ev w = (True, w)"

lemma quiet_hooks_quiet: "quiet quiet_hooks"
  by (simp add: quiet_def quiet_hooks_def)

lemma run_new: "facet_step\<^sup>*\<^sup>* no_facets w \<Longrightarrow> fw_idSource w \<noteq> - 1 \<Longrightarrow> facet_step\<^sup>*\<^sup>* no_facets (snd (NewFacet w))"
  by (blast intro: rtranclp.rtrancl_into_rtrancl new_facet)

lemma run_add:
  assumes "facet_step\<^sup>*\<^sup>* no_facets w" "f < length (fw_heap w)" "c < length (fw_heap w)" "AddChild f c w \<noteq> None"
  shows "facet_step\<^sup>*\<^sup>* no_facets (returned (AddChild f c w))"
proof -
  obtain r w' where "AddChild f c w = Some (r, w')" using assms(4) by auto
  then show ?thesis using add_child [OF assms(2,3)] assms(1) by (auto simp: returned_def intro: rtranclp.rtrancl_into_rtrancl)
qed

lemma sample_facets_run: "facet_step\<^sup>*\<^sup>* no_facets sample_facets"
  unfolding sample_facets_def by (intro run_new) (simp_all add: no_facets_def NewFacet_def Let_def)

lemma sample_tree_run: "facet_step\<^sup>*\<^sup>* no_facets sample_tree"
proof -
  have l: "length (fw_heap sample_facets) = 4" "length (fw_heap (returned (AddChild 0 1 sample_facets))) = 4"
    "length (fw_heap (returned (AddChild 0 2 (returned (AddChild 0 1 sample_facets))))) = 4" by code_simp+
  have n: "AddChild 0 1 sample_facets \<noteq> None" "AddChild 0 2 (returned (AddChild 0 1 sample_facets)) \<noteq> None"
    "AddChild 1 3 (returned (AddChild 0 2 (returned (AddChild 0 1 sample_facets)))) \<noteq> None" by code_simp+
  show ?thesis unfolding sample_tree_def by (intro run_add sample_facets_run n; (simp only: l; simp))
qed

lemma sample_tree_facts:
  "length (fw_heap sample_tree) = 4" "map fb_state (fw_heap sample_tree) = replicate 4 StateCreated"
  "map fb_children (fw_heap sample_tree) = [[1, 2], [3], [], []]" "map fb_parent (fw_heap sample_tree) = [None, Some 0, Some 0, Some 1]"
  by code_simp+

lemma sample_tree_state: "a < 4 \<Longrightarrow> fb_state (fac sample_tree a) = StateCreated"
  using sample_tree_facts(1,2) by (metis nth_map nth_replicate)

text \<open>The root of the sample: its grandchild goes first and it goes last.\<close>

theorem Dispose_children_first_witness:
  "map_option (filter is_detach \<circ> fw_log \<circ> snd) (Dispose quiet_hooks 0 sample_tree) = Some [OnDetach 3, OnDetach 1, OnDetach 2, OnDetach 0] \<and>
   map_option (map fb_state \<circ> fw_heap \<circ> snd) (Dispose quiet_hooks 0 sample_tree) = Some (replicate 4 StateDisposed)"
proof
  show "map_option (filter is_detach \<circ> fw_log \<circ> snd) (Dispose quiet_hooks 0 sample_tree) = Some [OnDetach 3, OnDetach 1, OnDetach 2, OnDetach 0]"
    by code_simp
  have ok: "forest sample_tree" by (rule facet_run_forest [OF sample_tree_run])
  have st: "\<forall>a \<in> below sample_tree 0. fb_state (fac sample_tree a) \<noteq> StateDisposed"
    using below_less [OF ok, of 0] sample_tree_facts(1) sample_tree_state by auto
  obtain w' order where d: "Dispose quiet_hooks 0 sample_tree = Some (Returned, w')" "set order = below sample_tree 0"
    "filter is_detach (fw_log w') = filter is_detach (fw_log sample_tree) @ map OnDetach order"
    "\<forall>a. fb_state (fac w' a) = (if a \<in> below sample_tree 0 then StateDisposed else fb_state (fac sample_tree a))"
    using Dispose_children_first [OF sample_tree_run _ quiet_hooks_quiet st] sample_tree_facts(1) by auto
  have "map_option (length \<circ> fw_heap \<circ> snd) (Dispose quiet_hooks 0 sample_tree) = Some 4"
    "map_option (filter is_detach \<circ> fw_log \<circ> snd) (Dispose quiet_hooks 0 sample_tree) = Some [OnDetach 3, OnDetach 1, OnDetach 2, OnDetach 0]"
    "filter is_detach (fw_log sample_tree) = []"
    by code_simp+
  then have "length (fw_heap w') = 4" "map OnDetach order = map OnDetach [3, 1, 2, 0]" using d(1,3) by simp_all
  then have "length (fw_heap w') = 4" "order = [3, 1, 2, 0]" by (simp_all add: map_eq_Cons_conv)
  then have "map fb_state (fw_heap w') = replicate 4 StateDisposed"
    using d(2,4) by (intro nth_equalityI) (auto simp: numeral_eq_Suc less_Suc_eq)
  then show "map_option (map fb_state \<circ> fw_heap \<circ> snd) (Dispose quiet_hooks 0 sample_tree) = Some (replicate 4 StateDisposed)" using d(1) by simp
qed

text \<open>
  C25: In every run the facets form a forest: a facet is in the list of children of exactly its
  parent, once; no facet is its own ancestor; identifiers are unique. So the walk up the parents
  by which adding a child looks for a cycle always ends, and it answers whether the child is the
  facet itself or one of its ancestors.
\<close>

theorem facet_tree_well_formed:
  assumes "facet_step\<^sup>*\<^sup>* no_facets w" and "a < length (fw_heap w)" and "p < length (fw_heap w)"
  shows "(fb_parent (fac w a) = Some p \<longleftrightarrow> a \<in> set (kids w p)) \<and> distinct (kids w p) \<and> (a, a) \<notin> (edges (fw_heap w))\<^sup>+ \<and>
    (fb_id (fac w a) = fb_id (fac w p) \<longrightarrow> a = p) \<and>
    climb (fw_heap w) (\<lambda>x. x = a) (Some p) = Some ((a, p) \<in> (edges (fw_heap w))\<^sup>*)"
proof -
  have ok: "forest w" by (rule facet_run_forest [OF assms(1)])
  have "fb_parent (fac w a) = Some p \<longleftrightarrow> a \<in> set (kids w p)" using forestD(1) [OF ok assms(2)] forestD(2) [OF ok assms(3)] by blast
  moreover have "fb_id (fac w a) = fb_id (fac w p) \<longrightarrow> a = p"
    using forestD(5) [OF ok] assms(2,3) nth_eq_iff_index_eq [of "map fb_id (fw_heap w)" a p] by simp
  moreover have "climb (fw_heap w) (\<lambda>x. x = a) (Some p) = Some ((a, p) \<in> (edges (fw_heap w))\<^sup>*)"
    using forest_climb [OF ok assms(3), of "\<lambda>x. x = a"] by simp
  ultimately show ?thesis using forestD(3,4) [OF ok] assms(3) by (simp add: acyclic_def)
qed

theorem facet_tree_well_formed_witness:
  "3 \<in> set (kids sample_tree 1) \<and> AddChild 3 0 sample_tree = Some (Panicked WouldCycle, sample_tree)"
proof -
  have "fb_parent (fac sample_tree 3) = Some 1" using sample_tree_facts(1,4) nth_map [of 3 "fw_heap sample_tree" fb_parent] by simp
  then have "3 \<in> set (kids sample_tree 1)" using facet_tree_well_formed [OF sample_tree_run, of 3 1] sample_tree_facts(1) by simp
  moreover have "map_option fst (AddChild 3 0 sample_tree) = Some (Panicked WouldCycle)" by code_simp
  then have "AddChild 3 0 sample_tree = Some (Panicked WouldCycle, sample_tree)"
    by (auto simp: AddChild_def adopt_def split: if_splits option.splits bool.splits)
  ultimately show ?thesis by blast
qed

section \<open>A disposed child\<close>

lemma ready_split:
  assumes "\<forall>a \<in> set xs. a < length (fw_heap w) \<and> kids w a = K a"
  shows "ready K xs w \<longleftrightarrow> (\<forall>a \<in> set xs. fb_state (fac w a) \<noteq> StateDisposed)"
  using assms by (auto simp: ready_def)

lemma dispose_blocked:
  assumes "quiet hk"
  shows "walk K a pre post \<Longrightarrow> (\<forall>b \<in> set pre. b < length (fw_heap w) \<and> kids w b = K b) \<Longrightarrow> distinct pre \<Longrightarrow> \<not> ready K pre w \<Longrightarrow>
      \<exists>w'. dispose_loop hk ((a, False) # rest) w = Some (Panicked (InvalidTransition StateDisposed StateDisposed), w') \<and>
        (\<forall>b. b = a \<or> b \<notin> set pre \<longrightarrow> fac w' b = fac w b)"
    "walks K cs pre post \<Longrightarrow> (\<forall>b \<in> set pre. b < length (fw_heap w) \<and> kids w b = K b) \<Longrightarrow> distinct pre \<Longrightarrow> \<not> ready K pre w \<Longrightarrow>
      \<exists>w'. dispose_loop hk (map (\<lambda>c. (c, False)) cs @ rest) w = Some (Panicked (InvalidTransition StateDisposed StateDisposed), w') \<and>
        (\<forall>b. b \<notin> set pre \<longrightarrow> fac w' b = fac w b)"
proof (induction arbitrary: w rest and w rest rule: walk_walks.inducts)
  case (walk_node a pre post)
  show ?case
  proof (cases "fb_state (fac w a) = StateDisposed")
    case True
    then show ?thesis by (subst dispose_loop.simps) simp
  next
    case False
    then have "\<not> ready K pre w" using walk_node(3,5) ready_split [of pre w K] ready_split [of "a # pre" w K] by simp
    then obtain w' where w': "dispose_loop hk (map (\<lambda>c. (c, False)) (K a) @ (a, True) # rest) w = Some (Panicked (InvalidTransition StateDisposed StateDisposed), w')"
      "\<forall>b. b \<notin> set pre \<longrightarrow> fac w' b = fac w b"
      using walk_node(2) [of w "(a, True) # rest"] walk_node(3,4) by auto
    moreover have "a \<notin> set pre" using walk_node(4) by simp
    ultimately show ?thesis using dispose_loop_enter [OF False, of hk rest] walk_node(3) by auto
  qed
next
  case walks_nil
  then show ?case by (simp add: ready_def)
next
  case (walks_cons c pre post cs pre' post')
  show ?case
  proof (cases "ready K pre w")
    case False
    then obtain w' where "dispose_loop hk ((c, False) # map (\<lambda>c. (c, False)) cs @ rest) w = Some (Panicked (InvalidTransition StateDisposed StateDisposed), w')"
      "\<forall>b. b = c \<or> b \<notin> set pre \<longrightarrow> fac w' b = fac w b"
      using walks_cons(2) [of w "map (\<lambda>c. (c, False)) cs @ rest"] walks_cons(5,6) by auto
    then show ?thesis by auto
  next
    case True
    let ?w = "dispose_all hk post w"
    have s: "set post = set pre" "distinct post"
      using walk_sets(1) [OF walks_cons(1)] walks_cons(6) by (metis set_mset_mset, metis distinct_append mset_eq_imp_distinct_iff)
    have "set post \<subseteq> {..< length (fw_heap w)}" using True s(1) by (auto simp: ready_def)
    note E = dispose_all_effect [OF assms s(2) this]
    have d: "dispose_loop hk ((c, False) # map (\<lambda>c. (c, False)) cs @ rest) w = dispose_loop hk (map (\<lambda>c. (c, False)) cs @ rest) ?w"
      using dispose_walk(1) [OF assms walks_cons(1) True] walks_cons(6) by simp
    have "\<not> (\<forall>b \<in> set pre'. fb_state (fac w b) \<noteq> StateDisposed)"
      using walks_cons(5,7) True ready_split [of "pre @ pre'" w K] ready_split [of pre w K] by auto
    moreover have k: "\<forall>b \<in> set pre'. b < length (fw_heap ?w) \<and> kids ?w b = K b \<and> fac ?w b = fac w b"
      using E s(1) walks_cons(5,6) by auto
    ultimately have nr: "\<not> ready K pre' ?w" by (auto simp: ready_def)
    have k1: "\<forall>b \<in> set pre'. b < length (fw_heap ?w) \<and> kids ?w b = K b" using k by blast
    have "distinct pre'" using walks_cons(6) by simp
    then obtain w' where "dispose_loop hk (map (\<lambda>c. (c, False)) cs @ rest) ?w = Some (Panicked (InvalidTransition StateDisposed StateDisposed), w')"
      "\<forall>b. b \<notin> set pre' \<longrightarrow> fac w' b = fac ?w b"
      using walks_cons(4) [OF k1 _ nr, of rest] by blast
    then show ?thesis using d E s(1) by auto
  qed
qed

lemma Dispose_shape: "Dispose hk f w = Some (r, w') \<Longrightarrow> inert hk \<Longrightarrow> shape w' = shape w"
  using dispose_loop_shape [of hk "[(f, False)]" w "(r, w')"] by (simp add: Dispose_def)

lemma below_shape: "shape w' = shape w \<Longrightarrow> below w' f = below w f"
  using edges_shape [of w' w] by (simp add: below_def)



end
