(* ===== verification/Facet_Attach.thy ===== *)
theory Facet_Attach
  imports Facet_Lifecycle
begin

text \<open>
  What attaching a tree of facets does (\<^verbatim>\<open>Attach\<close> of \<^verbatim>\<open>src/facet/transition.go\<close>): under hooks that
  return, every facet below the root once, parents first; and what a failing attachment takes back.
\<close>

section \<open>Attaching\<close>

definition wired :: "Facet \<Rightarrow> Facet" where
  "wired x = x\<lparr>fb_onDisposed := True, fb_onInvalidated := True, fb_registry := True\<rparr>"

definition attached_facet :: "Facet \<Rightarrow> Facet" where
  "attached_facet x = (wired x)\<lparr>fb_state := StateAttached\<rparr>"

lemma wired_simps [simp]:
  "fb_id (wired x) = fb_id x" "fb_testID (wired x) = fb_testID x" "fb_state (wired x) = fb_state x" "fb_parent (wired x) = fb_parent x"
  "fb_children (wired x) = fb_children x" "fb_roles (wired x) = fb_roles x" "fb_registry (wired x)" "attach_context c (wired x) = attach_context c x"
  by (simp_all add: wired_def attach_context_def)

lemma attached_facet_simps [simp]:
  "fb_id (attached_facet x) = fb_id x" "fb_testID (attached_facet x) = fb_testID x" "fb_state (attached_facet x) = StateAttached"
  "fb_children (attached_facet x) = fb_children x" "fb_registry (attached_facet x)"
  by (simp_all add: attached_facet_def wired_def)

text \<open>The world in which \<^verbatim>\<open>OnAttach\<close> is called.\<close>

definition before_attach :: "nat \<Rightarrow> facet_world \<Rightarrow> facet_world" where
  "before_attach f w = log_roles RoleAttached f (upd_fac f wired w)"

lemma before_attach_simps:
  assumes "f < length (fw_heap w)"
  shows "fw_heap (before_attach f w) = (fw_heap w)[f := wired (fac w f)]" "fw_liveTestIDs (before_attach f w) = fw_liveTestIDs w"
    "fw_log (before_attach f w) = fw_log w @ map (\<lambda>r. RoleAttached r f) (fb_roles (fac w f))"
  using assms by (simp_all add: before_attach_def upd_fac_def)

lemma attach_one_unfold:
  assumes "f < length (fw_heap w)"
  shows "attach_one hk f c w =
    (let d = attach_context c (fac w f); (ok, w2) = call_hook hk (OnAttach f d) (before_attach f w)
     in if \<not> ok then (Panicked HookPanic, w2)
        else (case registerTestID f d w2 of
                (Panicked e, w3) \<Rightarrow> (Panicked e, w3)
              | (Returned, w3) \<Rightarrow> (Returned, set_state StateAttached f w3)))"
proof -
  have u: "log_roles RoleAttached f (upd_fac f (\<lambda>x. x\<lparr>fb_onDisposed := True, fb_onInvalidated := True, fb_registry := True\<rparr>) w) = before_attach f w"
    by (simp add: before_attach_def wired_def [abs_def])
  have "fac (before_attach f w) f = wired (fac w f)" using before_attach_simps(1) [OF assms] assms by simp
  then have d: "attach_context c (fac (before_attach f w) f) = attach_context c (fac w f)" by simp
  show ?thesis unfolding attach_one_def u Let_def d by (rule refl)
qed

text \<open>What one round does under hooks that leave the world alone.\<close>

lemma attach_one_inert:
  assumes "inert hk" "f < length (fw_heap w)" "attach_one hk f c w = (r, w')"
  shows "fw_heap w' = (fw_heap w)[f := (if r = Returned then attached_facet (fac w f) else wired (fac w f))]"
    "fw_log w' = fw_log w @ map (\<lambda>r. RoleAttached r f) (fb_roles (fac w f)) @ [OnAttach f (attach_context c (fac w f))]"
    "if r = Returned \<and> fb_testID (fac w f) \<noteq> ''''
     then fw_liveTestIDs w (fb_testID (fac w f)) = None \<and>
       fw_liveTestIDs w' = (fw_liveTestIDs w)(fb_testID (fac w f) \<mapsto> (fb_id (fac w f), attach_context c (fac w f)))
     else fw_liveTestIDs w' = fw_liveTestIDs w"
proof -
  let ?d = "attach_context c (fac w f)"
  let ?w2 = "log_event (OnAttach f ?d) (before_attach f w)"
  obtain ok where h: "call_hook hk (OnAttach f ?d) (before_attach f w) = (ok, ?w2)"
    using call_inert [OF assms(1), of "OnAttach f ?d" "before_attach f w"] by (metis prod.collapse)
  note B = before_attach_simps [OF assms(2)]
  have x: "fac ?w2 f = wired (fac w f)" using B(1) assms(2) by simp
  have R: "registerTestID f ?d ?w2 =
    (if fb_testID (fac w f) = '''' then (Returned, ?w2)
     else case fw_liveTestIDs w (fb_testID (fac w f)) of
            Some (j, _) \<Rightarrow> (Panicked (DuplicateTestID (fb_testID (fac w f)) j (fb_id (fac w f))), ?w2)
          | None \<Rightarrow> (Returned, ?w2\<lparr>fw_liveTestIDs := (fw_liveTestIDs w)(fb_testID (fac w f) \<mapsto> (fb_id (fac w f), ?d))\<rparr>))"
    using B(2) by (simp add: registerTestID_def Let_def x del: log_event_simps(1) split: option.split)
  show "fw_heap w' = (fw_heap w)[f := (if r = Returned then attached_facet (fac w f) else wired (fac w f))]"
    "fw_log w' = fw_log w @ map (\<lambda>r. RoleAttached r f) (fb_roles (fac w f)) @ [OnAttach f (attach_context c (fac w f))]"
    "if r = Returned \<and> fb_testID (fac w f) \<noteq> ''''
     then fw_liveTestIDs w (fb_testID (fac w f)) = None \<and>
       fw_liveTestIDs w' = (fw_liveTestIDs w)(fb_testID (fac w f) \<mapsto> (fb_id (fac w f), attach_context c (fac w f)))
     else fw_liveTestIDs w' = fw_liveTestIDs w"
    using assms(2,3) h B x unfolding attach_one_unfold [OF assms(2)]
    by (auto simp: R Let_def set_state_def upd_fac_def attached_facet_def split: if_splits option.splits)
qed

lemma attach_one_quiet:
  assumes "quiet hk" "f < length (fw_heap w)" "fb_testID (fac w f) = '''' \<or> fw_liveTestIDs w (fb_testID (fac w f)) = None"
  shows "fst (attach_one hk f c w) = Returned"
proof -
  have x: "fac (log_event ev (before_attach f w)) f = wired (fac w f)" for ev using before_attach_simps(1) [OF assms(2)] assms(2) by simp
  let ?d = "attach_context c (fac w f)"
  have "fst (registerTestID f ?d (log_event (OnAttach f ?d) (before_attach f w))) = Returned"
    using assms(3) before_attach_simps(2) [OF assms(2)] by (auto simp: registerTestID_def Let_def x simp del: log_event_simps(1))
  then obtain v where "registerTestID f ?d (log_event (OnAttach f ?d) (before_attach f w)) = (Returned, v)" by (metis prod.collapse)
  then show ?thesis
    unfolding attach_one_unfold [OF assms(2)] using assms(1) by (simp add: Let_def)
qed

definition attach_call :: "facet_event \<Rightarrow> nat option" where
  "attach_call ev = (case ev of OnAttach a _ \<Rightarrow> Some a | _ \<Rightarrow> None)"

lemma attach_calls_one: "List.map_filter attach_call (map (\<lambda>r. RoleAttached r f) rs @ [OnAttach f c]) = [f]"
proof -
  have "List.map_filter attach_call (map (\<lambda>r. RoleAttached r f) rs) = []"
    by (induction rs) (simp_all add: List.map_filter_simps attach_call_def)
  then show ?thesis by (simp add: map_filter_append List.map_filter_simps attach_call_def)
qed

text \<open>The facets that can be attached: created, with the children of the walk and a free identity.\<close>

definition attachable :: "(nat \<Rightarrow> nat list) \<Rightarrow> nat list \<Rightarrow> facet_world \<Rightarrow> bool" where
  "attachable K pre w \<longleftrightarrow> distinct pre \<and>
     (\<forall>a \<in> set pre. a < length (fw_heap w) \<and> kids w a = K a \<and> fb_state (fac w a) = StateCreated \<and>
        (fb_testID (fac w a) = '''' \<or> fw_liveTestIDs w (fb_testID (fac w a)) = None)) \<and>
     (\<forall>a \<in> set pre. \<forall>b \<in> set pre. fb_testID (fac w a) = fb_testID (fac w b) \<and> fb_testID (fac w a) \<noteq> '''' \<longrightarrow> a = b)"

text \<open>The effect of attaching some facets in an order.\<close>

definition attached_by :: "nat list \<Rightarrow> facet_world \<Rightarrow> facet_world \<Rightarrow> bool" where
  "attached_by xs w w' \<longleftrightarrow> length (fw_heap w') = length (fw_heap w) \<and>
     (\<forall>b. fac w' b = (if b \<in> set xs then attached_facet (fac w b) else fac w b)) \<and>
     (\<forall>b \<in> set xs. fb_testID (fac w b) \<noteq> '''' \<longrightarrow> (\<exists>c. fw_liveTestIDs w' (fb_testID (fac w b)) = Some (fb_id (fac w b), c))) \<and>
     (\<forall>t. t = '''' \<or> t \<notin> (\<lambda>b. fb_testID (fac w b)) ` set xs \<longrightarrow> fw_liveTestIDs w' t = fw_liveTestIDs w t) \<and>
     List.map_filter attach_call (fw_log w') = List.map_filter attach_call (fw_log w) @ xs"

lemma attached_by_Nil [simp]: "attached_by [] w w"
  by (simp add: attached_by_def)

lemma attached_by_append:
  assumes "attached_by xs w w1" "attached_by ys w1 w2" "set xs \<inter> set ys = {}"
    "\<forall>a \<in> set xs. \<forall>b \<in> set ys. fb_testID (fac w a) = fb_testID (fac w b) \<longrightarrow> fb_testID (fac w a) = ''''"
  shows "attached_by (xs @ ys) w w2"
proof -
  have f: "fac w1 b = fac w b" if "b \<in> set ys" for b using assms(1,3) that by (auto simp: attached_by_def)
  have h: "fac w2 b = (if b \<in> set (xs @ ys) then attached_facet (fac w b) else fac w b)" for b
  proof (cases "b \<in> set ys")
    case True
    then show ?thesis using assms(2,3) f by (auto simp: attached_by_def)
  next
    case False
    then show ?thesis using assms(1,2) by (simp add: attached_by_def)
  qed
  have l1: "\<exists>c. fw_liveTestIDs w2 (fb_testID (fac w b)) = Some (fb_id (fac w b), c)" if "b \<in> set xs" "fb_testID (fac w b) \<noteq> ''''" for b
  proof -
    have "fb_testID (fac w b) \<notin> (\<lambda>b. fb_testID (fac w1 b)) ` set ys" using assms(4) that f by auto
    then have "fw_liveTestIDs w2 (fb_testID (fac w b)) = fw_liveTestIDs w1 (fb_testID (fac w b))" using assms(2) by (simp add: attached_by_def)
    then show ?thesis using assms(1) that by (simp add: attached_by_def)
  qed
  have l2: "\<exists>c. fw_liveTestIDs w2 (fb_testID (fac w b)) = Some (fb_id (fac w b), c)" if "b \<in> set ys" "fb_testID (fac w b) \<noteq> ''''" for b
    using assms(2) f [OF that(1)] that by (auto simp: attached_by_def)
  have l3: "fw_liveTestIDs w2 t = fw_liveTestIDs w t" if "t = '''' \<or> t \<notin> (\<lambda>b. fb_testID (fac w b)) ` set (xs @ ys)" for t
  proof -
    have "(\<lambda>b. fb_testID (fac w1 b)) ` set ys = (\<lambda>b. fb_testID (fac w b)) ` set ys" using f by (intro image_cong) auto
    then have "fw_liveTestIDs w2 t = fw_liveTestIDs w1 t" using assms(2) that by (auto simp: attached_by_def)
    then show ?thesis using assms(1) that by (auto simp: attached_by_def)
  qed
  have "\<forall>b \<in> set (xs @ ys). fb_testID (fac w b) \<noteq> '''' \<longrightarrow> (\<exists>c. fw_liveTestIDs w2 (fb_testID (fac w b)) = Some (fb_id (fac w b), c))"
    using l1 l2 by auto
  moreover have "\<forall>t. t = '''' \<or> t \<notin> (\<lambda>b. fb_testID (fac w b)) ` set (xs @ ys) \<longrightarrow> fw_liveTestIDs w2 t = fw_liveTestIDs w t"
    using l3 by blast
  moreover have "length (fw_heap w2) = length (fw_heap w)"
    "List.map_filter attach_call (fw_log w2) = List.map_filter attach_call (fw_log w) @ xs @ ys"
    using assms(1,2) by (simp_all add: attached_by_def)
  ultimately show ?thesis using h unfolding attached_by_def by blast
qed

lemma attach_one_by:
  assumes "quiet hk" "attachable K [f] w"
  shows "attached_by [f] w (snd (attach_one hk f c w))" "fst (attach_one hk f c w) = Returned"
proof -
  have f: "f < length (fw_heap w)" "fb_testID (fac w f) = '''' \<or> fw_liveTestIDs w (fb_testID (fac w f)) = None"
    using assms(2) by (auto simp: attachable_def)
  show r: "fst (attach_one hk f c w) = Returned" by (rule attach_one_quiet [OF assms(1) f])
  obtain w' where a: "attach_one hk f c w = (Returned, w')" using r by (metis prod.collapse)
  note I = attach_one_inert [OF quiet_inert [OF assms(1)] f(1) a]
  have "List.map_filter attach_call (fw_log w') = List.map_filter attach_call (fw_log w) @ [f]"
    using I(2) attach_calls_one by (simp only: map_filter_append)
  moreover have "\<forall>b. fac w' b = (if b \<in> set [f] then attached_facet (fac w b) else fac w b)"
    using I(1) f(1) by (simp add: nth_list_update)
  ultimately show "attached_by [f] w (snd (attach_one hk f c w))"
    unfolding attached_by_def a using I(1,3) f(1) by (auto split: if_splits)
qed

lemma attachable_apart:
  "attachable K (xs @ ys) w \<Longrightarrow> \<forall>a \<in> set xs. \<forall>b \<in> set ys. fb_testID (fac w a) = fb_testID (fac w b) \<longrightarrow> fb_testID (fac w a) = ''''"
proof (intro ballI impI)
  fix a b
  assume A: "attachable K (xs @ ys) w" and m: "a \<in> set xs" "b \<in> set ys" and e: "fb_testID (fac w a) = fb_testID (fac w b)"
  have "a \<noteq> b" using A m by (auto simp: attachable_def)
  moreover have "a \<in> set (xs @ ys)" "b \<in> set (xs @ ys)" using m by simp_all
  ultimately show "fb_testID (fac w a) = ''''" using A e unfolding attachable_def by blast
qed
lemma attachable_after:
  assumes "attachable K (xs @ ys) w" "attached_by xs w w'"
  shows "attachable K ys w'"
proof -
  have f: "fac w' b = fac w b" if "b \<in> set ys" for b using assms that by (auto simp: attachable_def attached_by_def)
  have "fw_liveTestIDs w' (fb_testID (fac w b)) = fw_liveTestIDs w (fb_testID (fac w b))" if "b \<in> set ys" for b
  proof -
    have "fb_testID (fac w b) = '''' \<or> fb_testID (fac w b) \<notin> (\<lambda>b. fb_testID (fac w b)) ` set xs"
      using attachable_apart [OF assms(1)] that by (metis (no_types, lifting) imageE)
    then show ?thesis using assms(2) unfolding attached_by_def by blast
  qed
  then show ?thesis using assms f by (auto simp: attachable_def attached_by_def)
qed

lemma attachable_prefix: "attachable K (xs @ ys) w \<Longrightarrow> attachable K xs w"
  unfolding attachable_def by auto

lemma attach_walk:
  assumes "quiet hk"
  shows "walk K a pre post \<Longrightarrow> attachable K pre w \<Longrightarrow>
      \<exists>w'. attached_by pre w w' \<and> attach_loop hk ((a, c) # rest) ho at w = attach_loop hk rest (ho @ pre) (at @ pre) w'"
    "walks K cs pre post \<Longrightarrow> attachable K pre w \<Longrightarrow>
      \<exists>w'. attached_by pre w w' \<and> attach_loop hk (map (\<lambda>b. (b, c)) cs @ rest) ho at w = attach_loop hk rest (ho @ pre) (at @ pre) w'"
proof (induction arbitrary: w c rest ho at and w c rest ho at rule: walk_walks.inducts)
  case (walk_node a pre post)
  have s: "attachable K ([a] @ pre) w" using walk_node(3) by simp
  let ?w1 = "snd (attach_one hk a c w)"
  note one = attach_one_by [OF assms attachable_prefix [OF s]]
  have "attachable K pre ?w1" by (rule attachable_after [OF s one(1)])
  then obtain w' where w': "attached_by pre ?w1 w'"
    "attach_loop hk (map (\<lambda>b. (b, attach_context c (fac w a))) (K a) @ rest) (ho @ [a]) (at @ [a]) ?w1 = attach_loop hk rest ((ho @ [a]) @ pre) ((at @ [a]) @ pre) w'"
    using walk_node(2) by blast
  have "set [a] \<inter> set pre = {}" using s by (simp add: attachable_def)
  note all = attached_by_append [OF one(1) w'(1) this attachable_apart [OF s]]
  have "fb_state (fac w a) = StateCreated" "kids w a = K a" using s by (simp_all add: attachable_def)
  moreover have "kids ?w1 a = kids w a" using one(1) by (simp add: attached_by_def)
  ultimately have "attach_loop hk ((a, c) # rest) ho at w =
    attach_loop hk (map (\<lambda>b. (b, attach_context c (fac w a))) (K a) @ rest) (ho @ [a]) (at @ [a]) ?w1"
    by (subst attach_loop.simps) (simp add: one(2))
  then show ?case using w'(2) all by (intro exI [of _ w']) simp
next
  case (walks_cons d pre post cs pre' post')
  obtain w1 where w1: "attached_by pre w w1"
    "attach_loop hk ((d, c) # map (\<lambda>b. (b, c)) cs @ rest) ho at w = attach_loop hk (map (\<lambda>b. (b, c)) cs @ rest) (ho @ pre) (at @ pre) w1"
    using walks_cons(2) [OF attachable_prefix [OF walks_cons(5)]] by blast
  obtain w2 where w2: "attached_by pre' w1 w2"
    "attach_loop hk (map (\<lambda>b. (b, c)) cs @ rest) (ho @ pre) (at @ pre) w1 = attach_loop hk rest ((ho @ pre) @ pre') ((at @ pre) @ pre') w2"
    using walks_cons(4) [OF attachable_after [OF walks_cons(5) w1(1)]] by blast
  have "set pre \<inter> set pre' = {}" using walks_cons(5) by (simp add: attachable_def)
  note all = attached_by_append [OF w1(1) w2(1) this attachable_apart [OF walks_cons(5)]]
  show ?case using all w1(2) w2(2) by (intro exI [of _ w2]) simp
next
  case (walks_nil w c rest ho at)
  then show ?case by (intro exI [of _ w]) simp
qed

text \<open>
  C27: In every run, attaching a tree of created facets whose author identities are distinct and
  not in use, under hooks that return, attaches exactly the facets below the root: each is called
  once, parents before their children, and afterwards each identity resolves to its facet.
\<close>

theorem Attach_parents_first:
  assumes "facet_step\<^sup>*\<^sup>* no_facets w" and "f < length (fw_heap w)" and "quiet hk"
    and "\<forall>a \<in> below w f. fb_state (fac w a) = StateCreated \<and> (fb_testID (fac w a) = '''' \<or> fw_liveTestIDs w (fb_testID (fac w a)) = None)"
    and "\<forall>a \<in> below w f. \<forall>b \<in> below w f. fb_testID (fac w a) = fb_testID (fac w b) \<and> fb_testID (fac w a) \<noteq> '''' \<longrightarrow> a = b"
  shows "\<exists>w' order. Attach_facet hk f identity w = Some (Returned, w') \<and> distinct order \<and> set order = below w f \<and>
    List.map_filter attach_call (fw_log w') = List.map_filter attach_call (fw_log w) @ order \<and>
    (\<forall>p c. p \<in> below w f \<and> c \<in> set (kids w p) \<longrightarrow> earlier order p c) \<and>
    (\<forall>a. fb_state (fac w' a) = (if a \<in> below w f then StateAttached else fb_state (fac w a))) \<and>
    (\<forall>a \<in> below w f. fb_testID (fac w a) \<noteq> '''' \<longrightarrow> FacetIDForTestID (fb_testID (fac w a)) w' = fb_id (fac w a))"
proof -
  have ok: "forest w" by (rule facet_run_forest [OF assms(1)])
  obtain pre post where W: "walk (kids w) f pre post" "set pre = below w f" "distinct pre"
    "\<And>p c. p \<in> below w f \<Longrightarrow> c \<in> set (kids w p) \<Longrightarrow> earlier pre p c \<and> earlier post c p"
    using forest_walk [OF ok assms(2)] by metis
  have "attachable (kids w) pre w"
    using assms(4,5) W(2,3) below_less [OF ok assms(2)] by (simp add: attachable_def)
  then obtain w1 where w1: "attached_by pre w w1"
    "attach_loop hk [(f, if identity = '''' then ''runtime'' else identity)] [] [] w = attach_loop hk [] pre pre w1"
    using attach_walk(1) [OF assms(3) W(1), of w _ "[]" "[]" "[]"] by auto
  let ?w = "log_event (FacetTreeAttached f) w1"
  have a: "Attach_facet hk f identity w = Some (Returned, ?w)"
    using assms(3) w1(2) by (simp add: Attach_facet_def attach_loop.simps [of hk "[]"])
  have "List.map_filter attach_call [FacetTreeAttached f] = []" by (simp add: List.map_filter_simps attach_call_def)
  then have l: "List.map_filter attach_call (fw_log ?w) = List.map_filter attach_call (fw_log w) @ pre"
    using w1(1) by (simp add: attached_by_def map_filter_append)
  have t: "\<forall>a \<in> below w f. fb_testID (fac w a) \<noteq> '''' \<longrightarrow> FacetIDForTestID (fb_testID (fac w a)) ?w = fb_id (fac w a)"
    using w1(1) W(2) by (fastforce simp: attached_by_def FacetIDForTestID_def)
  have s: "\<forall>a. fb_state (fac ?w a) = (if a \<in> below w f then StateAttached else fb_state (fac w a))"
    using w1(1) W(2) by (simp add: attached_by_def)
  have "\<forall>p c. p \<in> below w f \<and> c \<in> set (kids w p) \<longrightarrow> earlier pre p c" using W(4) by blast
  then show ?thesis using a l t s W(2,3) by blast
qed


definition tagged_tree :: facet_world where
  "tagged_tree = snd (SetTestID 3 ''ok'' (snd (SetTestID 0 ''app'' sample_tree)))"

lemma tagged_tree_run: "facet_step\<^sup>*\<^sup>* no_facets tagged_tree"
  unfolding tagged_tree_def by (rule rtranclp.rtrancl_into_rtrancl, rule rtranclp.rtrancl_into_rtrancl, rule sample_tree_run) (rule set_testID)+

lemma tagged_tree_facts:
  "length (fw_heap tagged_tree) = 4" "map fb_state (fw_heap tagged_tree) = replicate 4 StateCreated"
  "map fb_testID (fw_heap tagged_tree) = [''app'', '''', '''', ''ok'']" "map fb_id (fw_heap tagged_tree) = [1, 2, 3, 4]"
  "fw_liveTestIDs tagged_tree ''app'' = None" "fw_liveTestIDs tagged_tree ''ok'' = None"
  by code_simp+

theorem Attach_parents_first_witness:
  "map_option (List.map_filter attach_call \<circ> fw_log \<circ> snd) (Attach_facet quiet_hooks 0 '''' tagged_tree) = Some [0, 1, 3, 2] \<and>
   map_option (FacetIDForTestID ''app'' \<circ> snd) (Attach_facet quiet_hooks 0 '''' tagged_tree) = Some 1"
proof
  show "map_option (List.map_filter attach_call \<circ> fw_log \<circ> snd) (Attach_facet quiet_hooks 0 '''' tagged_tree) = Some [0, 1, 3, 2]"
    by code_simp
  have ok: "forest tagged_tree" by (rule facet_run_forest [OF tagged_tree_run])
  have b: "a < 4" if "a \<in> below tagged_tree 0" for a using below_less [OF ok _ that] tagged_tree_facts(1) by simp
  have t: "fb_testID (fac tagged_tree a) = [''app'', '''', '''', ''ok''] ! a" if "a < 4" for a
    using tagged_tree_facts(1,3) that by (metis nth_map)
  have t': "fb_testID (fac tagged_tree a) = (if a = 0 then ''app'' else if a = 3 then ''ok'' else '''')" if "a < 4" for a
    using t [OF that] that by (auto simp: numeral_eq_Suc less_Suc_eq)
  have s: "fb_state (fac tagged_tree a) = StateCreated" if "a < 4" for a
    using tagged_tree_facts(1,2) that by (metis nth_map nth_replicate)
  have 1: "\<forall>a \<in> below tagged_tree 0. fb_state (fac tagged_tree a) = StateCreated \<and>
      (fb_testID (fac tagged_tree a) = '''' \<or> fw_liveTestIDs tagged_tree (fb_testID (fac tagged_tree a)) = None)"
    using b t' s tagged_tree_facts(5,6) by simp
  have 2: "\<forall>a \<in> below tagged_tree 0. \<forall>c \<in> below tagged_tree 0.
      fb_testID (fac tagged_tree a) = fb_testID (fac tagged_tree c) \<and> fb_testID (fac tagged_tree a) \<noteq> '''' \<longrightarrow> a = c"
    using b t' by (simp split: if_splits)
  have r: "0 \<in> below tagged_tree 0" by (simp add: below_def)
  obtain w' where "Attach_facet quiet_hooks 0 '''' tagged_tree = Some (Returned, w')"
    "FacetIDForTestID (fb_testID (fac tagged_tree 0)) w' = fb_id (fac tagged_tree 0)"
    using Attach_parents_first [OF tagged_tree_run _ quiet_hooks_quiet 1 2, of "''''"] tagged_tree_facts(1) r t' [of 0] by fastforce
  moreover have "fb_id (fac tagged_tree 0) = 1" using tagged_tree_facts(1,4) nth_map [of 0 "fw_heap tagged_tree" fb_id] by simp
  ultimately show "map_option (FacetIDForTestID ''app'' \<circ> snd) (Attach_facet quiet_hooks 0 '''' tagged_tree) = Some 1"
    using t' [of 0] by simp
qed


section \<open>A failing attachment\<close>

lemma nth_updated: "a < length xs \<Longrightarrow> xs[i := v] ! a = (if i = a then v else xs ! a)"
  by (cases "i = a") simp_all

lemma unhook_fold:
  "length (fw_heap (fold unhook xs w)) = length (fw_heap w)" "fw_liveTestIDs (fold unhook xs w) = fw_liveTestIDs w"
  "a < length (fw_heap w) \<Longrightarrow> fac (fold unhook xs w) a =
     (if a \<in> set xs then (fac w a)\<lparr>fb_onDisposed := False, fb_onInvalidated := False\<rparr> else fac w a)"
  by (induction xs arbitrary: w) (simp_all add: unhook_def upd_fac_def nth_updated)

lemma unregister_heap: "fw_heap (unregister b w) = (fw_heap w)[b := (fac w b)\<lparr>fb_registry := False\<rparr>]"
  by (simp add: unregister_def releaseTestID_def Release_testID_def upd_fac_def split: option.split)

lemma unregister_live:
  "fw_liveTestIDs (unregister b w) t = fw_liveTestIDs w t \<or> fw_liveTestIDs (unregister b w) t = None"
  "t = '''' \<or> fb_testID (fac w b) \<noteq> t \<Longrightarrow> fw_liveTestIDs (unregister b w) t = fw_liveTestIDs w t"
  "fb_registry (fac w b) \<Longrightarrow> fb_testID (fac w b) = t \<Longrightarrow> t \<noteq> '''' \<Longrightarrow> fw_liveTestIDs w t = Some (fb_id (fac w b), c) \<Longrightarrow>
     fw_liveTestIDs (unregister b w) t = None"
  by (auto simp: unregister_def releaseTestID_def Release_testID_def upd_fac_def split: option.splits)

lemma unregister_fold:
  "length (fw_heap (fold unregister xs w)) = length (fw_heap w)"
  "a < length (fw_heap w) \<Longrightarrow> fac (fold unregister xs w) a = (if a \<in> set xs then (fac w a)\<lparr>fb_registry := False\<rparr> else fac w a)"
  by (induction xs arbitrary: w) (simp_all add: unregister_heap nth_updated)

lemma unregister_fold_None: "fw_liveTestIDs w t = None \<Longrightarrow> fw_liveTestIDs (fold unregister xs w) t = None"
proof (induction xs arbitrary: w)
  case (Cons x xs)
  then show ?case using unregister_live(1) [of x w t] by auto
qed simp

lemma unregister_testID: "fb_testID (fac (unregister b w) a) = fb_testID (fac w a)" "fb_id (fac (unregister b w) a) = fb_id (fac w a)"
proof -
  have "fac (unregister b w) a = fac w a \<or> fac (unregister b w) a = (fac w a)\<lparr>fb_registry := False\<rparr>"
  proof (cases "b < length (fw_heap w)")
    case True
    then show ?thesis by (cases "a = b") (simp_all add: unregister_heap)
  next
    case False
    then show ?thesis by (simp add: unregister_heap list_update_beyond)
  qed
  then show "fb_testID (fac (unregister b w) a) = fb_testID (fac w a)" "fb_id (fac (unregister b w) a) = fb_id (fac w a)" by auto
qed

lemma unregister_fold_keeps:
  "t = '''' \<or> (\<forall>b \<in> set xs. fb_testID (fac w b) \<noteq> t) \<Longrightarrow> fw_liveTestIDs (fold unregister xs w) t = fw_liveTestIDs w t"
proof (induction xs arbitrary: w)
  case (Cons x xs)
  have "t = '''' \<or> (\<forall>b \<in> set xs. fb_testID (fac (unregister x w) b) \<noteq> t)" using Cons(2) by (auto simp: unregister_testID)
  then show ?case using Cons(1) unregister_live(2) [of t w x] Cons(2) by auto
qed simp

lemma unregister_fold_frees:
  assumes "b \<in> set xs" "b < length (fw_heap w)" "fb_registry (fac w b)" "fb_testID (fac w b) = t" "t \<noteq> ''''"
    "fw_liveTestIDs w t = Some (fb_id (fac w b), c)"
  shows "fw_liveTestIDs (fold unregister xs w) t = None"
  using assms
proof (induction xs arbitrary: w)
  case (Cons x xs)
  show ?case
  proof (cases "fw_liveTestIDs (unregister x w) t = None")
    case True
    then show ?thesis using unregister_fold_None by simp
  next
    case False
    then have e: "fw_liveTestIDs (unregister x w) t = fw_liveTestIDs w t" using unregister_live(1) [of x w t] by metis
    have "x \<noteq> b" using False unregister_live(3) [of w b t c] Cons(4-7) by metis
    then show ?thesis using Cons e by (simp add: unregister_heap unregister_testID)
  qed
qed simp

text \<open>How far a walk got from \<^term>\<open>w0\<close>: what it registered, and that its stack is in the heap.\<close>

definition walked :: "facet_world \<Rightarrow> nat list \<Rightarrow> nat list \<Rightarrow> facet_world \<Rightarrow> bool" where
  "walked w0 ho at w \<longleftrightarrow> forest w \<and> length (fw_heap w) = length (fw_heap w0) \<and> set at \<subseteq> set ho \<and>
     (\<forall>a < length (fw_heap w0). fb_testID (fac w a) = fb_testID (fac w0 a) \<and> fb_id (fac w a) = fb_id (fac w0 a) \<and>
        (a \<in> set at \<longrightarrow> fb_registry (fac w a) \<and> fb_state (fac w a) = StateAttached) \<and>
        (a \<notin> set at \<longrightarrow> fb_state (fac w a) = fb_state (fac w0 a))) \<and>
     set at \<subseteq> {..< length (fw_heap w0)} \<and>
     (\<forall>t. t = '''' \<or> (\<forall>b \<in> set at. fb_testID (fac w0 b) \<noteq> t) \<longrightarrow> fw_liveTestIDs w t = fw_liveTestIDs w0 t) \<and>
     (\<forall>b \<in> set at. fb_testID (fac w0 b) \<noteq> '''' \<longrightarrow> fw_liveTestIDs w0 (fb_testID (fac w0 b)) = None \<and>
        (\<exists>b' \<in> set at. \<exists>c. fb_testID (fac w0 b') = fb_testID (fac w0 b) \<and> fw_liveTestIDs w (fb_testID (fac w0 b)) = Some (fb_id (fac w0 b'), c)))"


lemma walkedD:
  assumes "walked w0 ho at w"
  shows "forest w" "length (fw_heap w) = length (fw_heap w0)" "set at \<subseteq> set ho" "set at \<subseteq> {..< length (fw_heap w0)}"
    "a < length (fw_heap w0) \<Longrightarrow> fb_testID (fac w a) = fb_testID (fac w0 a)"
    "a < length (fw_heap w0) \<Longrightarrow> fb_id (fac w a) = fb_id (fac w0 a)"
    "a \<in> set at \<Longrightarrow> a < length (fw_heap w0) \<Longrightarrow> fb_registry (fac w a) \<and> fb_state (fac w a) = StateAttached"
    "a \<notin> set at \<Longrightarrow> a < length (fw_heap w0) \<Longrightarrow> fb_state (fac w a) = fb_state (fac w0 a)"
    "t = '''' \<or> (\<forall>b \<in> set at. fb_testID (fac w0 b) \<noteq> t) \<Longrightarrow> fw_liveTestIDs w t = fw_liveTestIDs w0 t"
    "b \<in> set at \<Longrightarrow> fb_testID (fac w0 b) \<noteq> '''' \<Longrightarrow> fw_liveTestIDs w0 (fb_testID (fac w0 b)) = None \<and>
        (\<exists>b' \<in> set at. \<exists>c. fb_testID (fac w0 b') = fb_testID (fac w0 b) \<and> fw_liveTestIDs w (fb_testID (fac w0 b)) = Some (fb_id (fac w0 b'), c))"
  using assms unfolding walked_def by blast+

lemma walked_start: "forest w \<Longrightarrow> walked w [] [] w"
  by (simp add: walked_def)

lemma walked_failed:
  assumes "walked w0 ho at w" "inert hk" "f < length (fw_heap w0)" "attach_one hk f c w = (r, w')" "r \<noteq> Returned"
  shows "walked w0 (ho @ [f]) at w'"
proof -
  note D = walkedD [OF assms(1)]
  have l: "f < length (fw_heap w)" using assms(3) D(2) by simp
  note I = attach_one_inert [OF assms(2) l assms(4)]
  have F: "fac w' a = (if f = a then wired (fac w a) else fac w a)" if "a < length (fw_heap w0)" for a
    using I(1) assms(5) that D(2) by (simp add: nth_updated)
  have "forest w'" using forest_shape [OF D(1)] attach_one_shape [OF assms(2), of f c w] assms(4) by simp
  moreover have "length (fw_heap w') = length (fw_heap w0)" "fw_liveTestIDs w' = fw_liveTestIDs w" using I(1,3) assms(5) D(2) by simp_all
  ultimately show ?thesis using assms(1) F unfolding walked_def by (auto simp: nth_updated)
qed

lemma walked_attached:
  assumes "walked w0 ho at w" "inert hk" "f < length (fw_heap w0)" "attach_one hk f c w = (Returned, w')"
  shows "walked w0 (ho @ [f]) (at @ [f]) w'"
proof -
  note D = walkedD [OF assms(1)]
  have l: "f < length (fw_heap w)" using assms(3) D(2) by simp
  note I = attach_one_inert [OF assms(2) l assms(4)]
  let ?u = "fb_testID (fac w0 f)"
  have F: "fac w' a = (if f = a then attached_facet (fac w a) else fac w a)" if "a < length (fw_heap w0)" for a
    using I(1) that D(2) by (simp add: nth_updated)
  have u: "fb_testID (fac w f) = ?u" "fb_id (fac w f) = fb_id (fac w0 f)" using D(5,6) assms(3) by simp_all
  have L: "if ?u \<noteq> '''' then fw_liveTestIDs w ?u = None \<and> (\<exists>c. fw_liveTestIDs w' = (fw_liveTestIDs w)(?u \<mapsto> (fb_id (fac w0 f), c)))
    else fw_liveTestIDs w' = fw_liveTestIDs w" using I(3) u by auto
  have new: "\<forall>b \<in> set at. fb_testID (fac w0 b) \<noteq> ?u" if "?u \<noteq> ''''"
    using D(10) L that by (metis option.distinct(1))
  have f: "forest w'" using forest_shape [OF D(1)] attach_one_shape [OF assms(2), of f c w] assms(4) by simp
  have n: "length (fw_heap w') = length (fw_heap w0)" using I(1) D(2) by simp
  have a: "\<forall>a < length (fw_heap w0). fb_testID (fac w' a) = fb_testID (fac w0 a) \<and> fb_id (fac w' a) = fb_id (fac w0 a) \<and>
        (a \<in> set (at @ [f]) \<longrightarrow> fb_registry (fac w' a) \<and> fb_state (fac w' a) = StateAttached) \<and>
        (a \<notin> set (at @ [f]) \<longrightarrow> fb_state (fac w' a) = fb_state (fac w0 a))"
    using F D(5-8) by simp
  have live: "fw_liveTestIDs w' t = fw_liveTestIDs w0 t" if "t = '''' \<or> (\<forall>b \<in> set (at @ [f]). fb_testID (fac w0 b) \<noteq> t)" for t
    using D(9) [of t] L that by (auto split: if_splits)
  have reg: "fw_liveTestIDs w0 (fb_testID (fac w0 b)) = None \<and>
      (\<exists>b' \<in> set (at @ [f]). \<exists>c. fb_testID (fac w0 b') = fb_testID (fac w0 b) \<and> fw_liveTestIDs w' (fb_testID (fac w0 b)) = Some (fb_id (fac w0 b'), c))"
    if b: "b \<in> set (at @ [f])" "fb_testID (fac w0 b) \<noteq> ''''" for b
  proof (cases "b \<in> set at")
    case True
    then have "fb_testID (fac w0 b) \<noteq> ?u \<or> ?u = ''''" using new by blast
    then have "fw_liveTestIDs w' (fb_testID (fac w0 b)) = fw_liveTestIDs w (fb_testID (fac w0 b))" using L b(2) by (auto split: if_splits)
    then show ?thesis using D(10) [OF True b(2)] by auto
  next
    case False
    then have "b = f" using b(1) by simp
    then show ?thesis using new D(9) [of ?u] L b(2) by auto
  qed
  show ?thesis unfolding walked_def using f n a live reg D(3,4) assms(3) by (intro conjI allI impI ballI) auto
qed


lemma walked_loop:
  assumes "attach_loop hk st ho at w = Some y" "inert hk" "walked w0 ho at w" "\<forall>p \<in> set st. fst p < length (fw_heap w0)"
  shows "walked w0 (fst (snd y)) (fst (snd (snd y))) (snd (snd (snd y)))"
proof -
  let ?P = "\<lambda>hk st ho at w y. inert hk \<longrightarrow> walked w0 ho at w \<longrightarrow> (\<forall>p \<in> set st. fst p < length (fw_heap w0)) \<longrightarrow>
      walked w0 (fst (snd y)) (fst (snd (snd y))) (snd (snd (snd y)))"
  have "?P hk st ho at w y"
  proof (rule attach_loop.raw_induct [of ?P, OF _ assms(1)], intro impI)
    fix g hk' st' ho' at' w' y'
    assume IH: "\<And>hk st ho at w y. g hk st ho at w = Some y \<Longrightarrow> ?P hk st ho at w y"
      and e: "(case st' of [] \<Rightarrow> Some (Returned, ho', at', w')
        | (f, ctx) # rest \<Rightarrow>
            if fb_state (fac w' f) \<noteq> StateCreated then Some (Panicked (InvalidTransition (fb_state (fac w' f)) StateAttached), ho', at', w')
            else if fst (attach_one hk' f ctx w') \<noteq> Returned
            then Some (fst (attach_one hk' f ctx w'), ho' @ [f], at', snd (attach_one hk' f ctx w'))
            else g hk' (map (\<lambda>c. (c, attach_context ctx (fac w' f))) (fb_children (fac (snd (attach_one hk' f ctx w')) f)) @ rest)
                   (ho' @ [f]) (at' @ [f]) (snd (attach_one hk' f ctx w'))) = Some y'"
      and h: "inert hk'" "walked w0 ho' at' w'" "\<forall>p \<in> set st'. fst p < length (fw_heap w0)"
    show "walked w0 (fst (snd y')) (fst (snd (snd y'))) (snd (snd (snd y')))"
    proof (cases st')
      case Nil
      then show ?thesis using e h(2) by auto
    next
      case (Cons p rest)
      obtain f ctx where p: "p = (f, ctx)" by (cases p)
      have f: "f < length (fw_heap w0)" using h(3) Cons p by simp
      obtain r w1 where a: "attach_one hk' f ctx w' = (r, w1)" by (metis prod.collapse)
      show ?thesis
      proof (cases "fb_state (fac w' f) = StateCreated \<and> r = Returned")
        case True
        have W: "walked w0 (ho' @ [f]) (at' @ [f]) w1" using walked_attached [OF h(2,1) f] a True by simp
        have "c < length (fw_heap w0)" if "c \<in> set (fb_children (fac w1 f))" for c
          using forestD(2) [OF walkedD(1) [OF W], of f c] walkedD(2) [OF W] f that by simp
        then have "\<forall>q \<in> set (map (\<lambda>c. (c, attach_context ctx (fac w' f))) (fb_children (fac w1 f)) @ rest). fst q < length (fw_heap w0)"
          using h(3) Cons by auto
        moreover have "g hk' (map (\<lambda>c. (c, attach_context ctx (fac w' f))) (fb_children (fac w1 f)) @ rest) (ho' @ [f]) (at' @ [f]) w1 = Some y'"
          using e Cons p a True by simp
        ultimately show ?thesis using IH h(1) W by blast
      next
        case False
        then show ?thesis using e Cons p a h(2) walked_failed [OF h(2,1) f a] by (auto split: if_splits)
      qed
    qed
  qed
  then show ?thesis using assms(2-4) by blast
qed

lemma walked_rollback:
  assumes "walked w0 ho at w"
  shows "fw_liveTestIDs (rollback ho at w) = fw_liveTestIDs w0"
    "a < length (fw_heap w0) \<Longrightarrow> fac (rollback ho at w) a =
       (let x = if a \<in> set ho then (fac w a)\<lparr>fb_onDisposed := False, fb_onInvalidated := False\<rparr> else fac w a
        in if a \<in> set at then x\<lparr>fb_registry := False\<rparr> else x)"
proof -
  note D = walkedD [OF assms]
  let ?w = "fold unhook (rev ho) w"
  have F: "fac ?w a = (if a \<in> set ho then (fac w a)\<lparr>fb_onDisposed := False, fb_onInvalidated := False\<rparr> else fac w a)"
    if "a < length (fw_heap w0)" for a using unhook_fold(3) [of a w "rev ho"] that D(2) by simp
  show "fac (rollback ho at w) a =
       (let x = if a \<in> set ho then (fac w a)\<lparr>fb_onDisposed := False, fb_onInvalidated := False\<rparr> else fac w a
        in if a \<in> set at then x\<lparr>fb_registry := False\<rparr> else x)" if "a < length (fw_heap w0)"
    using F [OF that] that D(2) unregister_fold(2) [of a ?w "rev at"] unhook_fold(1) [of "rev ho" w] by (simp add: rollback_def Let_def)
  have T: "fb_testID (fac ?w b) = fb_testID (fac w0 b)" "fb_id (fac ?w b) = fb_id (fac w0 b)" "fb_registry (fac ?w b)" if "b \<in> set at" for b
    using F [of b] D(4,5,6,7) that by (auto simp: subset_iff)
  have "fw_liveTestIDs (rollback ho at w) t = fw_liveTestIDs w0 t" for t
  proof (cases "t = '''' \<or> (\<forall>b \<in> set at. fb_testID (fac w0 b) \<noteq> t)")
    case True
    then have "t = '''' \<or> (\<forall>b \<in> set (rev at). fb_testID (fac ?w b) \<noteq> t)" using T(1) by auto
    then show ?thesis using unregister_fold_keeps unhook_fold(2) [of "rev ho" w] D(9) [OF True] by (simp add: rollback_def)
  next
    case False
    then obtain b where b: "b \<in> set at" "fb_testID (fac w0 b) = t" "t \<noteq> ''''" by blast
    obtain b' c where b': "b' \<in> set at" "fb_testID (fac w0 b') = t" "fw_liveTestIDs w t = Some (fb_id (fac w0 b'), c)" and n: "fw_liveTestIDs w0 t = None"
      using D(10) [of b] b by auto
    have "b' < length (fw_heap ?w)" using D(2,4) b'(1) unhook_fold(1) [of "rev ho" w] by auto
    then show ?thesis
      using unregister_fold_frees [of b' "rev at" ?w t c] T [OF b'(1)] b' b(3) n unhook_fold(2) [of "rev ho" w] by (simp add: rollback_def)
  qed
  then show "fw_liveTestIDs (rollback ho at w) = fw_liveTestIDs w0" by (rule ext)
qed

text \<open>
  C28: In every run, an attachment that panics (a hook panics, an identity is in use, a facet is
  not new) takes back every identity it claimed: the table of live identities is as it was. A
  facet whose state it changed is left attached, without its hooks and without a registry.
\<close>

theorem failed_Attach_releases:
  assumes "facet_step\<^sup>*\<^sup>* no_facets w" and "f < length (fw_heap w)" and "inert hk" and "Attach_facet hk f identity w = Some (Panicked e, w')"
  shows "fw_liveTestIDs w' = fw_liveTestIDs w \<and>
    (\<forall>a < length (fw_heap w). fb_state (fac w' a) \<noteq> fb_state (fac w a) \<longrightarrow>
       fb_state (fac w' a) = StateAttached \<and> \<not> fb_onDisposed (fac w' a) \<and> \<not> fb_onInvalidated (fac w' a) \<and> \<not> fb_registry (fac w' a))"
proof -
  have ok: "forest w" by (rule facet_run_forest [OF assms(1)])
  obtain r ho at w1 where L: "attach_loop hk [(f, if identity = '''' then ''runtime'' else identity)] [] [] w = Some (r, ho, at, w1)"
    using assms(4) by (auto simp: Attach_facet_def split: option.splits)
  have W: "walked w ho at w1" using walked_loop [OF L assms(3) walked_start [OF ok]] assms(2) by simp
  have W': "walked w ho at (log_event ev w1)" for ev
    using W forest_shape [of w1 "log_event ev w1"] unfolding walked_def by simp
  obtain w2 where w2: "walked w ho at w2" "w' = rollback ho at w2"
  proof (cases r)
    case Returned
    then show ?thesis
      using that assms(4) L W' call_inert [OF assms(3), of "FacetTreeAttached f" w1]
      by (auto simp: Attach_facet_def Let_def split: prod.splits if_splits)
  next
    case (Panicked e)
    then show ?thesis using that assms(4) L W by (simp add: Attach_facet_def)
  qed
  show ?thesis
    using walked_rollback [OF w2(1)] walkedD(3,7,8) [OF w2(1)] unfolding w2(2) by (auto simp: Let_def subset_iff)
qed

text \<open>Two facets of one tree with the same identity: the second panics and both are released.\<close>

theorem failed_Attach_releases_witness:
  "\<exists>w'. Attach_facet quiet_hooks 0 '''' (snd (SetTestID 3 ''app'' (snd (SetTestID 0 ''app'' sample_tree)))) =
      Some (Panicked (DuplicateTestID ''app'' 1 4), w') \<and> FacetIDForTestID ''app'' w' = 0"
proof -
  let ?w = "snd (SetTestID 3 ''app'' (snd (SetTestID 0 ''app'' sample_tree)))"
  have run: "facet_step\<^sup>*\<^sup>* no_facets ?w"
    by (rule rtranclp.rtrancl_into_rtrancl, rule rtranclp.rtrancl_into_rtrancl, rule sample_tree_run) (rule set_testID)+
  have l: "length (fw_heap ?w) = 4" by code_simp
  have "map_option fst (Attach_facet quiet_hooks 0 '''' ?w) = Some (Panicked (DuplicateTestID ''app'' 1 4))" by code_simp
  then obtain w' where w': "Attach_facet quiet_hooks 0 '''' ?w = Some (Panicked (DuplicateTestID ''app'' 1 4), w')" by auto
  have "fw_liveTestIDs ?w ''app'' = None" by code_simp
  then show ?thesis
    using failed_Attach_releases [OF run _ quiet_inert [OF quiet_hooks_quiet] w'] w' l by (simp add: FacetIDForTestID_def)
qed

end
