(* ===== verification/Layer_Registry.thy ===== *)
theory Layer_Registry
  imports Prelude "HOL-Library.Product_Lexorder" "HOL-Library.Multiset"
begin

text \<open>
  The layer registry (\<^verbatim>\<open>src/layout/layer_registry.go\<close>): a builder that collects the layers of an
  application around nine reserved standard layers, and the frozen registry it produces. The sets
  of the builder are Go maps to the empty struct; orders are signed numbers that are only compared.
\<close>

section \<open>Data\<close>

type_synonym LayerID = u64
type_synonym LayerName = string
type_synonym LayerOrder = int

datatype WindowBindingKind = WindowBindingPrimary | WindowBindingNamed

record WindowBinding =
  wb_Kind :: WindowBindingKind
  wb_Name :: string

datatype CoordSpace = CoordParentLayout | CoordContent | CoordViewport | CoordScreenAligned

datatype LayerHitPolicy = HitNormal | HitPassThrough | HitBlockBelow | HitDisabled

datatype ClipPolicy = ClipNone | ClipToParent | ClipToContent | ClipToViewport

datatype FocusRestoreMode = FocusRestorePrevious | FocusRestoreFirstFocusable | FocusRestoreNone

record DismissalScope =
  ds_Enabled :: bool
  ds_BehindMin :: int
  ds_BehindMax :: int
  ds_Triggers :: u8

record LayerRegistration =
  lr_Name :: LayerName
  lr_Order :: LayerOrder
  lr_WindowBinding :: WindowBinding
  lr_CoordSpace :: CoordSpace
  lr_HitPolicy :: LayerHitPolicy
  lr_ClipPolicy :: ClipPolicy
  lr_Dismissal :: DismissalScope
  lr_FocusTrap :: bool
  lr_FocusRestore :: FocusRestoreMode
  lr_LayoutRecipe :: "string \<times> string"

record LayerDescriptor = LayerRegistration +
  ld_ID :: LayerID

record StandardLayer =
  sl_ID :: LayerID
  sl_Name :: LayerName
  sl_Order :: LayerOrder

definition standardLayerReservations :: "StandardLayer list" where
  "standardLayerReservations =
     [\<lparr>sl_ID = 1, sl_Name = ''StandardLayer_Background'', sl_Order = 1000\<rparr>,
      \<lparr>sl_ID = 2, sl_Name = ''StandardLayer_Base'', sl_Order = 2000\<rparr>,
      \<lparr>sl_ID = 3, sl_Name = ''StandardLayer_Spatial'', sl_Order = 3000\<rparr>,
      \<lparr>sl_ID = 4, sl_Name = ''StandardLayer_Foreground'', sl_Order = 4000\<rparr>,
      \<lparr>sl_ID = 5, sl_Name = ''StandardLayer_Floating'', sl_Order = 5000\<rparr>,
      \<lparr>sl_ID = 6, sl_Name = ''StandardLayer_Overlay'', sl_Order = 6000\<rparr>,
      \<lparr>sl_ID = 7, sl_Name = ''StandardLayer_Modal'', sl_Order = 7000\<rparr>,
      \<lparr>sl_ID = 8, sl_Name = ''StandardLayer_Status'', sl_Order = 8000\<rparr>,
      \<lparr>sl_ID = 9, sl_Name = ''StandardLayer_Debug'', sl_Order = 9000\<rparr>]"

record LayerRegistryBuilder =
  lb_nextID :: LayerID
  lb_frozen :: bool
  lb_standardRegistered :: bool
  lb_descriptors :: "LayerDescriptor list"
  lb_byName :: "LayerName \<Rightarrow> LayerID option"
  lb_byOrder :: "LayerOrder \<Rightarrow> LayerID option"
  lb_reservedIDs :: "LayerID set"
  lb_reservedNames :: "LayerName set"
  lb_reservedOrders :: "LayerOrder set"

datatype layer_error =
    LayersFrozen
  | StandardRegistered
  | EmptyLayerName
  | ReservedLayerName LayerName
  | ReservedLayerOrder LayerName LayerOrder
  | DuplicateLayerName LayerName
  | DuplicateLayerOrder LayerName LayerOrder
  | EmptyWindowName LayerName
  | ZeroStandardID LayerName
  | EmptyStandardName LayerID
  | DuplicateStandardID LayerName LayerID

section \<open>The builder\<close>

definition NewLayerRegistryBuilder :: LayerRegistryBuilder where
  "NewLayerRegistryBuilder =
     \<lparr>lb_nextID = 1, lb_frozen = False, lb_standardRegistered = False, lb_descriptors = [], lb_byName = (\<lambda>_. None),
      lb_byOrder = (\<lambda>_. None), lb_reservedIDs = set (map sl_ID standardLayerReservations),
      lb_reservedNames = set (map sl_Name standardLayerReservations), lb_reservedOrders = set (map sl_Order standardLayerReservations)\<rparr>"

text \<open>The map of the descriptors by identifier is built afresh at each call; a later descriptor wins.\<close>

definition byID :: "LayerDescriptor list \<Rightarrow> LayerID \<Rightarrow> LayerDescriptor option" where
  "byID ds = map_of (rev (map (\<lambda>d. (ld_ID d, d)) ds))"

text \<open>The search for a free identifier wraps around and need not end when all are taken.\<close>

partial_function (option) next_free :: "(LayerID \<Rightarrow> bool) \<Rightarrow> LayerID \<Rightarrow> LayerID option" where
  "next_free taken i = (if taken i then next_free taken (i + 1) else Some i)"

declare next_free.simps [code]

definition id_taken :: "LayerRegistryBuilder \<Rightarrow> LayerID \<Rightarrow> bool" where
  "id_taken b i \<longleftrightarrow> i \<in> lb_reservedIDs b \<or> byID (lb_descriptors b) i \<noteq> None"

definition nextAvailableID :: "LayerRegistryBuilder \<Rightarrow> (LayerID \<times> LayerRegistryBuilder) option" where
  "nextAvailableID b = map_option (\<lambda>i. (i, b\<lparr>lb_nextID := i + 1\<rparr>)) (next_free (id_taken b) (lb_nextID b))"

definition isReservedName :: "LayerRegistryBuilder \<Rightarrow> LayerName \<Rightarrow> bool" where
  "isReservedName b n \<longleftrightarrow> n \<in> lb_reservedNames b"

definition isReservedOrder :: "LayerRegistryBuilder \<Rightarrow> LayerOrder \<Rightarrow> bool" where
  "isReservedOrder b x \<longleftrightarrow> x \<in> lb_reservedOrders b"

definition describe :: "LayerID \<Rightarrow> LayerRegistration \<Rightarrow> LayerDescriptor" where
  "describe i spec = LayerRegistration.extend spec (LayerDescriptor.fields i)"

definition RegisterLayer :: "LayerRegistration \<Rightarrow> LayerRegistryBuilder \<Rightarrow> ((layer_error + LayerID) \<times> LayerRegistryBuilder) option" where
  "RegisterLayer spec b =
     (let n = lr_Name spec; x = lr_Order spec in
      if lb_frozen b then Some (Inl LayersFrozen, b)
      else if n = '''' then Some (Inl EmptyLayerName, b)
      else if isReservedName b n then Some (Inl (ReservedLayerName n), b)
      else if isReservedOrder b x then Some (Inl (ReservedLayerOrder n x), b)
      else if lb_byName b n \<noteq> None then Some (Inl (DuplicateLayerName n), b)
      else if lb_byOrder b x \<noteq> None then Some (Inl (DuplicateLayerOrder n x), b)
      else if wb_Kind (lr_WindowBinding spec) = WindowBindingNamed \<and> wb_Name (lr_WindowBinding spec) = '''' then Some (Inl (EmptyWindowName n), b)
      else (case nextAvailableID b of
              None \<Rightarrow> None
            | Some (i, b1) \<Rightarrow>
                Some (Inr i, b1\<lparr>lb_descriptors := lb_descriptors b1 @ [describe i spec],
                                lb_byName := (lb_byName b1)(n \<mapsto> i), lb_byOrder := (lb_byOrder b1)(x \<mapsto> i)\<rparr>)))"

text \<open>The descriptor of a standard layer has the zero value in its other fields.\<close>

definition standard_spec :: "StandardLayer \<Rightarrow> LayerRegistration" where
  "standard_spec l =
     \<lparr>lr_Name = sl_Name l, lr_Order = sl_Order l, lr_WindowBinding = \<lparr>wb_Kind = WindowBindingPrimary, wb_Name = ''''\<rparr>, lr_CoordSpace = CoordParentLayout,
      lr_HitPolicy = HitNormal, lr_ClipPolicy = ClipNone,
      lr_Dismissal = \<lparr>ds_Enabled = False, ds_BehindMin = 0, ds_BehindMax = 0, ds_Triggers = 0\<rparr>, lr_FocusTrap = False,
      lr_FocusRestore = FocusRestorePrevious, lr_LayoutRecipe = ('''', '''')\<rparr>"

definition registerStandardLayer :: "StandardLayer \<Rightarrow> LayerRegistryBuilder \<Rightarrow> layer_error option \<times> LayerRegistryBuilder" where
  "registerStandardLayer l b =
     (let i = sl_ID l; n = sl_Name l; x = sl_Order l in
      if i = 0 then (Some (ZeroStandardID n), b)
      else if n = '''' then (Some (EmptyStandardName i), b)
      else if byID (lb_descriptors b) i \<noteq> None then (Some (DuplicateStandardID n i), b)
      else if lb_byName b n \<noteq> None then (Some (DuplicateLayerName n), b)
      else if lb_byOrder b x \<noteq> None then (Some (DuplicateLayerOrder n x), b)
      else (None, b\<lparr>lb_descriptors := lb_descriptors b @ [describe i (standard_spec l)],
                    lb_byName := (lb_byName b)(n \<mapsto> i), lb_byOrder := (lb_byOrder b)(x \<mapsto> i),
                    lb_reservedIDs := insert i (lb_reservedIDs b), lb_reservedNames := insert n (lb_reservedNames b),
                    lb_reservedOrders := insert x (lb_reservedOrders b),
                    lb_nextID := (if i \<ge> lb_nextID b then i + 1 else lb_nextID b)\<rparr>))"

fun register_standard :: "StandardLayer list \<Rightarrow> LayerRegistryBuilder \<Rightarrow> layer_error option \<times> LayerRegistryBuilder" where
  "register_standard [] b = (None, b\<lparr>lb_standardRegistered := True\<rparr>)"
| "register_standard (l # ls) b =
     (case registerStandardLayer l b of (Some e, b1) \<Rightarrow> (Some e, b1) | (None, b1) \<Rightarrow> register_standard ls b1)"

definition RegisterStandardLayers :: "LayerRegistryBuilder \<Rightarrow> layer_error option \<times> LayerRegistryBuilder" where
  "RegisterStandardLayers b =
     (if lb_frozen b then (Some LayersFrozen, b)
      else if lb_standardRegistered b then (Some StandardRegistered, b)
      else register_standard standardLayerReservations b)"

section \<open>The frozen registry\<close>

record LayerRegistry =
  rg_descriptors :: "LayerDescriptor list"
  rg_byID :: "LayerID \<Rightarrow> LayerDescriptor option"
  rg_byName :: "LayerName \<Rightarrow> LayerDescriptor option"

definition Freeze :: "LayerRegistryBuilder \<Rightarrow> LayerRegistry \<times> LayerRegistryBuilder" where
  "Freeze b =
     (let descs = sort_key (\<lambda>d. (lr_Order d, ld_ID d)) (lb_descriptors b) in
      (\<lparr>rg_descriptors = descs, rg_byID = byID descs, rg_byName = map_of (rev (map (\<lambda>d. (lr_Name d, d)) descs))\<rparr>,
       b\<lparr>lb_frozen := True\<rparr>))"

definition StandardLayerRegistry :: "layer_error + LayerRegistry" where
  "StandardLayerRegistry =
     (case RegisterStandardLayers NewLayerRegistryBuilder of
        (Some e, _) \<Rightarrow> Inl e
      | (None, b) \<Rightarrow> Inr (fst (Freeze b)))"

definition Lookup_layer :: "LayerRegistry \<Rightarrow> LayerID \<Rightarrow> LayerDescriptor option" where
  "Lookup_layer r i = rg_byID r i"

definition LookupName :: "LayerRegistry \<Rightarrow> LayerName \<Rightarrow> LayerDescriptor option" where
  "LookupName r n = rg_byName r n"

definition OrderedLayers :: "LayerRegistry \<Rightarrow> LayerDescriptor list" where
  "OrderedLayers r = rg_descriptors r"

section \<open>The search for an identifier\<close>

lemma next_free_steps: "\<lbrakk>\<not> taken (i + of_nat n); \<forall>k < n. taken (i + of_nat k)\<rbrakk> \<Longrightarrow> next_free taken i = Some (i + of_nat n)"
proof (induction n arbitrary: i)
  case 0
  then show ?case by (subst next_free.simps) simp
next
  case (Suc n)
  have "taken i" using Suc(3) [rule_format, of 0] by simp
  moreover have "next_free taken (i + 1) = Some (i + 1 + of_nat n)"
  proof (rule Suc.IH)
    show "\<not> taken (i + 1 + of_nat n)" using Suc(2) by (simp add: add.assoc)
    show "\<forall>k < n. taken (i + 1 + of_nat k)"
    proof (intro allI impI)
      fix k
      assume "k < n"
      then show "taken (i + 1 + of_nat k)" using Suc(3) [rule_format, of "Suc k"] by (simp add: add.assoc)
    qed
  qed
  ultimately show ?case by (subst next_free.simps) (simp add: add.assoc)
qed

lemma next_free_Some: "next_free taken s = Some i \<Longrightarrow> \<not> taken i"
  by (rule next_free.raw_induct [of "\<lambda>t s r. \<not> t r"]) (auto split: if_splits)

text \<open>The search ends as long as some identifier is free, and returns one that is.\<close>

lemma next_free_ends:
  assumes "\<not> taken j"
  shows "\<exists>i. next_free taken start = Some i \<and> \<not> taken i"
proof -
  have "\<not> taken (start + of_nat (unat (j - start)))" using assms by simp
  then have ex: "\<exists>n. \<not> taken (start + of_nat n)" by blast
  define n where "n = (LEAST n. \<not> taken (start + of_nat n))"
  have n: "\<not> taken (start + of_nat n)" unfolding n_def by (rule LeastI_ex [OF ex])
  have "taken (start + of_nat k)" if "k < n" for k using not_less_Least [of k] that unfolding n_def by blast
  then show ?thesis using next_free_steps [of taken start n] n by blast
qed

lemma byID_None: "byID ds i = None \<longleftrightarrow> i \<notin> ld_ID ` set ds"
  by (force simp: byID_def map_of_eq_None_iff image_image)

lemma byID_Some:
  assumes "distinct (map ld_ID ds)" "d \<in> set ds"
  shows "byID ds (ld_ID d) = Some d"
  unfolding byID_def using assms by (intro map_of_is_SomeI) (auto simp: o_def rev_map [symmetric])

lemma byName_Some:
  assumes "distinct (map lr_Name ds)" "d \<in> set ds"
  shows "map_of (rev (map (\<lambda>d. (lr_Name d, d)) ds)) (lr_Name d) = Some d"
  using assms by (intro map_of_is_SomeI) (auto simp: o_def rev_map [symmetric])

lemma some_id_free:
  assumes "finite (lb_reservedIDs b)" "card (lb_reservedIDs b) + length (lb_descriptors b) < 2 ^ 64"
  shows "\<exists>j. \<not> id_taken b j"
proof (rule ccontr)
  assume "\<not> (\<exists>j. \<not> id_taken b j)"
  then have "(UNIV :: u64 set) \<subseteq> lb_reservedIDs b \<union> ld_ID ` set (lb_descriptors b)" by (auto simp: id_taken_def byID_None)
  then have "card (UNIV :: u64 set) \<le> card (lb_reservedIDs b \<union> ld_ID ` set (lb_descriptors b))" using assms(1) by (intro card_mono) auto
  also have "\<dots> \<le> card (lb_reservedIDs b) + card (ld_ID ` set (lb_descriptors b))" by (rule card_Un_le)
  also have "\<dots> \<le> card (lb_reservedIDs b) + length (lb_descriptors b)"
    using card_image_le [of "set (lb_descriptors b)" ld_ID] card_length [of "lb_descriptors b"] by simp
  finally show False using assms(2) by (simp add: card_word)
qed

section \<open>Well-formed builders\<close>

definition std_key :: "StandardLayer \<Rightarrow> LayerID \<times> LayerName \<times> LayerOrder" where
  "std_key l = (sl_ID l, sl_Name l, sl_Order l)"

definition layer_key :: "LayerDescriptor \<Rightarrow> LayerID \<times> LayerName \<times> LayerOrder" where
  "layer_key d = (ld_ID d, lr_Name d, lr_Order d)"

text \<open>The layer of an application: none of its identifying fields is reserved.\<close>

definition app_layer :: "LayerDescriptor \<Rightarrow> bool" where
  "app_layer d \<longleftrightarrow> ld_ID d \<notin> set (map sl_ID standardLayerReservations) \<and> lr_Name d \<notin> set (map sl_Name standardLayerReservations) \<and>
     lr_Order d \<notin> set (map sl_Order standardLayerReservations)"

definition layers_at :: "StandardLayer set \<Rightarrow> LayerRegistryBuilder \<Rightarrow> bool" where
  "layers_at S b \<longleftrightarrow>
     distinct (map ld_ID (lb_descriptors b)) \<and> distinct (map lr_Name (lb_descriptors b)) \<and> distinct (map lr_Order (lb_descriptors b)) \<and>
     lb_byName b = map_of (rev (map (\<lambda>d. (lr_Name d, ld_ID d)) (lb_descriptors b))) \<and>
     lb_byOrder b = map_of (rev (map (\<lambda>d. (lr_Order d, ld_ID d)) (lb_descriptors b))) \<and>
     list_all (\<lambda>d. lr_Name d \<noteq> '''') (lb_descriptors b) \<and>
     lb_reservedIDs b = set (map sl_ID standardLayerReservations) \<and> lb_reservedNames b = set (map sl_Name standardLayerReservations) \<and>
     lb_reservedOrders b = set (map sl_Order standardLayerReservations) \<and>
     (\<forall>d \<in> set (lb_descriptors b). layer_key d \<in> std_key ` S \<or> app_layer d) \<and> std_key ` S \<subseteq> layer_key ` set (lb_descriptors b)"

definition layers_ok :: "LayerRegistryBuilder \<Rightarrow> bool" where
  "layers_ok b \<longleftrightarrow> layers_at (if lb_standardRegistered b then set standardLayerReservations else {}) b"

lemma std_distinct:
  "distinct (map sl_ID standardLayerReservations)" "distinct (map sl_Name standardLayerReservations)" "distinct (map sl_Order standardLayerReservations)"
  "distinct standardLayerReservations"
  by (simp_all add: standardLayerReservations_def)

lemma std_nonzero: "l \<in> set standardLayerReservations \<Longrightarrow> sl_ID l \<noteq> 0 \<and> sl_Name l \<noteq> ''''"
  by (auto simp: standardLayerReservations_def)

lemma std_fields_inj:
  assumes "l \<in> set standardLayerReservations" "k \<in> set standardLayerReservations" "sl_ID l = sl_ID k \<or> sl_Name l = sl_Name k \<or> sl_Order l = sl_Order k"
  shows "l = k"
  using assms std_distinct by (auto simp: distinct_map dest: inj_onD)

lemma describe_fields [simp]:
  "ld_ID (describe i r) = i" "lr_Name (describe i r) = lr_Name r" "lr_Order (describe i r) = lr_Order r"
  by (simp_all add: describe_def LayerRegistration.defs LayerDescriptor.defs)

lemma standard_spec_fields [simp]: "lr_Name (standard_spec l) = sl_Name l" "lr_Order (standard_spec l) = sl_Order l"
  by (simp_all add: standard_spec_def)

lemma NewLayerRegistryBuilder_ok: "layers_ok NewLayerRegistryBuilder"
  by (simp add: layers_ok_def layers_at_def NewLayerRegistryBuilder_def)

lemma layers_at_keys: "layers_at S b \<Longrightarrow> d \<in> set (lb_descriptors b) \<Longrightarrow> layer_key d \<in> std_key ` S \<or> app_layer d"
  by (simp add: layers_at_def)

lemma layers_at_names:
  assumes "layers_at S b"
  shows "lb_byName b n = None \<longleftrightarrow> n \<notin> lr_Name ` set (lb_descriptors b)" "lb_byOrder b x = None \<longleftrightarrow> x \<notin> lr_Order ` set (lb_descriptors b)"
  using assms by (auto simp: layers_at_def map_of_eq_None_iff image_image)

lemma layers_at_add:
  assumes "layers_at S b" and "lb_descriptors b' = lb_descriptors b @ [d]"
    and "lb_byName b' = (lb_byName b)(lr_Name d \<mapsto> ld_ID d)" "lb_byOrder b' = (lb_byOrder b)(lr_Order d \<mapsto> ld_ID d)"
    and "lb_reservedIDs b' = lb_reservedIDs b" "lb_reservedNames b' = lb_reservedNames b" "lb_reservedOrders b' = lb_reservedOrders b"
    and "ld_ID d \<notin> ld_ID ` set (lb_descriptors b)" "lr_Name d \<notin> lr_Name ` set (lb_descriptors b)" "lr_Order d \<notin> lr_Order ` set (lb_descriptors b)"
    and "lr_Name d \<noteq> ''''" "layer_key d \<in> std_key ` S' \<or> app_layer d" "std_key ` S' \<subseteq> insert (layer_key d) (std_key ` S)" "S \<subseteq> S'"
  shows "layers_at S' b'"
proof -
  have old: "distinct (map ld_ID (lb_descriptors b))" "distinct (map lr_Name (lb_descriptors b))" "distinct (map lr_Order (lb_descriptors b))"
    "lb_byName b = map_of (rev (map (\<lambda>d. (lr_Name d, ld_ID d)) (lb_descriptors b)))"
    "lb_byOrder b = map_of (rev (map (\<lambda>d. (lr_Order d, ld_ID d)) (lb_descriptors b)))" "list_all (\<lambda>d. lr_Name d \<noteq> '''') (lb_descriptors b)"
    "lb_reservedIDs b = set (map sl_ID standardLayerReservations)" "lb_reservedNames b = set (map sl_Name standardLayerReservations)"
    "lb_reservedOrders b = set (map sl_Order standardLayerReservations)"
    using assms(1) by (simp_all add: layers_at_def)
  have sub: "std_key ` S \<subseteq> layer_key ` set (lb_descriptors b)" "\<forall>e \<in> set (lb_descriptors b). layer_key e \<in> std_key ` S \<or> app_layer e"
    using assms(1) by (simp_all add: layers_at_def)
  have keys: "\<forall>e \<in> set (lb_descriptors b @ [d]). layer_key e \<in> std_key ` S' \<or> app_layer e"
    using sub(2) image_mono [OF assms(14), of std_key] assms(12) by auto
  have "layer_key ` set (lb_descriptors b @ [d]) = insert (layer_key d) (layer_key ` set (lb_descriptors b))" by simp
  then have keys': "std_key ` S' \<subseteq> layer_key ` set (lb_descriptors b @ [d])" using subset_trans [OF assms(13) insert_mono [OF sub(1)]] by (simp only:)
  show ?thesis
    unfolding layers_at_def assms(2-7)
  proof (intro conjI)
    show "\<forall>e \<in> set (lb_descriptors b @ [d]). layer_key e \<in> std_key ` S' \<or> app_layer e" by (rule keys)
    show "std_key ` S' \<subseteq> layer_key ` set (lb_descriptors b @ [d])" by (rule keys')
  qed (use old assms(8-11) in simp_all)
qed

lemma registerStandardLayer_at:
  assumes "layers_at S b" "S \<subseteq> set standardLayerReservations" "l \<in> set standardLayerReservations" "l \<notin> S"
  shows "\<exists>b'. registerStandardLayer l b = (None, b') \<and> layers_at (insert l S) b' \<and> lb_frozen b' = lb_frozen b \<and>
    lb_standardRegistered b' = lb_standardRegistered b"
proof -
  have no: "ld_ID d \<noteq> sl_ID l \<and> lr_Name d \<noteq> sl_Name l \<and> lr_Order d \<noteq> sl_Order l" if d: "d \<in> set (lb_descriptors b)" for d
  proof (cases "app_layer d")
    case True
    then show ?thesis using assms(3) by (force simp: app_layer_def)
  next
    case False
    then obtain k where k: "k \<in> S" "layer_key d = std_key k" using layers_at_keys [OF assms(1) d] by blast
    have "k \<in> set standardLayerReservations" "k \<noteq> l" using k(1) assms(2,4) by blast+
    moreover have "ld_ID d = sl_ID k" "lr_Name d = sl_Name k" "lr_Order d = sl_Order k" using k(2) by (simp_all add: layer_key_def std_key_def)
    ultimately show ?thesis using std_fields_inj [OF assms(3), of k] by metis
  qed
  let ?d = "describe (sl_ID l) (standard_spec l)"
  have new: "ld_ID ?d \<notin> ld_ID ` set (lb_descriptors b)" "lr_Name ?d \<notin> lr_Name ` set (lb_descriptors b)" "lr_Order ?d \<notin> lr_Order ` set (lb_descriptors b)"
    by (simp_all add: image_iff) (metis no)+

  have free: "byID (lb_descriptors b) (sl_ID l) = None" "lb_byName b (sl_Name l) = None" "lb_byOrder b (sl_Order l) = None"
    using layers_at_names [OF assms(1)] new by (simp_all add: byID_None)
  have res: "sl_ID l \<in> lb_reservedIDs b" "sl_Name l \<in> lb_reservedNames b" "sl_Order l \<in> lb_reservedOrders b"
    using assms(1,3) by (simp_all add: layers_at_def)
  let ?b = "b\<lparr>lb_descriptors := lb_descriptors b @ [?d], lb_byName := (lb_byName b)(sl_Name l \<mapsto> sl_ID l),
     lb_byOrder := (lb_byOrder b)(sl_Order l \<mapsto> sl_ID l),
     lb_nextID := (if sl_ID l \<ge> lb_nextID b then sl_ID l + 1 else lb_nextID b)\<rparr>"
  have r: "registerStandardLayer l b = (None, ?b)"
    using free res std_nonzero [OF assms(3)] by (simp add: registerStandardLayer_def Let_def insert_absorb)
  have key: "layer_key ?d = std_key l" by (simp add: layer_key_def std_key_def)
  have "layers_at (insert l S) ?b"
    by (rule layers_at_add [OF assms(1) _ _ _ _ _ _ new]) (use std_nonzero [OF assms(3)] key in auto)
  then show ?thesis unfolding r by simp
qed

lemma register_standard_at:
  "\<lbrakk>layers_at S b; S \<inter> set ls = {}; S \<union> set ls \<subseteq> set standardLayerReservations; distinct ls\<rbrakk> \<Longrightarrow>
   \<exists>b'. register_standard ls b = (None, b') \<and> layers_at (S \<union> set ls) b' \<and> lb_frozen b' = lb_frozen b \<and> lb_standardRegistered b'"
proof (induction ls arbitrary: S b)
  case Nil
  then show ?case by (simp add: layers_at_def)
next
  case (Cons l ls)
  obtain b1 where b1: "registerStandardLayer l b = (None, b1)" "layers_at (insert l S) b1" "lb_frozen b1 = lb_frozen b"
    using registerStandardLayer_at [OF Cons(2), of l] Cons(3,4) by auto
  show ?case using Cons.IH [OF b1(2)] Cons(3-5) b1 by auto
qed

lemma RegisterStandardLayers_ok:
  assumes "layers_ok b" "\<not> lb_frozen b" "\<not> lb_standardRegistered b"
  shows "\<exists>b'. RegisterStandardLayers b = (None, b') \<and> layers_ok b' \<and> lb_standardRegistered b' \<and> \<not> lb_frozen b'"
  using register_standard_at [of "{}" b standardLayerReservations] assms std_distinct(4)
  by (auto simp: RegisterStandardLayers_def layers_ok_def)

lemma RegisterLayer_ok:
  assumes "layers_ok b" "RegisterLayer spec b = Some (r, b')"
  shows "layers_ok b'"
proof (cases r)
  case (Inl e)
  then have "b' = b" using assms(2) by (auto simp: RegisterLayer_def Let_def split: if_splits option.splits)
  then show ?thesis using assms(1) by simp
next
  case (Inr i)
  let ?S = "if lb_standardRegistered b then set standardLayerReservations else {}"
  have c: "lr_Name spec \<noteq> ''''" "lr_Name spec \<notin> lb_reservedNames b" "lr_Order spec \<notin> lb_reservedOrders b"
    "lb_byName b (lr_Name spec) = None" "lb_byOrder b (lr_Order spec) = None"
    using assms(2) Inr by (auto simp: RegisterLayer_def Let_def isReservedName_def isReservedOrder_def split: if_splits)
  obtain b1 where n: "nextAvailableID b = Some (i, b1)"
    and b': "b' = b1\<lparr>lb_descriptors := lb_descriptors b1 @ [describe i spec], lb_byName := (lb_byName b1)(lr_Name spec \<mapsto> i), lb_byOrder := (lb_byOrder b1)(lr_Order spec \<mapsto> i)\<rparr>"
    using assms(2) Inr by (auto simp: RegisterLayer_def Let_def split: if_splits option.splits)
  have f: "next_free (id_taken b) (lb_nextID b) = Some i" and b1: "b1 = b\<lparr>lb_nextID := i + 1\<rparr>"
    using n by (auto simp: nextAvailableID_def)
  have "\<not> id_taken b i" by (rule next_free_Some [OF f])
  then have i: "i \<notin> lb_reservedIDs b" "i \<notin> ld_ID ` set (lb_descriptors b)" by (simp_all add: id_taken_def byID_None)
  have at: "layers_at ?S b" using assms(1) by (simp add: layers_ok_def)
  have "app_layer (describe i spec)"
    using at c(2,3) i(1) by (simp add: layers_at_def app_layer_def)
  then have "layers_at ?S b'"
    using c(1,4,5) i(2) layers_at_names [OF at] unfolding b' b1
    by (intro layers_at_add [OF at, of _ "describe i spec"]) auto
  then show ?thesis by (simp add: layers_ok_def b' b1)
qed

section \<open>Runs\<close>

inductive layer_step :: "LayerRegistryBuilder \<Rightarrow> LayerRegistryBuilder \<Rightarrow> bool" where
  layer_registered: "RegisterLayer spec b = Some (r, b') \<Longrightarrow> layer_step b b'"
| layers_standard: "layer_step b (snd (RegisterStandardLayers b))"
| layers_frozen: "layer_step b (snd (Freeze b))"

lemma layer_step_ok: "layer_step b b' \<Longrightarrow> layers_ok b \<Longrightarrow> layers_ok b'"
proof (induction rule: layer_step.induct)
  case (layer_registered spec b r b')
  then show ?case using RegisterLayer_ok by blast
next
  case (layers_standard b)
  then show ?case
    using RegisterStandardLayers_ok [OF layers_standard] by (cases "lb_frozen b \<or> lb_standardRegistered b") (auto simp: RegisterStandardLayers_def)
next
  case (layers_frozen b)
  then show ?case by (simp add: Freeze_def Let_def layers_ok_def layers_at_def)
qed

lemma layer_run_ok: "layer_step\<^sup>*\<^sup>* NewLayerRegistryBuilder b \<Longrightarrow> layers_ok b"
  by (induction rule: rtranclp_induct) (auto intro: NewLayerRegistryBuilder_ok layer_step_ok)

lemma layers_okD:
  assumes "layers_ok b"
  shows "distinct (map ld_ID (lb_descriptors b))" "distinct (map lr_Name (lb_descriptors b))" "distinct (map lr_Order (lb_descriptors b))"
    "lb_reservedIDs b = set (map sl_ID standardLayerReservations)" "lb_reservedNames b = set (map sl_Name standardLayerReservations)"
    "lb_reservedOrders b = set (map sl_Order standardLayerReservations)"
  using assms by (simp_all add: layers_ok_def layers_at_def)

lemma layers_ok_names:
  assumes "layers_ok b"
  shows "lb_byName b n = None \<longleftrightarrow> n \<notin> lr_Name ` set (lb_descriptors b)" "lb_byOrder b x = None \<longleftrightarrow> x \<notin> lr_Order ` set (lb_descriptors b)"
  using assms layers_at_names unfolding layers_ok_def by blast+

lemma byID_eq:
  assumes "distinct (map ld_ID ds)"
  shows "byID ds i = Some d \<longleftrightarrow> d \<in> set ds \<and> ld_ID d = i"
proof
  assume "byID ds i = Some d"
  then show "d \<in> set ds \<and> ld_ID d = i" unfolding byID_def by (auto dest: map_of_SomeD)
qed (use byID_Some [OF assms] in blast)

lemma sorted_strictly:
  assumes "distinct (map lr_Order ds)"
  shows "sorted_wrt (\<lambda>d e. lr_Order d < lr_Order e) (sort_key (\<lambda>d. (lr_Order d, ld_ID d)) ds)"
proof -
  let ?s = "sort_key (\<lambda>d. (lr_Order d, ld_ID d)) ds"
  have "sorted_wrt (\<lambda>d e. (lr_Order d, ld_ID d) \<le> (lr_Order e, ld_ID e)) ?s"
    using sorted_sort_key [of "\<lambda>d. (lr_Order d, ld_ID d)" ds] by (simp only: sorted_map)
  moreover have "distinct (map lr_Order ?s)"
    using assms by (simp add: distinct_map)
  then have "sorted_wrt (\<lambda>d e. lr_Order d \<noteq> lr_Order e) ?s" by (simp add: sorted_wrt_iff_nth_less distinct_conv_nth)
  ultimately have "sorted_wrt (\<lambda>d e. (lr_Order d, ld_ID d) \<le> (lr_Order e, ld_ID e) \<and> lr_Order d \<noteq> lr_Order e) ?s"
    by (simp add: sorted_wrt_iff_nth_less)
  then show ?thesis by (rule sorted_wrt_mono_rel [rotated]) auto
qed

text \<open>
  C30: The frozen registry is the set of registered layers in strictly ascending order. In every
  run of a builder, freezing gives the registered layers, each exactly once; no two share an
  identifier, a name or an order; and a lookup by identifier or by name finds exactly the layer
  that carries it.
\<close>

theorem frozen_registry_exact:
  assumes "layer_step\<^sup>*\<^sup>* NewLayerRegistryBuilder b"
  shows "mset (OrderedLayers (fst (Freeze b))) = mset (lb_descriptors b) \<and>
    sorted_wrt (\<lambda>d e. lr_Order d < lr_Order e) (OrderedLayers (fst (Freeze b))) \<and>
    (\<forall>i d. Lookup_layer (fst (Freeze b)) i = Some d \<longleftrightarrow> d \<in> set (lb_descriptors b) \<and> ld_ID d = i) \<and>
    (\<forall>n d. LookupName (fst (Freeze b)) n = Some d \<longleftrightarrow> d \<in> set (lb_descriptors b) \<and> lr_Name d = n)"
proof -
  let ?s = "sort_key (\<lambda>d. (lr_Order d, ld_ID d)) (lb_descriptors b)"
  note ok = layers_okD [OF layer_run_ok [OF assms]]
  have d: "distinct (map ld_ID ?s)" "distinct (map lr_Name ?s)"
    using ok(1,2) by (simp_all add: distinct_map)
  have n: "LookupName (fst (Freeze b)) n = Some e \<longleftrightarrow> e \<in> set (lb_descriptors b) \<and> lr_Name e = n" for n e
    using byName_Some [OF d(2)] by (auto simp: LookupName_def Freeze_def Let_def dest: map_of_SomeD)
  have i: "Lookup_layer (fst (Freeze b)) i = Some e \<longleftrightarrow> e \<in> set (lb_descriptors b) \<and> ld_ID e = i" for i e
    using byID_eq [OF d(1)] by (simp add: Lookup_layer_def Freeze_def Let_def)
  show ?thesis using n i sorted_strictly [OF ok(3)] by (simp add: OrderedLayers_def Freeze_def Let_def)
qed

definition sample_layer :: "string \<Rightarrow> int \<Rightarrow> LayerRegistration" where
  "sample_layer n x = (standard_spec \<lparr>sl_ID = 0, sl_Name = n, sl_Order = x\<rparr>)\<lparr>lr_FocusTrap := True\<rparr>"

text \<open>The outcome of a registration that is known to end.\<close>

definition registered :: "LayerRegistration \<Rightarrow> LayerRegistryBuilder \<Rightarrow> LayerRegistryBuilder" where
  "registered spec b = (case RegisterLayer spec b of Some (_, b') \<Rightarrow> b' | None \<Rightarrow> b)"

definition sample_layers :: LayerRegistryBuilder where
  "sample_layers = snd (RegisterStandardLayers (registered (sample_layer ''toast'' 7500) (registered (sample_layer ''canvas'' 2500) NewLayerRegistryBuilder)))"

theorem frozen_registry_exact_witness:
  "map (\<lambda>d. (lr_Order d, ld_ID d)) (OrderedLayers (fst (Freeze sample_layers))) =
     [(1000, 1), (2000, 2), (2500, 10), (3000, 3), (4000, 4), (5000, 5), (6000, 6), (7000, 7), (7500, 11), (8000, 8), (9000, 9)] \<and>
   map_option ld_ID (LookupName (fst (Freeze sample_layers)) ''toast'') = Some 11"
proof -
  have "layer_step\<^sup>*\<^sup>* b (registered spec b)" for b spec
    by (auto simp: registered_def intro!: r_into_rtranclp layer_registered split: option.splits)
  then have r: "layer_step\<^sup>*\<^sup>* NewLayerRegistryBuilder sample_layers"
    unfolding sample_layers_def by (meson rtranclp_trans rtranclp.rtrancl_into_rtrancl layers_standard)
  have "map (\<lambda>d. (lr_Order d, ld_ID d)) (OrderedLayers (fst (Freeze sample_layers))) =
     [(1000, 1), (2000, 2), (2500, 10), (3000, 3), (4000, 4), (5000, 5), (6000, 6), (7000, 7), (7500, 11), (8000, 8), (9000, 9)]"
    by code_simp
  moreover have "\<exists>d \<in> set (lb_descriptors sample_layers). lr_Name d = ''toast'' \<and> ld_ID d = 11" by code_simp
  then have "map_option ld_ID (LookupName (fst (Freeze sample_layers)) ''toast'') = Some 11"
    using frozen_registry_exact [OF r] by auto
  ultimately show ?thesis by blast
qed

text \<open>
  The standard layers can be registered at any moment before the freeze, whatever layers an
  application has registered: the call succeeds, gives every standard layer its fixed identifier,
  and keeps the layers that were there.
\<close>

theorem standard_layers_any_time:
  assumes "layer_step\<^sup>*\<^sup>* NewLayerRegistryBuilder b" and "\<not> lb_frozen b" and "\<not> lb_standardRegistered b"
  shows "fst (RegisterStandardLayers b) = None \<and>
    set (lb_descriptors b) \<subseteq> set (lb_descriptors (snd (RegisterStandardLayers b))) \<and>
    (\<forall>l \<in> set standardLayerReservations. lb_byName (snd (RegisterStandardLayers b)) (sl_Name l) = Some (sl_ID l))"
proof -
  have ok: "layers_ok b" by (rule layer_run_ok [OF assms(1)])
  obtain b' where b': "RegisterStandardLayers b = (None, b')" "layers_ok b'" "lb_standardRegistered b'"
    using RegisterStandardLayers_ok [OF ok assms(2,3)] by blast
  have grow: "set (lb_descriptors b) \<subseteq> set (lb_descriptors (snd (register_standard ls b)))" for ls b
    by (induction ls b rule: register_standard.induct)
      (auto simp: registerStandardLayer_def Let_def split: prod.splits option.splits if_splits)
  have "lb_byName b' (sl_Name l) = Some (sl_ID l)" if l: "l \<in> set standardLayerReservations" for l
  proof -
    have "std_key l \<in> layer_key ` set (lb_descriptors b')" using b'(2,3) l by (auto simp: layers_ok_def layers_at_def)
    then obtain d where d: "d \<in> set (lb_descriptors b')" "ld_ID d = sl_ID l" "lr_Name d = sl_Name l"
      by (auto simp: std_key_def layer_key_def)
    have "lb_byName b' = map_of (rev (map (\<lambda>d. (lr_Name d, ld_ID d)) (lb_descriptors b')))" using b'(2) by (simp add: layers_ok_def layers_at_def)
    moreover have "(sl_Name l, sl_ID l) \<in> set (rev (map (\<lambda>d. (lr_Name d, ld_ID d)) (lb_descriptors b')))"
      using d by (force simp: image_iff)
    ultimately show ?thesis
      using layers_okD(2) [OF b'(2)] by (auto intro!: map_of_is_SomeI simp: rev_map [symmetric] o_def)
  qed
  moreover have "set (lb_descriptors b) \<subseteq> set (lb_descriptors b')"
    using grow [of b standardLayerReservations] b'(1) assms(2,3) by (simp add: RegisterStandardLayers_def)
  ultimately show ?thesis using b'(1) by simp
qed

theorem standard_layers_any_time_witness:
  "fst (RegisterStandardLayers (registered (sample_layer ''canvas'' 2500) NewLayerRegistryBuilder)) = None \<and>
   lb_byName sample_layers ''canvas'' = Some 10"
proof
  let ?b = "registered (sample_layer ''canvas'' 2500) NewLayerRegistryBuilder"
  have "layer_step\<^sup>*\<^sup>* NewLayerRegistryBuilder ?b"
    by (auto simp: registered_def intro!: r_into_rtranclp layer_registered split: option.splits)
  moreover have "\<not> lb_frozen ?b" "\<not> lb_standardRegistered ?b" by code_simp+
  ultimately show "fst (RegisterStandardLayers ?b) = None" using standard_layers_any_time by blast
  show "lb_byName sample_layers ''canvas'' = Some 10" by code_simp
qed

text \<open>
  A registration always returns, and succeeds exactly when the builder is not frozen and the
  name and the order are neither reserved nor in use, the name is not empty, and a named window
  has a name; the identifier is then new and not reserved.
\<close>

theorem RegisterLayer_returns:
  assumes "layer_step\<^sup>*\<^sup>* NewLayerRegistryBuilder b" and "length (lb_descriptors b) < 2 ^ 63"
  shows "\<exists>r b'. RegisterLayer spec b = Some (r, b') \<and>
    (isl r \<longleftrightarrow> lb_frozen b \<or> lr_Name spec = '''' \<or> lr_Name spec \<in> set (map sl_Name standardLayerReservations) \<union> lr_Name ` set (lb_descriptors b) \<or>
       lr_Order spec \<in> set (map sl_Order standardLayerReservations) \<union> lr_Order ` set (lb_descriptors b) \<or>
       (wb_Kind (lr_WindowBinding spec) = WindowBindingNamed \<and> wb_Name (lr_WindowBinding spec) = '''')) \<and>
    (\<not> isl r \<longrightarrow> projr r \<notin> set (map sl_ID standardLayerReservations) \<union> ld_ID ` set (lb_descriptors b) \<and>
       lb_descriptors b' = lb_descriptors b @ [describe (projr r) spec])"
proof -
  have ok: "layers_ok b" by (rule layer_run_ok [OF assms(1)])
  have "card (lb_reservedIDs b) \<le> 9" unfolding layers_okD(4) [OF ok] by (simp add: standardLayerReservations_def)
  then have "\<exists>j. \<not> id_taken b j"
    using assms(2) layers_okD(4) [OF ok] by (intro some_id_free) simp_all
  then obtain i where i: "next_free (id_taken b) (lb_nextID b) = Some i" "\<not> id_taken b i" using next_free_ends by blast
  have new: "i \<notin> set (map sl_ID standardLayerReservations) \<union> ld_ID ` set (lb_descriptors b)"
    using i(2) layers_okD(4) [OF ok] by (simp add: id_taken_def byID_None)
  have names: "isReservedName b n \<longleftrightarrow> n \<in> set (map sl_Name standardLayerReservations)" "isReservedOrder b x \<longleftrightarrow> x \<in> set (map sl_Order standardLayerReservations)" for n x
    using layers_okD(5,6) [OF ok] by (simp_all add: isReservedName_def isReservedOrder_def)
  show ?thesis
    using new by (simp add: RegisterLayer_def Let_def names layers_ok_names [OF ok] nextAvailableID_def i(1))
qed

theorem RegisterLayer_returns_witness:
  "map_option fst (RegisterLayer (sample_layer ''canvas'' 2600) sample_layers) = Some (Inl (DuplicateLayerName ''canvas'')) \<and>
   map_option (isl \<circ> fst) (RegisterLayer (sample_layer ''extra'' 2600) sample_layers) = Some False"
proof
  show "map_option fst (RegisterLayer (sample_layer ''canvas'' 2600) sample_layers) = Some (Inl (DuplicateLayerName ''canvas''))" by code_simp
  have "layer_step\<^sup>*\<^sup>* b (registered spec b)" for b spec
    by (auto simp: registered_def intro!: r_into_rtranclp layer_registered split: option.splits)
  then have r: "layer_step\<^sup>*\<^sup>* NewLayerRegistryBuilder sample_layers"
    unfolding sample_layers_def by (meson rtranclp_trans rtranclp.rtrancl_into_rtrancl layers_standard)
  have "length (lb_descriptors sample_layers) = 11" "\<not> lb_frozen sample_layers"
    "''extra'' \<notin> set (map sl_Name standardLayerReservations) \<union> lr_Name ` set (lb_descriptors sample_layers)"
    "2600 \<notin> set (map sl_Order standardLayerReservations) \<union> lr_Order ` set (lb_descriptors sample_layers)"
    "lr_Name (sample_layer ''extra'' 2600) = ''extra''" "lr_Order (sample_layer ''extra'' 2600) = 2600"
    "wb_Kind (lr_WindowBinding (sample_layer ''extra'' 2600)) = WindowBindingPrimary"
    by code_simp+
  then show "map_option (isl \<circ> fst) (RegisterLayer (sample_layer ''extra'' 2600) sample_layers) = Some False"
    using RegisterLayer_returns [OF r, of "sample_layer ''extra'' 2600"] by auto
qed

end
