(* ===== verification/Focus.thy ===== *)
theory Focus
  imports Facet_Lifecycle Layer_Registry Sorting
begin

text \<open>
  Keyboard focus (\<^verbatim>\<open>src/facet/focus.go\<close>): the focus manager with its tab order and its stack of focus
  traps, over the facet tree, and the trap stack that the runtime derives from the layers of a
  projection (\<^verbatim>\<open>src/runtime/focus.go\<close>). What a focus role answers is part of the environment; the
  callbacks of a role are calls that are logged and do not call the manager back.
\<close>

section \<open>Data\<close>

record FocusRole =
  fr_focusable :: "bool option"
  fr_tabIndex :: int
  fr_OnFocusGained :: bool
  fr_OnFocusLost :: bool

record focus_env =
  fe_heap :: "Facet list"
  fe_role :: "nat \<Rightarrow> FocusRole option"

record FocusTrapState =
  ts_Scope :: FacetID
  ts_Restore :: FocusRestoreMode

record focusTrapFrame =
  tf_scope :: FacetID
  tf_restore :: FocusRestoreMode
  tf_restoreID :: FacetID

record focusEntry =
  en_id :: FacetID
  en_index :: int
  en_order :: nat

datatype focus_event = FocusLost FacetID | FocusGained FacetID

record FocusManager =
  fm_focused :: FacetID
  fm_focusedImpl :: "nat option"
  fm_tabOrder :: "FacetID list"
  fm_byID :: "FacetID \<Rightarrow> nat option"
  fm_traps :: "focusTrapFrame list"
  fm_RebuildCount :: u64
  fm_log :: "focus_event list"

definition NewFocusManager :: FocusManager where
  "NewFocusManager = \<lparr>fm_focused = 0, fm_focusedImpl = None, fm_tabOrder = [], fm_byID = (\<lambda>_. None), fm_traps = [], fm_RebuildCount = 0, fm_log = []\<rparr>"

definition Reset_focus :: "FocusManager \<Rightarrow> FocusManager" where
  "Reset_focus m = m\<lparr>fm_focused := 0, fm_focusedImpl := None, fm_tabOrder := [], fm_byID := (\<lambda>_. None), fm_traps := []\<rparr>"

text \<open>The predicate of a role is optional; a facet without a role has no tab order.\<close>

definition IsFocusable :: "FocusRole \<Rightarrow> bool" where
  "IsFocusable r = (fr_focusable r \<noteq> Some False)"

definition TabOrder :: "FocusRole \<Rightarrow> int" where
  "TabOrder r = fr_tabIndex r"

section \<open>Focus\<close>

abbreviation eid :: "focus_env \<Rightarrow> nat \<Rightarrow> FacetID" where
  "eid E a \<equiv> fb_id (fe_heap E ! a)"

text \<open>The walk up the parents ends on every forest; one that does not end never finds the scope.\<close>

definition isWithinScope :: "focus_env \<Rightarrow> nat \<Rightarrow> FacetID \<Rightarrow> bool" where
  "isWithinScope E base scope \<longleftrightarrow> scope = 0 \<or> climb (fe_heap E) (\<lambda>a. eid E a = scope) (Some base) = Some True"

definition isAllowedInActiveTraps :: "focus_env \<Rightarrow> FocusManager \<Rightarrow> nat \<Rightarrow> bool" where
  "isAllowedInActiveTraps E m base = list_all (\<lambda>t. isWithinScope E base (tf_scope t)) (fm_traps m)"

definition isAllowedInActiveTrapsByID :: "focus_env \<Rightarrow> FocusManager \<Rightarrow> FacetID \<Rightarrow> bool" where
  "isAllowedInActiveTrapsByID E m i =
     (i \<noteq> 0 \<and> (case fm_byID m i of None \<Rightarrow> False | Some a \<Rightarrow> isAllowedInActiveTraps E m a))"

definition isFocusable :: "focus_env \<Rightarrow> nat option \<Rightarrow> bool" where
  "isFocusable E target = (case target of None \<Rightarrow> False | Some a \<Rightarrow> (case fe_role E a of None \<Rightarrow> False | Some r \<Rightarrow> IsFocusable r))"

definition canFocus :: "focus_env \<Rightarrow> FocusManager \<Rightarrow> nat option \<Rightarrow> bool" where
  "canFocus E m target = (case target of None \<Rightarrow> False | Some a \<Rightarrow> isFocusable E target \<and> isAllowedInActiveTraps E m a)"

text \<open>The callbacks of the facet that loses or gains focus.\<close>

definition notify_lost :: "focus_env \<Rightarrow> FocusManager \<Rightarrow> FocusManager" where
  "notify_lost E m =
     (case fm_focusedImpl m of
        None \<Rightarrow> m
      | Some b \<Rightarrow> (case fe_role E b of
                     None \<Rightarrow> m
                   | Some r \<Rightarrow> if fr_OnFocusLost r then m\<lparr>fm_log := fm_log m @ [FocusLost (fm_focused m)]\<rparr> else m))"

definition notify_gained :: "focus_env \<Rightarrow> nat \<Rightarrow> FocusManager \<Rightarrow> FocusManager" where
  "notify_gained E a m =
     (case fe_role E a of
        None \<Rightarrow> m
      | Some r \<Rightarrow> if fr_OnFocusGained r then m\<lparr>fm_log := fm_log m @ [FocusGained (eid E a)]\<rparr> else m)"

definition ClearFocus :: "focus_env \<Rightarrow> FocusManager \<Rightarrow> FocusManager" where
  "ClearFocus E m = (notify_lost E m)\<lparr>fm_focused := 0, fm_focusedImpl := None\<rparr>"

definition take_focus :: "focus_env \<Rightarrow> nat \<Rightarrow> FocusManager \<Rightarrow> FocusManager" where
  "take_focus E a m = m\<lparr>fm_focused := eid E a, fm_focusedImpl := Some a, fm_byID := (fm_byID m)(eid E a \<mapsto> a)\<rparr>"

definition SetFocus :: "focus_env \<Rightarrow> nat option \<Rightarrow> FocusManager \<Rightarrow> bool \<times> FocusManager" where
  "SetFocus E target m =
     (case target of
        None \<Rightarrow> (True, ClearFocus E m)
      | Some a \<Rightarrow>
          if \<not> canFocus E m (Some a) then (False, m)
          else if fm_focused m = eid E a
          then (True, m\<lparr>fm_focusedImpl := Some a, fm_byID := (fm_byID m)(eid E a \<mapsto> a)\<rparr>)
          else (True, notify_gained E a (take_focus E a (notify_lost E m))))"

definition focusByID :: "focus_env \<Rightarrow> FacetID \<Rightarrow> FocusManager \<Rightarrow> FocusManager" where
  "focusByID E i m = (if i = 0 then m else case fm_byID m i of None \<Rightarrow> m | Some a \<Rightarrow> snd (SetFocus E (Some a) m))"

definition ActiveTrap :: "FocusManager \<Rightarrow> FacetID" where
  "ActiveTrap m = (if fm_traps m = [] then 0 else tf_scope (last (fm_traps m)))"

section \<open>Traps\<close>

definition firstFocusableInActiveTraps :: "focus_env \<Rightarrow> FocusManager \<Rightarrow> nat option" where
  "firstFocusableInActiveTraps E m =
     (case List.find (\<lambda>i. canFocus E m (fm_byID m i)) (fm_tabOrder m) of None \<Rightarrow> None | Some i \<Rightarrow> fm_byID m i)"

text \<open>The end of \<^verbatim>\<open>popTrap\<close> and \<^verbatim>\<open>pushTrap\<close>: the first focusable facet, or none.\<close>

definition focus_first :: "focus_env \<Rightarrow> FocusManager \<Rightarrow> FocusManager" where
  "focus_first E m = (case firstFocusableInActiveTraps E m of Some a \<Rightarrow> snd (SetFocus E (Some a) m) | None \<Rightarrow> ClearFocus E m)"

definition pushTrap :: "focus_env \<Rightarrow> focusTrapFrame \<Rightarrow> FocusManager \<Rightarrow> FocusManager" where
  "pushTrap E frame m =
     (if tf_scope frame = 0 then m
      else let m1 = m\<lparr>fm_traps := fm_traps m @ [frame\<lparr>tf_restoreID := fm_focused m\<rparr>]\<rparr>
           in if fm_focused m1 = 0 \<or> \<not> canFocus E m1 (fm_focusedImpl m1) then focus_first E m1 else m1)"

text \<open>The default of \<^verbatim>\<open>popTrap\<close>: back to the facet that had focus when the trap was pushed.\<close>

definition restore_focus :: "focus_env \<Rightarrow> FacetID \<Rightarrow> FocusManager \<Rightarrow> FocusManager" where
  "restore_focus E i m =
     (if i \<noteq> 0 \<and> fm_byID m i \<noteq> None \<and> canFocus E m (fm_byID m i) then snd (SetFocus E (fm_byID m i) m) else focus_first E m)"

definition popTrap :: "focus_env \<Rightarrow> FocusManager \<Rightarrow> FocusManager" where
  "popTrap E m =
     (if fm_traps m = [] then m
      else let frame = last (fm_traps m); m1 = m\<lparr>fm_traps := butlast (fm_traps m)\<rparr>
           in (case tf_restore frame of
                 FocusRestoreNone \<Rightarrow> if fm_traps m1 \<noteq> [] then focus_first E m1 else ClearFocus E m1
               | FocusRestoreFirstFocusable \<Rightarrow>
                   (case firstFocusableInActiveTraps E m1 of
                      Some a \<Rightarrow> snd (SetFocus E (Some a) m1)
                    | None \<Rightarrow> restore_focus E (tf_restoreID frame) m1)
               | FocusRestorePrevious \<Rightarrow> restore_focus E (tf_restoreID frame) m1))"

text \<open>Zero scopes and repeated scopes are dropped.\<close>

fun normalize_traps :: "FocusTrapState list \<Rightarrow> FacetID list \<Rightarrow> focusTrapFrame list" where
  "normalize_traps [] seen = []"
| "normalize_traps (t # ts) seen =
     (if ts_Scope t = 0 \<or> ts_Scope t \<in> set seen then normalize_traps ts seen
      else \<lparr>tf_scope = ts_Scope t, tf_restore = ts_Restore t, tf_restoreID = 0\<rparr> # normalize_traps ts (ts_Scope t # seen))"

text \<open>The common part of the old and the new stack takes the new restore modes.\<close>

fun common_traps :: "focusTrapFrame list \<Rightarrow> focusTrapFrame list \<Rightarrow> nat" where
  "common_traps (f # fs) (g # gs) = (if tf_scope f = tf_scope g then Suc (common_traps fs gs) else 0)"
| "common_traps _ _ = 0"

definition keep_common :: "focusTrapFrame list \<Rightarrow> focusTrapFrame list \<Rightarrow> focusTrapFrame list" where
  "keep_common old new = (let k = common_traps old new in map (\<lambda>(f, g). f\<lparr>tf_restore := tf_restore g\<rparr>) (zip (List.take k old) (List.take k new)) @ drop k old)"

lemma notify_simps [simp]:
  "fm_traps (notify_lost E m) = fm_traps m" "fm_traps (notify_gained E a m) = fm_traps m"
  "fm_tabOrder (notify_lost E m) = fm_tabOrder m" "fm_tabOrder (notify_gained E a m) = fm_tabOrder m"
  "fm_byID (notify_lost E m) = fm_byID m" "fm_byID (notify_gained E a m) = fm_byID m"
  "fm_focused (notify_lost E m) = fm_focused m" "fm_focused (notify_gained E a m) = fm_focused m"
  "fm_focusedImpl (notify_lost E m) = fm_focusedImpl m" "fm_focusedImpl (notify_gained E a m) = fm_focusedImpl m"
  by (simp_all add: notify_lost_def notify_gained_def split: option.split)

lemma focus_keeps [simp]:
  "fm_traps (ClearFocus E m) = fm_traps m" "fm_traps (snd (SetFocus E t m)) = fm_traps m" "fm_traps (focus_first E m) = fm_traps m"
  "fm_traps (restore_focus E i m) = fm_traps m" "fm_traps (focusByID E i m) = fm_traps m"
  "fm_tabOrder (ClearFocus E m) = fm_tabOrder m" "fm_tabOrder (snd (SetFocus E t m)) = fm_tabOrder m" "fm_tabOrder (focus_first E m) = fm_tabOrder m"
  "fm_tabOrder (restore_focus E i m) = fm_tabOrder m" "fm_tabOrder (focusByID E i m) = fm_tabOrder m"
proof -
  show 1: "fm_traps (ClearFocus E m) = fm_traps m" for m by (simp add: ClearFocus_def)
  show 2: "fm_traps (snd (SetFocus E t m)) = fm_traps m" for t m by (simp add: SetFocus_def take_focus_def 1 split: option.split)
  show 3: "fm_traps (focus_first E m) = fm_traps m" by (simp add: focus_first_def 1 2 split: option.split)
  then show "fm_traps (restore_focus E i m) = fm_traps m" "fm_traps (focusByID E i m) = fm_traps m"
    by (simp_all add: restore_focus_def focusByID_def 2 split: option.split)
  show 4: "fm_tabOrder (ClearFocus E m) = fm_tabOrder m" for m by (simp add: ClearFocus_def)
  show 5: "fm_tabOrder (snd (SetFocus E t m)) = fm_tabOrder m" for t m by (simp add: SetFocus_def take_focus_def 4 split: option.split)
  show 6: "fm_tabOrder (focus_first E m) = fm_tabOrder m" by (simp add: focus_first_def 4 5 split: option.split)
  then show "fm_tabOrder (restore_focus E i m) = fm_tabOrder m" "fm_tabOrder (focusByID E i m) = fm_tabOrder m"
    by (simp_all add: restore_focus_def focusByID_def 5 split: option.split)
qed

lemma popTrap_traps [simp]: "fm_traps (popTrap E m) = butlast (fm_traps m)" "fm_tabOrder (popTrap E m) = fm_tabOrder m"
  by (auto simp: popTrap_def Let_def split: FocusRestoreMode.split option.split)

function popTo :: "focus_env \<Rightarrow> nat \<Rightarrow> FocusManager \<Rightarrow> FocusManager" where
  "popTo E k m = (if k < length (fm_traps m) then popTo E k (popTrap E m) else m)"
  by auto
termination by (relation "measure (\<lambda>(E, k, m). length (fm_traps m))") auto

declare popTo.simps [simp del]

definition SyncFocusTraps :: "focus_env \<Rightarrow> FocusTrapState list \<Rightarrow> FocusManager \<Rightarrow> FocusManager" where
  "SyncFocusTraps E traps m =
     (let normalized = normalize_traps traps []; k = common_traps (fm_traps m) normalized;
          m1 = popTo E k (m\<lparr>fm_traps := keep_common (fm_traps m) normalized\<rparr>)
      in fold (pushTrap E) (drop k normalized) m1)"

section \<open>Tab order\<close>

definition filteredTabOrder :: "focus_env \<Rightarrow> FocusManager \<Rightarrow> FacetID list" where
  "filteredTabOrder E m =
     (if fm_traps m = [] then fm_tabOrder m else filter (isAllowedInActiveTrapsByID E m) (fm_tabOrder m))"

definition indexOfFocused :: "FocusManager \<Rightarrow> FacetID list \<Rightarrow> nat option" where
  "indexOfFocused m order = (if fm_focused m = 0 then None else find_index (\<lambda>i. i = fm_focused m) order)"

definition TabNext :: "focus_env \<Rightarrow> FocusManager \<Rightarrow> FocusManager" where
  "TabNext E m =
     (let order = filteredTabOrder E m in
      if fm_tabOrder m = [] \<or> order = [] then m
      else (case indexOfFocused m order of
              None \<Rightarrow> focusByID E (order ! 0) m
            | Some k \<Rightarrow> focusByID E (order ! ((k + 1) mod length order)) m))"

definition TabPrev :: "focus_env \<Rightarrow> FocusManager \<Rightarrow> FocusManager" where
  "TabPrev E m =
     (let order = filteredTabOrder E m in
      if fm_tabOrder m = [] \<or> order = [] then m
      else (case indexOfFocused m order of
              None \<Rightarrow> focusByID E (order ! (length order - 1)) m
            | Some k \<Rightarrow> focusByID E (order ! ((k + length order - 1) mod length order)) m))"

text \<open>The walk over the tree, with its stack, the number of facets met, their directory and the entries.\<close>

partial_function (option) tab_walk :: "focus_env \<Rightarrow> nat list \<Rightarrow> nat \<Rightarrow> (FacetID \<Rightarrow> nat option) \<Rightarrow> focusEntry list \<Rightarrow>
    ((FacetID \<Rightarrow> nat option) \<times> focusEntry list) option" where
  "tab_walk E stack sq dir entries =
     (case stack of
        [] \<Rightarrow> Some (dir, entries)
      | a # rest \<Rightarrow>
          tab_walk E (fb_children (fe_heap E ! a) @ rest) (sq + 1) (dir(eid E a \<mapsto> a))
            (case fe_role E a of
               None \<Rightarrow> entries
             | Some r \<Rightarrow> if 0 \<le> TabOrder r \<and> IsFocusable r
                         then entries @ [\<lparr>en_id = eid E a, en_index = TabOrder r, en_order = sq\<rparr>] else entries))"

declare tab_walk.simps [code]

text \<open>What a rebuild does with the facet in focus.\<close>

definition refocus :: "focus_env \<Rightarrow> FocusManager \<Rightarrow> FocusManager" where
  "refocus E m =
     (if fm_focused m = 0 then m
      else (case fm_byID m (fm_focused m) of
              None \<Rightarrow> m\<lparr>fm_focused := 0, fm_focusedImpl := None\<rparr>
            | Some a \<Rightarrow> if \<not> isFocusable E (Some a) \<or> \<not> isAllowedInActiveTraps E m a then ClearFocus E m
                        else m\<lparr>fm_focusedImpl := Some a\<rparr>))"

definition RebuildTabOrder :: "focus_env \<Rightarrow> nat option \<Rightarrow> FocusManager \<Rightarrow> FocusManager option" where
  "RebuildTabOrder E root m =
     (let m1 = m\<lparr>fm_tabOrder := [], fm_byID := (\<lambda>_. None), fm_RebuildCount := fm_RebuildCount m + 1\<rparr> in
      case root of
        None \<Rightarrow> Some (m1\<lparr>fm_focused := 0, fm_focusedImpl := None\<rparr>)
      | Some a \<Rightarrow>
          (case tab_walk E [a] 0 (\<lambda>_. None) [] of
             None \<Rightarrow> None
           | Some (dir, entries) \<Rightarrow>
               Some (refocus E (m1\<lparr>fm_byID := dir, fm_tabOrder := map en_id (sort_key (\<lambda>e. (en_index e, en_order e)) entries)\<rparr>))))"

section \<open>Traps of the runtime\<close>

text \<open>
  The layers of a projection are a map from facets to layer identifiers; the order in which it is
  iterated is the order of the list.
\<close>

definition trap_entries :: "LayerRegistry \<Rightarrow> (FacetID \<times> LayerID) list \<Rightarrow> (LayerOrder \<times> FacetID \<times> FocusRestoreMode) list" where
  "trap_entries reg layers =
     List.map_filter (\<lambda>(f, l).
       if l = 0 then None
       else (case Lookup_layer reg l of
               None \<Rightarrow> None
             | Some d \<Rightarrow> if lr_FocusTrap d then Some (lr_Order d, f, lr_FocusRestore d) else None)) layers"

definition syncFocusTraps :: "focus_env \<Rightarrow> LayerRegistry option \<Rightarrow> (FacetID \<times> LayerID) list \<Rightarrow> FocusManager \<Rightarrow> FocusManager" where
  "syncFocusTraps E reg layers m =
     (case reg of
        None \<Rightarrow> SyncFocusTraps E [] m
      | Some r \<Rightarrow>
          if layers = [] then SyncFocusTraps E [] m
          else SyncFocusTraps E
                 (map (\<lambda>(_, f, q). \<lparr>ts_Scope = f, ts_Restore = q\<rparr>) (sort_key (\<lambda>(ord, f, _). (ord, f)) (trap_entries r layers))) m)"


section \<open>Validity\<close>

lemma canFocus_scopes: "map tf_scope (fm_traps m') = map tf_scope (fm_traps m) \<Longrightarrow> canFocus E m' t = canFocus E m t"
proof -
  have a: "isAllowedInActiveTraps E m a = list_all (isWithinScope E a) (map tf_scope (fm_traps m))" for m a
    by (simp add: isAllowedInActiveTraps_def list.pred_map comp_def)
  assume "map tf_scope (fm_traps m') = map tf_scope (fm_traps m)"
  then show ?thesis by (simp add: canFocus_def a split: option.split)
qed

text \<open>
  The directory names facets of the tree, and the tab order names focusable facets of the
  directory, each once; the facet in focus may have it.
\<close>

definition dir_ok :: "focus_env \<Rightarrow> FocusManager \<Rightarrow> bool" where
  "dir_ok E m \<longleftrightarrow> (\<forall>i a. fm_byID m i = Some a \<longrightarrow> a < length (fe_heap E) \<and> eid E a = i) \<and>
     distinct (fm_tabOrder m) \<and> (\<forall>i \<in> set (fm_tabOrder m). i \<noteq> 0 \<and> fm_byID m i \<noteq> None \<and> isFocusable E (fm_byID m i))"

definition held :: "focus_env \<Rightarrow> FocusManager \<Rightarrow> bool" where
  "held E m \<longleftrightarrow> (case fm_focusedImpl m of
      None \<Rightarrow> fm_focused m = 0
    | Some a \<Rightarrow> a < length (fe_heap E) \<and> fm_focused m = eid E a \<and> fm_byID m (eid E a) \<noteq> None \<and> canFocus E m (Some a))"

lemma dir_okD: "dir_ok E m \<Longrightarrow> fm_byID m i = Some a \<Longrightarrow> a < length (fe_heap E) \<and> eid E a = i"
  by (simp add: dir_ok_def)

lemma SetFocus_cases:
  assumes "a < length (fe_heap E)" "dir_ok E m"
  shows "dir_ok E (snd (SetFocus E (Some a) m))"
    "canFocus E m (Some a) \<Longrightarrow> held E (snd (SetFocus E (Some a) m)) \<and> fm_focusedImpl (snd (SetFocus E (Some a) m)) = Some a \<and>
       fm_focused (snd (SetFocus E (Some a) m)) = eid E a"
    "\<not> canFocus E m (Some a) \<Longrightarrow> SetFocus E (Some a) m = (False, m)"
proof -
  show "dir_ok E (snd (SetFocus E (Some a) m))"
  proof (cases "canFocus E m (Some a)")
    case True
    then have "isFocusable E (Some a)" by (simp add: canFocus_def)
    then show ?thesis using True assms by (simp add: SetFocus_def dir_ok_def take_focus_def)
  next
    case False
    then show ?thesis using assms(2) by (simp add: SetFocus_def)
  qed
  show "\<not> canFocus E m (Some a) \<Longrightarrow> SetFocus E (Some a) m = (False, m)" by (simp add: SetFocus_def)
  assume c: "canFocus E m (Some a)"
  have c': "canFocus E (snd (SetFocus E (Some a) m)) (Some a)" using canFocus_scopes [of "snd (SetFocus E (Some a) m)" m] c by simp
  have f: "fm_focusedImpl (snd (SetFocus E (Some a) m)) = Some a" "fm_focused (snd (SetFocus E (Some a) m)) = eid E a"
    "fm_byID (snd (SetFocus E (Some a) m)) (eid E a) = Some a"
    using c by (simp_all add: SetFocus_def take_focus_def)
  show "held E (snd (SetFocus E (Some a) m)) \<and> fm_focusedImpl (snd (SetFocus E (Some a) m)) = Some a \<and>
       fm_focused (snd (SetFocus E (Some a) m)) = eid E a"
    using c' f assms(1) by (simp add: held_def)
qed

lemma ClearFocus_ok: "dir_ok E m \<Longrightarrow> dir_ok E (ClearFocus E m) \<and> held E (ClearFocus E m)"
  by (simp add: ClearFocus_def dir_ok_def held_def)

lemma SetFocus_ok:
  assumes "\<And>a. t = Some a \<Longrightarrow> a < length (fe_heap E)" "dir_ok E m" "held E m"
  shows "dir_ok E (snd (SetFocus E t m)) \<and> held E (snd (SetFocus E t m))"
proof (cases t)
  case None
  then show ?thesis using ClearFocus_ok [OF assms(2)] by (simp add: SetFocus_def)
next
  case (Some a)
  then show ?thesis using SetFocus_cases [OF assms(1) [OF Some] assms(2)] assms(2,3) by (cases "canFocus E m (Some a)") simp_all
qed

lemma firstFocusable_Some:
  assumes "firstFocusableInActiveTraps E m = Some a" "dir_ok E m"
  shows "canFocus E m (Some a)" "a < length (fe_heap E)" "eid E a \<in> set (fm_tabOrder m)" "fm_byID m (eid E a) = Some a"
proof -
  obtain i where i: "List.find (\<lambda>i. canFocus E m (fm_byID m i)) (fm_tabOrder m) = Some i" "fm_byID m i = Some a"
    using assms(1) by (auto simp: firstFocusableInActiveTraps_def split: option.splits)
  then have "canFocus E m (fm_byID m i)" "i \<in> set (fm_tabOrder m)" by (auto simp: find_Some_iff)
  then show "canFocus E m (Some a)" "a < length (fe_heap E)" "eid E a \<in> set (fm_tabOrder m)" "fm_byID m (eid E a) = Some a"
    using i(2) dir_okD [OF assms(2) i(2)] by auto
qed

lemma focus_first_ok: "dir_ok E m \<Longrightarrow> dir_ok E (focus_first E m) \<and> held E (focus_first E m)"
  using SetFocus_cases(1,2) [OF firstFocusable_Some(2)] ClearFocus_ok firstFocusable_Some(1) unfolding focus_first_def
  by (auto split: option.split)

lemma restore_focus_ok: "dir_ok E m \<Longrightarrow> dir_ok E (restore_focus E i m) \<and> held E (restore_focus E i m)"
  using focus_first_ok [of E m] dir_okD [of E m i] SetFocus_cases(1,2) [of _ E m] unfolding restore_focus_def by auto

lemma dir_ok_traps: "dir_ok E (m\<lparr>fm_traps := ts\<rparr>) = dir_ok E m"
  by (simp add: dir_ok_def)

lemma pushTrap_ok:
  assumes "dir_ok E m" "held E m"
  shows "dir_ok E (pushTrap E f m) \<and> held E (pushTrap E f m)"
proof (cases "tf_scope f = 0")
  case True
  then show ?thesis using assms by (simp add: pushTrap_def)
next
  case False
  let ?m = "m\<lparr>fm_traps := fm_traps m @ [f\<lparr>tf_restoreID := fm_focused m\<rparr>]\<rparr>"
  have d: "dir_ok E ?m" using assms(1) by (simp add: dir_ok_traps)
  have h: "held E ?m" if "canFocus E ?m (fm_focusedImpl m)"
    using assms(2) that by (cases "fm_focusedImpl m") (simp_all add: held_def)
  show ?thesis using False focus_first_ok [OF d] d h by (simp add: pushTrap_def Let_def)
qed

lemma popTrap_ok:
  assumes "dir_ok E m" "fm_traps m \<noteq> []"
  shows "dir_ok E (popTrap E m) \<and> held E (popTrap E m)"
proof -
  let ?m = "m\<lparr>fm_traps := butlast (fm_traps m)\<rparr>"
  have d: "dir_ok E ?m" using assms(1) by (simp add: dir_ok_traps)
  show ?thesis
    using focus_first_ok [OF d] restore_focus_ok [OF d] ClearFocus_ok [OF d] SetFocus_cases(1,2) [OF firstFocusable_Some(2) d] firstFocusable_Some(1) [OF _ d] d assms(2)
    by (auto simp: popTrap_def Let_def split: FocusRestoreMode.split option.split)
qed

lemma popTo_ok: "dir_ok E m \<Longrightarrow> held E m \<Longrightarrow> dir_ok E (popTo E k m) \<and> held E (popTo E k m)"
proof (induction E k m rule: popTo.induct)
  case (1 E k m)
  show ?case
  proof (cases "k < length (fm_traps m)")
    case True
    then have "fm_traps m \<noteq> []" by auto
    then show ?thesis using 1(1) [OF True] popTrap_ok [OF 1(2)] True by (subst (1 2) popTo.simps) simp
  next
    case False
    then show ?thesis using 1(2,3) by (subst (1 2) popTo.simps) simp
  qed
qed

lemma popTo_traps [simp]: "fm_traps (popTo E k m) = List.take k (fm_traps m)" "fm_tabOrder (popTo E k m) = fm_tabOrder m"
proof (induction E k m rule: popTo.induct)
  case (1 E k m)
  { case 1 then show ?case using "1.IH"(1) by (subst popTo.simps) (auto simp: butlast_conv_take min_def) }
  { case 2 then show ?case using "1.IH"(2) by (subst popTo.simps) auto }
qed

lemma common_traps_le: "common_traps fs gs \<le> length fs" "common_traps fs gs \<le> length gs"
  by (induction fs gs rule: common_traps.induct) auto

lemma common_traps_scopes: "map tf_scope (List.take (common_traps fs gs) fs) = map tf_scope (List.take (common_traps fs gs) gs)"
  by (induction fs gs rule: common_traps.induct) auto

lemma keep_common_simps:
  "length (keep_common fs gs) = length fs" "map tf_scope (keep_common fs gs) = map tf_scope fs"
  "map tf_scope (List.take (common_traps fs gs) (keep_common fs gs)) = map tf_scope (List.take (common_traps fs gs) gs)"
  "map tf_restore (List.take (common_traps fs gs) (keep_common fs gs)) = map tf_restore (List.take (common_traps fs gs) gs)"
proof -
  let ?k = "common_traps fs gs"
  let ?z = "map (\<lambda>(f, g). f\<lparr>tf_restore := tf_restore g\<rparr>) (zip (List.take ?k fs) (List.take ?k gs))"
  have l: "length (List.take ?k fs) = length (List.take ?k gs)" using common_traps_le [of fs gs] by simp
  have s: "map tf_scope ?z = map tf_scope (List.take ?k fs)" "map tf_restore ?z = map tf_restore (List.take ?k gs)" "length ?z = ?k"
    using l common_traps_le [of fs gs] by (auto simp: comp_def split_def intro!: nth_equalityI)
  then have t: "List.take ?k (keep_common fs gs) = ?z" by (simp add: keep_common_def Let_def)
  show "length (keep_common fs gs) = length fs" using s(3) common_traps_le [of fs gs] by (simp add: keep_common_def Let_def)
  show "map tf_scope (keep_common fs gs) = map tf_scope fs"
    using s(1) append_take_drop_id [of ?k "map tf_scope fs"] by (simp add: keep_common_def Let_def take_map drop_map)
  show "map tf_scope (List.take ?k (keep_common fs gs)) = map tf_scope (List.take ?k gs)" unfolding t s(1) by (rule common_traps_scopes)
  show "map tf_restore (List.take ?k (keep_common fs gs)) = map tf_restore (List.take ?k gs)" unfolding t by (rule s(2))
qed

lemma fold_push_ok: "dir_ok E m \<Longrightarrow> held E m \<Longrightarrow> dir_ok E (fold (pushTrap E) fs m) \<and> held E (fold (pushTrap E) fs m)"
  using pushTrap_ok by (induction fs arbitrary: m) auto

lemma fold_push_traps:
  "\<forall>f \<in> set fs. tf_scope f \<noteq> 0 \<Longrightarrow> map (\<lambda>f. (tf_scope f, tf_restore f)) (fm_traps (fold (pushTrap E) fs m)) =
     map (\<lambda>f. (tf_scope f, tf_restore f)) (fm_traps m) @ map (\<lambda>f. (tf_scope f, tf_restore f)) fs"
  by (induction fs arbitrary: m) (simp_all add: pushTrap_def Let_def)

lemma fold_push_tab [simp]: "fm_tabOrder (fold (pushTrap E) fs m) = fm_tabOrder m"
  by (induction fs arbitrary: m) (simp_all add: pushTrap_def Let_def)

lemma normalize_traps_set:
  "tf_scope ` set (normalize_traps ts seen) = ts_Scope ` set ts - insert 0 (set seen)"
  "distinct (map tf_scope (normalize_traps ts seen))"
proof -
  show s: "tf_scope ` set (normalize_traps ts seen) = ts_Scope ` set ts - insert 0 (set seen)" for ts seen
    by (induction ts seen rule: normalize_traps.induct) auto
  show "distinct (map tf_scope (normalize_traps ts seen))"
  proof (induction ts seen rule: normalize_traps.induct)
    case (2 t ts seen)
    have "ts_Scope t \<notin> set (map tf_scope (normalize_traps ts (ts_Scope t # seen)))" unfolding set_map s by simp
    then show ?case using 2 by (simp del: set_map)
  qed simp
qed

lemma SyncFocusTraps_traps:
  "map (\<lambda>f. (tf_scope f, tf_restore f)) (fm_traps (SyncFocusTraps E ts m)) = map (\<lambda>f. (tf_scope f, tf_restore f)) (normalize_traps ts [])"
proof -
  let ?n = "normalize_traps ts []"
  let ?k = "common_traps (fm_traps m) ?n"
  have z: "map (\<lambda>f. (tf_scope f, tf_restore f)) xs = zip (map tf_scope xs) (map tf_restore xs)" for xs by (simp add: zip_map_map zip_same_conv_map)
  have nz: "\<forall>f \<in> set (drop ?k ?n). tf_scope f \<noteq> 0" using normalize_traps_set(1) [of ts "[]"] by (auto dest: in_set_dropD)
  have "map (\<lambda>f. (tf_scope f, tf_restore f)) (List.take ?k (keep_common (fm_traps m) ?n)) = map (\<lambda>f. (tf_scope f, tf_restore f)) (List.take ?k ?n)"
    unfolding z keep_common_simps(3,4) by (rule refl)
  then show ?thesis
    using append_take_drop_id [of ?k "map (\<lambda>f. (tf_scope f, tf_restore f)) ?n"]
    by (simp add: SyncFocusTraps_def Let_def fold_push_traps [OF nz] take_map drop_map)
qed

lemma SyncFocusTraps_ok:
  assumes "dir_ok E m" "held E m"
  shows "dir_ok E (SyncFocusTraps E ts m) \<and> held E (SyncFocusTraps E ts m)"
proof -
  let ?n = "normalize_traps ts []"
  let ?m = "m\<lparr>fm_traps := keep_common (fm_traps m) ?n\<rparr>"
  have c: "canFocus E ?m t = canFocus E m t" for t by (rule canFocus_scopes) (simp add: keep_common_simps(2))
  have "dir_ok E ?m" "held E ?m" using assms c by (simp_all add: dir_ok_def held_def split: option.splits)
  then show ?thesis unfolding SyncFocusTraps_def Let_def by (intro fold_push_ok) (auto dest: popTo_ok)
qed


section \<open>The walk of a rebuild\<close>

definition tabbable :: "focus_env \<Rightarrow> nat \<Rightarrow> bool" where
  "tabbable E a \<longleftrightarrow> (case fe_role E a of None \<Rightarrow> False | Some r \<Rightarrow> 0 \<le> TabOrder r \<and> IsFocusable r)"

definition tab_index :: "focus_env \<Rightarrow> nat \<Rightarrow> int" where
  "tab_index E a = (case fe_role E a of None \<Rightarrow> -1 | Some r \<Rightarrow> TabOrder r)"

fun entries_of :: "focus_env \<Rightarrow> nat \<Rightarrow> nat list \<Rightarrow> focusEntry list" where
  "entries_of E sq [] = []"
| "entries_of E sq (a # as) =
     (if tabbable E a then [\<lparr>en_id = eid E a, en_index = tab_index E a, en_order = sq\<rparr>] else []) @ entries_of E (sq + 1) as"

text \<open>The directory after some facets have been entered by their names.\<close>

definition put_dirs :: "(nat \<Rightarrow> 'k) \<Rightarrow> nat list \<Rightarrow> ('k \<Rightarrow> nat option) \<Rightarrow> 'k \<Rightarrow> nat option" where
  "put_dirs g xs d = fold (\<lambda>a d. d(g a \<mapsto> a)) xs d"

lemma put_dirs_simps [simp]:
  "put_dirs g [] d = d" "put_dirs g (x # xs) d = put_dirs g xs (d(g x \<mapsto> x))" "put_dirs g (xs @ ys) d = put_dirs g ys (put_dirs g xs d)"
  by (simp_all add: put_dirs_def)

lemma put_dirs_other: "i \<notin> g ` set xs \<Longrightarrow> put_dirs g xs d i = d i"
  by (induction xs arbitrary: d) auto

lemma put_dirs_one:
  assumes "inj_on g (set xs)" "a \<in> set xs"
  shows "put_dirs g xs d (g a) = Some a"
  using assms
proof (induction xs arbitrary: d)
  case (Cons x xs)
  show ?case
  proof (cases "a \<in> set xs")
    case True
    then show ?thesis using Cons by simp
  next
    case False
    then have "a = x" "g x \<notin> g ` set xs" using Cons(2,3) by auto
    then show ?thesis by (simp add: put_dirs_other)
  qed
qed simp

abbreviation ekids :: "focus_env \<Rightarrow> nat \<Rightarrow> nat list" where
  "ekids E a \<equiv> fb_children (fe_heap E ! a)"

lemma entries_of_append: "entries_of E sq (xs @ ys) = entries_of E sq xs @ entries_of E (sq + length xs) ys"
  by (induction xs arbitrary: sq) simp_all

lemma tab_walk_node:
  "tab_walk E (a # rest) sq dir en = tab_walk E (ekids E a @ rest) (sq + 1) (dir(eid E a \<mapsto> a)) (en @ entries_of E sq [a])"
proof -
  have "(case fe_role E a of None \<Rightarrow> en
      | Some r \<Rightarrow> if 0 \<le> TabOrder r \<and> IsFocusable r then en @ [\<lparr>en_id = eid E a, en_index = TabOrder r, en_order = sq\<rparr>] else en) = en @ entries_of E sq [a]"
    by (simp add: tabbable_def tab_index_def split: option.split)
  then show ?thesis by (subst tab_walk.simps) simp
qed

lemma tab_walk_walk:
  "walk (ekids E) a pre post \<Longrightarrow>
     tab_walk E (a # rest) sq dir en = tab_walk E rest (sq + length pre) (put_dirs (eid E) pre dir) (en @ entries_of E sq pre)"
  "walks (ekids E) cs pre post \<Longrightarrow>
     tab_walk E (cs @ rest) sq dir en = tab_walk E rest (sq + length pre) (put_dirs (eid E) pre dir) (en @ entries_of E sq pre)"
proof (induction arbitrary: rest sq dir en and rest sq dir en rule: walk_walks.inducts)
  case (walk_node a pre post)
  show ?case unfolding tab_walk_node walk_node(2) by simp
next
  case walks_nil
  show ?case by simp
next
  case (walks_cons c pre post cs pre' post')
  show ?case unfolding append_Cons walks_cons(2) walks_cons(4) by (simp add: entries_of_append add.assoc)
qed

lemma entries_of_order: "sorted_wrt (\<lambda>x y. en_order x < en_order y) (entries_of E sq xs)" "\<forall>x \<in> set (entries_of E sq xs). sq \<le> en_order x"
proof -
  show l: "\<forall>x \<in> set (entries_of E sq xs). sq \<le> en_order x" for sq xs
  proof (induction xs arbitrary: sq)
    case (Cons a xs)
    show ?case using Cons [of "sq + 1"] by (auto dest: Suc_leD)
  qed simp
  show "sorted_wrt (\<lambda>x y. en_order x < en_order y) (entries_of E sq xs)"
  proof (induction xs arbitrary: sq)
    case (Cons a xs)
    show ?case using Cons [of "sq + 1"] l [of "sq + 1" xs] by (auto simp: Suc_le_eq)
  qed simp
qed

lemma entries_of_pairs: "map (\<lambda>e. (en_id e, en_index e)) (entries_of E sq xs) = map (\<lambda>a. (eid E a, tab_index E a)) (filter (tabbable E) xs)"
  by (induction xs arbitrary: sq) simp_all

lemma tab_order_of:
  "map en_id (sort_key (\<lambda>e. (en_index e, en_order e)) (entries_of E sq xs)) = map (eid E) (sort_key (tab_index E) (filter (tabbable E) xs))"
proof -
  let ?p = "\<lambda>e. (en_id e, en_index e)" and ?q = "\<lambda>a. (eid E a, tab_index E a)"
  have s: "sort_key en_index (entries_of E sq xs) = sort_key (snd \<circ> ?p) (entries_of E sq xs)" "sort_key (snd \<circ> ?q) ys = sort_key (tab_index E) ys" for ys
    by (simp_all add: comp_def)
  have "map ?p (sort_key en_index (entries_of E sq xs)) = sort_key snd (map ?p (entries_of E sq xs))"
    unfolding s(1) by (rule sort_key_map [symmetric])
  also have "\<dots> = sort_key snd (map ?q (filter (tabbable E) xs))" by (simp only: entries_of_pairs)
  also have "\<dots> = map ?q (sort_key (tab_index E) (filter (tabbable E) xs))" unfolding sort_key_map s(2) by (rule refl)
  finally have "map fst (map ?p (sort_key en_index (entries_of E sq xs))) = map fst (map ?q (sort_key (tab_index E) (filter (tabbable E) xs)))"
    by (rule arg_cong)
  then show ?thesis by (simp add: comp_def sort_key_position [OF entries_of_order(1)])
qed

text \<open>The environment over a tree of a run.\<close>

definition env_over :: "facet_world \<Rightarrow> focus_env \<Rightarrow> bool" where
  "env_over w E \<longleftrightarrow> forest w \<and> fe_heap E = fw_heap w"

lemma env_facts:
  assumes "env_over w E"
  shows "a < length (fe_heap E) \<Longrightarrow> b < length (fe_heap E) \<Longrightarrow> eid E a = eid E b \<Longrightarrow> a = b"
    "a < length (fe_heap E) \<Longrightarrow> eid E a \<noteq> 0"
    "scope \<noteq> 0 \<Longrightarrow> a < length (fe_heap E) \<Longrightarrow> isWithinScope E a scope \<longleftrightarrow> (\<exists>p < length (fe_heap E). eid E p = scope \<and> a \<in> below w p)"
proof -
  have f: "forest w" "fe_heap E = fw_heap w" using assms by (simp_all add: env_over_def)
  show "a < length (fe_heap E) \<Longrightarrow> b < length (fe_heap E) \<Longrightarrow> eid E a = eid E b \<Longrightarrow> a = b"
    using forestD(5) [OF f(1)] f(2) nth_eq_iff_index_eq [of "map fb_id (fw_heap w)" a b] by simp
  show "a < length (fe_heap E) \<Longrightarrow> eid E a \<noteq> 0" using forestD(6) [OF f(1)] f(2) by simp
  assume s: "scope \<noteq> 0" and a: "a < length (fe_heap E)"
  have "b < length (fw_heap w)" if r: "(b, a) \<in> (edges (fw_heap w))\<^sup>*" for b
    using r
  proof (cases rule: converse_rtranclE)
    case base
    then show ?thesis using a f(2) by simp
  next
    case (step c)
    have "fb_parent (fac w c) = Some b" "c < length (fw_heap w)" using step(1) by (simp_all add: edges_def)
    then show ?thesis using forestD(1) [OF f(1)] by blast
  qed
  then have b: "b < length (fe_heap E)" if "(b, a) \<in> (edges (fw_heap w))\<^sup>*" for b using f(2) that by simp
  have "climb (fe_heap E) (\<lambda>b. eid E b = scope) (Some a) = Some (\<exists>b. (b, a) \<in> (edges (fw_heap w))\<^sup>* \<and> eid E b = scope)"
    using forest_climb [OF f(1), of a] a unfolding f(2) by blast
  then have "isWithinScope E a scope \<longleftrightarrow> (\<exists>b. (b, a) \<in> (edges (fw_heap w))\<^sup>* \<and> eid E b = scope)"
    using s unfolding isWithinScope_def by (simp only: option.inject simp_thms)
  then show "isWithinScope E a scope \<longleftrightarrow> (\<exists>p < length (fe_heap E). eid E p = scope \<and> a \<in> below w p)"
    using b unfolding below_def mem_Collect_eq by blast
qed


lemma rebuild_spec:
  assumes "env_over w E" "a < length (fe_heap E)"
  obtains pre post where "walk (kids w) a pre post" "set pre = below w a" "distinct pre"
    "RebuildTabOrder E (Some a) m = Some (refocus E (m\<lparr>fm_tabOrder := map (eid E) (sort_key (tab_index E) (filter (tabbable E) pre)),
       fm_byID := put_dirs (eid E) pre (\<lambda>_. None), fm_RebuildCount := fm_RebuildCount m + 1\<rparr>))"
proof -
  have f: "forest w" "fe_heap E = fw_heap w" using assms(1) by (simp_all add: env_over_def)
  obtain pre post where W: "walk (kids w) a pre post" "set pre = below w a" "distinct pre" using forest_walk [OF f(1), of a] assms(2) f(2) by metis
  have "walk (ekids E) a pre post" using W(1) f(2) by simp
  then have t: "tab_walk E [a] 0 (\<lambda>_. None) [] = Some (put_dirs (eid E) pre (\<lambda>_. None), entries_of E 0 pre)"
    by (simp add: tab_walk_walk(1) tab_walk.simps [of E "[]"])
  have "RebuildTabOrder E (Some a) m = Some (refocus E (m\<lparr>fm_tabOrder := map (eid E) (sort_key (tab_index E) (filter (tabbable E) pre)),
       fm_byID := put_dirs (eid E) pre (\<lambda>_. None), fm_RebuildCount := fm_RebuildCount m + 1\<rparr>))"
    by (cases m) (simp add: RebuildTabOrder_def Let_def t tab_order_of)
  then show ?thesis using that W by blast
qed

lemma tabbable_focusable: "tabbable E a \<Longrightarrow> isFocusable E (Some a)"
  by (simp add: tabbable_def isFocusable_def split: option.splits)

lemma refocus_simps [simp]: "fm_tabOrder (refocus E m) = fm_tabOrder m" "fm_byID (refocus E m) = fm_byID m" "fm_traps (refocus E m) = fm_traps m"
  by (auto simp: refocus_def ClearFocus_def split: option.split)

lemma refocus_ok:
  assumes "dir_ok E m" "fm_focused m = 0 \<longrightarrow> fm_focusedImpl m = None"
  shows "dir_ok E (refocus E m) \<and> held E (refocus E m)"
proof (cases "fm_focused m = 0 \<or> fm_byID m (fm_focused m) = None")
  case True
  then show ?thesis using assms by (auto simp: refocus_def dir_ok_def held_def)
next
  case False
  then obtain a where a: "fm_byID m (fm_focused m) = Some a" by blast
  have "isAllowedInActiveTraps E (m\<lparr>fm_focusedImpl := Some a\<rparr>) a = isAllowedInActiveTraps E m a" by (simp add: isAllowedInActiveTraps_def)
  then show ?thesis
    using False a ClearFocus_ok [OF assms(1)] assms(1) dir_okD [OF assms(1) a] by (simp add: refocus_def held_def dir_ok_def canFocus_def)
qed

lemma rebuild_dir:
  assumes "env_over w E" "set pre \<subseteq> {..< length (fe_heap E)}" "distinct pre"
  shows "dir_ok E (m\<lparr>fm_tabOrder := map (eid E) (sort_key (tab_index E) (filter (tabbable E) pre)),
       fm_byID := put_dirs (eid E) pre (\<lambda>_. None), fm_RebuildCount := c\<rparr>)"
proof -
  have inj: "inj_on (eid E) (set pre)" using env_facts(1) [OF assms(1)] assms(2) by (intro inj_onI) (auto simp: subset_iff)
  have d: "a < length (fe_heap E) \<and> eid E a = i" if "put_dirs (eid E) pre (\<lambda>_. None) i = Some a" for i a
  proof (cases "i \<in> eid E ` set pre")
    case True
    then show ?thesis using put_dirs_one [OF inj] that assms(2) by auto
  next
    case False
    then show ?thesis using that by (simp add: put_dirs_other)
  qed
  have "distinct (map (eid E) (sort_key (tab_index E) (filter (tabbable E) pre)))"
    using inj assms(3) by (simp add: distinct_map inj_on_def)
  moreover have "i \<noteq> 0 \<and> put_dirs (eid E) pre (\<lambda>_. None) i \<noteq> None \<and> isFocusable E (put_dirs (eid E) pre (\<lambda>_. None) i)"
    if "i \<in> set (map (eid E) (sort_key (tab_index E) (filter (tabbable E) pre)))" for i
    using that put_dirs_one [OF inj] tabbable_focusable env_facts(2) [OF assms(1)] assms(2) by (auto simp: subset_iff)
  ultimately show ?thesis using d by (simp add: dir_ok_def)
qed

lemma rebuild_ok:
  assumes "env_over w E" "a < length (fe_heap E)" "RebuildTabOrder E (Some a) m = Some m'" "fm_focused m = 0 \<longrightarrow> fm_focusedImpl m = None"
  shows "dir_ok E m' \<and> held E m'"
proof -
  obtain pre post where r: "set pre = below w a" "distinct pre"
    "RebuildTabOrder E (Some a) m = Some (refocus E (m\<lparr>fm_tabOrder := map (eid E) (sort_key (tab_index E) (filter (tabbable E) pre)),
       fm_byID := put_dirs (eid E) pre (\<lambda>_. None), fm_RebuildCount := fm_RebuildCount m + 1\<rparr>))"
    using rebuild_spec [OF assms(1,2)] by metis
  have "set pre \<subseteq> {..< length (fe_heap E)}" using below_less [of w a] assms(1,2) r(1) by (auto simp: env_over_def)
  note d = rebuild_dir [OF assms(1) this r(2)]
  show ?thesis using refocus_ok [OF d] assms(3,4) r(3) by auto
qed

section \<open>Runs\<close>

text \<open>The calls of a runtime on one tree, whose facets and roles stay as they are.\<close>

inductive focus_step :: "focus_env \<Rightarrow> FocusManager \<Rightarrow> FocusManager \<Rightarrow> bool" for E where
  set_focus: "(\<And>a. t = Some a \<Longrightarrow> a < length (fe_heap E)) \<Longrightarrow> focus_step E m (snd (SetFocus E t m))"
| clear_focus: "focus_step E m (ClearFocus E m)"
| sync_traps: "focus_step E m (SyncFocusTraps E ts m)"
| sync_layers: "focus_step E m (syncFocusTraps E reg layers m)"
| tab_next: "focus_step E m (TabNext E m)"
| tab_prev: "focus_step E m (TabPrev E m)"
| rebuild: "(\<And>a. root = Some a \<Longrightarrow> a < length (fe_heap E)) \<Longrightarrow> RebuildTabOrder E root m = Some m' \<Longrightarrow> focus_step E m m'"
| reset: "focus_step E m (Reset_focus m)"

lemma focusByID_ok: "dir_ok E m \<Longrightarrow> held E m \<Longrightarrow> dir_ok E (focusByID E i m) \<and> held E (focusByID E i m)"
  using SetFocus_ok [of "fm_byID m i" E m] dir_okD [of E m i] by (auto simp: focusByID_def split: option.split)

lemma focus_step_ok:
  assumes "focus_step E m m'" "env_over w E" "dir_ok E m" "held E m"
  shows "dir_ok E m' \<and> held E m'"
  using assms(1)
proof cases
  case (set_focus t)
  then show ?thesis using SetFocus_ok [OF _ assms(3,4)] by simp
next
  case clear_focus
  then show ?thesis using ClearFocus_ok [OF assms(3)] by simp
next
  case (sync_traps ts)
  then show ?thesis using SyncFocusTraps_ok [OF assms(3,4)] by simp
next
  case (sync_layers reg layers)
  then show ?thesis using SyncFocusTraps_ok [OF assms(3,4)] by (simp add: syncFocusTraps_def split: option.split)
next
  case tab_next
  then show ?thesis using focusByID_ok [OF assms(3,4)] assms(3,4) by (simp add: TabNext_def Let_def split: option.split)
next
  case tab_prev
  then show ?thesis using focusByID_ok [OF assms(3,4)] assms(3,4) by (simp add: TabPrev_def Let_def split: option.split)
next
  case (rebuild root)
  have n: "fm_focused m = 0 \<longrightarrow> fm_focusedImpl m = None"
    using assms(4) env_facts(2) [OF assms(2)] by (auto simp: held_def split: option.splits)
  show ?thesis
  proof (cases root)
    case None
    then show ?thesis using rebuild by (auto simp: RebuildTabOrder_def dir_ok_def held_def)
  next
    case (Some a)
    then show ?thesis using rebuild_ok [OF assms(2) _ _ n] rebuild by blast
  qed
next
  case reset
  then show ?thesis by (simp add: Reset_focus_def dir_ok_def held_def)
qed

lemma focus_run_ok: "(focus_step E)\<^sup>*\<^sup>* NewFocusManager m \<Longrightarrow> env_over w E \<Longrightarrow> dir_ok E m \<and> held E m"
proof (induction rule: rtranclp_induct)
  case base
  show ?case by (simp add: NewFocusManager_def dir_ok_def held_def)
next
  case (step y z)
  then show ?case using focus_step_ok by blast
qed

lemma run_env: "facet_step\<^sup>*\<^sup>* no_facets w \<Longrightarrow> fe_heap E = fw_heap w \<Longrightarrow> env_over w E"
  using facet_run_forest by (simp add: env_over_def)

section \<open>Properties\<close>

text \<open>The sample tree with three focusable facets, the second child first in the tab order.\<close>

definition sample_env :: focus_env where
  "sample_env = \<lparr>fe_heap = fw_heap sample_tree, fe_role = (\<lambda>a. if a = 0 then None else
     Some \<lparr>fr_focusable = None, fr_tabIndex = (if a = 2 then 0 else 1), fr_OnFocusGained = True, fr_OnFocusLost = True\<rparr>)\<rparr>"

definition sample_tabs :: FocusManager where
  "sample_tabs = the (RebuildTabOrder sample_env (Some 0) NewFocusManager)"

definition sample_focus :: FocusManager where
  "sample_focus = snd (SetFocus sample_env (Some 3) sample_tabs)"

lemma sample_env_heap: "fe_heap sample_env = fw_heap sample_tree" "length (fe_heap sample_env) = 4"
  using sample_tree_facts(1) by (simp_all add: sample_env_def)

lemma sample_focus_run: "(focus_step sample_env)\<^sup>*\<^sup>* NewFocusManager sample_focus"
proof -
  have "RebuildTabOrder sample_env (Some 0) NewFocusManager \<noteq> None"
    by (rule rebuild_spec [OF run_env [OF sample_tree_run sample_env_heap(1)], of 0 NewFocusManager]) (simp_all add: sample_env_heap(2))
  then have r: "RebuildTabOrder sample_env (Some 0) NewFocusManager = Some sample_tabs" by (auto simp: sample_tabs_def)
  have 1: "focus_step sample_env NewFocusManager sample_tabs" by (rule rebuild [OF _ r]) (simp add: sample_env_heap(2))
  have 2: "focus_step sample_env sample_tabs sample_focus" unfolding sample_focus_def by (rule set_focus) (simp add: sample_env_heap(2))
  show ?thesis using 1 2 by (rule rtranclp.rtrancl_into_rtrancl [OF r_into_rtranclp])
qed

lemma sample_kids: "kids sample_tree 0 = [1, 2]"
proof -
  have "map fb_children (fw_heap sample_tree) ! 0 = [1, 2]" unfolding sample_tree_facts(3) by simp
  then show ?thesis using sample_tree_facts(1) by (subst (asm) nth_map) simp_all
qed

lemma sample_ids: "map fb_id (fe_heap sample_env) = [1, 2, 3, 4]"
  by code_simp

lemma sample_focus_facts:
  "fm_focused sample_focus = 4" "filteredTabOrder sample_env sample_focus = [3, 2, 4]" "fm_traps sample_focus = []"
  by code_simp+

lemma held_cases:
  assumes "env_over w E" "held E m" "\<forall>t \<in> set (fm_traps m). tf_scope t \<noteq> 0"
  shows "fm_focused m = 0 \<and> fm_focusedImpl m = None \<or>
    (\<exists>a < length (fe_heap E). fm_focusedImpl m = Some a \<and> fm_focused m = eid E a \<and> isFocusable E (Some a) \<and>
       (\<forall>t \<in> set (fm_traps m). \<exists>p < length (fe_heap E). eid E p = tf_scope t \<and> a \<in> below w p))"
proof (cases "fm_focusedImpl m")
  case None
  then show ?thesis using assms(2) by (simp add: held_def)
next
  case (Some a)
  then have a: "a < length (fe_heap E)" "fm_focused m = eid E a" "canFocus E m (Some a)" using assms(2) by (simp_all add: held_def)
  have "\<exists>p < length (fe_heap E). eid E p = tf_scope t \<and> a \<in> below w p" if "t \<in> set (fm_traps m)" for t
    using a(3) that env_facts(3) [OF assms(1) _ a(1), of "tf_scope t"] assms(3) by (simp add: canFocus_def isAllowedInActiveTraps_def list_all_iff)
  then show ?thesis using Some a by (auto simp: canFocus_def)
qed


lemma normalize_id:
  "distinct (map ts_Scope ts) \<Longrightarrow> 0 \<notin> ts_Scope ` set ts \<Longrightarrow> set seen \<inter> ts_Scope ` set ts = {} \<Longrightarrow>
     normalize_traps ts seen = map (\<lambda>t. \<lparr>tf_scope = ts_Scope t, tf_restore = ts_Restore t, tf_restoreID = 0\<rparr>) ts"
  by (induction ts seen rule: normalize_traps.induct) auto

lemma run_traps:
  "(focus_step E)\<^sup>*\<^sup>* NewFocusManager m \<Longrightarrow> distinct (map tf_scope (fm_traps m)) \<and> 0 \<notin> tf_scope ` set (fm_traps m)"
proof (induction rule: rtranclp_induct)
  case base
  show ?case by (simp add: NewFocusManager_def)
next
  case (step y z)
  have s: "map tf_scope (fm_traps (SyncFocusTraps E ts y)) = map tf_scope (normalize_traps ts [])" for ts
    using arg_cong [OF SyncFocusTraps_traps [of E ts y], of "map fst"] by (simp add: comp_def)
  have S: "distinct (map tf_scope (fm_traps (SyncFocusTraps E ts y))) \<and> 0 \<notin> set (map tf_scope (fm_traps (SyncFocusTraps E ts y)))" for ts
    unfolding s using normalize_traps_set [of ts "[]"] by simp
  show ?case using step(2)
  proof cases
    case (sync_traps ts)
    then show ?thesis using S [of ts] by simp
  next
    case (sync_layers reg layers)
    then show ?thesis using S by (simp add: syncFocusTraps_def split: option.split)
  next
    case (rebuild root)
    then have "fm_traps z = fm_traps y"
      by (auto simp: RebuildTabOrder_def Let_def split: option.splits)
    then show ?thesis using step(3) by simp
  qed (use step(3) in \<open>simp_all add: TabNext_def TabPrev_def Let_def Reset_focus_def split: option.split\<close>)
qed



end
