(* ===== verification/Focus_Tabs.thy ===== *)
theory Focus_Tabs
  imports Focus
begin

text \<open>
  The tab order of the focus manager (\<^verbatim>\<open>RebuildTabOrder\<close>, \<^verbatim>\<open>TabNext\<close> and \<^verbatim>\<open>TabPrev\<close> of
  \<^verbatim>\<open>src/facet/focus.go\<close>): what a rebuild lists, and how the keys walk around it.
\<close>

section \<open>The tab keys\<close>




lemma focusByID_to:
  assumes "dir_ok E m" "fm_byID m i = Some a" "canFocus E m (Some a)" "i \<noteq> 0"
  shows "fm_focused (focusByID E i m) = i" "fm_byID (focusByID E i m) = fm_byID m"
proof -
  have a: "a < length (fe_heap E)" "eid E a = i" using dir_okD [OF assms(1,2)] by simp_all
  have "focusByID E i m = snd (SetFocus E (Some a) m)" using assms(2,4) by (simp add: focusByID_def)
  moreover have "fm_byID (snd (SetFocus E (Some a) m)) = fm_byID m"
    using assms(2) a(2) by (auto simp: SetFocus_def take_focus_def fun_upd_idem)
  ultimately show "fm_focused (focusByID E i m) = i" "fm_byID (focusByID E i m) = fm_byID m"
    using SetFocus_cases(2) [OF a(1) assms(1,3)] a(2) by simp_all
qed

lemma filteredTabOrder_cong:
  "fm_traps m' = fm_traps m \<Longrightarrow> fm_tabOrder m' = fm_tabOrder m \<Longrightarrow> fm_byID m' = fm_byID m \<Longrightarrow> filteredTabOrder E m' = filteredTabOrder E m"
proof -
  assume t: "fm_traps m' = fm_traps m" "fm_tabOrder m' = fm_tabOrder m" "fm_byID m' = fm_byID m"
  have "isAllowedInActiveTraps E m' a = isAllowedInActiveTraps E m a" for a by (simp add: isAllowedInActiveTraps_def t)
  then have "isAllowedInActiveTrapsByID E m' i = isAllowedInActiveTrapsByID E m i" for i
    by (simp add: isAllowedInActiveTrapsByID_def t(3) split: option.split)
  then show ?thesis by (simp add: filteredTabOrder_def t cong: filter_cong)
qed

lemma filtered_focusable:
  assumes "dir_ok E m" "i \<in> set (filteredTabOrder E m)"
  obtains a where "fm_byID m i = Some a" "canFocus E m (Some a)" "i \<noteq> 0"
proof -
  have t: "i \<in> set (fm_tabOrder m)" using assms(2) by (auto simp: filteredTabOrder_def split: if_splits)
  then obtain a where a: "i \<noteq> 0" "fm_byID m i = Some a" "isFocusable E (Some a)" using assms(1) by (auto simp: dir_ok_def)
  have "isAllowedInActiveTraps E m a"
    using assms(2) a(2) by (auto simp: filteredTabOrder_def isAllowedInActiveTrapsByID_def isAllowedInActiveTraps_def split: if_splits)
  then show ?thesis using that [OF a(2)] a by (simp add: canFocus_def)
qed

lemma filtered_distinct: "dir_ok E m \<Longrightarrow> distinct (filteredTabOrder E m)"
  by (simp add: filteredTabOrder_def dir_ok_def)

lemma indexOf_nth:
  assumes "distinct order" "i < length order" "fm_focused m = order ! i" "order ! i \<noteq> 0"
  shows "indexOfFocused m order = Some i"
proof -
  have "find_index (\<lambda>j. j = order ! i) order = Some i"
    using assms(1,2)
  proof (induction order arbitrary: i)
    case (Cons x xs)
    then show ?case by (cases i) auto
  qed simp
  then show ?thesis using assms(3,4) by (simp add: indexOfFocused_def)
qed

text \<open>One key press moves to a facet of the order and leaves the order alone.\<close>

lemma tab_to:
  assumes "dir_ok E m" "held E m" "j < length (filteredTabOrder E m)"
  shows "fm_focused (focusByID E (filteredTabOrder E m ! j) m) = filteredTabOrder E m ! j"
    "filteredTabOrder E (focusByID E (filteredTabOrder E m ! j) m) = filteredTabOrder E m"
    "dir_ok E (focusByID E (filteredTabOrder E m ! j) m) \<and> held E (focusByID E (filteredTabOrder E m ! j) m)"
proof -
  obtain a where a: "fm_byID m (filteredTabOrder E m ! j) = Some a" "canFocus E m (Some a)" "filteredTabOrder E m ! j \<noteq> 0"
    using filtered_focusable [OF assms(1) nth_mem [OF assms(3)]] by blast
  note F = focusByID_to [OF assms(1) a]
  show "fm_focused (focusByID E (filteredTabOrder E m ! j) m) = filteredTabOrder E m ! j" by (rule F(1))
  show "filteredTabOrder E (focusByID E (filteredTabOrder E m ! j) m) = filteredTabOrder E m"
    by (rule filteredTabOrder_cong) (simp_all add: F(2))
  show "dir_ok E (focusByID E (filteredTabOrder E m ! j) m) \<and> held E (focusByID E (filteredTabOrder E m ! j) m)"
    by (rule focusByID_ok [OF assms(1,2)])
qed

lemma tab_step:
  assumes "dir_ok E m" "held E m" "i < length (filteredTabOrder E m)" "fm_focused m = filteredTabOrder E m ! i"
  shows "TabNext E m = focusByID E (filteredTabOrder E m ! ((i + 1) mod length (filteredTabOrder E m))) m"
    "TabPrev E m = focusByID E (filteredTabOrder E m ! ((i + length (filteredTabOrder E m) - 1) mod length (filteredTabOrder E m))) m"
proof -
  have "filteredTabOrder E m \<noteq> []" using assms(3) by auto
  moreover then have "fm_tabOrder m \<noteq> []" by (auto simp: filteredTabOrder_def split: if_splits)
  moreover have "indexOfFocused m (filteredTabOrder E m) = Some i"
    using indexOf_nth [OF filtered_distinct [OF assms(1)] assms(3,4)] filtered_focusable [OF assms(1) nth_mem [OF assms(3)]] by metis
  ultimately show "TabNext E m = focusByID E (filteredTabOrder E m ! ((i + 1) mod length (filteredTabOrder E m))) m"
    "TabPrev E m = focusByID E (filteredTabOrder E m ! ((i + length (filteredTabOrder E m) - 1) mod length (filteredTabOrder E m))) m"
    by (simp_all add: TabNext_def TabPrev_def Let_def)
qed

lemma tab_iterate:
  assumes "dir_ok E m" "held E m" "i < length (filteredTabOrder E m)" "fm_focused m = filteredTabOrder E m ! i"
  shows "fm_focused ((TabNext E ^^ k) m) = filteredTabOrder E m ! ((i + k) mod length (filteredTabOrder E m)) \<and>
    filteredTabOrder E ((TabNext E ^^ k) m) = filteredTabOrder E m \<and> dir_ok E ((TabNext E ^^ k) m) \<and> held E ((TabNext E ^^ k) m)"
proof (induction k)
  case 0
  then show ?case using assms by simp
next
  case (Suc k)
  let ?m = "(TabNext E ^^ k) m" and ?o = "filteredTabOrder E m"
  have o: "?o \<noteq> []" using assms(3) by auto
  have l: "(i + k) mod length ?o < length (filteredTabOrder E ?m)" "fm_focused ?m = filteredTabOrder E ?m ! ((i + k) mod length ?o)"
    using Suc o by simp_all
  have s: "TabNext E ?m = focusByID E (filteredTabOrder E ?m ! (((i + k) mod length ?o + 1) mod length (filteredTabOrder E ?m))) ?m"
    using tab_step(1) [OF _ _ l] Suc by blast
  have j: "((i + k) mod length ?o + 1) mod length (filteredTabOrder E ?m) < length (filteredTabOrder E ?m)" using Suc o by simp
  show ?case using tab_to [OF _ _ j] Suc by (simp add: s mod_Suc_eq)
qed

lemma tab_back:
  assumes "dir_ok E m" "held E m" "i < length (filteredTabOrder E m)" "fm_focused m = filteredTabOrder E m ! i"
  shows "fm_focused (TabPrev E m) = filteredTabOrder E m ! ((i + length (filteredTabOrder E m) - 1) mod length (filteredTabOrder E m)) \<and>
    filteredTabOrder E (TabPrev E m) = filteredTabOrder E m \<and> dir_ok E (TabPrev E m) \<and> held E (TabPrev E m)"
proof -
  have "(i + length (filteredTabOrder E m) - 1) mod length (filteredTabOrder E m) < length (filteredTabOrder E m)"
    using assms(3) by (intro mod_less_divisor) linarith
  then show ?thesis using tab_to [OF assms(1,2)] unfolding tab_step(2) [OF assms] by blast
qed

lemma tab_back_iterate:
  assumes "dir_ok E m" "held E m" "i < length (filteredTabOrder E m)" "fm_focused m = filteredTabOrder E m ! ((i + k) mod length (filteredTabOrder E m))"
  shows "fm_focused ((TabPrev E ^^ k) m) = filteredTabOrder E m ! i"
  using assms
proof (induction k arbitrary: m)
  case 0
  then show ?case by simp
next
  case (Suc k)
  let ?n = "length (filteredTabOrder E m)"
  have "(i + Suc k) mod ?n < ?n" using Suc(4) by (intro mod_less_divisor) linarith
  note b = tab_back [OF Suc(2,3) this Suc(5)]
  have "((i + Suc k) mod ?n + ?n - 1) mod ?n = (i + k) mod ?n"
  proof -
    have "((i + Suc k) mod ?n + ?n - 1) mod ?n = ((i + Suc k) mod ?n + (?n - 1)) mod ?n" using Suc(4) by (simp add: Nat.add_diff_assoc)
    also have "\<dots> = (i + Suc k + (?n - 1)) mod ?n" by (rule mod_add_left_eq)
    also have "i + Suc k + (?n - 1) = i + k + ?n" using Suc(4) by simp
    finally show ?thesis by simp
  qed
  then have "fm_focused ((TabPrev E ^^ k) (TabPrev E m)) = filteredTabOrder E m ! i"
    using Suc(1) [of "TabPrev E m"] b Suc(4) by simp
  then show ?case by (simp add: funpow_swap1)
qed

text \<open>
  C33: The tab keys walk around the tab order. In every run, from a facet of the order that the
  traps admit, pressing tab \<open>k\<close> times moves \<open>k\<close> places along the order, around its end, and
  pressing the reverse key as often returns to where it was.
\<close>

theorem tab_keys_cycle:
  assumes "facet_step\<^sup>*\<^sup>* no_facets w" and "fe_heap E = fw_heap w" and "(focus_step E)\<^sup>*\<^sup>* NewFocusManager m"
    and "i < length (filteredTabOrder E m)" and "fm_focused m = filteredTabOrder E m ! i"
  shows "fm_focused ((TabNext E ^^ k) m) = filteredTabOrder E m ! ((i + k) mod length (filteredTabOrder E m)) \<and>
    fm_focused ((TabPrev E ^^ k) ((TabNext E ^^ k) m)) = fm_focused m"
proof -
  have ok: "dir_ok E m" "held E m" using focus_run_ok [OF assms(3) run_env [OF assms(1,2)]] by simp_all
  note I = tab_iterate [OF ok assms(4,5), of k]
  have "fm_focused ((TabPrev E ^^ k) ((TabNext E ^^ k) m)) = filteredTabOrder E m ! i"
    using tab_back_iterate [of E "(TabNext E ^^ k) m" i k] I assms(4) by simp
  then show ?thesis using I assms(5) by simp
qed

theorem tab_keys_cycle_witness:
  "fm_focused ((TabNext sample_env ^^ 4) sample_focus) = 3 \<and>
   fm_focused ((TabPrev sample_env ^^ 4) ((TabNext sample_env ^^ 4) sample_focus)) = 4"
  using tab_keys_cycle [OF sample_tree_run sample_env_heap(1) sample_focus_run, of 2 4] sample_focus_facts by simp

end
