(* ===== verification/Focus_Traps.thy ===== *)
theory Focus_Traps
  imports Focus
begin

text \<open>
  The trap stack of the focus manager (\<^verbatim>\<open>SyncFocusTraps\<close> of \<^verbatim>\<open>src/facet/focus.go\<close> and
  \<^verbatim>\<open>syncFocusTraps\<close> of \<^verbatim>\<open>src/runtime/focus.go\<close>): closing a trap gives the focus back, separate traps lock it
  out, and the stack of the runtime does not depend on the order of a map.
\<close>

section \<open>Opening and closing a trap\<close>

definition trap_states :: "FocusManager \<Rightarrow> FocusTrapState list" where
  "trap_states m = map (\<lambda>f. \<lparr>ts_Scope = tf_scope f, ts_Restore = tf_restore f\<rparr>) (fm_traps m)"

definition bare_frame :: "FocusTrapState \<Rightarrow> focusTrapFrame" where
  "bare_frame t = \<lparr>tf_scope = ts_Scope t, tf_restore = ts_Restore t, tf_restoreID = 0\<rparr>"

lemma common_traps_append:
  "map tf_scope fs = map tf_scope fs' \<Longrightarrow> gs = [] \<or> hs = [] \<Longrightarrow> common_traps (fs @ gs) (fs' @ hs) = length fs"
proof (induction fs arbitrary: fs')
  case Nil
  then show ?case by (cases gs; cases hs) auto
next
  case (Cons f fs)
  then obtain g gs' where "fs' = g # gs'" by (cases fs') auto
  then show ?case using Cons by simp
qed

lemma keep_common_same:
  assumes "map (\<lambda>f. (tf_scope f, tf_restore f)) fs = map (\<lambda>f. (tf_scope f, tf_restore f)) fs'" "gs = [] \<or> hs = []"
  shows "keep_common (fs @ gs) (fs' @ hs) = fs @ gs"
proof -
  have s: "map tf_scope fs = map tf_scope fs'" "map tf_restore fs = map tf_restore fs'" "length fs = length fs'"
    using arg_cong [OF assms(1), of "map fst"] arg_cong [OF assms(1), of "map snd"] arg_cong [OF assms(1), of length] by (simp_all add: comp_def)
  have "map (\<lambda>(f, g). f\<lparr>tf_restore := tf_restore g\<rparr>) (zip fs fs') = fs"
    using s(2,3)
  proof (induction fs fs' rule: list_induct2')
    case (4 f fs g gs)
    have "f\<lparr>tf_restore := tf_restore f\<rparr> = f" by simp
    then show ?case using 4 by simp
  qed simp_all
  then show ?thesis using common_traps_append [OF s(1) assms(2)] s(3) by (simp add: keep_common_def Let_def)
qed

lemma popTo_here: "length (fm_traps m) \<le> k \<Longrightarrow> popTo E k m = m"
  by (subst popTo.simps) simp

text \<open>Pushing one more scope, and going back to the stack as it was.\<close>

lemma sync_push:
  assumes "distinct (map tf_scope (fm_traps m))" "0 \<notin> tf_scope ` set (fm_traps m)" "ts_Scope t \<noteq> 0" "ts_Scope t \<notin> tf_scope ` set (fm_traps m)"
  shows "SyncFocusTraps E (trap_states m @ [t]) m = pushTrap E (bare_frame t) m"
proof -
  have n: "normalize_traps (trap_states m @ [t]) [] = map bare_frame (trap_states m) @ [bare_frame t]"
    using assms by (subst normalize_id) (auto simp: trap_states_def bare_frame_def image_image comp_def)
  have p: "map (\<lambda>f. (tf_scope f, tf_restore f)) (fm_traps m) = map (\<lambda>f. (tf_scope f, tf_restore f)) (map bare_frame (trap_states m))"
    by (simp add: trap_states_def bare_frame_def comp_def)
  have s: "map tf_scope (fm_traps m) = map tf_scope (map bare_frame (trap_states m))" using arg_cong [OF p, of "map fst"] by (simp add: comp_def)
  have k: "common_traps (fm_traps m) (map bare_frame (trap_states m) @ [bare_frame t]) = length (fm_traps m)"
    using common_traps_append [OF s, of "[]" "[bare_frame t]"] by simp
  have K: "keep_common (fm_traps m) (map bare_frame (trap_states m) @ [bare_frame t]) = fm_traps m"
    using keep_common_same [OF p, of "[]" "[bare_frame t]"] by simp
  have "length (map bare_frame (trap_states m)) = length (fm_traps m)" by (simp add: trap_states_def)
  then show ?thesis by (simp add: SyncFocusTraps_def Let_def n k K popTo_here)
qed

lemma sync_pop:
  assumes "distinct (map tf_scope fs)" "0 \<notin> tf_scope ` set fs" "fm_traps m = fs @ [g]"
  shows "SyncFocusTraps E (map (\<lambda>f. \<lparr>ts_Scope = tf_scope f, ts_Restore = tf_restore f\<rparr>) fs) m = popTrap E m"
proof -
  let ?ts = "map (\<lambda>f. \<lparr>ts_Scope = tf_scope f, ts_Restore = tf_restore f\<rparr>) fs"
  have n: "normalize_traps ?ts [] = map bare_frame ?ts"
    using assms(1,2) by (subst normalize_id) (auto simp: bare_frame_def image_image comp_def)
  have p: "map (\<lambda>f. (tf_scope f, tf_restore f)) fs = map (\<lambda>f. (tf_scope f, tf_restore f)) (map bare_frame ?ts)"
    by (simp add: bare_frame_def comp_def)
  have s: "map tf_scope fs = map tf_scope (map bare_frame ?ts)" using arg_cong [OF p, of "map fst"] by (simp add: comp_def)
  have k: "common_traps (fs @ [g]) (map bare_frame ?ts) = length fs" using common_traps_append [OF s, of "[g]" "[]"] by simp
  have K: "keep_common (fs @ [g]) (map bare_frame ?ts) = fs @ [g]" using keep_common_same [OF p, of "[g]" "[]"] by simp
  have "m\<lparr>fm_traps := fs @ [g]\<rparr> = m" using assms(3) by simp
  moreover have "drop (length fs) (map bare_frame ?ts) = []" by simp
  ultimately have "SyncFocusTraps E ?ts m = popTo E (length fs) m"
    unfolding SyncFocusTraps_def Let_def n assms(3) k K by (simp del: map_map)
  also have "\<dots> = popTrap E m" by (subst popTo.simps) (simp add: assms(3) popTo_here)
  finally show ?thesis .
qed

lemma pushTrap_keeps_dir:
  assumes "dir_ok E m" "fm_byID m i = Some a" "env_over w E"
  shows "fm_byID (pushTrap E f m) i = Some a"
proof -
  have S: "fm_byID (snd (SetFocus E t m')) i = Some a" if "dir_ok E m'" "fm_byID m' i = Some a" "\<And>b. t = Some b \<Longrightarrow> b < length (fe_heap E)" for t m'
    using that dir_okD [OF that(1,2)] env_facts(1) [OF assms(3)] by (auto simp: SetFocus_def take_focus_def ClearFocus_def split: option.split)
  have F: "fm_byID (focus_first E m') i = Some a" if "dir_ok E m'" "fm_byID m' i = Some a" for m'
    using S [OF that] that firstFocusable_Some(2) [OF _ that(1)] by (auto simp: focus_first_def ClearFocus_def split: option.split)
  show ?thesis
    using assms(2) F [of "m\<lparr>fm_traps := fm_traps m @ [f\<lparr>tf_restoreID := fm_focused m\<rparr>]\<rparr>"] assms(1) by (simp add: pushTrap_def Let_def dir_ok_traps)
qed

text \<open>
  C34: Closing a trap gives the focus back. In every run in which some facet has focus, adding one
  scope with the mode \<open>FocusRestorePrevious\<close> to the stack and then taking it off again leaves the
  scopes and the focus as they were, wherever the focus went in between.
\<close>

theorem trap_gives_focus_back:
  assumes "facet_step\<^sup>*\<^sup>* no_facets w" and "fe_heap E = fw_heap w" and "(focus_step E)\<^sup>*\<^sup>* NewFocusManager m" and "fm_focused m \<noteq> 0"
    and "scope \<noteq> 0" and "scope \<notin> tf_scope ` set (fm_traps m)"
  shows "fm_focused (SyncFocusTraps E (trap_states m) (SyncFocusTraps E (trap_states m @ [\<lparr>ts_Scope = scope, ts_Restore = FocusRestorePrevious\<rparr>]) m)) = fm_focused m \<and>
    fm_traps (SyncFocusTraps E (trap_states m) (SyncFocusTraps E (trap_states m @ [\<lparr>ts_Scope = scope, ts_Restore = FocusRestorePrevious\<rparr>]) m)) = fm_traps m"
proof -
  let ?t = "\<lparr>ts_Scope = scope, ts_Restore = FocusRestorePrevious\<rparr>"
  let ?m1 = "pushTrap E (bare_frame ?t) m"
  have e: "env_over w E" by (rule run_env [OF assms(1,2)])
  have ok: "dir_ok E m" "held E m" using focus_run_ok [OF assms(3) e] by simp_all
  have t: "distinct (map tf_scope (fm_traps m))" "0 \<notin> tf_scope ` set (fm_traps m)" using run_traps [OF assms(3)] by simp_all
  obtain a where a: "fm_focusedImpl m = Some a" "a < length (fe_heap E)" "fm_focused m = eid E a" "fm_byID m (eid E a) \<noteq> None" "canFocus E m (Some a)"
    using ok(2) assms(4) by (auto simp: held_def split: option.splits)
  have d: "fm_byID m (eid E a) = Some a" using a(2,4) dir_okD [OF ok(1)] env_facts(1) [OF e] by blast
  have 1: "SyncFocusTraps E (trap_states m @ [?t]) m = ?m1" by (rule sync_push [OF t]) (use assms(5,6) in simp_all)
  have tr: "fm_traps ?m1 = fm_traps m @ [(bare_frame ?t)\<lparr>tf_restoreID := fm_focused m\<rparr>]"
    using assms(5) by (simp add: pushTrap_def Let_def bare_frame_def)
  have 2: "SyncFocusTraps E (trap_states m) ?m1 = popTrap E ?m1"
    unfolding trap_states_def by (rule sync_pop [OF t tr])
  let ?m2 = "?m1\<lparr>fm_traps := fm_traps m\<rparr>"
  have d1: "dir_ok E ?m2" using pushTrap_ok [OF ok] by (simp add: dir_ok_traps)
  have b: "fm_byID ?m2 (eid E a) = Some a" using pushTrap_keeps_dir [OF ok(1) d e] by simp
  have c: "canFocus E ?m2 (Some a)" using canFocus_scopes [of ?m2 m] a(5) by simp
  have "popTrap E ?m1 = restore_focus E (eid E a) ?m2" using tr a(3) by (simp add: popTrap_def Let_def bare_frame_def)
  also have "\<dots> = snd (SetFocus E (Some a) ?m2)" using b c env_facts(2) [OF e a(2)] by (simp add: restore_focus_def)
  finally have p: "popTrap E ?m1 = snd (SetFocus E (Some a) ?m2)" .
  show ?thesis unfolding 1 2 using SetFocus_cases(2) [OF a(2) d1 c] a(3) by (simp add: p)
qed

text \<open>A trap at the second child takes the focus; when it closes, the grandchild has it again.\<close>

theorem trap_gives_focus_back_witness:
  "fm_focused (SyncFocusTraps sample_env [\<lparr>ts_Scope = 3, ts_Restore = FocusRestorePrevious\<rparr>] sample_focus) = 3 \<and>
   fm_focused (SyncFocusTraps sample_env [] (SyncFocusTraps sample_env [\<lparr>ts_Scope = 3, ts_Restore = FocusRestorePrevious\<rparr>] sample_focus)) = 4"
proof
  show "fm_focused (SyncFocusTraps sample_env [\<lparr>ts_Scope = 3, ts_Restore = FocusRestorePrevious\<rparr>] sample_focus) = 3" by code_simp
  show "fm_focused (SyncFocusTraps sample_env [] (SyncFocusTraps sample_env [\<lparr>ts_Scope = 3, ts_Restore = FocusRestorePrevious\<rparr>] sample_focus)) = 4"
    using trap_gives_focus_back [OF sample_tree_run sample_env_heap(1) sample_focus_run, of 3] sample_focus_facts(1,3) by (simp add: trap_states_def)
qed

text \<open>
  C35: Two active traps neither of which lies inside the other lock the keyboard out: as soon as
  the stack holds the scopes of two facets of which neither is below the other, nothing has
  focus and every request for focus is refused.
\<close>

theorem separate_traps_lock_focus:
  assumes "facet_step\<^sup>*\<^sup>* no_facets w" and "fe_heap E = fw_heap w" and "(focus_step E)\<^sup>*\<^sup>* NewFocusManager m"
    and "p < length (fe_heap E)" and "q < length (fe_heap E)" and "p \<notin> below w q" and "q \<notin> below w p"
    and "{eid E p, eid E q} \<subseteq> ts_Scope ` set ts"
  shows "fm_focused (SyncFocusTraps E ts m) = 0 \<and>
    (\<forall>a < length (fe_heap E). SetFocus E (Some a) (SyncFocusTraps E ts m) = (False, SyncFocusTraps E ts m))"
proof -
  let ?m = "SyncFocusTraps E ts m"
  have e: "env_over w E" by (rule run_env [OF assms(1,2)])
  have ok: "dir_ok E ?m" "held E ?m" using SyncFocusTraps_ok focus_run_ok [OF assms(3) e] by simp_all
  have "map tf_scope (fm_traps ?m) = map tf_scope (normalize_traps ts [])"
    using arg_cong [OF SyncFocusTraps_traps [of E ts m], of "map fst"] by (simp add: comp_def)
  then have "set (map tf_scope (fm_traps ?m)) = ts_Scope ` set ts - {0}" using normalize_traps_set(1) [of ts "[]"] by simp
  then have s: "eid E p \<in> tf_scope ` set (fm_traps ?m)" "eid E q \<in> tf_scope ` set (fm_traps ?m)"
    using assms(8) env_facts(2) [OF e assms(4)] env_facts(2) [OF e assms(5)] by auto
  have below: "a \<in> below w x"
    if h: "canFocus E ?m (Some a)" "a < length (fe_heap E)" "x < length (fe_heap E)" "eid E x \<in> tf_scope ` set (fm_traps ?m)" for a x
  proof -
    have "isWithinScope E a (eid E x)" using h(1,4) by (auto simp: canFocus_def isAllowedInActiveTraps_def list_all_iff)
    then obtain y where "y < length (fe_heap E)" "eid E y = eid E x" "a \<in> below w y" using env_facts(3) [OF e env_facts(2) [OF e h(3)] h(2)] by blast
    then show ?thesis using env_facts(1) [OF e _ h(3)] by metis
  qed
  have no: "\<not> canFocus E ?m (Some a)" if "a < length (fe_heap E)" for a
    using below [OF _ that assms(4) s(1)] below [OF _ that assms(5) s(2)] below_linear [of a w p q] assms(6,7) by blast
  have "fm_focused ?m = 0" using ok(2) no by (auto simp: held_def split: option.splits)
  then show ?thesis using no by (simp add: SetFocus_def)
qed

theorem separate_traps_lock_focus_witness:
  "fst (SetFocus sample_env (Some 3) sample_focus) \<and>
   \<not> fst (SetFocus sample_env (Some 3) (SyncFocusTraps sample_env
        [\<lparr>ts_Scope = 2, ts_Restore = FocusRestorePrevious\<rparr>, \<lparr>ts_Scope = 3, ts_Restore = FocusRestorePrevious\<rparr>] sample_focus))"
proof
  show "fst (SetFocus sample_env (Some 3) sample_focus)" by code_simp
  have ok: "forest sample_tree" by (rule facet_run_forest [OF sample_tree_run])
  have "below sample_tree 1 \<inter> below sample_tree 2 = {}" using siblings_apart [OF ok, of 0 1 2] sample_tree_facts(1) by (simp add: sample_kids)
  moreover have "1 \<in> below sample_tree 1" "2 \<in> below sample_tree 2" by (simp_all add: below_def)
  ultimately have "1 \<notin> below sample_tree 2" "2 \<notin> below sample_tree 1" by blast+
  moreover have "eid sample_env 1 = 2" "eid sample_env 2 = 3"
    using sample_ids sample_env_heap(2) nth_map [of 1 "fe_heap sample_env" fb_id] nth_map [of 2 "fe_heap sample_env" fb_id] by simp_all
  ultimately show "\<not> fst (SetFocus sample_env (Some 3) (SyncFocusTraps sample_env
        [\<lparr>ts_Scope = 2, ts_Restore = FocusRestorePrevious\<rparr>, \<lparr>ts_Scope = 3, ts_Restore = FocusRestorePrevious\<rparr>] sample_focus))"
    using separate_traps_lock_focus [OF sample_tree_run sample_env_heap(1) sample_focus_run, of 1 2
        "[\<lparr>ts_Scope = 2, ts_Restore = FocusRestorePrevious\<rparr>, \<lparr>ts_Scope = 3, ts_Restore = FocusRestorePrevious\<rparr>]"] sample_env_heap(2)
    by simp
qed

lemma mset_map_filter: "mset xs = mset ys \<Longrightarrow> mset (List.map_filter g xs) = mset (List.map_filter g ys)"
proof -
  have "mset (List.map_filter g zs) = image_mset (the \<circ> g) (filter_mset (\<lambda>x. g x \<noteq> None) (mset zs))" for zs
    by (simp add: List.map_filter_def)
  then show "mset xs = mset ys \<Longrightarrow> ?thesis" by simp
qed

lemma trap_entries_fst: "set (map (\<lambda>(ord, f, q). f) (trap_entries r layers)) \<subseteq> fst ` set layers"
  by (force simp: trap_entries_def List.map_filter_def split: if_splits option.splits)

lemma trap_entries_distinct: "distinct (map fst layers) \<Longrightarrow> distinct (map (\<lambda>(ord, f, q). f) (trap_entries r layers))"
proof (induction layers)
  case Nil
  then show ?case by (simp add: trap_entries_def List.map_filter_def)
next
  case (Cons x layers)
  have "trap_entries r (x # layers) = trap_entries r [x] @ trap_entries r layers"
    using map_filter_append [of _ "[x]" layers] by (simp add: trap_entries_def)
  moreover have "set (map (\<lambda>(ord, f, q). f) (trap_entries r [x])) \<subseteq> {fst x}" "distinct (map (\<lambda>(ord, f, q). f) (trap_entries r [x]))"
    using trap_entries_fst [of r "[x]"] by (auto simp: trap_entries_def List.map_filter_def split: if_splits option.splits)
  moreover have "set (map (\<lambda>(ord, f, q). f) (trap_entries r layers)) \<subseteq> fst ` set layers" "fst x \<notin> fst ` set layers"
    using trap_entries_fst [of r layers] Cons(2) by simp_all
  ultimately have "set (map (\<lambda>(ord, f, q). f) (trap_entries r [x])) \<inter> set (map (\<lambda>(ord, f, q). f) (trap_entries r layers)) = {}"
    by blast
  then show ?case using Cons \<open>trap_entries r (x # layers) = _\<close> \<open>distinct (map _ (trap_entries r [x]))\<close> by (simp del: set_map)
qed

text \<open>
  C36: The trap stack of the runtime does not depend on the order in which Go iterates over the
  map of projected layers: any order of the same entries gives the same focus manager, whose
  stack is the trapping layers by layer order and then by facet.
\<close>

theorem syncFocusTraps_order_free:
  assumes "distinct (map fst layers)" and "mset layers' = mset layers"
  shows "syncFocusTraps E reg layers' m = syncFocusTraps E reg layers m \<and>
    (\<forall>r. reg = Some r \<and> 0 \<notin> fst ` set layers \<longrightarrow>
       map tf_scope (fm_traps (syncFocusTraps E reg layers m)) = map (\<lambda>(ord, f, q). f) (sort_key (\<lambda>(ord, f, q). (ord, f)) (trap_entries r layers)))"
proof -
  let ?k = "\<lambda>(ord, f, q). (ord, f) :: int \<times> u64"
  have ms: "mset (trap_entries r layers') = mset (trap_entries r layers)" for r
    unfolding trap_entries_def by (rule mset_map_filter [OF assms(2)])
  have "distinct (map ?k (trap_entries r layers))" for r
    using trap_entries_distinct [OF assms(1), of r] distinct_map [of snd "map ?k (trap_entries r layers)"] by (simp add: comp_def split_def)
  then have "sort_key ?k (trap_entries r layers') = sort_key ?k (trap_entries r layers)" for r
    by (rule sort_key_unique [OF ms [symmetric], symmetric])
  moreover have "layers' = [] \<longleftrightarrow> layers = []" using assms(2) by auto
  ultimately have 1: "syncFocusTraps E reg layers' m = syncFocusTraps E reg layers m" by (simp add: syncFocusTraps_def split: option.split)
  have 2: "map tf_scope (fm_traps (syncFocusTraps E (Some r) layers m)) = map (\<lambda>(ord, f, q). f) (sort_key ?k (trap_entries r layers))"
    if n: "0 \<notin> fst ` set layers" for r
  proof -
    let ?ts = "map (\<lambda>(_, f, q). \<lparr>ts_Scope = f, ts_Restore = q\<rparr>) (sort_key ?k (trap_entries r layers))"
    have f: "map ts_Scope ?ts = map (\<lambda>(ord, f, q). f) (sort_key ?k (trap_entries r layers))" by (simp add: comp_def split_def)
    have "mset (map (\<lambda>(ord, f, q). f) (sort_key ?k (trap_entries r layers))) = mset (map (\<lambda>(ord, f, q). f) (trap_entries r layers))" by simp
    then have d: "distinct (map ts_Scope ?ts)" "set (map ts_Scope ?ts) = set (map (\<lambda>(ord, f, q). f) (trap_entries r layers))"
      using trap_entries_distinct [OF assms(1), of r] mset_eq_imp_distinct_iff mset_eq_setD unfolding f by blast+
    have "set (map ts_Scope ?ts) \<subseteq> fst ` set layers" unfolding d(2) by (rule trap_entries_fst)
    then have "0 \<notin> set (map ts_Scope ?ts)" using n by blast
    then have z: "0 \<notin> ts_Scope ` set ?ts" by (simp only: set_map not_False_eq_True)
    have "map tf_scope (normalize_traps ?ts []) = map ts_Scope ?ts" using normalize_id [OF d(1) z, of "[]"] by (simp add: comp_def)
    moreover have "map tf_scope (fm_traps (SyncFocusTraps E ?ts m)) = map tf_scope (normalize_traps ?ts [])"
      using arg_cong [OF SyncFocusTraps_traps [of E ?ts m], of "map fst"] by (simp add: comp_def)
    moreover have "syncFocusTraps E (Some r) layers m = SyncFocusTraps E ?ts m"
      by (cases "layers = []") (simp_all add: syncFocusTraps_def trap_entries_def List.map_filter_simps)
    ultimately show ?thesis using f by simp
  qed
  show ?thesis using 1 2 by blast
qed


theorem syncFocusTraps_order_free_witness:
  "map tf_scope (fm_traps (syncFocusTraps sample_env (Some (fst (Freeze sample_layers))) [(3, 11), (1, 2), (2, 10)] sample_focus)) = [2, 3] \<and>
   syncFocusTraps sample_env (Some (fst (Freeze sample_layers))) [(2, 10), (3, 11), (1, 2)] sample_focus =
     syncFocusTraps sample_env (Some (fst (Freeze sample_layers))) [(3, 11), (1, 2), (2, 10)] sample_focus"
proof
  show "map tf_scope (fm_traps (syncFocusTraps sample_env (Some (fst (Freeze sample_layers))) [(3, 11), (1, 2), (2, 10)] sample_focus)) = [2, 3]"
    by code_simp
  have "distinct (map fst [(3 :: u64, 11 :: u64), (1, 2), (2, 10)])" "mset [(2 :: u64, 10 :: u64), (3, 11), (1, 2)] = mset [(3, 11), (1, 2), (2, 10)]"
    by simp_all
  from syncFocusTraps_order_free [OF this]
  show "syncFocusTraps sample_env (Some (fst (Freeze sample_layers))) [(2, 10), (3, 11), (1, 2)] sample_focus =
     syncFocusTraps sample_env (Some (fst (Freeze sample_layers))) [(3, 11), (1, 2), (2, 10)] sample_focus" by blast
qed

end
