(* ===== verification/Live_Index.thy ===== *)
theory Live_Index
  imports Facet_Lifecycle "HOL-Library.Monad_Syntax"
begin

text \<open>
  The directory of live facets (\<^verbatim>\<open>src/runtime/live_index.go\<close>): a dense table of slots with a map from
  identifiers to positions, generations by which handles are told apart, and the links from
  parents to children by which subtrees are removed. A removed slot is filled with the last one.
  The first component of a result is the panic of the call, if any. Recursions over links and
  walks over the tree have no result (\<^term>\<open>None\<close>) where the code would not return.
\<close>

section \<open>Data\<close>

record liveSlot =
  ls_id :: FacetID
  ls_generation :: u64
  ls_impl :: nat
  ls_parent :: FacetID
  ls_children :: "FacetID list"
  ls_treeOwned :: bool

record liveHandle =
  lh_id :: FacetID
  lh_generation :: u64

record liveIndex =
  li_byID :: "FacetID \<Rightarrow> nat option"
  li_slots :: "liveSlot list"
  li_nextGeneration :: u64
  li_directoryCapacity :: nat
  li_hosted :: "FacetID \<Rightarrow> FacetID set option"
  li_treeVisits :: u64

datatype live_panic =
    ZeroIdentity
  | DuplicateInSubtree FacetID
  | DuplicateInRegistration FacetID
  | ConflictingOwners FacetID
  | ParentUnavailable FacetID
  | HostNotLive FacetID
  | ForeignHosted FacetID FacetID FacetID
  | DuplicateHosted FacetID FacetID
  | GenerationExhausted
  | LinkNotLive

datatype live_error = NotCreated FacetID | DuplicateAttached FacetID | AlreadyLive FacetID

definition newLiveIndex :: liveIndex where
  "newLiveIndex = \<lparr>li_byID = (\<lambda>_. None), li_slots = [], li_nextGeneration = 0, li_directoryCapacity = 8,
     li_hosted = (\<lambda>_. None), li_treeVisits = 0\<rparr>"

section \<open>Lookups\<close>

definition live_lookup :: "liveIndex \<Rightarrow> FacetID \<Rightarrow> (nat \<times> liveHandle) option" where
  "live_lookup x i =
     (if i = 0 then None
      else (case li_byID x i of
              None \<Rightarrow> None
            | Some k \<Rightarrow> let s = li_slots x ! k in Some (ls_impl s, \<lparr>lh_id = ls_id s, lh_generation = ls_generation s\<rparr>)))"

definition live_contains :: "liveIndex \<Rightarrow> FacetID \<Rightarrow> bool" where
  "live_contains x i \<longleftrightarrow> i \<noteq> 0 \<and> li_byID x i \<noteq> None"

definition resolve :: "liveIndex \<Rightarrow> liveHandle \<Rightarrow> nat option" where
  "resolve x h =
     (if lh_id h = 0 \<or> lh_generation h = 0 then None
      else (case li_byID x (lh_id h) of
              None \<Rightarrow> None
            | Some k \<Rightarrow> let s = li_slots x ! k in if ls_generation s \<noteq> lh_generation h then None else Some (ls_impl s)))"

definition live_parent :: "liveIndex \<Rightarrow> FacetID \<Rightarrow> FacetID" where
  "live_parent x i = (case li_byID x i of None \<Rightarrow> 0 | Some k \<Rightarrow> ls_parent (li_slots x ! k))"

section \<open>Collecting a subtree\<close>

text \<open>The live facets below a facet with the identifiers of their parents; the last child is met first.\<close>

partial_function (option) collect_loop :: "Facet list \<Rightarrow> (nat \<times> FacetID) list \<Rightarrow> FacetID list \<Rightarrow> (nat \<times> FacetID) list \<Rightarrow>
    (live_panic + (nat \<times> FacetID) list) option" where
  "collect_loop H stack seen ordered =
     (case stack of
        [] \<Rightarrow> Some (Inr ordered)
      | (a, p) # rest \<Rightarrow>
          if fb_state (H ! a) = StateDisposed then collect_loop H rest seen ordered
          else if fb_id (H ! a) = 0 then Some (Inl ZeroIdentity)
          else if fb_id (H ! a) \<in> set seen then Some (Inl (DuplicateInSubtree (fb_id (H ! a))))
          else collect_loop H (map (\<lambda>c. (c, fb_id (H ! a))) (rev (fb_children (H ! a))) @ rest) (fb_id (H ! a) # seen) (ordered @ [(a, p)]))"

declare collect_loop.simps [code]

definition collectLiveSubtree :: "Facet list \<Rightarrow> nat \<Rightarrow> FacetID \<Rightarrow> (live_panic + (nat \<times> FacetID) list) option" where
  "collectLiveSubtree H root p = collect_loop H [(root, p)] [] []"

partial_function (option) validate_loop :: "Facet list \<Rightarrow> liveIndex \<Rightarrow> nat list \<Rightarrow> FacetID list \<Rightarrow> live_error option option" where
  "validate_loop H x stack seen =
     (case stack of
        [] \<Rightarrow> Some None
      | a # rest \<Rightarrow>
          if fb_id (H ! a) = 0 \<or> fb_state (H ! a) \<noteq> StateCreated then Some (Some (NotCreated (fb_id (H ! a))))
          else if fb_id (H ! a) \<in> set seen then Some (Some (DuplicateAttached (fb_id (H ! a))))
          else if live_contains x (fb_id (H ! a)) then Some (Some (AlreadyLive (fb_id (H ! a))))
          else validate_loop H x (rev (fb_children (H ! a)) @ rest) (fb_id (H ! a) # seen))"

declare validate_loop.simps [code]

definition validateNewTree :: "Facet list \<Rightarrow> nat \<Rightarrow> liveIndex \<Rightarrow> live_error option option" where
  "validateNewTree H root x = validate_loop H x [root] []"

section \<open>Registration\<close>

fun check_known :: "FacetID list \<Rightarrow> FacetID list \<Rightarrow> live_panic option" where
  "check_known [] known = None"
| "check_known (i # is) known = (if i \<in> set known then Some (DuplicateInRegistration i) else check_known is (i # known))"

fun check_owners :: "Facet list \<Rightarrow> liveIndex \<Rightarrow> FacetID list \<Rightarrow> (nat \<times> FacetID) list \<Rightarrow> live_panic option" where
  "check_owners H x known [] = None"
| "check_owners H x known ((a, p) # es) =
     (let i = fb_id (H ! a) in
      if (case li_byID x i of None \<Rightarrow> False | Some k \<Rightarrow> ls_impl (li_slots x ! k) \<noteq> a \<or> ls_parent (li_slots x ! k) \<noteq> p)
      then Some (ConflictingOwners i)
      else if p \<noteq> 0 \<and> \<not> live_contains x p \<and> p \<notin> set known then Some (ParentUnavailable p)
      else check_owners H x known es)"

definition validateRegistrations :: "Facet list \<Rightarrow> liveIndex \<Rightarrow> (nat \<times> FacetID) list \<Rightarrow> live_panic option" where
  "validateRegistrations H x entries =
     (let ids = map (\<lambda>(a, p). fb_id (H ! a)) entries in
      case check_known ids [] of Some e \<Rightarrow> Some e | None \<Rightarrow> check_owners H x ids entries)"

definition live_register :: "Facet list \<Rightarrow> nat \<Rightarrow> FacetID \<Rightarrow> bool \<Rightarrow> liveIndex \<Rightarrow> live_panic option \<times> liveIndex" where
  "live_register H a p owned x =
     (let i = fb_id (H ! a) in
      if i = 0 then (Some ZeroIdentity, x)
      else (case li_byID x i of
              Some k \<Rightarrow>
                let s = li_slots x ! k in
                if ls_impl s \<noteq> a \<or> ls_parent s \<noteq> p then (Some (ConflictingOwners i), x)
                else (None, x\<lparr>li_slots := (li_slots x)[k := s\<lparr>ls_impl := a, ls_treeOwned := ls_treeOwned s \<or> owned\<rparr>]\<rparr>)
            | None \<Rightarrow>
                let g = li_nextGeneration x + 1; x1 = x\<lparr>li_nextGeneration := g\<rparr> in
                if g = 0 then (Some GenerationExhausted, x1)
                else let s = \<lparr>ls_id = i, ls_generation = g, ls_impl = a, ls_parent = p, ls_children = [], ls_treeOwned = owned\<rparr>;
                         n = length (li_slots x) + 1
                     in (None, x1\<lparr>li_slots := li_slots x @ [s], li_byID := (li_byID x)(i \<mapsto> length (li_slots x)),
                           li_directoryCapacity := (if li_directoryCapacity x < n then n * 2 else li_directoryCapacity x)\<rparr>)))"

definition live_link :: "FacetID \<Rightarrow> FacetID \<Rightarrow> liveIndex \<Rightarrow> live_panic option \<times> liveIndex" where
  "live_link p c x =
     (if p = 0 \<or> c = 0 then (None, x)
      else (case li_byID x p of
              None \<Rightarrow> (Some LinkNotLive, x)
            | Some k \<Rightarrow>
                if li_byID x c = None then (Some LinkNotLive, x)
                else let s = li_slots x ! k in
                     if c \<in> set (ls_children s) then (None, x)
                     else (None, x\<lparr>li_slots := (li_slots x)[k := s\<lparr>ls_children := ls_children s @ [c]\<rparr>]\<rparr>)))"

definition register_one :: "Facet list \<Rightarrow> bool \<Rightarrow> nat \<times> FacetID \<Rightarrow> liveIndex \<Rightarrow> live_panic option \<times> liveIndex" where
  "register_one H owned e x =
     (case live_register H (fst e) (snd e) owned x of
        (Some err, x1) \<Rightarrow> (Some err, x1)
      | (None, x1) \<Rightarrow> live_link (snd e) (fb_id (H ! fst e)) x1)"

fun register_all :: "Facet list \<Rightarrow> bool \<Rightarrow> (nat \<times> FacetID) list \<Rightarrow> liveIndex \<Rightarrow> live_panic option \<times> liveIndex" where
  "register_all H owned [] x = (None, x)"
| "register_all H owned (e # es) x =
     (case register_one H owned e x of (Some err, x1) \<Rightarrow> (Some err, x1) | (None, x1) \<Rightarrow> register_all H owned es x1)"

definition count_visits :: "nat \<Rightarrow> liveIndex \<Rightarrow> liveIndex" where
  "count_visits n x = x\<lparr>li_treeVisits := li_treeVisits x + of_nat n\<rparr>"

definition registerTree :: "Facet list \<Rightarrow> nat \<Rightarrow> liveIndex \<Rightarrow> (live_panic option \<times> liveIndex) option" where
  "registerTree H root x =
     (let p = (case fb_parent (H ! root) of None \<Rightarrow> 0 | Some q \<Rightarrow> fb_id (H ! q)) in
      case collectLiveSubtree H root p of
        None \<Rightarrow> None
      | Some (Inl err) \<Rightarrow> Some (Some err, x)
      | Some (Inr ordered) \<Rightarrow>
          let x1 = count_visits (length ordered) x in
          (case validateRegistrations H x1 ordered of
             Some err \<Rightarrow> Some (Some err, x1)
           | None \<Rightarrow> Some (register_all H True ordered x1)))"

section \<open>Removal\<close>

definition unlink :: "FacetID \<Rightarrow> FacetID \<Rightarrow> liveIndex \<Rightarrow> liveIndex" where
  "unlink p i x =
     (if p = 0 then x
      else let x1 = (case li_byID x p of
                       None \<Rightarrow> x
                     | Some k \<Rightarrow> let s = li_slots x ! k in x\<lparr>li_slots := (li_slots x)[k := s\<lparr>ls_children := remove1 i (ls_children s)\<rparr>]\<rparr>)
           in (case li_hosted x1 p of
                 None \<Rightarrow> x1
               | Some S \<Rightarrow> x1\<lparr>li_hosted := (li_hosted x1)(p := if S - {i} = {} then None else Some (S - {i}))\<rparr>))"

text \<open>The last slot takes the place of the removed one.\<close>

definition drop_slot :: "FacetID \<Rightarrow> nat \<Rightarrow> liveIndex \<Rightarrow> liveIndex" where
  "drop_slot i k x =
     (let b = (li_byID x)(i := None); n = length (li_slots x) - 1 in
      if k \<noteq> n
      then x\<lparr>li_byID := b(ls_id (li_slots x ! n) \<mapsto> k), li_slots := butlast ((li_slots x)[k := li_slots x ! n])\<rparr>
      else x\<lparr>li_byID := b, li_slots := butlast (li_slots x)\<rparr>)"

fun positions :: "nat \<Rightarrow> liveSlot list \<Rightarrow> (FacetID \<Rightarrow> nat option) \<Rightarrow> FacetID \<Rightarrow> nat option" where
  "positions k [] b = b"
| "positions k (s # ss) b = positions (k + 1) ss (b(ls_id s \<mapsto> k))"

definition shrink :: "liveIndex \<Rightarrow> liveIndex" where
  "shrink x =
     (if length (li_slots x) * 4 \<le> li_directoryCapacity x
      then x\<lparr>li_byID := positions 0 (li_slots x) (\<lambda>_. None), li_directoryCapacity := max 8 (length (li_slots x) * 2)\<rparr>
      else x)"

definition remove_slot :: "FacetID \<Rightarrow> liveIndex \<Rightarrow> liveIndex" where
  "remove_slot i x =
     (case li_byID x i of
        None \<Rightarrow> x
      | Some k \<Rightarrow>
          let x1 = unlink (ls_parent (li_slots x ! k)) i x
          in shrink (drop_slot i k (x1\<lparr>li_hosted := (li_hosted x1)(i := None)\<rparr>)))"

partial_function (option) remove_all :: "FacetID list \<Rightarrow> liveIndex \<Rightarrow> liveIndex option" where
  "remove_all is x =
     (case is of
        [] \<Rightarrow> Some x
      | i # rest \<Rightarrow>
          (case li_byID x i of
             None \<Rightarrow> remove_all rest x
           | Some k \<Rightarrow> do { x1 \<leftarrow> remove_all (ls_children (li_slots x ! k)) x; remove_all rest (remove_slot i x1) }))"

declare remove_all.simps [code]

definition removeSubtree :: "FacetID \<Rightarrow> liveIndex \<Rightarrow> liveIndex option" where
  "removeSubtree i x = remove_all [i] x"

section \<open>Hosted facets\<close>

text \<open>The declared children of a host with the subtrees below them.\<close>

fun collect_hosted :: "Facet list \<Rightarrow> FacetID \<Rightarrow> nat list \<Rightarrow> FacetID list \<Rightarrow> (nat \<times> FacetID) list \<Rightarrow>
    (live_panic + FacetID list \<times> (nat \<times> FacetID) list) option" where
  "collect_hosted H p [] new entries = Some (Inr (new, entries))"
| "collect_hosted H p (c # cs) new entries =
     (if fb_state (H ! c) = StateDisposed then collect_hosted H p cs new entries
      else let i = fb_id (H ! c) in
        case fb_parent (H ! c) of
          Some q \<Rightarrow>
            if fb_id (H ! q) \<noteq> p then Some (Inl (ForeignHosted i (fb_id (H ! q)) p))
            else if i \<in> set new then Some (Inl (DuplicateHosted i p))
            else (case collectLiveSubtree H c p of
                    None \<Rightarrow> None
                  | Some (Inl err) \<Rightarrow> Some (Inl err)
                  | Some (Inr es) \<Rightarrow> collect_hosted H p cs (i # new) (entries @ es))
        | None \<Rightarrow>
            if i \<in> set new then Some (Inl (DuplicateHosted i p))
            else (case collectLiveSubtree H c p of
                    None \<Rightarrow> None
                  | Some (Inl err) \<Rightarrow> Some (Inl err)
                  | Some (Inr es) \<Rightarrow> collect_hosted H p cs (i # new) (entries @ es)))"

text \<open>Hosted children that are no longer declared go, in the order the map is iterated, unless the tree owns them.\<close>

fun drop_hosted :: "FacetID list \<Rightarrow> FacetID list \<Rightarrow> liveIndex \<Rightarrow> liveIndex option" where
  "drop_hosted new [] x = Some x"
| "drop_hosted new (i # is) x =
     (if i \<in> set new then drop_hosted new is x
      else (case li_byID x i of
              None \<Rightarrow> drop_hosted new is x
            | Some k \<Rightarrow>
                if ls_treeOwned (li_slots x ! k) then drop_hosted new is x
                else (case removeSubtree i x of None \<Rightarrow> None | Some x1 \<Rightarrow> drop_hosted new is x1)))"

definition registerHosted :: "Facet list \<Rightarrow> FacetID list \<Rightarrow> FacetID \<Rightarrow> nat list \<Rightarrow> liveIndex \<Rightarrow> (live_panic option \<times> liveIndex) option" where
  "registerHosted H old p cs x =
     (if p = 0 then Some (None, x)
      else if li_byID x p = None then Some (Some (HostNotLive p), x)
      else (case collect_hosted H p cs [] [] of
              None \<Rightarrow> None
            | Some (Inl err) \<Rightarrow> Some (Some err, x)
            | Some (Inr (new, entries)) \<Rightarrow>
                let x1 = count_visits (length entries) x in
                (case validateRegistrations H x1 entries of
                   Some err \<Rightarrow> Some (Some err, x1)
                 | None \<Rightarrow>
                     (case drop_hosted new old x1 of
                        None \<Rightarrow> None
                      | Some x2 \<Rightarrow>
                          (case register_all H False entries x2 of
                             (Some err, x3) \<Rightarrow> Some (Some err, x3)
                           | (None, x3) \<Rightarrow> Some (None, x3\<lparr>li_hosted := (li_hosted x3)(p := if new = [] then None else Some (set new))\<rparr>))))))"


section \<open>The table as a map\<close>

definition dir :: "liveIndex \<Rightarrow> FacetID \<Rightarrow> liveSlot option" where
  "dir x i = map_option ((!) (li_slots x)) (li_byID x i)"

definition pos_ok :: "liveIndex \<Rightarrow> bool" where
  "pos_ok x \<longleftrightarrow> (\<forall>i k. li_byID x i = Some k \<longrightarrow> k < length (li_slots x) \<and> ls_id (li_slots x ! k) = i) \<and>
     (\<forall>k < length (li_slots x). li_byID x (ls_id (li_slots x ! k)) = Some k)"

lemma pos_okD:
  assumes "pos_ok x"
  shows "li_byID x i = Some k \<Longrightarrow> k < length (li_slots x)" "li_byID x i = Some k \<Longrightarrow> ls_id (li_slots x ! k) = i"
    "k < length (li_slots x) \<Longrightarrow> li_byID x (ls_id (li_slots x ! k)) = Some k"
    "k < length (li_slots x) \<Longrightarrow> l < length (li_slots x) \<Longrightarrow> ls_id (li_slots x ! k) = ls_id (li_slots x ! l) \<Longrightarrow> k = l"
proof -
  show a: "li_byID x i = Some k \<Longrightarrow> k < length (li_slots x)" "li_byID x i = Some k \<Longrightarrow> ls_id (li_slots x ! k) = i"
    using assms by (simp_all add: pos_ok_def)
  show b: "k < length (li_slots x) \<Longrightarrow> li_byID x (ls_id (li_slots x ! k)) = Some k" for k using assms by (simp add: pos_ok_def)
  show "k < length (li_slots x) \<Longrightarrow> l < length (li_slots x) \<Longrightarrow> ls_id (li_slots x ! k) = ls_id (li_slots x ! l) \<Longrightarrow> k = l"
    by (metis b option.inject)
qed

lemma dir_None [simp]: "dir x i = None \<longleftrightarrow> li_byID x i = None"
  by (simp add: dir_def)

lemma dir_Some: "pos_ok x \<Longrightarrow> dir x i = Some s \<Longrightarrow> ls_id s = i"
  using pos_okD(2) by (auto simp: dir_def)

lemma dir_at: "li_byID x i = Some k \<Longrightarrow> dir x i = Some (li_slots x ! k)"
  by (simp add: dir_def)

lemma update_slot:
  assumes "pos_ok x" "li_byID x i = Some k" "ls_id s = i"
  shows "pos_ok (x\<lparr>li_slots := (li_slots x)[k := s]\<rparr>)" "dir (x\<lparr>li_slots := (li_slots x)[k := s]\<rparr>) = (dir x)(i \<mapsto> s)"
proof -
  have k: "k < length (li_slots x)" "ls_id (li_slots x ! k) = i" using pos_okD(1,2) [OF assms(1,2)] by simp_all
  have ids: "ls_id ((li_slots x)[k := s] ! l) = ls_id (li_slots x ! l)" for l
    using k assms(3) by (cases "l = k") simp_all
  show "pos_ok (x\<lparr>li_slots := (li_slots x)[k := s]\<rparr>)" using assms(1) by (simp add: pos_ok_def ids)
  show "dir (x\<lparr>li_slots := (li_slots x)[k := s]\<rparr>) = (dir x)(i \<mapsto> s)"
  proof (rule ext)
    fix j
    show "dir (x\<lparr>li_slots := (li_slots x)[k := s]\<rparr>) j = ((dir x)(i \<mapsto> s)) j"
    proof (cases "j = i")
      case True
      then show ?thesis using assms(2) k(1) by (simp add: dir_def)
    next
      case False
      have "l \<noteq> k" if "li_byID x j = Some l" for l using pos_okD(2) [OF assms(1) that] k(2) False by auto
      then show ?thesis using False by (cases "li_byID x j") (simp_all add: dir_def)
    qed
  qed
qed

lemma append_slot:
  assumes "pos_ok x" "li_byID x i = None" "ls_id s = i"
  shows "pos_ok (x\<lparr>li_slots := li_slots x @ [s], li_byID := (li_byID x)(i \<mapsto> length (li_slots x))\<rparr>)"
    "dir (x\<lparr>li_slots := li_slots x @ [s], li_byID := (li_byID x)(i \<mapsto> length (li_slots x))\<rparr>) = (dir x)(i \<mapsto> s)"
proof -
  have n: "ls_id (li_slots x ! k) \<noteq> i" if "k < length (li_slots x)" for k using pos_okD(3) [OF assms(1) that] assms(2) by auto
  show "pos_ok (x\<lparr>li_slots := li_slots x @ [s], li_byID := (li_byID x)(i \<mapsto> length (li_slots x))\<rparr>)"
    using pos_okD(1,2,3) [OF assms(1)] n assms(3) by (auto simp: pos_ok_def nth_append less_Suc_eq)
  show "dir (x\<lparr>li_slots := li_slots x @ [s], li_byID := (li_byID x)(i \<mapsto> length (li_slots x))\<rparr>) = (dir x)(i \<mapsto> s)"
  proof (rule ext)
    fix j
    show "dir (x\<lparr>li_slots := li_slots x @ [s], li_byID := (li_byID x)(i \<mapsto> length (li_slots x))\<rparr>) j = ((dir x)(i \<mapsto> s)) j"
      using pos_okD(1) [OF assms(1), of j] by (cases "li_byID x j") (simp_all add: dir_def nth_append)
  qed
qed

lemma drop_slot_map:
  assumes "pos_ok x" "li_byID x i = Some k"
  shows "pos_ok (drop_slot i k x)" "dir (drop_slot i k x) = (dir x)(i := None)"
proof -
  let ?n = "length (li_slots x) - 1" and ?ss = "li_slots x"
  have k: "k < length ?ss" "ls_id (?ss ! k) = i" using pos_okD(1,2) [OF assms] by simp_all
  have l: "length ?ss = Suc ?n" using k(1) by simp
  let ?last = "ls_id (?ss ! ?n)"
  have last: "li_byID x ?last = Some ?n" using pos_okD(3) [OF assms(1), of ?n] l by simp
  let ?ss' = "if k \<noteq> ?n then butlast (?ss[k := ?ss ! ?n]) else butlast ?ss"
  let ?b = "if k \<noteq> ?n then ((li_byID x)(i := None))(?last \<mapsto> k) else (li_byID x)(i := None)"
  have f: "li_slots (drop_slot i k x) = ?ss'" "li_byID (drop_slot i k x) = ?b" by (simp_all add: drop_slot_def Let_def)
  have nth: "?ss' ! j = (if j = k then ?ss ! ?n else ?ss ! j)" if "j < ?n" for j
    using that l by (cases "j = k") (simp_all add: nth_butlast)
  have len: "length ?ss' = ?n" by simp
  have other: "j < ?n \<and> j \<noteq> k" if "li_byID x m = Some j" "m \<noteq> i" "m \<noteq> ?last" for m j
  proof -
    have "j < length ?ss" "ls_id (?ss ! j) = m" using pos_okD(1,2) [OF assms(1) that(1)] by simp_all
    then show ?thesis using that(2,3) k(2) l by (cases "j = ?n") auto
  qed
  have ne: "?last \<noteq> i" if "k \<noteq> ?n" using that pos_okD(4) [OF assms(1), of ?n k] k l by auto
  have kn: "k < ?n" if "k \<noteq> ?n" using that k(1) l by simp
  have b: "?b m = (if m = i then None else if k \<noteq> ?n \<and> m = ?last then Some k else li_byID x m)" for m using ne by auto
  have last_i: "?last = i" if "k = ?n" using that k(2) by simp
  have P: "j < ?n \<and> ls_id (?ss' ! j) = m" if "?b m = Some j" for m j
  proof (cases "k \<noteq> ?n \<and> m = ?last")
    case True
    then have "j = k" using that b [of m] ne by simp
    then show ?thesis using True kn nth [of k] by simp
  next
    case False
    then have m: "m \<noteq> i" "li_byID x m = Some j" using that b [of m] by (auto split: if_splits)
    have "m \<noteq> ?last" using False m(1) last_i by auto
    then show ?thesis using other [OF m(2,1)] nth [of j] pos_okD(2) [OF assms(1) m(2)] by simp
  qed
  have Q: "?b (ls_id (?ss' ! j)) = Some j" if "j < ?n" for j
  proof (cases "j = k")
    case True
    then have "k \<noteq> ?n" using that by simp
    then show ?thesis using nth [OF that] True b [of ?last] ne by simp
  next
    case False
    have j: "ls_id (?ss' ! j) = ls_id (?ss ! j)" using nth [OF that] False by simp
    have "ls_id (?ss ! j) \<noteq> i" using pos_okD(4) [OF assms(1), of j k] k that False l by auto
    moreover have "ls_id (?ss ! j) \<noteq> ?last" using pos_okD(4) [OF assms(1), of j ?n] that l by auto
    ultimately show ?thesis unfolding j b using pos_okD(3) [OF assms(1), of j] that l by simp
  qed
  show "pos_ok (drop_slot i k x)" using P Q unfolding pos_ok_def f len by blast
  show "dir (drop_slot i k x) = (dir x)(i := None)"
  proof (rule ext)
    fix m
    show "dir (drop_slot i k x) m = ((dir x)(i := None)) m"
    proof (cases "m = i")
      case True
      then show ?thesis using b [of i] by (simp add: dir_def f(2))
    next
      case False
      show ?thesis
      proof (cases "k \<noteq> ?n \<and> m = ?last")
        case True
        then show ?thesis using b [of m] False kn nth [of k] last unfolding dir_def f by simp
      next
        case nl: False
        then have bm: "?b m = li_byID x m" unfolding b using False by auto
        have "m \<noteq> ?last" using nl False last_i by auto
        then show ?thesis using bm False other [of m] nth unfolding dir_def f by (cases "li_byID x m") simp_all
      qed
    qed
  qed
qed

lemma positions_other: "i \<notin> ls_id ` set ss \<Longrightarrow> positions k ss b i = b i"
  by (induction ss arbitrary: k b) simp_all

lemma positions_at: "distinct (map ls_id ss) \<Longrightarrow> l < length ss \<Longrightarrow> positions k ss b (ls_id (ss ! l)) = Some (k + l)"
proof (induction ss arbitrary: k b l)
  case (Cons s ss)
  then show ?case by (cases l) (simp_all add: positions_other)
qed simp

lemma shrink_map:
  assumes "pos_ok x"
  shows "pos_ok (shrink x)" "dir (shrink x) = dir x"
proof -
  have d: "distinct (map ls_id (li_slots x))" using pos_okD(4) [OF assms] by (auto simp: distinct_conv_nth)
  have "positions 0 (li_slots x) (\<lambda>_. None) i = li_byID x i" for i
  proof (cases "i \<in> ls_id ` set (li_slots x)")
    case True
    then obtain k where "k < length (li_slots x)" "i = ls_id (li_slots x ! k)" by (auto simp: in_set_conv_nth)
    then show ?thesis using positions_at [OF d, of k 0] pos_okD(3) [OF assms] by simp
  next
    case False
    then have "li_byID x i = None" using pos_okD(1,2) [OF assms, of i] nth_mem by (cases "li_byID x i") fastforce+
    then show ?thesis using False by (simp add: positions_other)
  qed
  then have "positions 0 (li_slots x) (\<lambda>_. None) = li_byID x" by (rule ext)
  then show "pos_ok (shrink x)" "dir (shrink x) = dir x" using assms by (simp_all add: shrink_def pos_ok_def dir_def fun_eq_iff)
qed


section \<open>Well-formed directories\<close>

text \<open>
  Slots carry their identifier and a generation of their own that has been handed out; a parent
  that is named is live, older, and lists the child; listed children are live and name the parent.
\<close>

definition links_ok :: "(FacetID \<Rightarrow> liveSlot option) \<Rightarrow> nat \<Rightarrow> bool" where
  "links_ok D n \<longleftrightarrow>
     (\<forall>i s. D i = Some s \<longrightarrow> ls_id s = i \<and> i \<noteq> 0 \<and> 0 < unat (ls_generation s) \<and> unat (ls_generation s) \<le> n \<and> distinct (ls_children s)) \<and>
     (\<forall>i j s t. D i = Some s \<and> D j = Some t \<and> ls_generation s = ls_generation t \<longrightarrow> i = j) \<and>
     (\<forall>i s. D i = Some s \<and> ls_parent s \<noteq> 0 \<longrightarrow>
        (\<exists>t. D (ls_parent s) = Some t \<and> ls_generation t < ls_generation s \<and> i \<in> set (ls_children t))) \<and>
     (\<forall>i s c. D i = Some s \<and> c \<in> set (ls_children s) \<longrightarrow> (\<exists>t. D c = Some t \<and> ls_parent t = i))"

lemma links_okD:
  assumes "links_ok D n"
  shows "D i = Some s \<Longrightarrow> ls_id s = i" "D i = Some s \<Longrightarrow> i \<noteq> 0" "D i = Some s \<Longrightarrow> 0 < unat (ls_generation s)"
    "D i = Some s \<Longrightarrow> unat (ls_generation s) \<le> n" "D i = Some s \<Longrightarrow> distinct (ls_children s)"
    "D i = Some s \<Longrightarrow> D j = Some t \<Longrightarrow> ls_generation s = ls_generation t \<Longrightarrow> i = j"
    "D i = Some s \<Longrightarrow> ls_parent s \<noteq> 0 \<Longrightarrow> \<exists>t. D (ls_parent s) = Some t \<and> ls_generation t < ls_generation s \<and> i \<in> set (ls_children t)"
    "D i = Some s \<Longrightarrow> c \<in> set (ls_children s) \<Longrightarrow> \<exists>t. D c = Some t \<and> ls_parent t = i"
  using assms unfolding links_ok_def by blast+

lemma links_okI:
  assumes "\<And>i s. D i = Some s \<Longrightarrow> ls_id s = i \<and> i \<noteq> 0 \<and> 0 < unat (ls_generation s) \<and> unat (ls_generation s) \<le> n \<and> distinct (ls_children s)"
    "\<And>i j s t. D i = Some s \<Longrightarrow> D j = Some t \<Longrightarrow> ls_generation s = ls_generation t \<Longrightarrow> i = j"
    "\<And>i s. D i = Some s \<Longrightarrow> ls_parent s \<noteq> 0 \<Longrightarrow> \<exists>t. D (ls_parent s) = Some t \<and> ls_generation t < ls_generation s \<and> i \<in> set (ls_children t)"
    "\<And>i s c. D i = Some s \<Longrightarrow> c \<in> set (ls_children s) \<Longrightarrow> \<exists>t. D c = Some t \<and> ls_parent t = i"
  shows "links_ok D n"
  unfolding links_ok_def using assms by blast

definition live_ok :: "liveIndex \<Rightarrow> bool" where
  "live_ok x \<longleftrightarrow> pos_ok x \<and> links_ok (dir x) (unat (li_nextGeneration x))"

text \<open>A slot of an old generation was there before, with the same facet.\<close>

definition older :: "(FacetID \<Rightarrow> liveSlot option) \<Rightarrow> nat \<Rightarrow> (FacetID \<Rightarrow> liveSlot option) \<Rightarrow> bool" where
  "older D n D' \<longleftrightarrow> (\<forall>i s'. D' i = Some s' \<and> unat (ls_generation s') \<le> n \<longrightarrow>
     (\<exists>s. D i = Some s \<and> ls_generation s = ls_generation s' \<and> ls_impl s = ls_impl s'))"

lemma older_refl: "older D n D"
  by (simp add: older_def)

lemma older_trans: "older D n D1 \<Longrightarrow> older D1 n' D2 \<Longrightarrow> n \<le> n' \<Longrightarrow> older D n D2"
proof -
  assume a: "older D n D1" "older D1 n' D2" "n \<le> n'"
  show ?thesis unfolding older_def
  proof (intro allI impI, elim conjE)
    fix i s' assume "D2 i = Some s'" and l: "unat (ls_generation s') \<le> n"
    then obtain s1 where s1: "D1 i = Some s1" "ls_generation s1 = ls_generation s'" "ls_impl s1 = ls_impl s'"
      using a(2,3) unfolding older_def by (meson le_trans)
    then obtain s where "D i = Some s" "ls_generation s = ls_generation s1" "ls_impl s = ls_impl s1"
      using a(1) l unfolding older_def by metis
    then show "\<exists>s. D i = Some s \<and> ls_generation s = ls_generation s' \<and> ls_impl s = ls_impl s'" using s1 by auto
  qed
qed

text \<open>The map after a registration: the slot itself, and its place among the children of the parent.\<close>

definition with_child :: "FacetID \<Rightarrow> FacetID \<Rightarrow> (FacetID \<Rightarrow> liveSlot option) \<Rightarrow> FacetID \<Rightarrow> liveSlot option" where
  "with_child p c D = (case D p of None \<Rightarrow> D | Some t \<Rightarrow> D(p \<mapsto> t\<lparr>ls_children := ls_children t @ [c]\<rparr>))"

lemma link_map:
  assumes "pos_ok x" "live_link p c x = (None, x')" "c \<noteq> 0"
  shows "pos_ok x' \<and> li_nextGeneration x' = li_nextGeneration x \<and>
    (if p = 0 then dir x' = dir x
     else \<exists>t. dir x p = Some t \<and> dir x c \<noteq> None \<and> dir x' = (if c \<in> set (ls_children t) then dir x else with_child p c (dir x)))"
proof (cases "p = 0 \<or> li_byID x p = None \<or> li_byID x c = None")
  case True
  then show ?thesis using assms by (auto simp: live_link_def split: if_splits option.splits)
next
  case False
  then obtain k where k: "p \<noteq> 0" "li_byID x p = Some k" "li_byID x c \<noteq> None" by auto
  let ?s = "li_slots x ! k"
  let ?s' = "?s\<lparr>ls_children := ls_children ?s @ [c]\<rparr>"
  note U = update_slot [OF assms(1) k(2), of ?s'] dir_at [OF k(2)] pos_okD(2) [OF assms(1) k(2)]
  show ?thesis
  proof (cases "c \<in> set (ls_children ?s)")
    case True
    then have "x' = x" using assms(2,3) k by (simp add: live_link_def)
    then show ?thesis using assms(1) k True U(3) by simp
  next
    case False
    then have "x' = x\<lparr>li_slots := (li_slots x)[k := ?s']\<rparr>" using assms(2,3) k by (simp add: live_link_def Let_def)
    then show ?thesis using U k False by (simp add: with_child_def)
  qed
qed

lemma register_map:
  assumes "pos_ok x" "live_register H a p owned x = (None, x')"
  defines "i \<equiv> fb_id (H ! a)"
  shows "i \<noteq> 0 \<and> pos_ok x' \<and>
    (case dir x i of
       Some s \<Rightarrow> ls_impl s = a \<and> ls_parent s = p \<and> li_nextGeneration x' = li_nextGeneration x \<and>
         dir x' = (dir x)(i \<mapsto> s\<lparr>ls_impl := a, ls_treeOwned := ls_treeOwned s \<or> owned\<rparr>)
     | None \<Rightarrow> li_nextGeneration x' = li_nextGeneration x + 1 \<and> li_nextGeneration x + 1 \<noteq> 0 \<and>
         dir x' = (dir x)(i \<mapsto> \<lparr>ls_id = i, ls_generation = li_nextGeneration x + 1, ls_impl = a, ls_parent = p, ls_children = [], ls_treeOwned = owned\<rparr>))"
proof (cases "li_byID x i")
  case None
  let ?s = "\<lparr>ls_id = i, ls_generation = li_nextGeneration x + 1, ls_impl = a, ls_parent = p, ls_children = [], ls_treeOwned = owned\<rparr>"
  let ?y = "x\<lparr>li_slots := li_slots x @ [?s], li_byID := (li_byID x)(i \<mapsto> length (li_slots x))\<rparr>"
  have x': "li_slots x' = li_slots ?y" "li_byID x' = li_byID ?y" "li_nextGeneration x' = li_nextGeneration x + 1" "li_nextGeneration x + 1 \<noteq> 0" "i \<noteq> 0"
    using assms(2) None unfolding i_def by (auto simp: live_register_def Let_def split: if_splits)
  have A: "pos_ok ?y" "dir ?y = (dir x)(i \<mapsto> ?s)" by (rule append_slot [OF assms(1) None]; simp)+
  have "pos_ok x'" "dir x' = dir ?y" using A(1) unfolding pos_ok_def dir_def x'(1,2) by (simp_all add: fun_eq_iff dir_def x'(1,2))
  moreover have n: "dir x i = None" using None by (simp only: dir_None)
  ultimately show ?thesis unfolding n option.case using A(2) x'(3-5) by simp
next
  case (Some k)
  let ?s = "li_slots x ! k"
  let ?s' = "?s\<lparr>ls_impl := a, ls_treeOwned := ls_treeOwned ?s \<or> owned\<rparr>"
  note U = update_slot [OF assms(1) Some, of ?s'] dir_at [OF Some] pos_okD(2) [OF assms(1) Some]
  have "i \<noteq> 0" "ls_impl ?s = a" "ls_parent ?s = p" "x' = x\<lparr>li_slots := (li_slots x)[k := ?s']\<rparr>"
    using assms(2) Some unfolding i_def by (auto simp: live_register_def Let_def split: if_splits)
  then show ?thesis using U by simp
qed


lemma links_ok_touch:
  assumes "links_ok D n" "D i = Some s" "ls_id s' = ls_id s" "ls_generation s' = ls_generation s" "ls_parent s' = ls_parent s" "ls_children s' = ls_children s"
  shows "links_ok (D(i \<mapsto> s')) n"
proof (rule links_okI)
  note L = links_okD [OF assms(1)]
  have f: "\<exists>t. D j = Some t \<and> ls_id u = ls_id t \<and> ls_generation u = ls_generation t \<and> ls_parent u = ls_parent t \<and> ls_children u = ls_children t"
    if "(D(i \<mapsto> s')) j = Some u" for j u using that assms(2-6) by (auto split: if_splits)
  have g: "\<exists>u. (D(i \<mapsto> s')) j = Some u \<and> ls_generation u = ls_generation t \<and> ls_parent u = ls_parent t \<and> ls_children u = ls_children t"
    if "D j = Some t" for j t using that assms(2-6) by auto
  show "ls_id u = j \<and> j \<noteq> 0 \<and> 0 < unat (ls_generation u) \<and> unat (ls_generation u) \<le> n \<and> distinct (ls_children u)"
    if "(D(i \<mapsto> s')) j = Some u" for j u using f [OF that] L(1-5) [of j] by auto
  show "j = k" if "(D(i \<mapsto> s')) j = Some u" "(D(i \<mapsto> s')) k = Some v" "ls_generation u = ls_generation v" for j k u v
    using f [OF that(1)] f [OF that(2)] L(6) that(3) by metis
  show "\<exists>t. (D(i \<mapsto> s')) (ls_parent u) = Some t \<and> ls_generation t < ls_generation u \<and> j \<in> set (ls_children t)"
    if "(D(i \<mapsto> s')) j = Some u" "ls_parent u \<noteq> 0" for j u
    using f [OF that(1)] L(7) [of j] g [of "ls_parent u"] that(2) by metis
  show "\<exists>t. (D(i \<mapsto> s')) c = Some t \<and> ls_parent t = j" if "(D(i \<mapsto> s')) j = Some u" "c \<in> set (ls_children u)" for j u c
    using f [OF that(1)] L(8) [of j _ c] g [of c] that(2) by metis
qed

lemma links_ok_add:
  assumes "links_ok D n" "D i = None" "i \<noteq> 0" "ls_id s = i" "unat (ls_generation s) = n + 1" "ls_children s = []" "ls_parent s = p"
    "p \<noteq> 0 \<Longrightarrow> D p = Some t"
  shows "links_ok (if p = 0 then D(i \<mapsto> s) else with_child p i (D(i \<mapsto> s))) (n + 1)"
proof -
  note L = links_okD [OF assms(1)]
  have pi: "p \<noteq> i" if "p \<noteq> 0" using assms(2,8) that by auto
  let ?D = "if p = 0 then D(i \<mapsto> s) else with_child p i (D(i \<mapsto> s))"
  have D: "?D j = (if j = i then Some s else if p \<noteq> 0 \<and> j = p then Some (t\<lparr>ls_children := ls_children t @ [i]\<rparr>) else D j)" for j
    using assms(8) pi by (auto simp: with_child_def)
  have fresh: "i \<notin> set (ls_children u)" if "D j = Some u" for j u using L(8) [OF that] assms(2) by fastforce
  have gen: "ls_generation u < ls_generation s" if "D j = Some u" for j u using L(4) [OF that] assms(5) by (simp add: word_less_nat_alt)
  have old: "(j = i \<and> u = s) \<or> (j \<noteq> i \<and> (\<exists>v. D j = Some v \<and> ls_id u = ls_id v \<and> ls_generation u = ls_generation v \<and> ls_parent u = ls_parent v \<and>
      ls_children u = ls_children v @ (if p \<noteq> 0 \<and> j = p then [i] else [])))" if "?D j = Some u" for j u
    using that assms(8) unfolding D by (auto split: if_splits)
  have new: "\<exists>u. ?D j = Some u \<and> ls_generation u = ls_generation v \<and> ls_parent u = ls_parent v \<and> set (ls_children v) \<subseteq> set (ls_children u)" if "D j = Some v" for j v
    using that assms(2,8) unfolding D by (auto split: if_splits)
  have s: "?D i = Some s" unfolding D by simp
  show ?thesis
  proof (rule links_okI)
    show "ls_id u = j \<and> j \<noteq> 0 \<and> 0 < unat (ls_generation u) \<and> unat (ls_generation u) \<le> n + 1 \<and> distinct (ls_children u)" if "?D j = Some u" for j u
      using old [OF that]
    proof
      assume "j = i \<and> u = s"
      then show ?thesis using assms(3-6) by simp
    next
      assume "j \<noteq> i \<and> (\<exists>v. D j = Some v \<and> ls_id u = ls_id v \<and> ls_generation u = ls_generation v \<and> ls_parent u = ls_parent v \<and>
        ls_children u = ls_children v @ (if p \<noteq> 0 \<and> j = p then [i] else []))"
      then show ?thesis using L(1-5) [of j] fresh [of j] by fastforce
    qed
    show "j = k" if "?D j = Some u" "?D k = Some v" "ls_generation u = ls_generation v" for j k u v
      using old [OF that(1)] old [OF that(2)] that(3) L(6) gen by (metis order_less_irrefl)
    show "\<exists>w. ?D (ls_parent u) = Some w \<and> ls_generation w < ls_generation u \<and> j \<in> set (ls_children w)" if h: "?D j = Some u" "ls_parent u \<noteq> 0" for j u
      using old [OF h(1)]
    proof
      assume u: "j = i \<and> u = s"
      then have "p \<noteq> 0" using h(2) assms(7) by simp
      then have "?D p = Some (t\<lparr>ls_children := ls_children t @ [i]\<rparr>)" "D p = Some t" unfolding D using pi assms(8) by simp_all
      then show ?thesis using u assms(7) gen by simp
    next
      assume "j \<noteq> i \<and> (\<exists>v. D j = Some v \<and> ls_id u = ls_id v \<and> ls_generation u = ls_generation v \<and> ls_parent u = ls_parent v \<and>
        ls_children u = ls_children v @ (if p \<noteq> 0 \<and> j = p then [i] else []))"
      then obtain v where v: "D j = Some v" "ls_generation u = ls_generation v" "ls_parent u = ls_parent v" by blast
      obtain w where w: "D (ls_parent u) = Some w" "ls_generation w < ls_generation v" "j \<in> set (ls_children w)" using L(7) [OF v(1)] h(2) v(3) by auto
      obtain w' where "?D (ls_parent u) = Some w'" "ls_generation w' = ls_generation w" "set (ls_children w) \<subseteq> set (ls_children w')" using new [OF w(1)] by blast
      then show ?thesis using w v(2) by auto
    qed
    show "\<exists>w. ?D c = Some w \<and> ls_parent w = j" if h: "?D j = Some u" "c \<in> set (ls_children u)" for j u c
      using old [OF h(1)]
    proof
      assume "j = i \<and> u = s"
      then show ?thesis using assms(6) h(2) by simp
    next
      assume "j \<noteq> i \<and> (\<exists>v. D j = Some v \<and> ls_id u = ls_id v \<and> ls_generation u = ls_generation v \<and> ls_parent u = ls_parent v \<and>
        ls_children u = ls_children v @ (if p \<noteq> 0 \<and> j = p then [i] else []))"
      then obtain v where v: "D j = Some v" "ls_children u = ls_children v @ (if p \<noteq> 0 \<and> j = p then [i] else [])" by blast
      show ?thesis
      proof (cases "c \<in> set (ls_children v)")
        case True
        then show ?thesis using L(8) [OF v(1)] new by metis
      next
        case False
        then have "c = i" "j = p" using h(2) v(2) by (auto split: if_splits)
        then show ?thesis using s assms(7) by blast
      qed
    qed
  qed
qed

text \<open>What a registration keeps of every slot.\<close>

definition keeps_slots :: "(FacetID \<Rightarrow> liveSlot option) \<Rightarrow> (FacetID \<Rightarrow> liveSlot option) \<Rightarrow> bool" where
  "keeps_slots D D' \<longleftrightarrow> (\<forall>i s. D i = Some s \<longrightarrow>
     (\<exists>s'. D' i = Some s' \<and> ls_generation s' = ls_generation s \<and> ls_impl s' = ls_impl s \<and> ls_parent s' = ls_parent s \<and> set (ls_children s) \<subseteq> set (ls_children s')))"

lemma keeps_slots_refl: "keeps_slots D D"
  by (simp add: keeps_slots_def)

lemma keeps_slots_trans:
  assumes "keeps_slots D D1" "keeps_slots D1 D2"
  shows "keeps_slots D D2"
  unfolding keeps_slots_def
proof (intro allI impI)
  fix i s assume "D i = Some s"
  then obtain s1 where s1: "D1 i = Some s1" "ls_generation s1 = ls_generation s" "ls_impl s1 = ls_impl s" "ls_parent s1 = ls_parent s" "set (ls_children s) \<subseteq> set (ls_children s1)"
    using assms(1) unfolding keeps_slots_def by blast
  then obtain s2 where "D2 i = Some s2" "ls_generation s2 = ls_generation s1" "ls_impl s2 = ls_impl s1" "ls_parent s2 = ls_parent s1" "set (ls_children s1) \<subseteq> set (ls_children s2)"
    using assms(2) unfolding keeps_slots_def by blast
  then show "\<exists>s'. D2 i = Some s' \<and> ls_generation s' = ls_generation s \<and> ls_impl s' = ls_impl s \<and> ls_parent s' = ls_parent s \<and> set (ls_children s) \<subseteq> set (ls_children s')"
    using s1 by auto
qed

lemma register_one_ok:
  assumes "live_ok x" "register_one H owned (a, p) x = (None, x')" "p \<noteq> fb_id (H ! a) \<or> li_byID x (fb_id (H ! a)) \<noteq> None"
  shows "live_ok x' \<and> older (dir x) (unat (li_nextGeneration x)) (dir x') \<and> unat (li_nextGeneration x) \<le> unat (li_nextGeneration x') \<and>
    keeps_slots (dir x) (dir x') \<and> dom (dir x') = insert (fb_id (H ! a)) (dom (dir x)) \<and>
    (\<exists>s. dir x' (fb_id (H ! a)) = Some s \<and> ls_impl s = a \<and> ls_parent s = p)"
proof -
  let ?i = "fb_id (H ! a)" and ?n = "unat (li_nextGeneration x)"
  have ok: "pos_ok x" "links_ok (dir x) ?n" using assms(1) by (simp_all add: live_ok_def)
  note L = links_okD [OF ok(2)]
  obtain x1 where r: "live_register H a p owned x = (None, x1)" "live_link p ?i x1 = (None, x')"
    using assms(2) by (auto simp: register_one_def split: prod.splits option.splits)
  note R = register_map [OF ok(1) r(1)]
  note K = link_map [OF _ r(2)]
  show ?thesis
  proof (cases "dir x ?i")
    case (Some s)
    let ?s = "s\<lparr>ls_impl := a, ls_treeOwned := ls_treeOwned s \<or> owned\<rparr>"
    have x1: "pos_ok x1" "?i \<noteq> 0" "ls_impl s = a" "ls_parent s = p" "li_nextGeneration x1 = li_nextGeneration x" "dir x1 = (dir x)(?i \<mapsto> ?s)"
      using R Some by simp_all
    have same: "dir x' = dir x1 \<and> pos_ok x' \<and> li_nextGeneration x' = li_nextGeneration x"
    proof (cases "p = 0")
      case True
      then show ?thesis using K [OF x1(1,2)] x1(5) by simp
    next
      case False
      obtain t where t: "dir x p = Some t" "?i \<in> set (ls_children t)" "ls_generation t < ls_generation s" using L(7) [OF Some] False x1(4) by auto
      have "p \<noteq> ?i" using t(1,3) Some by auto
      then show ?thesis using K [OF x1(1,2)] False t(1,2) x1(5,6) by simp
    qed
    have D: "dir x' = (dir x)(?i \<mapsto> ?s)" using same x1(6) by simp
    have "links_ok (dir x') ?n" unfolding D by (rule links_ok_touch [OF ok(2) Some]) simp_all
    then have "live_ok x'" using same by (simp add: live_ok_def)
    moreover have "older (dir x) ?n (dir x')" using Some x1(3) unfolding D older_def by auto
    moreover have "keeps_slots (dir x) (dir x')" using Some x1(3) unfolding D keeps_slots_def by auto
    moreover have "dom (dir x') = insert ?i (dom (dir x))" using Some unfolding D by auto
    moreover have "\<exists>s. dir x' ?i = Some s \<and> ls_impl s = a \<and> ls_parent s = p" unfolding D using x1(4) by simp
    ultimately show ?thesis using same by simp
  next
    case None
    let ?s = "\<lparr>ls_id = ?i, ls_generation = li_nextGeneration x + 1, ls_impl = a, ls_parent = p, ls_children = [], ls_treeOwned = owned\<rparr>"
    have x1: "pos_ok x1" "?i \<noteq> 0" "li_nextGeneration x1 = li_nextGeneration x + 1" "li_nextGeneration x + 1 \<noteq> 0" "dir x1 = (dir x)(?i \<mapsto> ?s)"
      using R None by simp_all
    have g: "unat (li_nextGeneration x + 1) = ?n + 1" using x1(4) by (simp add: unat_eq_zero unatSuc add.commute)
    have pi: "p \<noteq> ?i" using assms(3) None by auto
    have link: "p = 0 \<or> (\<exists>t. dir x p = Some t)" using K [OF x1(1,2)] x1(5) pi by (auto split: if_splits)
    have D: "dir x' = (if p = 0 then (dir x)(?i \<mapsto> ?s) else with_child p ?i ((dir x)(?i \<mapsto> ?s)))" "pos_ok x'" "li_nextGeneration x' = li_nextGeneration x + 1"
    proof -
      have "?i \<notin> set (ls_children t)" if "dir x p = Some t" for t using L(8) [OF that] None by fastforce
      then show "dir x' = (if p = 0 then (dir x)(?i \<mapsto> ?s) else with_child p ?i ((dir x)(?i \<mapsto> ?s)))" "pos_ok x'" "li_nextGeneration x' = li_nextGeneration x + 1"
        using K [OF x1(1,2)] x1(3,5) link pi by (auto split: if_splits)
    qed
    obtain t where t: "p \<noteq> 0 \<Longrightarrow> dir x p = Some t" using link by blast
    have at: "dir x' j = (if j = ?i then Some ?s else if p \<noteq> 0 \<and> j = p then Some (t\<lparr>ls_children := ls_children t @ [?i]\<rparr>) else dir x j)" for j
      unfolding D(1) using t pi by (auto simp: with_child_def)
    have "links_ok (dir x') (?n + 1)" unfolding D(1) by (rule links_ok_add [OF ok(2) None x1(2)]) (use g t in simp_all)
    then have "live_ok x'" using D(2,3) g by (simp add: live_ok_def)
    moreover have "older (dir x) ?n (dir x')" unfolding older_def using t g by (auto simp: at split: if_splits)
    moreover have "keeps_slots (dir x) (dir x')" unfolding keeps_slots_def
    proof (intro allI impI)
      fix j s assume s: "dir x j = Some s"
      then have "j \<noteq> ?i" using None by (metis option.distinct(1))
      then show "\<exists>s'. dir x' j = Some s' \<and> ls_generation s' = ls_generation s \<and> ls_impl s' = ls_impl s \<and> ls_parent s' = ls_parent s \<and>
          set (ls_children s) \<subseteq> set (ls_children s')" using s t by (auto simp: at)
    qed
    moreover have "dom (dir x') = insert ?i (dom (dir x))" using t by (auto simp: dom_def at simp del: dir_None split: if_splits)
    ultimately show ?thesis using D(3) g at [of ?i] by simp
  qed
qed


text \<open>What every call that returns keeps: a well-formed directory whose generations are new.\<close>

definition advances :: "liveIndex \<Rightarrow> liveIndex \<Rightarrow> bool" where
  "advances x x' \<longleftrightarrow> older (dir x) (unat (li_nextGeneration x)) (dir x') \<and> unat (li_nextGeneration x) \<le> unat (li_nextGeneration x')"

lemma advances_refl [simp]: "advances x x"
  by (simp add: advances_def older_refl)

lemma advances_trans: "advances x y \<Longrightarrow> advances y z \<Longrightarrow> advances x z"
  using older_trans by (auto simp: advances_def)

lemma register_all_ok:
  assumes "register_all H owned es x = (None, x')" "live_ok x" "\<forall>e \<in> set es. snd e \<noteq> fb_id (H ! fst e) \<or> li_byID x (fb_id (H ! fst e)) \<noteq> None"
  shows "live_ok x' \<and> advances x x' \<and> keeps_slots (dir x) (dir x') \<and>
    dom (dir x') = (\<lambda>e. fb_id (H ! fst e)) ` set es \<union> dom (dir x) \<and>
    (\<forall>e \<in> set es. \<exists>s. dir x' (fb_id (H ! fst e)) = Some s \<and> ls_impl s = fst e \<and> ls_parent s = snd e)"
  using assms
proof (induction es arbitrary: x)
  case Nil
  then show ?case by (simp add: keeps_slots_refl)
next
  case (Cons e es)
  obtain a p where e: "e = (a, p)" by (cases e)
  obtain x1 where x1: "register_one H owned e x = (None, x1)" "register_all H owned es x1 = (None, x')"
    using Cons(2) by (auto split: prod.splits option.splits)
  have "register_one H owned (a, p) x = (None, x1)" "p \<noteq> fb_id (H ! a) \<or> li_byID x (fb_id (H ! a)) \<noteq> None" using x1(1) Cons(4) e by simp_all
  note one = register_one_ok [OF Cons(3) this]
  have mono: "li_byID x1 i \<noteq> None" if "li_byID x i \<noteq> None" for i
  proof -
    have "i \<in> dom (dir x)" using that by (auto simp: domIff)
    then have "i \<in> dom (dir x1)" using one by blast
    then show ?thesis by (auto simp: domIff)
  qed
  have all: "live_ok x' \<and> advances x1 x' \<and> keeps_slots (dir x1) (dir x') \<and> dom (dir x') = (\<lambda>e. fb_id (H ! fst e)) ` set es \<union> dom (dir x1) \<and>
    (\<forall>e \<in> set es. \<exists>s. dir x' (fb_id (H ! fst e)) = Some s \<and> ls_impl s = fst e \<and> ls_parent s = snd e)"
    by (rule Cons(1) [OF x1(2)]) (use one Cons(4) mono in auto)
  obtain s where s: "dir x1 (fb_id (H ! a)) = Some s" "ls_impl s = a" "ls_parent s = p" using one by blast
  obtain s' where "dir x' (fb_id (H ! a)) = Some s'" "ls_impl s' = ls_impl s" "ls_parent s' = ls_parent s"
    using all s(1) unfolding keeps_slots_def by blast
  then have "\<forall>d \<in> set (e # es). \<exists>s. dir x' (fb_id (H ! fst d)) = Some s \<and> ls_impl s = fst d \<and> ls_parent s = snd d" using all s e by auto
  moreover have "advances x x'" using one all advances_trans [of x x1 x'] by (simp add: advances_def)
  moreover have "keeps_slots (dir x) (dir x')" using one all keeps_slots_trans by blast
  moreover have "dom (dir x') = (\<lambda>e. fb_id (H ! fst e)) ` set (e # es) \<union> dom (dir x)" using one all e by auto
  ultimately show ?case using all by blast
qed

text \<open>An entry of a collected subtree is where the walk started or a child of another facet.\<close>

lemma collect_entries:
  assumes "collect_loop H st seen ordered = Some (Inr es)" "forest w" "fw_heap w = H" "\<forall>e \<in> set st. fst e < length H"
  shows "\<forall>e \<in> set es. e \<in> set ordered \<or> (fst e < length H \<and> (e \<in> set st \<or> snd e \<noteq> fb_id (H ! fst e)))"
proof -
  let ?P = "\<lambda>H' st (seen :: FacetID list) ordered (y :: live_panic + (nat \<times> FacetID) list). H' = H \<longrightarrow> (\<forall>e \<in> set st. fst e < length H) \<longrightarrow>
    (\<forall>zs. y = Inr zs \<longrightarrow> (\<forall>e \<in> set zs. e \<in> set ordered \<or> (fst e < length H \<and> (e \<in> set st \<or> snd e \<noteq> fb_id (H ! fst e)))))"
  have child: "c < length H \<and> fb_id (H ! c) \<noteq> fb_id (H ! b)" if "b < length H" "c \<in> set (fb_children (H ! b))" for b c
  proof -
    have "c < length H" "fb_parent (H ! c) = Some b" using forestD(2) [OF assms(2), of b c] that assms(3) by auto
    moreover have "c \<noteq> b"
    proof
      assume "c = b"
      then have "(b, b) \<in> edges H" using that(1) \<open>fb_parent (H ! c) = Some b\<close> by (simp add: edges_def)
      then show False using forestD(4) [OF assms(2)] assms(3) by (auto simp: acyclic_def)
    qed
    moreover have "distinct (map fb_id H)" using forestD(5) [OF assms(2)] assms(3) by simp
    ultimately show ?thesis using that(1) nth_eq_iff_index_eq [of "map fb_id H" c b] by simp
  qed
  have "?P H st seen ordered (Inr es)"
  proof (rule collect_loop.raw_induct [of ?P, OF _ assms(1)], intro impI allI ballI)
    fix g H' st seen ordered y es e
    assume IH: "\<And>H' st seen ordered y. g H' st seen ordered = Some y \<Longrightarrow> ?P H' st seen ordered y"
      and eq: "(case st of [] \<Rightarrow> Some (Inr ordered)
        | (a, p) # rest \<Rightarrow>
            if fb_state (H' ! a) = StateDisposed then g H' rest seen ordered
            else if fb_id (H' ! a) = 0 then Some (Inl ZeroIdentity)
            else if fb_id (H' ! a) \<in> set seen then Some (Inl (DuplicateInSubtree (fb_id (H' ! a))))
            else g H' (map (\<lambda>c. (c, fb_id (H' ! a))) (rev (fb_children (H' ! a))) @ rest) (fb_id (H' ! a) # seen) (ordered @ [(a, p)])) = Some y"
      and h: "H' = H" "\<forall>e \<in> set st. fst e < length H" "y = Inr es" "e \<in> set es"
    show "e \<in> set ordered \<or> (fst e < length H \<and> (e \<in> set st \<or> snd e \<noteq> fb_id (H ! fst e)))"
    proof (cases st)
      case Nil
      then show ?thesis using eq h by simp
    next
      case (Cons ap rest)
      obtain a p where ap: "ap = (a, p)" by (cases ap)
      have a: "a < length H" using h(2) Cons ap by simp
      show ?thesis
      proof (cases "fb_state (H ! a) = StateDisposed")
        case True
        then have "g H rest seen ordered = Some y" using eq Cons ap h(1) by simp
        then show ?thesis using IH [of H rest seen ordered y] h Cons by auto
      next
        case False
        let ?st = "map (\<lambda>c. (c, fb_id (H ! a))) (rev (fb_children (H ! a))) @ rest"
        have G: "g H ?st (fb_id (H ! a) # seen) (ordered @ [(a, p)]) = Some y" using eq Cons ap h(1,3) False by (auto split: if_splits)
        have "\<forall>e \<in> set ?st. fst e < length H" using child [OF a] h(2) Cons by auto
        then have "e \<in> set (ordered @ [(a, p)]) \<or> (fst e < length H \<and> (e \<in> set ?st \<or> snd e \<noteq> fb_id (H ! fst e)))"
          using IH [OF G] h(3,4) by blast
        moreover have "snd e \<noteq> fb_id (H ! fst e)" if "e \<in> set (map (\<lambda>c. (c, fb_id (H ! a))) (rev (fb_children (H ! a))))"
          using that child [OF a] by (metis (no_types, lifting) fst_conv image_iff image_set set_rev snd_conv)
        ultimately show ?thesis using Cons ap a by auto
      qed
    qed
  qed
  then show ?thesis using assms(4) by blast
qed


section \<open>Removing subtrees\<close>

definition cut :: "FacetID set \<Rightarrow> (FacetID \<Rightarrow> liveSlot option) \<Rightarrow> FacetID \<Rightarrow> liveSlot option" where
  "cut R D i = (if i \<in> R then None else map_option (\<lambda>s. s\<lparr>ls_children := filter (\<lambda>c. c \<notin> R) (ls_children s)\<rparr>) (D i))"

definition links :: "(FacetID \<Rightarrow> liveSlot option) \<Rightarrow> (FacetID \<times> FacetID) set" where
  "links D = {(p, c). \<exists>s. D p = Some s \<and> c \<in> set (ls_children s)}"

text \<open>The identifiers below one that is live.\<close>

definition down :: "(FacetID \<Rightarrow> liveSlot option) \<Rightarrow> FacetID \<Rightarrow> FacetID set" where
  "down D i = (if D i = None then {} else {j. (i, j) \<in> (links D)\<^sup>*})"

definition closed_set :: "(FacetID \<Rightarrow> liveSlot option) \<Rightarrow> FacetID set \<Rightarrow> bool" where
  "closed_set D R \<longleftrightarrow> (\<forall>p c. (p, c) \<in> links D \<and> p \<in> R \<longrightarrow> c \<in> R)"

lemma cut_empty [simp]: "cut {} D = D"
proof
  fix i show "cut {} D i = D i" by (cases "D i") (simp_all add: cut_def)
qed

lemma cut_cut: "cut S (cut R D) = cut (R \<union> S) D"
proof
  fix i show "cut S (cut R D) i = cut (R \<union> S) D i"
    by (cases "D i") (auto simp: cut_def comp_def intro!: arg_cong [where f = "\<lambda>xs. (the (D i))\<lparr>ls_children := xs\<rparr>"] filter_cong)
qed

lemma cut_Some: "cut R D i = Some s' \<longleftrightarrow> i \<notin> R \<and> (\<exists>s. D i = Some s \<and> s' = s\<lparr>ls_children := filter (\<lambda>c. c \<notin> R) (ls_children s)\<rparr>)"
  by (auto simp: cut_def)

lemma links_cut: "(p, c) \<in> links (cut R D) \<longleftrightarrow> (p, c) \<in> links D \<and> p \<notin> R \<and> c \<notin> R"
  by (auto simp: links_def cut_Some)

lemma links_ok_cut:
  assumes "links_ok D n" "closed_set D R"
  shows "links_ok (cut R D) n"
proof (rule links_okI)
  note L = links_okD [OF assms(1)]
  show "ls_id s = i \<and> i \<noteq> 0 \<and> 0 < unat (ls_generation s) \<and> unat (ls_generation s) \<le> n \<and> distinct (ls_children s)" if "cut R D i = Some s" for i s
    using that L(1-5) [of i] by (auto simp: cut_Some)
  show "i = j" if "cut R D i = Some s" "cut R D j = Some t" "ls_generation s = ls_generation t" for i j s t
    using that L(6) by (auto simp: cut_Some)
  show "\<exists>t. cut R D (ls_parent s) = Some t \<and> ls_generation t < ls_generation s \<and> i \<in> set (ls_children t)"
    if h: "cut R D i = Some s" "ls_parent s \<noteq> 0" for i s
  proof -
    obtain u where u: "D i = Some u" "i \<notin> R" "ls_parent u = ls_parent s" "ls_generation u = ls_generation s" using h(1) by (auto simp: cut_Some)
    obtain t where t: "D (ls_parent s) = Some t" "ls_generation t < ls_generation s" "i \<in> set (ls_children t)" using L(7) [OF u(1)] h(2) u(3,4) by auto
    have "ls_parent s \<notin> R" using assms(2) u(2) t(1,3) by (auto simp: closed_set_def links_def)
    then show ?thesis using t u(2) by (simp add: cut_Some)
  qed
  show "\<exists>t. cut R D c = Some t \<and> ls_parent t = i" if h: "cut R D i = Some s" "c \<in> set (ls_children s)" for i s c
  proof -
    obtain u where u: "D i = Some u" "c \<in> set (ls_children u)" "c \<notin> R" using h by (auto simp: cut_Some)
    obtain t where "D c = Some t" "ls_parent t = i" using L(8) [OF u(1,2)] by blast
    then show ?thesis using u(3) by (simp add: cut_Some)
  qed
qed

lemma down_closed: "closed_set D (down D i)"
  by (auto simp: closed_set_def down_def intro: rtrancl_into_rtrancl split: if_splits)

lemma closed_Union: "(\<And>i. i \<in> I \<Longrightarrow> closed_set D (F i)) \<Longrightarrow> closed_set D (\<Union>i \<in> I. F i)"
  by (fastforce simp: closed_set_def)

lemma rtrancl_first: "(i, j) \<in> r\<^sup>* \<longleftrightarrow> j = i \<or> (\<exists>c. (i, c) \<in> r \<and> (c, j) \<in> r\<^sup>*)"
  by (metis converse_rtranclE converse_rtrancl_into_rtrancl rtrancl.rtrancl_refl)

text \<open>Generations grow along the links, so a facet is not below its children.\<close>

lemma down_generation:
  assumes "links_ok D n" "(i, j) \<in> (links D)\<^sup>*" "D i = Some s"
  shows "\<exists>t. D j = Some t \<and> ls_generation s \<le> ls_generation t \<and> (i = j \<or> ls_generation s < ls_generation t)"
  using assms(2)
proof (induction rule: rtrancl_induct)
  case base
  then show ?case using assms(3) by simp
next
  case (step j k)
  then obtain t where t: "D j = Some t" "ls_generation s \<le> ls_generation t" by blast
  obtain c where "k \<in> set (ls_children t)" using step(2) t(1) by (auto simp: links_def)
  then obtain u where u: "D k = Some u" "ls_parent u = j" using links_okD(8) [OF assms(1) t(1)] by blast
  obtain t' where "D j = Some t'" "ls_generation t' < ls_generation u" using links_okD(7) [OF assms(1) u(1)] u(2) links_okD(2) [OF assms(1) t(1)] by auto
  then show ?case using t u(1) by auto
qed

lemma down_step:
  assumes "links_ok D n" "D i = Some s"
  shows "down D i = insert i (\<Union>c \<in> set (ls_children s). down D c)" "i \<notin> (\<Union>c \<in> set (ls_children s). down D c)"
proof -
  have live: "D c \<noteq> None" if "c \<in> set (ls_children s)" for c using links_okD(8) [OF assms that] by auto
  have "(i, j) \<in> (links D)\<^sup>* \<longleftrightarrow> j = i \<or> (\<exists>c \<in> set (ls_children s). (c, j) \<in> (links D)\<^sup>*)" for j
  proof -
    have "(i, c) \<in> links D \<longleftrightarrow> c \<in> set (ls_children s)" for c using assms(2) by (simp add: links_def)
    then show ?thesis using rtrancl_first [of i j "links D"] by blast
  qed
  then show "down D i = insert i (\<Union>c \<in> set (ls_children s). down D c)" using assms(2) live by (auto simp: down_def)
  show "i \<notin> (\<Union>c \<in> set (ls_children s). down D c)"
  proof
    assume "i \<in> (\<Union>c \<in> set (ls_children s). down D c)"
    then obtain c where c: "c \<in> set (ls_children s)" "(c, i) \<in> (links D)\<^sup>*" by (auto simp: down_def split: if_splits)
    obtain t where t: "D c = Some t" "ls_parent t = i" using links_okD(8) [OF assms c(1)] by blast
    have "ls_generation s < ls_generation t" using links_okD(7) [OF assms(1) t(1)] t(2) assms(2) links_okD(2) [OF assms] by auto
    then show False using down_generation [OF assms(1) c(2) t(1)] assms(2) by auto
  qed
qed

text \<open>Below a cut nothing new appears, and what was below is below or cut.\<close>

lemma down_cut:
  assumes "closed_set D R"
  shows "R \<union> down (cut R D) i = R \<union> down D i"
proof -
  have a: "(i, j) \<in> (links (cut R D))\<^sup>* \<Longrightarrow> (i, j) \<in> (links D)\<^sup>*" for j
    by (induction rule: rtrancl_induct) (auto simp: links_cut intro: rtrancl_into_rtrancl)
  have b: "(i, j) \<in> (links D)\<^sup>* \<Longrightarrow> j \<in> R \<or> (i, j) \<in> (links (cut R D))\<^sup>*" for j
  proof (induction rule: rtrancl_induct)
    case (step j k)
    then show ?case using assms by (cases "j \<in> R \<or> k \<in> R") (auto simp: closed_set_def links_cut intro: rtrancl_into_rtrancl)
  qed simp
  have c: "i \<in> R \<Longrightarrow> (i, j) \<in> (links D)\<^sup>* \<Longrightarrow> j \<in> R" for j
  proof -
    assume "i \<in> R" and "(i, j) \<in> (links D)\<^sup>*"
    from this(2,1) show "j \<in> R" by (induction rule: rtrancl_induct) (use assms in \<open>auto simp: closed_set_def\<close>)
  qed
  show ?thesis using a b c by (auto simp: down_def cut_def split: if_splits)
qed

lemma remove1_filter: "distinct xs \<Longrightarrow> remove1 i xs = filter (\<lambda>c. c \<noteq> i) xs"
  by (simp add: distinct_remove1_removeAll removeAll_filter_not_eq) (rule filter_cong; auto)

text \<open>One slot goes, and its parent forgets it.\<close>

lemma unlink_map:
  assumes "pos_ok x" "links_ok (dir x) n" "dir x i = Some s" "ls_children s = []"
  shows "pos_ok (unlink (ls_parent s) i x)" "li_nextGeneration (unlink (ls_parent s) i x) = li_nextGeneration x"
    "\<And>j. j \<noteq> i \<Longrightarrow> dir (unlink (ls_parent s) i x) j = cut {i} (dir x) j" "li_byID (unlink (ls_parent s) i x) = li_byID x"
proof -
  let ?p = "ls_parent s" and ?D = "dir x"
  note L = links_okD [OF assms(2)]
  have h: "dir (x\<lparr>li_hosted := h\<rparr>) = dir x" "pos_ok (x\<lparr>li_hosted := h\<rparr>) = pos_ok x" for h and x :: liveIndex by (simp_all add: dir_def fun_eq_iff pos_ok_def)
  have other: "cut {i} ?D j = ?D j" if "j \<noteq> i" "j \<noteq> ?p" for j
  proof (cases "?D j")
    case None
    then show ?thesis using that(1) by (simp add: cut_def del: dir_None)
  next
    case (Some t)
    have "i \<notin> set (ls_children t)" using L(8) [OF Some] assms(3) that(2) by fastforce
    then have "filter (\<lambda>c. c \<notin> {i}) (ls_children t) = ls_children t" by (auto simp: filter_id_conv)
    then show ?thesis using that(1) Some by (simp add: cut_def)
  qed
  have p: "if ?p = 0 then unlink ?p i x = x
    else \<exists>t. ?D ?p = Some t \<and> ?p \<noteq> i \<and> pos_ok (unlink ?p i x) \<and> dir (unlink ?p i x) = ?D(?p \<mapsto> t\<lparr>ls_children := remove1 i (ls_children t)\<rparr>) \<and>
      li_byID (unlink ?p i x) = li_byID x \<and> li_nextGeneration (unlink ?p i x) = li_nextGeneration x"
  proof (cases "?p = 0")
    case True
    then show ?thesis by (simp add: unlink_def)
  next
    case False
    obtain t where t: "?D ?p = Some t" "ls_generation t < ls_generation s" using L(7) [OF assms(3)] False by blast
    obtain k where k: "li_byID x ?p = Some k" "t = li_slots x ! k" using t(1) by (auto simp: dir_def)
    let ?t = "t\<lparr>ls_children := remove1 i (ls_children t)\<rparr>"
    have U: "pos_ok (x\<lparr>li_slots := (li_slots x)[k := ?t]\<rparr>)" "dir (x\<lparr>li_slots := (li_slots x)[k := ?t]\<rparr>) = ?D(?p \<mapsto> ?t)"
      by (rule update_slot [OF assms(1) k(1)]; use dir_Some [OF assms(1) t(1)] in simp)+
    have "?p \<noteq> i" using t assms(3) by auto
    then show ?thesis using False t(1) U k by (simp add: unlink_def Let_def h split: option.split)
  qed
  show "pos_ok (unlink ?p i x)" "li_nextGeneration (unlink ?p i x) = li_nextGeneration x" "li_byID (unlink ?p i x) = li_byID x"
    using p assms(1) by (auto split: if_splits)
  show "dir (unlink ?p i x) j = cut {i} ?D j" if "j \<noteq> i" for j
  proof (cases "j = ?p \<and> ?p \<noteq> 0")
    case True
    then obtain t where t: "?D ?p = Some t" "dir (unlink ?p i x) j = Some (t\<lparr>ls_children := remove1 i (ls_children t)\<rparr>)" using p by auto
    then show ?thesis using True that remove1_filter [OF L(5) [OF t(1)]] by (simp add: cut_def)
  next
    case False
    then have same: "dir (unlink ?p i x) j = ?D j" using p by (auto split: if_splits)
    show ?thesis
    proof (cases "j = ?p")
      case True
      then have "?D j = None" using False L(2) [of j] by (cases "?D j") (simp_all del: dir_None)
      then show ?thesis unfolding same cut_def using that by (simp del: dir_None)
    next
      case False
      then show ?thesis using same other [OF that] by simp
    qed
  qed
qed

lemma remove_slot_map:
  assumes "live_ok x" "dir x i = Some s" "ls_children s = []"
  shows "pos_ok (remove_slot i x)" "dir (remove_slot i x) = cut {i} (dir x)" "li_nextGeneration (remove_slot i x) = li_nextGeneration x"
proof -
  have ok: "pos_ok x" "links_ok (dir x) (unat (li_nextGeneration x))" using assms(1) by (simp_all add: live_ok_def)
  obtain k where k: "li_byID x i = Some k" "s = li_slots x ! k" using assms(2) by (auto simp: dir_def)
  note U = unlink_map [OF ok assms(2,3)]
  let ?y = "(unlink (ls_parent s) i x)\<lparr>li_hosted := (li_hosted (unlink (ls_parent s) i x))(i := None)\<rparr>"
  have y: "pos_ok ?y" "li_byID ?y i = Some k" "dir ?y = dir (unlink (ls_parent s) i x)" using U(1,4) k(1) by (simp_all add: pos_ok_def dir_def fun_eq_iff)
  note P = drop_slot_map [OF y(1,2)]
  have r: "remove_slot i x = shrink (drop_slot i k ?y)" using k by (simp add: remove_slot_def Let_def)
  show "pos_ok (remove_slot i x)" unfolding r by (rule shrink_map(1) [OF P(1)])
  have "dir (remove_slot i x) = (dir (unlink (ls_parent s) i x))(i := None)" unfolding r shrink_map(2) [OF P(1)] P(2) y(3) by (rule refl)
  also have "\<dots> = cut {i} (dir x)" using U(3) by (auto simp: fun_eq_iff cut_def)
  finally show "dir (remove_slot i x) = cut {i} (dir x)" .
  have "li_nextGeneration (shrink z) = li_nextGeneration z" "li_nextGeneration (drop_slot i k z) = li_nextGeneration z" for z
    by (simp_all add: shrink_def drop_slot_def Let_def)
  then show "li_nextGeneration (remove_slot i x) = li_nextGeneration x" using U(2) by (simp add: r)
qed

text \<open>Removing subtrees ends and cuts out everything below them.\<close>

lemma remove_all_map:
  assumes "\<forall>i \<in> set is. \<forall>s. dir x i = Some s \<longrightarrow> unat (li_nextGeneration x) < m + unat (ls_generation s)" "live_ok x"
  shows "\<exists>x'. remove_all is x = Some x' \<and> live_ok x' \<and> li_nextGeneration x' = li_nextGeneration x \<and> dir x' = cut (\<Union>i \<in> set is. down (dir x) i) (dir x)"
  using assms
proof (induction m arbitrary: "is" x)
  case 0
  have "li_byID x i = None" if "i \<in> set is" for i
  proof (rule ccontr)
    assume "li_byID x i \<noteq> None"
    then obtain s where "dir x i = Some s" by (auto simp: dir_def)
    then show False using 0 that links_okD(4) [of "dir x" _ i s] by (fastforce simp: live_ok_def)
  qed
  then have "remove_all is x = Some x \<and> (\<Union>i \<in> set is. down (dir x) i) = {}"
  proof (induction "is")
    case Nil
    then show ?case by (simp add: remove_all.simps [of "[]"])
  next
    case (Cons i "is")
    then show ?case by (subst remove_all.simps) (simp add: down_def)
  qed
  then show ?case using 0 by simp
next
  case (Suc m)
  show ?case using Suc(2,3)
  proof (induction "is" arbitrary: x)
    case Nil
    then show ?case by (simp add: remove_all.simps [of "[]"])
  next
    case (Cons i "is")
    let ?D = "dir x" and ?n = "unat (li_nextGeneration x)"
    have ok: "links_ok ?D ?n" using Cons(3) by (simp add: live_ok_def)
    show ?case
    proof (cases "?D i")
      case None
      obtain x' where "remove_all is x = Some x'" "live_ok x'" "li_nextGeneration x' = li_nextGeneration x" "dir x' = cut (\<Union>i \<in> set is. down ?D i) ?D"
        using Cons(1) [OF _ Cons(3)] Cons(2) by auto
      then show ?thesis using None by (subst remove_all.simps) (simp add: down_def)
    next
      case (Some s)
      obtain k where k: "li_byID x i = Some k" "li_slots x ! k = s" using Some by (auto simp: dir_def)
      let ?R = "\<Union>c \<in> set (ls_children s). down ?D c"
      have c: "closed_set ?D ?R" by (intro closed_Union down_closed)
      have "?n < m + unat (ls_generation t)" if "c \<in> set (ls_children s)" "?D c = Some t" for c t
      proof -
        have "ls_parent t = i" using links_okD(8) [OF ok Some that(1)] that(2) by auto
        then have "ls_generation s < ls_generation t" using links_okD(7) [OF ok that(2)] Some links_okD(2) [OF ok Some] by auto
        then show ?thesis using Cons(2) Some by (auto simp: word_less_nat_alt)
      qed
      then obtain x1 where x1: "remove_all (ls_children s) x = Some x1" "live_ok x1" "li_nextGeneration x1 = li_nextGeneration x" "dir x1 = cut ?R ?D"
        using Suc(1) [OF _ Cons(3), of "ls_children s"] by blast
      note S = down_step [OF ok Some]
      have ch: "c \<in> ?R" if "c \<in> set (ls_children s)" for c
      proof -
        have "?D c \<noteq> None" using links_okD(8) [OF ok Some that] by (auto simp del: dir_None)
        then have "c \<in> down ?D c" by (simp add: down_def del: dir_None)
        then show ?thesis using that by blast
      qed
      have leaf: "dir x1 i = Some (s\<lparr>ls_children := []\<rparr>)" unfolding x1(4) cut_Some using S(2) Some ch by (auto simp: filter_empty_conv)
      note X = remove_slot_map [OF x1(2) leaf]
      let ?x2 = "remove_slot i x1"
      have D2: "dir ?x2 = cut (down ?D i) ?D" using X(2) x1(4) S(1) by (simp add: cut_cut Un_commute)
      have "live_ok ?x2" using X(1,3) x1(3) links_ok_cut [OF ok down_closed [of ?D i]] D2 by (simp add: live_ok_def)
      moreover have "\<forall>j \<in> set is. \<forall>t. dir ?x2 j = Some t \<longrightarrow> unat (li_nextGeneration ?x2) < Suc m + unat (ls_generation t)"
        using Cons(2) X(3) x1(3) unfolding D2 by (auto simp: cut_Some)
      ultimately obtain x' where x': "remove_all is ?x2 = Some x'" "live_ok x'" "li_nextGeneration x' = li_nextGeneration ?x2"
        "dir x' = cut (\<Union>j \<in> set is. down (dir ?x2) j) (dir ?x2)"
        using Cons(1) [of ?x2] by blast
      have "down ?D i \<union> (\<Union>j \<in> set is. down (dir ?x2) j) = down ?D i \<union> (\<Union>j \<in> set is. down ?D j)"
        using down_cut [OF down_closed [of ?D i]] unfolding D2 by blast
      then have "dir x' = cut (\<Union>j \<in> set (i # is). down ?D j) ?D" unfolding x'(4) D2 cut_cut by simp
      moreover have "remove_all (i # is) x = Some x'" using k x1(1) x'(1) by (subst remove_all.simps) simp
      ultimately show ?thesis using x'(2,3) X(3) x1(3) by auto
    qed
  qed
qed

lemma removeSubtree_map:
  assumes "live_ok x"
  shows "\<exists>x'. removeSubtree i x = Some x' \<and> live_ok x' \<and> li_nextGeneration x' = li_nextGeneration x \<and> dir x' = cut (down (dir x) i) (dir x)"
  using remove_all_map [of "[i]" x "unat (li_nextGeneration x) + 1"] assms by (simp add: removeSubtree_def)

end
