(* ===== verification/Live_Runs.thy ===== *)
theory Live_Runs
  imports Live_Index
begin

text \<open>
  Runs of the live directory (\<^verbatim>\<open>src/runtime/live_index.go\<close>): registrations of trees and of hosted
  facets, and removals, over whatever forest of facets there is at each moment. The table stays
  consistent, handles never resolve to another registration, and removals are exact.
\<close>

section \<open>Steps\<close>

inductive live_step :: "liveIndex \<Rightarrow> liveIndex \<Rightarrow> bool" where
  register_tree: "forest w \<Longrightarrow> root < length (fw_heap w) \<Longrightarrow> registerTree (fw_heap w) root x = Some (None, x') \<Longrightarrow> live_step x x'"
| register_hosted: "forest w \<Longrightarrow> set cs \<subseteq> {..< length (fw_heap w)} \<Longrightarrow> registerHosted (fw_heap w) old p cs x = Some (None, x') \<Longrightarrow> live_step x x'"
| remove_subtree: "removeSubtree i x = Some x' \<Longrightarrow> live_step x x'"

lemma older_cut: "older D n (cut R D)"
  by (auto simp: older_def cut_Some)

lemma removeSubtree_ok:
  assumes "removeSubtree i x = Some x'" "live_ok x"
  shows "live_ok x' \<and> advances x x'"
  using removeSubtree_map [OF assms(2), of i] assms(1) older_cut by (auto simp: advances_def)

lemma drop_hosted_ok: "drop_hosted new old x = Some x' \<Longrightarrow> live_ok x \<Longrightarrow> live_ok x' \<and> advances x x'"
proof (induction new old x rule: drop_hosted.induct)
  case (2 new i "is" x)
  show ?case
  proof (cases "i \<in> set new \<or> li_byID x i = None")
    case True
    then show ?thesis using 2 by (cases "i \<in> set new") auto
  next
    case False
    then obtain k where k: "li_byID x i = Some k" "i \<notin> set new" by auto
    show ?thesis
    proof (cases "ls_treeOwned (li_slots x ! k)")
      case True
      then show ?thesis using 2 k by auto
    next
      case False
      then obtain x1 where x1: "removeSubtree i x = Some x1" "drop_hosted new is x1 = Some x'" using 2(5) k by (auto split: option.splits)
      then show ?thesis using 2(4) [OF k(2,1) False x1(1)] removeSubtree_ok [OF x1(1) 2(6)] advances_trans by blast
    qed
  qed
qed simp

lemma count_visits_ok [simp]: "live_ok (count_visits n x) = live_ok x" "dir (count_visits n x) = dir x" "li_byID (count_visits n x) = li_byID x"
  "li_slots (count_visits n x) = li_slots x" "li_nextGeneration (count_visits n x) = li_nextGeneration x"
proof -
  show d: "dir (count_visits n x) = dir x" by (simp add: count_visits_def dir_def fun_eq_iff)
  show "li_byID (count_visits n x) = li_byID x" "li_slots (count_visits n x) = li_slots x" "li_nextGeneration (count_visits n x) = li_nextGeneration x"
    by (simp_all add: count_visits_def)
  then show "live_ok (count_visits n x) = live_ok x" by (simp add: live_ok_def pos_ok_def d)
qed

lemma hosted_ok [simp]: "live_ok (x\<lparr>li_hosted := hs\<rparr>) = live_ok x" "dir (x\<lparr>li_hosted := hs\<rparr>) = dir x"
proof -
  show d: "dir (x\<lparr>li_hosted := hs\<rparr>) = dir x" by (simp add: dir_def fun_eq_iff)
  show "live_ok (x\<lparr>li_hosted := hs\<rparr>) = live_ok x" unfolding live_ok_def pos_ok_def d by simp
qed
lemma check_owners_None:
  "check_owners H x known es = None \<Longrightarrow> e \<in> set es \<Longrightarrow> li_byID x (fb_id (H ! fst e)) = Some k \<Longrightarrow> ls_impl (li_slots x ! k) = fst e \<and> ls_parent (li_slots x ! k) = snd e"
  by (induction es) (auto simp: Let_def split: if_splits)

text \<open>A live facet is not its own parent, so a validated entry names another facet.\<close>

lemma validated_entries:
  assumes "live_ok x" "validateRegistrations H x es = None" "e \<in> set es" "li_byID x (fb_id (H ! fst e)) \<noteq> None"
  shows "snd e \<noteq> fb_id (H ! fst e)"
proof
  assume eq: "snd e = fb_id (H ! fst e)"
  obtain k where k: "li_byID x (fb_id (H ! fst e)) = Some k" using assms(4) by blast
  have "ls_parent (li_slots x ! k) = snd e" using check_owners_None [OF _ assms(3) k] assms(2) by (auto simp: validateRegistrations_def Let_def split: option.splits)
  moreover have d: "dir x (fb_id (H ! fst e)) = Some (li_slots x ! k)" by (rule dir_at [OF k])
  moreover have ok: "links_ok (dir x) (unat (li_nextGeneration x))" using assms(1) by (simp add: live_ok_def)
  ultimately show False using links_okD(7) [OF ok d] links_okD(2) [OF ok d] eq by auto
qed

lemma register_tree_entries:
  assumes "forest w" "root < length (fw_heap w)" "registerTree (fw_heap w) root x = Some (None, x')"
  obtains p es where "collectLiveSubtree (fw_heap w) root p = Some (Inr es)" "p = (case fb_parent (fac w root) of None \<Rightarrow> 0 | Some q \<Rightarrow> fb_id (fac w q))"
    "validateRegistrations (fw_heap w) (count_visits (length es) x) es = None" "register_all (fw_heap w) True es (count_visits (length es) x) = (None, x')"
    "\<forall>e \<in> set es. fst e < length (fw_heap w) \<and> snd e \<noteq> fb_id (fac w (fst e))"
proof -
  let ?p = "case fb_parent (fac w root) of None \<Rightarrow> 0 | Some q \<Rightarrow> fb_id (fac w q)"
  obtain es where es: "collectLiveSubtree (fw_heap w) root ?p = Some (Inr es)" "validateRegistrations (fw_heap w) (count_visits (length es) x) es = None"
    "register_all (fw_heap w) True es (count_visits (length es) x) = (None, x')"
    using assms(3) by (auto simp: registerTree_def Let_def split: option.splits sum.splits)
  have "?p \<noteq> fb_id (fac w root)"
  proof (cases "fb_parent (fac w root)")
    case None
    then show ?thesis using forestD(6) [OF assms(1)] assms(2) by auto
  next
    case (Some q)
    have q: "q < length (fw_heap w)" using forestD(1) [OF assms(1,2) Some] by simp
    have "(q, root) \<in> edges (fw_heap w)" using assms(2) Some by (simp add: edges_def)
    then have "q \<noteq> root" using forestD(4) [OF assms(1)] by (auto simp: acyclic_def)
    then show ?thesis using Some q assms(2) forestD(5) [OF assms(1)] nth_eq_iff_index_eq [of "map fb_id (fw_heap w)" q root] by simp
  qed
  then have "\<forall>e \<in> set es. fst e < length (fw_heap w) \<and> snd e \<noteq> fb_id (fac w (fst e))"
    using collect_entries [OF es(1) [unfolded collectLiveSubtree_def] assms(1)] assms(2) by auto
  then show ?thesis using that [OF es(1) refl es(2,3)] by blast
qed

lemma collect_hosted_entries:
  assumes "forest w"
  shows "collect_hosted (fw_heap w) p cs new entries = Some (Inr (new', es)) \<Longrightarrow> set cs \<subseteq> {..< length (fw_heap w)} \<Longrightarrow>
    \<forall>e \<in> set es. e \<in> set entries \<or> snd e \<noteq> fb_id (fac w (fst e)) \<or> snd e = p"
proof (induction cs arbitrary: new entries)
  case (Cons c cs)
  have c: "c < length (fw_heap w)" using Cons(3) by simp
  show ?case
  proof (cases "fb_state (fac w c) = StateDisposed")
    case True
    then show ?thesis using Cons by simp
  next
    case False
    obtain new1 es1 where 1: "collectLiveSubtree (fw_heap w) c p = Some (Inr es1)" "collect_hosted (fw_heap w) p cs new1 (entries @ es1) = Some (Inr (new', es))"
      using Cons(2) False by (auto simp: Let_def split: option.splits sum.splits if_splits)
    have "\<forall>e \<in> set es1. snd e \<noteq> fb_id (fac w (fst e)) \<or> snd e = p"
      using collect_entries [OF 1(1) [unfolded collectLiveSubtree_def] assms] c by auto
    then show ?thesis using Cons(1) [OF 1(2)] Cons(3) by auto
  qed
qed simp

lemma live_step_ok:
  assumes "live_step x x'" "live_ok x"
  shows "live_ok x' \<and> advances x x'"
  using assms(1)
proof cases
  case (register_tree w root)
  obtain p es where es: "register_all (fw_heap w) True es (count_visits (length es) x) = (None, x')"
    "\<forall>e \<in> set es. fst e < length (fw_heap w) \<and> snd e \<noteq> fb_id (fac w (fst e))"
    by (rule register_tree_entries [OF register_tree]) blast
  then show ?thesis using register_all_ok [OF es(1)] assms(2) by (auto simp: advances_def)
next
  case (register_hosted w cs old p)
  show ?thesis
  proof (cases "p = 0")
    case True
    then show ?thesis using register_hosted(3) assms(2) by (simp add: registerHosted_def)
  next
    case False
    obtain new es x2 x3 where r: "li_byID x p \<noteq> None" "collect_hosted (fw_heap w) p cs [] [] = Some (Inr (new, es))"
      "validateRegistrations (fw_heap w) (count_visits (length es) x) es = None" "drop_hosted new old (count_visits (length es) x) = Some x2"
      "register_all (fw_heap w) False es x2 = (None, x3)" "x' = x3\<lparr>li_hosted := (li_hosted x3)(p := if new = [] then None else Some (set new))\<rparr>"
      using register_hosted(3) False by (auto simp: registerHosted_def Let_def split: option.splits sum.splits if_splits prod.splits)

    have "snd e \<noteq> fb_id (fac w (fst e))" if "e \<in> set es" for e
      using collect_hosted_entries [OF register_hosted(1) r(2) register_hosted(2)] validated_entries [OF _ r(3) that] assms(2) r(1) that by fastforce
    moreover have 2: "live_ok x2 \<and> advances (count_visits (length es) x) x2" using drop_hosted_ok [OF r(4)] assms(2) by simp
    ultimately have "live_ok x3 \<and> advances x2 x3" using register_all_ok [OF r(5)] by blast
    then show ?thesis using 2 advances_trans [of x x2 x3] unfolding r(6) by (simp add: advances_def)
  qed
next
  case (remove_subtree i)
  then show ?thesis using removeSubtree_ok assms(2) by blast
qed

lemma live_run_ok: "live_step\<^sup>*\<^sup>* x x' \<Longrightarrow> live_ok x \<Longrightarrow> live_ok x' \<and> advances x x'"
proof (induction rule: rtranclp_induct)
  case (step y z)
  then show ?case using live_step_ok advances_trans by blast
qed simp

lemma newLiveIndex_ok: "live_ok newLiveIndex"
  by (simp add: live_ok_def newLiveIndex_def pos_ok_def links_ok_def dir_def)

section \<open>Properties\<close>

text \<open>
  C37: The directory is consistent in every run: the map and the table name each other; generations
  are distinct; a named parent is live and lists the child; and a listed child is live, is listed
  once and names that parent.
\<close>

theorem live_index_consistent:
  assumes "live_step\<^sup>*\<^sup>* newLiveIndex x"
  shows "(\<forall>i k. li_byID x i = Some k \<longleftrightarrow> k < length (li_slots x) \<and> ls_id (li_slots x ! k) = i) \<and>
    distinct (map ls_generation (li_slots x)) \<and>
    (\<forall>s \<in> set (li_slots x). ls_parent s \<noteq> 0 \<longrightarrow> (\<exists>t \<in> set (li_slots x). ls_id t = ls_parent s \<and> ls_id s \<in> set (ls_children t))) \<and>
    (\<forall>s \<in> set (li_slots x). distinct (ls_children s) \<and>
       (\<forall>c \<in> set (ls_children s). \<exists>t \<in> set (li_slots x). ls_id t = c \<and> ls_parent t = ls_id s))"
proof -
  have ok: "pos_ok x" "links_ok (dir x) (unat (li_nextGeneration x))" using live_run_ok [OF assms newLiveIndex_ok] by (simp_all add: live_ok_def)
  note P = pos_okD [OF ok(1)] and L = links_okD [OF ok(2)]
  have at: "dir x (ls_id s) = Some s" if "s \<in> set (li_slots x)" for s
  proof -
    obtain k where "k < length (li_slots x)" "s = li_slots x ! k" using \<open>s \<in> set (li_slots x)\<close> by (auto simp: in_set_conv_nth)
    then show ?thesis using P(3) [of k] dir_at by auto
  qed
  have mem: "t \<in> set (li_slots x) \<and> ls_id t = i" if "dir x i = Some t" for t i
    using that P(1,2) by (auto simp: dir_def)
  have "li_byID x i = Some k \<longleftrightarrow> k < length (li_slots x) \<and> ls_id (li_slots x ! k) = i" for i k using P(1-3) by blast
  moreover have "distinct (map ls_generation (li_slots x))"
  proof -
    have "k = l" if "k < length (li_slots x)" "l < length (li_slots x)" "ls_generation (li_slots x ! k) = ls_generation (li_slots x ! l)" for k l
      using L(6) [OF at at] P(4) [of k l] that nth_mem by blast
    then show ?thesis by (auto simp: distinct_conv_nth)
  qed
  moreover have "\<exists>t \<in> set (li_slots x). ls_id t = ls_parent s \<and> ls_id s \<in> set (ls_children t)" if "s \<in> set (li_slots x)" "ls_parent s \<noteq> 0" for s
    using L(7) [OF at [OF that(1)] that(2)] mem by blast
  moreover have "distinct (ls_children s)" if "s \<in> set (li_slots x)" for s using L(5) [OF at [OF that]] .
  moreover have "\<exists>t \<in> set (li_slots x). ls_id t = c \<and> ls_parent t = ls_id s" if "s \<in> set (li_slots x)" "c \<in> set (ls_children s)" for s c
    using L(8) [OF at [OF that(1)] that(2)] mem by blast
  ultimately show ?thesis by blast
qed

text \<open>
  C38: A handle never resolves to another registration. In every run, a handle that was looked up
  resolves later either to the same facet or not at all; and once it has stopped resolving it
  never resolves again, even when its identifier is registered again.
\<close>

theorem handle_never_revives:
  assumes "live_step\<^sup>*\<^sup>* newLiveIndex x" and "live_lookup x i = Some (a, h)" and "live_step\<^sup>*\<^sup>* x y" and "live_step\<^sup>*\<^sup>* y z"
  shows "resolve x h = Some a \<and> (resolve y h = Some a \<or> resolve y h = None) \<and> (resolve y h = None \<longrightarrow> resolve z h = None)"
proof -
  have okx: "live_ok x" using live_run_ok [OF assms(1) newLiveIndex_ok] by simp
  have oky: "live_ok y" "advances x y" using live_run_ok [OF assms(3) okx] by simp_all
  have okz: "live_ok z" "advances y z" using live_run_ok [OF assms(4) oky(1)] by simp_all
  have R: "resolve v h = (if lh_id h = 0 \<or> lh_generation h = 0 then None else
      case dir v (lh_id h) of None \<Rightarrow> None | Some s \<Rightarrow> if ls_generation s \<noteq> lh_generation h then None else Some (ls_impl s))" for v
    by (auto simp: resolve_def dir_def Let_def split: option.split)
  obtain s where s: "dir x i = Some s" "a = ls_impl s" "h = \<lparr>lh_id = ls_id s, lh_generation = ls_generation s\<rparr>" "i \<noteq> 0"
    using assms(2) by (auto simp: live_lookup_def dir_def Let_def split: if_splits option.splits)
  have lx: "links_ok (dir x) (unat (li_nextGeneration x))" using okx by (simp add: live_ok_def)
  have h: "lh_id h = i" "lh_generation h = ls_generation s" "ls_generation s \<noteq> 0" "unat (ls_generation s) \<le> unat (li_nextGeneration x)"
    using s(3) links_okD(1,3,4) [OF lx s(1)] by auto
  have 1: "resolve x h = Some a" using R [of x] s(1,2,4) h by simp
  have older: "\<exists>t. dir u i = Some t \<and> ls_generation t = ls_generation s \<and> ls_impl t = ls_impl s'"
    if "advances u v" "dir v i = Some s'" "ls_generation s' = ls_generation s" "unat (li_nextGeneration x) \<le> unat (li_nextGeneration u)" for u v s'
    using that h(4) unfolding advances_def older_def by (metis le_trans)
  have 2: "resolve y h = Some a \<or> resolve y h = None"
    using R [of y] older [OF oky(2)] s(1,2) h(1,2) by (auto split: option.splits if_splits)
  have 3: "resolve z h = None" if "resolve y h = None"
  proof (rule ccontr)
    assume "resolve z h \<noteq> None"
    then obtain s' where "dir z i = Some s'" "ls_generation s' = ls_generation s" using R [of z] h(1,2) by (auto split: option.splits if_splits)
    then obtain t where "dir y i = Some t" "ls_generation t = ls_generation s" using older [OF okz(2)] oky(2) by (auto simp: advances_def)
    then show False using that R [of y] h s(4) by simp
  qed
  show ?thesis using 1 2 3 by blast
qed

text \<open>
  C39: Removing a subtree always returns and removes exactly the facets below the given one; every
  other facet keeps its registration, its handle and its parent.
\<close>

theorem removeSubtree_exact:
  assumes "live_step\<^sup>*\<^sup>* newLiveIndex x"
  shows "\<exists>x'. removeSubtree i x = Some x' \<and> (\<forall>j. live_contains x' j \<longleftrightarrow> live_contains x j \<and> j \<notin> down (dir x) i) \<and>
    (\<forall>j. j \<notin> down (dir x) i \<longrightarrow> live_lookup x' j = live_lookup x j \<and> live_parent x' j = live_parent x j) \<and>
    (li_byID x i \<noteq> None \<longrightarrow> i \<in> down (dir x) i)"
proof -
  have ok: "live_ok x" using live_run_ok [OF assms newLiveIndex_ok] by simp
  obtain x' where x': "removeSubtree i x = Some x'" "dir x' = cut (down (dir x) i) (dir x)" using removeSubtree_map [OF ok, of i] by blast
  have c: "live_contains v j \<longleftrightarrow> j \<noteq> 0 \<and> dir v j \<noteq> None" for v j by (simp add: live_contains_def)
  have l: "live_lookup v j = (if j = 0 then None else map_option (\<lambda>s. (ls_impl s, \<lparr>lh_id = ls_id s, lh_generation = ls_generation s\<rparr>)) (dir v j))"
    "live_parent v j = (case dir v j of None \<Rightarrow> 0 | Some s \<Rightarrow> ls_parent s)" for v j
    by (auto simp: live_lookup_def live_parent_def dir_def Let_def split: option.split)
  have "live_contains x' j \<longleftrightarrow> live_contains x j \<and> j \<notin> down (dir x) i" for j
    unfolding c x'(2) by (simp add: cut_def del: dir_None)
  moreover have "live_lookup x' j = live_lookup x j \<and> live_parent x' j = live_parent x j" if "j \<notin> down (dir x) i" for j
    unfolding l x'(2) using that by (simp add: cut_def comp_def option.map_comp del: dir_None split: option.split)
  moreover have "i \<in> down (dir x) i" if "li_byID x i \<noteq> None" using that by (simp add: down_def)
  ultimately show ?thesis using x'(1) by blast
qed

lemma collect_covers:
  assumes "collect_loop H st seen ordered = Some (Inr es)"
  shows "set ordered \<subseteq> set es \<and> (\<forall>e \<in> set st. fb_state (H ! fst e) \<noteq> StateDisposed \<longrightarrow> e \<in> set es) \<and>
    (\<forall>e \<in> set es - set ordered. \<forall>c \<in> set (fb_children (H ! fst e)). fb_state (H ! c) \<noteq> StateDisposed \<longrightarrow> (c, fb_id (H ! fst e)) \<in> set es)"
proof -
  let ?Q = "\<lambda>H st ordered es. set ordered \<subseteq> set es \<and> (\<forall>e \<in> set st. fb_state (H ! fst e) \<noteq> StateDisposed \<longrightarrow> e \<in> set es) \<and>
    (\<forall>e \<in> set es - set ordered. \<forall>c \<in> set (fb_children (H ! fst e)). fb_state (H ! c) \<noteq> StateDisposed \<longrightarrow> (c, fb_id (H ! fst e)) \<in> set es)"
  let ?P = "\<lambda>H st (seen :: FacetID list) ordered (y :: live_panic + (nat \<times> FacetID) list). \<forall>zs. y = Inr zs \<longrightarrow> ?Q H st ordered zs"
  have "?P H st seen ordered (Inr es)"
  proof (rule collect_loop.raw_induct [of ?P, OF _ assms], intro impI allI)
    fix g H st seen ordered y es
    assume IH: "\<And>H st seen ordered y. g H st seen ordered = Some y \<Longrightarrow> ?P H st seen ordered y"
      and eq: "(case st of [] \<Rightarrow> Some (Inr ordered)
        | (a, p) # rest \<Rightarrow>
            if fb_state (H ! a) = StateDisposed then g H rest seen ordered
            else if fb_id (H ! a) = 0 then Some (Inl ZeroIdentity)
            else if fb_id (H ! a) \<in> set seen then Some (Inl (DuplicateInSubtree (fb_id (H ! a))))
            else g H (map (\<lambda>c. (c, fb_id (H ! a))) (rev (fb_children (H ! a))) @ rest) (fb_id (H ! a) # seen) (ordered @ [(a, p)])) = Some y"
      and y: "y = Inr es"
    show "?Q H st ordered es"
    proof (cases st)
      case Nil
      then show ?thesis using eq y by simp
    next
      case (Cons ap rest)
      obtain a p where ap: "ap = (a, p)" by (cases ap)
      show ?thesis
      proof (cases "fb_state (H ! a) = StateDisposed")
        case True
        then have "g H rest seen ordered = Some y" using eq Cons ap by simp
        then have "?Q H rest ordered es" using IH y by blast
        then show ?thesis using Cons ap True by simp
      next
        case False
        let ?st = "map (\<lambda>c. (c, fb_id (H ! a))) (rev (fb_children (H ! a))) @ rest"
        have "g H ?st (fb_id (H ! a) # seen) (ordered @ [(a, p)]) = Some y" using eq Cons ap y False by (auto split: if_splits)
        then have Q: "?Q H ?st (ordered @ [(a, p)]) es" using IH y by blast
        have "(c, fb_id (H ! a)) \<in> set es" if "c \<in> set (fb_children (H ! a))" "fb_state (H ! c) \<noteq> StateDisposed" for c
          using Q that by force
        then show ?thesis using Q Cons ap by auto
      qed
    qed
  qed
  then show ?thesis by blast
qed

text \<open>
  C40: Registering a tree in which no facet is disposed makes every facet of it live, under its own
  implementation and the identifier of its parent, and keeps every registration that was there
  with its handle.
\<close>

theorem registerTree_covers:
  assumes "live_step\<^sup>*\<^sup>* newLiveIndex x" and "facet_step\<^sup>*\<^sup>* no_facets w" and "root < length (fw_heap w)"
    and "\<forall>a \<in> below w root. fb_state (fac w a) \<noteq> StateDisposed" and "registerTree (fw_heap w) root x = Some (None, x')"
  shows "(\<forall>a \<in> below w root. \<exists>h. live_lookup x' (fb_id (fac w a)) = Some (a, h) \<and>
       live_parent x' (fb_id (fac w a)) = (case fb_parent (fac w a) of None \<Rightarrow> 0 | Some q \<Rightarrow> fb_id (fac w q))) \<and>
    (\<forall>i. live_contains x i \<longrightarrow> live_lookup x' i = live_lookup x i)"
proof -
  have ok: "live_ok x" using live_run_ok [OF assms(1) newLiveIndex_ok] by simp
  have fo: "forest w" by (rule facet_run_forest [OF assms(2)])
  obtain p es where es: "collectLiveSubtree (fw_heap w) root p = Some (Inr es)" "p = (case fb_parent (fac w root) of None \<Rightarrow> 0 | Some q \<Rightarrow> fb_id (fac w q))"
    "register_all (fw_heap w) True es (count_visits (length es) x) = (None, x')" "\<forall>e \<in> set es. fst e < length (fw_heap w) \<and> snd e \<noteq> fb_id (fac w (fst e))"
    by (rule register_tree_entries [OF fo assms(3,5)]) blast
  note C = collect_covers [OF es(1) [unfolded collectLiveSubtree_def]]
  have R: "live_ok x'" "keeps_slots (dir x) (dir x')" "\<forall>e \<in> set es. \<exists>s. dir x' (fb_id (fac w (fst e))) = Some s \<and> ls_impl s = fst e \<and> ls_parent s = snd e"
    using register_all_ok [OF es(3)] ok es(4) by simp_all
  have l: "live_lookup v j = (if j = 0 then None else map_option (\<lambda>s. (ls_impl s, \<lparr>lh_id = ls_id s, lh_generation = ls_generation s\<rparr>)) (dir v j))"
    "live_parent v j = (case dir v j of None \<Rightarrow> 0 | Some s \<Rightarrow> ls_parent s)" for v j
    by (auto simp: live_lookup_def live_parent_def dir_def Let_def split: option.split)
  have in_es: "(a, case fb_parent (fac w a) of None \<Rightarrow> 0 | Some q \<Rightarrow> fb_id (fac w q)) \<in> set es" if "a \<in> below w root" for a
  proof -
    have "(root, a) \<in> (edges (fw_heap w))\<^sup>*" using that by (simp add: below_def)
    then show ?thesis
    proof (induction rule: rtrancl_induct)
      case base
      have "fb_state (fac w root) \<noteq> StateDisposed" using assms(4) by (simp add: below_def)
      then show ?case using C es(2) by simp
    next
      case (step b c)
      have "c \<in> below w root" using step(1,2) by (auto simp: below_def intro: rtrancl_into_rtrancl)
      then have "fb_state (fac w c) \<noteq> StateDisposed" using assms(4) by blast
      moreover have "fb_parent (fac w c) = Some b" "c < length (fw_heap w)" using step(2) by (simp_all add: edges_def)
      moreover have "c \<in> set (kids w b)" using forestD(1) [OF fo] calculation(2,3) by blast
      ultimately show ?case using C step(3) by fastforce
    qed
  qed
  have "\<exists>h. live_lookup x' (fb_id (fac w a)) = Some (a, h) \<and>
       live_parent x' (fb_id (fac w a)) = (case fb_parent (fac w a) of None \<Rightarrow> 0 | Some q \<Rightarrow> fb_id (fac w q))" if a: "a \<in> below w root" for a
  proof -
    obtain s where "dir x' (fb_id (fac w a)) = Some s" "ls_impl s = a" "ls_parent s = (case fb_parent (fac w a) of None \<Rightarrow> 0 | Some q \<Rightarrow> fb_id (fac w q))"
      using R(3) in_es [OF a] by fastforce
    moreover have "fb_id (fac w a) \<noteq> 0" using forestD(6) [OF fo] below_less [OF fo assms(3) a] by simp
    ultimately show ?thesis by (simp add: l)
  qed
  moreover have "live_lookup x' i = live_lookup x i" if i: "live_contains x i" for i
  proof -
    obtain s where s: "dir x i = Some s" "i \<noteq> 0" using i by (auto simp: live_contains_def dir_def)
    obtain s' where s': "dir x' i = Some s'" "ls_generation s' = ls_generation s" "ls_impl s' = ls_impl s" using R(2) s(1) unfolding keeps_slots_def by blast
    have "ls_id s = i" "ls_id s' = i" using ok R(1) dir_Some s(1) s'(1) by (auto simp: live_ok_def)
    then show ?thesis using s s' by (simp add: l)
  qed
  ultimately show ?thesis by blast
qed

section \<open>Witnesses\<close>

definition registered_tree :: "liveIndex \<Rightarrow> liveIndex" where
  "registered_tree x = snd (the (registerTree (fw_heap sample_tree) 0 x))"

definition sample_live :: liveIndex where
  "sample_live = registered_tree newLiveIndex"

definition sample_removed :: liveIndex where
  "sample_removed = the (removeSubtree 2 sample_live)"

lemma sample_registered: "map_option fst (registerTree (fw_heap sample_tree) 0 newLiveIndex) = Some None"
  "map_option fst (registerTree (fw_heap sample_tree) 0 sample_removed) = Some None"
  by code_simp+

lemma registered_run:
  assumes "map_option fst (registerTree (fw_heap sample_tree) 0 x) = Some None"
  shows "live_step x (registered_tree x)" "registerTree (fw_heap sample_tree) 0 x = Some (None, registered_tree x)"
proof -
  show r: "registerTree (fw_heap sample_tree) 0 x = Some (None, registered_tree x)" using assms by (auto simp: registered_tree_def)
  show "live_step x (registered_tree x)"
    by (rule register_tree [OF facet_run_forest [OF sample_tree_run] _ r]) (simp add: sample_tree_facts(1))
qed

lemma sample_live_run: "live_step\<^sup>*\<^sup>* newLiveIndex sample_live"
  unfolding sample_live_def by (rule r_into_rtranclp, rule registered_run(1), rule sample_registered(1))

lemma sample_removed_run: "live_step\<^sup>*\<^sup>* sample_live sample_removed"
proof -
  have "removeSubtree 2 sample_live \<noteq> None" using removeSubtree_map live_run_ok [OF sample_live_run newLiveIndex_ok] by (metis option.distinct(1))
  then show ?thesis by (auto simp: sample_removed_def intro!: r_into_rtranclp remove_subtree)
qed

theorem live_index_consistent_witness:
  "map ls_id (li_slots sample_removed) = [1, 3] \<and> li_byID sample_removed 3 = Some 1"
proof
  show s: "map ls_id (li_slots sample_removed) = [1, 3]" by code_simp
  have "live_step\<^sup>*\<^sup>* newLiveIndex sample_removed" using sample_live_run sample_removed_run by (rule rtranclp_trans)
  then have "li_byID sample_removed 3 = Some 1 \<longleftrightarrow> 1 < length (li_slots sample_removed) \<and> ls_id (li_slots sample_removed ! 1) = 3"
    using live_index_consistent by blast
  moreover have "length (map ls_id (li_slots sample_removed)) = 2" "map ls_id (li_slots sample_removed) ! 1 = 3" unfolding s by simp_all
  ultimately show "li_byID sample_removed 3 = Some 1" by simp
qed

text \<open>A handle of a facet whose subtree is removed and registered again stays dead.\<close>

theorem handle_never_revives_witness:
  "resolve sample_live \<lparr>lh_id = 4, lh_generation = 4\<rparr> = Some 3 \<and> resolve (registered_tree sample_removed) \<lparr>lh_id = 4, lh_generation = 4\<rparr> = None \<and>
   live_contains (registered_tree sample_removed) 4"
proof -
  have l: "live_lookup sample_live 4 = Some (3, \<lparr>lh_id = 4, lh_generation = 4\<rparr>)" by code_simp
  have n: "resolve sample_removed \<lparr>lh_id = 4, lh_generation = 4\<rparr> = None" "live_contains (registered_tree sample_removed) 4" by code_simp+
  have "live_step\<^sup>*\<^sup>* sample_removed (registered_tree sample_removed)" by (rule r_into_rtranclp, rule registered_run(1), rule sample_registered(2))
  then show ?thesis using handle_never_revives [OF sample_live_run l sample_removed_run] n by simp
qed

theorem removeSubtree_exact_witness:
  "map (live_contains sample_removed) [1, 2, 3, 4] = [True, False, True, False] \<and> 2 \<in> down (dir sample_live) 2 \<and> 3 \<notin> down (dir sample_live) 2"
proof -
  have c: "map (live_contains sample_removed) [1, 2, 3, 4] = [True, False, True, False]" by code_simp
  have "live_contains sample_live 3" "li_byID sample_live 2 \<noteq> None" by code_simp+
  then show ?thesis using removeSubtree_exact [OF sample_live_run, of 2] c by (auto simp: sample_removed_def)
qed

theorem registerTree_covers_witness:
  "map_option fst (live_lookup sample_live 4) = Some 3 \<and> live_parent sample_live 4 = 2"
proof -
  have k: "fb_parent (fac sample_tree 3) = Some 1" "fb_parent (fac sample_tree 1) = Some 0"
    using sample_tree_facts(1,4) nth_map [of 3 "fw_heap sample_tree" fb_parent] nth_map [of 1 "fw_heap sample_tree" fb_parent] by simp_all
  then have "(0, 1) \<in> edges (fw_heap sample_tree)" "(1, 3) \<in> edges (fw_heap sample_tree)" using sample_tree_facts(1) by (simp_all add: edges_def)
  then have b: "3 \<in> below sample_tree 0" by (auto simp: below_def intro: rtrancl_into_rtrancl)
  have st: "\<forall>a \<in> below sample_tree 0. fb_state (fac sample_tree a) \<noteq> StateDisposed"
    using below_less [OF facet_run_forest [OF sample_tree_run], of 0] sample_tree_facts(1) sample_tree_state by auto
  have ids: "map fb_id (fw_heap sample_tree) = [1, 2, 3, 4]" by code_simp
  have "map fb_id (fw_heap sample_tree) ! 3 = 4" "map fb_id (fw_heap sample_tree) ! 1 = 2" unfolding ids by simp_all
  then have i: "fb_id (fac sample_tree 3) = 4" "fb_id (fac sample_tree 1) = 2" using sample_tree_facts(1) by simp_all
  have "registerTree (fw_heap sample_tree) 0 newLiveIndex = Some (None, sample_live)"
    unfolding sample_live_def by (rule registered_run(2) [OF sample_registered(1)])
  from registerTree_covers [OF rtranclp.rtrancl_refl sample_tree_run _ st this] show ?thesis
    using b i k(1) sample_tree_facts(1) by auto
qed

end
