(* ===== verification/Spec2Isabelle.thy ===== *)
theory Spec2Isabelle
  imports Signal Membudget Ledger Grants Session Stream_Hub Map_Store Collection_Store Derived Job_Pool Asset_Device Facet_Attach Focus_Tabs Focus_Traps Live_Runs
begin

text \<open>
  \<^bold>\<open>lurpicUI: the reactive core, the job pool, the assets, the facet tree and the drive protocol core\<close>

  \<^bold>\<open>The program.\<close> lurpicUI is a retained-mode user interface runtime in Go. Its state lives in
  reactive stores (\<^verbatim>\<open>src/store\<close>) that notify through typed signals (\<^verbatim>\<open>src/signal\<close>) and are owned by a
  tree of scopes; background work runs in a bounded job pool (\<^verbatim>\<open>src/job\<close>) that pays for its memory
  from budget wallets (\<^verbatim>\<open>src/internal/membudget\<close>); assets are loaded through a registry, a manager and a cache
  with byte budgets (\<^verbatim>\<open>src/assets\<close>); what is on the screen is a tree of facets with a lifecycle
  (\<^verbatim>\<open>src/facet\<close>), entered in a directory of live facets (\<^verbatim>\<open>src/runtime\<close>), placed on registered layers
  (\<^verbatim>\<open>src/layout\<close>) and reached by the keyboard through a focus manager; and an external driver talks to a running
  application through the drive protocol (\<^verbatim>\<open>src/drive\<close>), whose server keeps sessions, their
  outcome ledgers, grants, and a hub of observation streams. These are the parts that carry
  state across calls and whose correctness is a matter of invariants, ordering, bounds and
  error paths, and they are the ones modelled here. Marks, geometry, text, rendering and platform
  code on top of them are not.

  \<^bold>\<open>Theories.\<close>
  \<^item> \<^verbatim>\<open>Prelude\<close>: 64-bit words, slice idioms (first index, removal by copying), decimal renderings
    and the lemmas the components share.
  \<^item> \<^verbatim>\<open>Signal\<close>: \<^verbatim>\<open>src/signal/signal.go\<close> and \<^verbatim>\<open>lifetime.go\<close>. Subscribing, emitting and bags of
    subscriptions; emission delivers to the subscribers present at its start, releasing a bag
    undoes exactly its subscriptions.
  \<^item> \<^verbatim>\<open>Membudget\<close>: \<^verbatim>\<open>src/internal/membudget/plan.go\<close>. Plans, wallets, partitions and reservations
    with their state machine, at 64-bit width. The accounting invariant, admission and the
    reservation life cycle; the locale \<open>reservation_pool\<close> is the contract that the job pool uses.
  \<^item> \<^verbatim>\<open>Invalidation\<close>: \<^verbatim>\<open>src/store/version.go\<close>, \<^verbatim>\<open>invalidation.go\<close>. Version counters and the slot table of
    invalidation callbacks, shown to behave as a registry under fresh identifiers (locale
    \<open>callback_registry\<close>).
  \<^item> \<^verbatim>\<open>Scope\<close>: \<^verbatim>\<open>src/store/scope.go\<close>, \<^verbatim>\<open>projection.go\<close>. The scope tree on a heap: creation, binding,
    signal queues, derived flushes, the compute guard and closing.
  \<^item> \<^verbatim>\<open>Transaction\<close>: \<^verbatim>\<open>src/store/transaction.go\<close> and the shape shared by the mutating methods of the
    stores; the locale \<open>versioned_store\<close> proves once that committing a transaction equals making
    its mutations directly.
  \<^item> \<^verbatim>\<open>Value_Store\<close>, \<^verbatim>\<open>Map_Store\<close>, \<^verbatim>\<open>Collection_Store\<close>: \<^verbatim>\<open>src/store/value.go\<close>, \<^verbatim>\<open>map.go\<close>, \<^verbatim>\<open>collection.go\<close>. Each
    interprets \<open>versioned_store\<close>; maps refine finite maps, collections refine lists with
    distinct identifiers.
  \<^item> \<^verbatim>\<open>Derived\<close>: \<^verbatim>\<open>src/store/derived.go\<close>. Memoised values over a graph of value stores and other
    derived values. Runs of sets, reads and deliveries keep every memo right, so that a value
    over value stores is fresh whenever it is read; chains of derived values can be stale.
  \<^item> \<^verbatim>\<open>Job_Pool\<close>: \<^verbatim>\<open>src/job/job.go\<close>, \<^verbatim>\<open>anyjob.go\<close>. The pool as a transition system over submitters,
    workers and the consumer; it simulates an abstract frontier machine from which the
    frontier properties follow.
  \<^item> \<^verbatim>\<open>Binary_Heap\<close>: the operations of Go's \<^verbatim>\<open>container/heap\<close> over an abstract \<open>Less\<close> and \<open>Swap\<close>; the
    locale \<open>heap_interface\<close> is the contract a client of it has to meet.
  \<^item> \<^verbatim>\<open>Asset_Registry\<close>: \<^verbatim>\<open>src/assets/assets.go\<close>, \<^verbatim>\<open>registry.go\<close>, \<^verbatim>\<open>signals.go\<close>. Asset identifiers, entries with
    their levels of detail, reference counts and signals; every operation keeps entries well formed.
  \<^item> \<^verbatim>\<open>Asset_Cache\<close>: \<^verbatim>\<open>src/assets/cache.go\<close>. The eviction heap (an interpretation of \<open>heap_interface\<close>),
    byte accounting, eviction to a budget or watermark, and device loss.
  \<^item> \<^verbatim>\<open>Asset_Manager\<close>, \<^verbatim>\<open>Asset_Device\<close>: \<^verbatim>\<open>src/assets/job.go\<close>, \<^verbatim>\<open>deps.go\<close>, \<^verbatim>\<open>policy.go\<close>, \<^verbatim>\<open>upload.go\<close>. Scheduling,
    commits, dependencies, uploads, invalidation and memory pressure over the registry, the
    cache and the wallets, as runs of \<open>manager_step\<close>.
  \<^item> \<^verbatim>\<open>Facet_Tree\<close>: \<^verbatim>\<open>src/facet/facet.go\<close>, \<^verbatim>\<open>transition.go\<close>, \<^verbatim>\<open>lifecycle.go\<close>, \<^verbatim>\<open>testid.go\<close>,
    \<^verbatim>\<open>src/runtime/testids.go\<close>. Facets on a heap, the mutations of their tree, dirty flags, author identities
    and the four transitions. Every run has a forest; \<open>walk\<close> is its traversal.
  \<^item> \<^verbatim>\<open>Facet_Lifecycle\<close>, \<^verbatim>\<open>Facet_Attach\<close>: what disposing and attaching do to a tree, in which order, what
    a failed attachment takes back, and what a child that was disposed in place does to its parent.
  \<^item> \<^verbatim>\<open>Layer_Registry\<close>: \<^verbatim>\<open>src/layout/layer_registry.go\<close>. The builder of layers around the reserved
    standard ones, and the frozen registry.
  \<^item> \<^verbatim>\<open>Focus\<close>, \<^verbatim>\<open>Focus_Tabs\<close>, \<^verbatim>\<open>Focus_Traps\<close>: \<^verbatim>\<open>src/facet/focus.go\<close>, \<^verbatim>\<open>src/runtime/focus.go\<close>. The focus manager
    over the facet tree and the layer registry: the tab order, the keys, and the stack of traps.
  \<^item> \<^verbatim>\<open>Live_Index\<close>, \<^verbatim>\<open>Live_Runs\<close>: \<^verbatim>\<open>src/runtime/live_index.go\<close>. The directory of live facets as a table with a
    map of positions and generations; its operations are maps on identifiers (\<open>dir\<close>), removal cuts
    out what is linked below.
  \<^item> \<^verbatim>\<open>Sorting\<close>: facts on stable sorting by a key that the pool and the focus manager share.
  \<^item> \<^verbatim>\<open>Ledger\<close>, \<^verbatim>\<open>Grants\<close>, \<^verbatim>\<open>Bytes\<close>, \<^verbatim>\<open>Session\<close>, \<^verbatim>\<open>Stream_Hub\<close>: \<^verbatim>\<open>src/drive/ledger.go\<close>, \<^verbatim>\<open>grants.go\<close>,
    \<^verbatim>\<open>session.go\<close>, \<^verbatim>\<open>stream.go\<close>, with SHA-256 and hexadecimal coding written out in \<^verbatim>\<open>Bytes\<close>.

  \<^bold>\<open>Correspondence.\<close> A Go struct is a record whose fields keep the source's names behind a short
  prefix; objects shared by pointer live in a heap and are named by address. A method is a
  function from the state to the state, a result and an error or panic: errors are values of a
  datatype per component, a panic of the stores is a value of \<open>store_panic\<close>, a panic of the pool is
  \<open>None\<close>. Unsigned counters are 64-bit words and wrap. A Go map is an association list with
  distinct keys, or a function where its order is never observed; where the source iterates over
  a map, the order is an argument. Locks are not modelled: each operation is one atomic section,
  and interleavings are runs of a step relation where the code is concurrent (\<open>pool_step\<close>, the
  hub and ledger steps). Callbacks, clocks, random bytes and the work of jobs are arguments.

  \<^bold>\<open>Fuel.\<close> The walks over the scope tree that a callback may disturb carry fuel, and running out
  is a value of its own, \<open>OutOfFuel\<close>; closing a well-formed tree is proved to need no more than
  the number of scopes, and the flush theorems state the fuel they need. Reading a derived value
  takes one unit per level of derived values below it. The loops of the heap and of eviction need no
  fuel: their termination is proved. The loops over the facet tree, the search for a free layer
  identifier and the recursions of the live directory are partial functions whose value is \<open>None\<close>
  where the code would not return; that they return is part of the theorems about them.

  \<^bold>\<open>Shown.\<close> Safety and accounting: no wallet is overdrawn, outcomes are claimed once and final,
  sessions are bounded and keep their identity, streams see no gap, the pool is bounded and its
  frontier sound, stale invalidation tokens are harmless, closing releases everything once in
  order, registry entries keep their type, the asset cache its accounts and eviction its order; facets
  form a forest, are attached parents first and disposed children first, and a failed attachment
  gives its identities back; the focus stays within its traps; handles of the live directory never
  come back to life and removals are exact.
  Equivalence and refinement: transactions equal direct mutations, stores refine maps and
  lists, ordered drains do not depend on completion order, the trap stack does not depend on the
  order of a map. Round trips: subscriptions, the tab keys, opening and closing a trap.
  Bounds: pages, declarations, queues. Where the code departs from its comments, a theorem proves
  what it does: the credit window of streams, watching from position zero, cancelling a foreign
  stream, full session tables, submissions refused by a full job queue, stale chains of derived values, and, in the
  assets, progressive levels that are discarded, refused levels that stay in flight, charges that
  are never returned, and the effects of a lost device on the cache; in the facets, children
  disposed in place and traps side by side.

  \<^bold>\<open>Not modelled.\<close> \<^verbatim>\<open>CanonicalRequest\<close> and the JSON envelope of the protocol; \<^verbatim>\<open>src/store/export.go\<close>, which
  renders stores as JSON; the rest of the runtime (frames, services, lifecycle of an application);
  the geometry of roles and of layout, input, projection, text, theme, marks and rendering packages, the platform backends and the command line tools. Of the
  assets: package files, development file systems and cooking, the decoding inside jobs and the
  schedulers that run it, the constructors, \<^verbatim>\<open>Close\<close> and \<^verbatim>\<open>Stats\<close> of the manager, and the JSON forms of an
  identifier.
\<close>

end
